(* ===== verification/Prelude.thy ===== *)
theory Prelude
  imports Complex_Main "HOL-Library.AList" "HOL-Library.Char_ord"
    "HOL-Library.List_Lexorder" "HOL-Library.Sublist"
begin

text \<open>
  What every component of the development shares: the collections of rewrite rules, the
  Python values a cell can hold with the comparisons the engine makes on them
  (\<open>==\<close>, \<open>pandas.isna\<close>), Python's text primitives (\<open>str.isdigit\<close>, \<open>int\<close> of a digit
  string, \<open>str\<close> of an integer, zero padding, \<open>rsplit\<close>, \<open>startswith\<close>, \<open>endswith\<close>), the
  insertion-ordered dictionary as an association list, and list lemmas.
  Text is a \<open>char list\<close>: the model speaks of code points below 256, and of the ASCII
  digits where Python's \<open>isdigit\<close> also accepts other scripts.
\<close>

named_theorems wf_intros \<open>introduction rules for the well-formedness predicates of the components\<close>
named_theorems step_simps \<open>unfolding equations for one operation of a component\<close>

section \<open>Values\<close>

text \<open>
  A cell value. Finite Python floats are exact rationals, so comparing them with integers
  is exact, as Python's mixed comparison is; NaN is a constructor of its own because no
  comparison with it succeeds.
\<close>

datatype pyval = PNone | PNaN | PBool bool | PInt int | PFloat rat | PStr string

fun pv_num :: "pyval \<Rightarrow> rat option" where
  "pv_num (PBool b) = Some (if b then 1 else 0)"
| "pv_num (PInt i) = Some (of_int i)"
| "pv_num (PFloat r) = Some r"
| "pv_num _ = None"

text \<open>Python's \<open>==\<close>: numbers (booleans included) by value, texts by content, NaN never.\<close>

fun py_eq :: "pyval \<Rightarrow> pyval \<Rightarrow> bool" where
  "py_eq PNone PNone = True"
| "py_eq (PStr s) (PStr t) = (s = t)"
| "py_eq a b = (case (pv_num a, pv_num b) of (Some x, Some y) \<Rightarrow> x = y | _ \<Rightarrow> False)"

definition py_isna :: "pyval \<Rightarrow> bool" where
  "py_isna v = (v = PNone \<or> v = PNaN)"

lemma py_isna_simps [simp]:
  "py_isna PNone" "py_isna PNaN" "\<not> py_isna (PBool b)" "\<not> py_isna (PInt i)"
  "\<not> py_isna (PFloat r)" "\<not> py_isna (PStr s)"
  by (simp_all add: py_isna_def)

lemma py_eq_refl: "v \<noteq> PNaN \<Longrightarrow> py_eq v v"
  by (cases v) auto

lemma py_eq_sym: "py_eq v w = py_eq w v"
  by (cases v; cases w) (auto split: option.splits)

lemma py_eq_trans: "py_eq u v \<Longrightarrow> py_eq v w \<Longrightarrow> py_eq u w"
  by (cases u; cases v; cases w) (auto split: if_splits)

text \<open>\<open>WriteNode._values_match\<close> and every other comparison of the engine treat missing values alike.\<close>

definition same_value :: "pyval \<Rightarrow> pyval \<Rightarrow> bool" where
  "same_value v w = (py_isna v \<and> py_isna w \<or> py_eq v w)"

lemma same_value_refl [simp]: "same_value v v"
  by (cases v) (auto simp: same_value_def py_eq_refl)

lemma same_value_sym: "same_value v w = same_value w v"
  by (auto simp: same_value_def py_eq_sym)

section \<open>Exceptions\<close>

datatype py_error = ValueError | TypeError | KeyError | IndexError | RuntimeError string
  | NameError string | SafeEvalError | NotLeaderError

text \<open>The result of a computation known not to raise.\<close>

definition the_right :: "'e + 'a \<Rightarrow> 'a" where
  "the_right m = (case m of Inr x \<Rightarrow> x | Inl _ \<Rightarrow> undefined)"

lemma the_right_Inr [simp]: "the_right (Inr x) = x"
  by (simp add: the_right_def)

section \<open>Decimal text\<close>

definition digit_char :: "nat \<Rightarrow> char" where
  "digit_char d = char_of (48 + d)"

definition char_digit :: "char \<Rightarrow> nat" where
  "char_digit c = of_char c - 48"

definition is_digit :: "char \<Rightarrow> bool" where
  "is_digit c = (48 \<le> (of_char c :: nat) \<and> (of_char c :: nat) \<le> 57)"

lemma of_char_digit_char [simp]: "d < 10 \<Longrightarrow> (of_char (digit_char d) :: nat) = 48 + d"
  by (simp add: digit_char_def of_char_of)

lemma is_digit_digit_char [simp]: "d < 10 \<Longrightarrow> is_digit (digit_char d)"
  by (simp add: is_digit_def)

lemma char_digit_digit_char [simp]: "d < 10 \<Longrightarrow> char_digit (digit_char d) = d"
  by (simp add: char_digit_def)

lemma char_digit_less: "is_digit c \<Longrightarrow> char_digit c < 10"
  by (auto simp: is_digit_def char_digit_def)

lemma digit_char_char_digit [simp]: "is_digit c \<Longrightarrow> digit_char (char_digit c) = c"
  by (auto simp: is_digit_def char_digit_def digit_char_def)

lemma not_digit_underscore [simp]: "\<not> is_digit (CHR ''_'')" "\<not> is_digit (CHR ''-'')"
  by (simp_all add: is_digit_def)

text \<open>\<open>str(n)\<close> for \<open>n \<ge> 0\<close>.\<close>

fun show_nat :: "nat \<Rightarrow> string" where
  "show_nat n = (if n < 10 then [digit_char n] else show_nat (n div 10) @ [digit_char (n mod 10)])"

declare show_nat.simps [simp del]

text \<open>\<open>int(s)\<close> of a text of digits.\<close>

definition read_nat :: "string \<Rightarrow> nat" where
  "read_nat s = foldl (\<lambda>a c. 10 * a + char_digit c) 0 s"

text \<open>\<open>str.isdigit\<close>: not empty and digits only.\<close>

definition py_isdigit :: "string \<Rightarrow> bool" where
  "py_isdigit s = (s \<noteq> [] \<and> list_all is_digit s)"

lemma show_nat_digits: "list_all is_digit (show_nat n)"
proof (induction n rule: show_nat.induct)
  case (1 n)
  then show ?case by (subst show_nat.simps) auto
qed

lemma show_nat_nonempty [simp]: "show_nat n \<noteq> []"
  by (subst show_nat.simps) auto

lemma py_isdigit_show_nat [simp]: "py_isdigit (show_nat n)"
  by (simp add: py_isdigit_def show_nat_digits)

lemma read_nat_snoc: "read_nat (s @ [c]) = 10 * read_nat s + char_digit c"
  by (simp add: read_nat_def)

lemma read_show_nat [simp]: "read_nat (show_nat n) = n"
proof (induction n rule: show_nat.induct)
  case (1 n)
  show ?case
  proof (cases "n < 10")
    case True
    then show ?thesis by (subst show_nat.simps) (simp add: read_nat_def)
  next
    case False
    with 1 show ?thesis by (subst show_nat.simps) (simp add: read_nat_snoc)
  qed
qed

lemma read_nat_append: "read_nat (s @ t) = read_nat s * 10 ^ length t + read_nat t"
proof (induction t rule: rev_induct)
  case Nil
  then show ?case by (simp add: read_nat_def)
next
  case (snoc c t)
  then show ?case
    by (simp add: read_nat_snoc append_assoc [symmetric] algebra_simps del: append_assoc)
qed

lemma read_nat_less: "list_all is_digit s \<Longrightarrow> read_nat s < 10 ^ length s"
proof (induction s rule: rev_induct)
  case Nil
  then show ?case by (simp add: read_nat_def)
next
  case (snoc c s)
  then have "read_nat s < 10 ^ length s" "char_digit c < 10"
    by (auto intro: char_digit_less)
  then show ?case by (simp add: read_nat_snoc)
qed

text \<open>The format \<open>{n:0wd}\<close>: zero padding on the left to at least \<open>w\<close> characters.\<close>

definition zero_pad :: "nat \<Rightarrow> nat \<Rightarrow> string" where
  "zero_pad w n = replicate (w - length (show_nat n)) (CHR ''0'') @ show_nat n"

lemma digit_zero [simp]: "is_digit (CHR ''0'')" "char_digit (CHR ''0'') = 0"
  by (simp_all add: is_digit_def char_digit_def)

lemma read_nat_zeros [simp]: "read_nat (replicate k (CHR ''0'')) = 0"
  by (induction k) (simp_all add: read_nat_def)

lemma read_zero_pad [simp]: "read_nat (zero_pad w n) = n"
  by (simp add: zero_pad_def read_nat_append)

lemma py_isdigit_zero_pad [simp]: "py_isdigit (zero_pad w n)"
  using show_nat_digits [of n] by (auto simp: zero_pad_def py_isdigit_def list_all_iff)

lemma length_show_nat: "n < 10 ^ k \<Longrightarrow> 0 < k \<Longrightarrow> length (show_nat n) \<le> k"
proof (induction n arbitrary: k rule: show_nat.induct)
  case (1 n)
  show ?case
  proof (cases "n < 10")
    case True
    with "1.prems" show ?thesis by (subst show_nat.simps) simp
  next
    case False
    with "1.prems" have "1 < k" by (cases "k = 1") auto
    then obtain j where k: "k = Suc j" and j: "0 < j" by (cases k) auto
    from "1.prems" k have "n div 10 < 10 ^ j" by (simp add: less_mult_imp_div_less)
    with "1.IH" False j have "length (show_nat (n div 10)) \<le> j" by blast
    with False k show ?thesis by (subst show_nat.simps) simp
  qed
qed

lemma length_zero_pad: "n < 10 ^ w \<Longrightarrow> 0 < w \<Longrightarrow> length (zero_pad w n) = w"
  using length_show_nat [of n w] by (simp add: zero_pad_def)

text \<open>
  Texts are compared lexicographically by code point (\<open>sorted\<close> in Python, \<open>ORDER BY\<close> in
  SQLite); on equally long digit texts that is the order of the numbers.
\<close>

lemma char_less_digit:
  "is_digit a \<Longrightarrow> is_digit b \<Longrightarrow> a < b \<longleftrightarrow> char_digit a < char_digit b"
  unfolding char_digit_def is_digit_def less_char_def by linarith

lemma less_digits:
  assumes "list_all is_digit s" "list_all is_digit t" "length s = length t"
  shows "s < t \<longleftrightarrow> read_nat s < read_nat t"
  using assms(3,1,2)
proof (induction s t rule: list_induct2)
  case Nil
  then show ?case by simp
next
  case (Cons a s b t)
  have split: "read_nat (c # u) = char_digit c * 10 ^ length u + read_nat u" for c u
    using read_nat_append [of "[c]" u] by (simp add: read_nat_def)
  have s: "read_nat s < 10 ^ length t" and t: "read_nat t < 10 ^ length t"
    using Cons read_nat_less [of s] read_nat_less [of t] by auto
  from Cons.prems have da: "is_digit a" and db: "is_digit b" by auto
  have ab: "a = b \<longleftrightarrow> char_digit a = char_digit b"
    using da db by (metis digit_char_char_digit)
  have "char_digit a < char_digit b \<Longrightarrow> read_nat (a # s) < read_nat (b # t)"
  proof -
    assume "char_digit a < char_digit b"
    then have "Suc (char_digit a) * 10 ^ length t \<le> char_digit b * 10 ^ length t"
      by (intro mult_right_mono) auto
    with s show ?thesis using Cons.hyps by (simp add: split)
  qed
  moreover have "char_digit b < char_digit a \<Longrightarrow> \<not> read_nat (a # s) < read_nat (b # t)"
  proof -
    assume "char_digit b < char_digit a"
    then have "Suc (char_digit b) * 10 ^ length t \<le> char_digit a * 10 ^ length t"
      by (intro mult_right_mono) auto
    with t show ?thesis using Cons.hyps by (simp add: split)
  qed
  moreover have "char_digit a = char_digit b \<Longrightarrow>
      read_nat (a # s) < read_nat (b # t) \<longleftrightarrow> read_nat s < read_nat t"
    using Cons.hyps by (simp add: split)
  moreover have "s < t \<longleftrightarrow> read_nat s < read_nat t"
    using Cons by auto
  ultimately show ?case
    unfolding Cons_less_Cons char_less_digit [OF da db] ab
    by (cases "char_digit a" "char_digit b" rule: linorder_cases) simp_all
qed

lemma append_less_append [simp]: "(p @ s :: 'a::linorder list) < p @ t \<longleftrightarrow> s < t"
  by (induction p) auto

section \<open>Splitting text\<close>

text \<open>\<open>s.rsplit(c, 1)\<close>: what precedes and what follows the last \<open>c\<close>, if there is one.\<close>

definition py_rsplit1 :: "char \<Rightarrow> string \<Rightarrow> (string \<times> string) option" where
  "py_rsplit1 c s =
     (if c \<in> set s
      then Some (rev (tl (dropWhile (\<lambda>x. x \<noteq> c) (rev s))), rev (takeWhile (\<lambda>x. x \<noteq> c) (rev s)))
      else None)"

text \<open>\<open>s.split(c, 1)\<close>, when \<open>c\<close> occurs.\<close>

definition py_split1 :: "char \<Rightarrow> string \<Rightarrow> (string \<times> string) option" where
  "py_split1 c s =
     (if c \<in> set s
      then Some (takeWhile (\<lambda>x. x \<noteq> c) s, tl (dropWhile (\<lambda>x. x \<noteq> c) s))
      else None)"

lemma py_rsplit1_append: "c \<notin> set t \<Longrightarrow> py_rsplit1 c (s @ c # t) = Some (s, t)"
proof -
  assume c: "c \<notin> set t"
  then have "dropWhile (\<lambda>x. x \<noteq> c) (rev t @ c # rev s) = c # rev s"
    by (subst dropWhile_append2) auto
  moreover from c have "takeWhile (\<lambda>x. x \<noteq> c) (rev t @ c # rev s) = rev t"
    by (subst takeWhile_append2) auto
  ultimately show ?thesis by (simp add: py_rsplit1_def)
qed

lemma py_rsplit1_Some: "py_rsplit1 c s = Some (a, b) \<Longrightarrow> s = a @ c # b \<and> c \<notin> set b"
proof -
  assume *: "py_rsplit1 c s = Some (a, b)"
  then have mem: "c \<in> set (rev s)" by (auto simp: py_rsplit1_def split: if_splits)
  then obtain u v where uv: "rev s = u @ c # v" "c \<notin> set u" by (meson split_list_first)
  then have s: "s = rev v @ c # rev u" by (metis rev.simps(2) rev_append rev_rev_ident append.assoc append_Cons append_Nil)
  with uv * have "a = rev v" "b = rev u"
    using py_rsplit1_append [of c "rev u" "rev v"] by auto
  with s uv show ?thesis by simp
qed

lemma py_split1_append: "c \<notin> set s \<Longrightarrow> py_split1 c (s @ c # t) = Some (s, t)"
  unfolding py_split1_def by (induction s) auto

definition py_startswith :: "string \<Rightarrow> string \<Rightarrow> bool" where
  "py_startswith s p = (take (length p) s = p)"

definition py_endswith :: "string \<Rightarrow> string \<Rightarrow> bool" where
  "py_endswith s p = (length p \<le> length s \<and> drop (length s - length p) s = p)"

lemma py_startswith_iff: "py_startswith s p \<longleftrightarrow> (\<exists>t. s = p @ t)"
proof
  assume "py_startswith s p"
  then show "\<exists>t. s = p @ t"
    by (metis py_startswith_def append_take_drop_id)
qed (auto simp: py_startswith_def)

lemma py_endswith_append [simp]: "py_endswith (s @ p) p"
  by (simp add: py_endswith_def)

text \<open>\<open>c.split("::", 1)[0]\<close>, when \<open>"::"\<close> occurs in \<open>c\<close>.\<close>

fun before_dcolon :: "string \<Rightarrow> string option" where
  "before_dcolon (a # b # s) =
     (if a = CHR '':'' \<and> b = CHR '':'' then Some [] else map_option ((#) a) (before_dcolon (b # s)))"
| "before_dcolon _ = None"

lemma before_dcolon_Some: "before_dcolon s = Some p \<Longrightarrow> \<exists>t. s = p @ '':::'' @ t \<or> s = p @ ''::'' @ t"
  by (induction s arbitrary: p rule: before_dcolon.induct) (auto split: if_splits)

section \<open>Lists\<close>

lemma set_mono_subseq: "subseq xs ys \<Longrightarrow> set xs \<subseteq> set ys"
  by (auto dest: list_emb_set)

lemma sorted_wrt_subseq: "subseq xs ys \<Longrightarrow> sorted_wrt P ys \<Longrightarrow> sorted_wrt P xs"
proof (induction rule: list_emb.induct)
  case (list_emb_Cons2 x y xs ys)
  then show ?case using set_mono_subseq [of xs ys] by auto
qed auto

lemma map_of_filter_distinct:
  "distinct (map fst xs) \<Longrightarrow> (k, v) \<in> set xs \<Longrightarrow> P (k, v) \<Longrightarrow> map_of (filter P xs) k = Some v"
  by (induction xs) (auto simp: rev_image_eqI)

lemma sorted_filter_gt_drop:
  fixes xs :: "'a::linorder list"
  assumes "sorted xs"
  shows "filter (\<lambda>x. x > a) xs = drop (length (filter (\<lambda>x. x \<le> a) xs)) xs"
  using assms
proof (induction xs)
  case Nil
  then show ?case by simp
next
  case (Cons x xs)
  show ?case
  proof (cases "x \<le> a")
    case True
    with Cons show ?thesis by simp
  next
    case False
    with Cons.prems have "filter (\<lambda>x. x \<le> a) xs = []" "filter (\<lambda>x. x > a) xs = xs"
      by (auto simp: filter_empty_conv filter_id_conv)
    with False show ?thesis by simp
  qed
qed

end
