(* ===== verification/LockManager.thy ===== *)
theory LockManager
  imports Prelude
begin

text \<open>
  \<open>core/lock_manager.py\<close>: the cell lock table. Two dictionaries, from cells to the
  transaction that holds them and from transactions to the cells they hold, are kept in
  agreement; acquisition is all or nothing. The locale \<open>lock_table\<close> is what the transaction
  coordinator relies on, and is interpreted here on the table's own operations.
  The \<open>threading.Lock\<close> around each method makes a method one atomic step.
\<close>

section \<open>State and operations\<close>

record locks =
  cell_to_tx :: "string \<rightharpoonup> string"
  tx_to_cells :: "string \<rightharpoonup> string set"
  lock_timeout_ms :: int

definition new_locks :: "int \<Rightarrow> locks" where
  "new_locks timeout = \<lparr>cell_to_tx = Map.empty, tx_to_cells = Map.empty, lock_timeout_ms = timeout\<rparr>"

text \<open>\<open>CellLockManager.acquire\<close>.\<close>

definition lock_acquire :: "string \<Rightarrow> string list \<Rightarrow> locks \<Rightarrow> bool \<times> locks" where
  "lock_acquire tid cell_ids L =
     (let unique_cells = sort (remdups cell_ids) in
      if list_ex (\<lambda>c. case cell_to_tx L c of None \<Rightarrow> False | Some t \<Rightarrow> t \<noteq> tid) unique_cells
      then (False, L)
      else (True, L\<lparr>cell_to_tx := foldl (\<lambda>m c. m(c \<mapsto> tid)) (cell_to_tx L) unique_cells,
                    tx_to_cells := (tx_to_cells L)(tid \<mapsto>
                      (case tx_to_cells L tid of None \<Rightarrow> {} | Some s \<Rightarrow> s) \<union> set unique_cells)\<rparr>))"

text \<open>\<open>CellLockManager.release\<close>.\<close>

definition lock_release :: "string \<Rightarrow> locks \<Rightarrow> locks" where
  "lock_release tid L =
     (let cells = (case tx_to_cells L tid of None \<Rightarrow> {} | Some s \<Rightarrow> s) in
      L\<lparr>tx_to_cells := (tx_to_cells L)(tid := None),
        cell_to_tx := (\<lambda>c. if c \<in> cells \<and> cell_to_tx L c = Some tid then None else cell_to_tx L c)\<rparr>)"

text \<open>\<open>CellLockManager.get_locked_cells\<close>.\<close>

definition get_locked_cells :: "locks \<Rightarrow> string \<rightharpoonup> string" where
  "get_locked_cells L = cell_to_tx L"

section \<open>Invariant\<close>

definition locks_wf :: "locks \<Rightarrow> bool" where
  "locks_wf L = (\<forall>c t. cell_to_tx L c = Some t \<longleftrightarrow> (\<exists>s. tx_to_cells L t = Some s \<and> c \<in> s))"

lemma locks_wf_new [wf_intros]: "locks_wf (new_locks n)"
  by (simp add: locks_wf_def new_locks_def)

lemma foldl_map_upd:
  "foldl (\<lambda>m c. m(c \<mapsto> t)) m cs = (\<lambda>c. if c \<in> set cs then Some t else m c)"
  by (induction cs arbitrary: m) (auto simp: fun_eq_iff)

lemma acquire_conflict:
  "fst (lock_acquire t cs L) \<longleftrightarrow> (\<forall>c \<in> set cs. cell_to_tx L c \<in> {None, Some t})"
  by (auto simp: lock_acquire_def Let_def list_ex_iff split: option.splits)
    (metis option.exhaust)

lemma acquire_refused: "\<not> fst (lock_acquire t cs L) \<Longrightarrow> snd (lock_acquire t cs L) = L"
  by (auto simp: lock_acquire_def Let_def split: if_splits)

lemma acquire_granted:
  "fst (lock_acquire t cs L) \<Longrightarrow>
   cell_to_tx (snd (lock_acquire t cs L)) = (\<lambda>c. if c \<in> set cs then Some t else cell_to_tx L c)"
  by (auto simp: lock_acquire_def Let_def foldl_map_upd split: if_splits)

lemma acquire_tx_to_cells:
  "fst (lock_acquire t cs L) \<Longrightarrow>
   tx_to_cells (snd (lock_acquire t cs L)) =
     (tx_to_cells L)(t \<mapsto> (case tx_to_cells L t of None \<Rightarrow> {} | Some s \<Rightarrow> s) \<union> set cs)"
  by (auto simp: lock_acquire_def Let_def split: if_splits)

lemma locks_wf_acquire [wf_intros]: "locks_wf L \<Longrightarrow> locks_wf (snd (lock_acquire t cs L))"
proof (cases "fst (lock_acquire t cs L)")
  case True
  assume wf: "locks_wf L"
  have free: "cell_to_tx L c = Some u \<Longrightarrow> u = t" if "c \<in> set cs" for c u
    using True that by (force simp: acquire_conflict)
  show ?thesis
    unfolding locks_wf_def acquire_granted [OF True] acquire_tx_to_cells [OF True]
    using wf free by (auto simp: locks_wf_def split: option.splits)
qed (simp add: acquire_refused)

lemma release_owner:
  assumes "locks_wf L"
  shows "cell_to_tx (lock_release t L) = (\<lambda>c. if cell_to_tx L c = Some t then None else cell_to_tx L c)"
  using assms by (auto simp: lock_release_def locks_wf_def Let_def fun_eq_iff split: option.splits)

lemma locks_wf_release [wf_intros]: "locks_wf L \<Longrightarrow> locks_wf (lock_release t L)"
proof -
  assume wf: "locks_wf L"
  have "(\<exists>s. tx_to_cells (lock_release t L) u = Some s \<and> c \<in> s) \<longleftrightarrow> u \<noteq> t \<and> cell_to_tx L c = Some u"
    for c u using wf by (simp add: lock_release_def locks_wf_def Let_def)
  with wf show ?thesis by (auto simp: locks_wf_def [of "lock_release t L"] release_owner)
qed

section \<open>The interface\<close>

text \<open>
  What a client of a lock table may assume: who holds a cell after each call, and that the
  table's own invariant is kept.
\<close>

locale lock_table =
  fixes acquire :: "string \<Rightarrow> string list \<Rightarrow> 'l \<Rightarrow> bool \<times> 'l"
    and release :: "string \<Rightarrow> 'l \<Rightarrow> 'l"
    and holder :: "'l \<Rightarrow> string \<rightharpoonup> string"
    and good :: "'l \<Rightarrow> bool"
  assumes good_acquire: "good L \<Longrightarrow> good (snd (acquire t cs L))"
    and good_release: "good L \<Longrightarrow> good (release t L)"
    and acquire_iff: "good L \<Longrightarrow> fst (acquire t cs L) \<longleftrightarrow> (\<forall>c \<in> set cs. holder L c \<in> {None, Some t})"
    and acquire_no: "good L \<Longrightarrow> \<not> fst (acquire t cs L) \<Longrightarrow> snd (acquire t cs L) = L"
    and acquire_yes: "good L \<Longrightarrow> fst (acquire t cs L) \<Longrightarrow>
      holder (snd (acquire t cs L)) = (\<lambda>c. if c \<in> set cs then Some t else holder L c)"
    and release_holder: "good L \<Longrightarrow>
      holder (release t L) = (\<lambda>c. if holder L c = Some t then None else holder L c)"
begin

text \<open>A transaction that held nothing leaves the table as it found it.\<close>

lemma acquire_release_frame:
  assumes "good L" "t \<notin> ran (holder L)"
  shows "holder (release t (snd (acquire t cs L))) = holder L"
proof (cases "fst (acquire t cs L)")
  case True
  have no: "holder L c \<noteq> Some t" for c using assms(2) by (auto simp: ran_def)
  moreover have "c \<in> set cs \<Longrightarrow> holder L c = None" for c
    using True assms(1) acquire_iff no by fastforce
  ultimately show ?thesis
    using assms True by (auto simp: release_holder good_acquire acquire_yes fun_eq_iff)
next
  case False
  have "holder L c \<noteq> Some t" for c using assms(2) by (auto simp: ran_def)
  with False assms show ?thesis by (simp add: acquire_no release_holder fun_eq_iff)
qed

text \<open>While one transaction holds a cell, no other one gets any request that names it.\<close>

lemma held_excludes:
  assumes "good L" "holder L c = Some u" "u \<noteq> t" "c \<in> set cs"
  shows "\<not> fst (acquire t cs L) \<and> snd (acquire t cs L) = L"
  using assms acquire_iff acquire_no by fastforce

lemma granted_holds:
  assumes "good L" "fst (acquire t cs L)" "c \<in> set cs"
  shows "holder (snd (acquire t cs L)) c = Some t"
  using assms by (simp add: acquire_yes)

end

interpretation cell_locks: lock_table lock_acquire lock_release cell_to_tx locks_wf
proof unfold_locales
  show "locks_wf L \<Longrightarrow> locks_wf (snd (lock_acquire t cs L))" for L t cs
    by (rule locks_wf_acquire)
  show "locks_wf L \<Longrightarrow> locks_wf (lock_release t L)" for L t
    by (rule locks_wf_release)
qed (simp_all add: acquire_conflict acquire_refused acquire_granted release_owner)

section \<open>Properties\<close>

text \<open>
  C3. Acquisition is all or nothing: it is granted exactly when no requested cell is held by
  another transaction; granted, every requested cell and no other changes hands; refused, the
  table is untouched. The agreement of the two dictionaries is kept either way.
\<close>

theorem acquire_all_or_nothing:
  assumes "locks_wf L"
  shows "locks_wf (snd (lock_acquire t cs L))
    \<and> (fst (lock_acquire t cs L) \<longleftrightarrow> (\<forall>c \<in> set cs. cell_to_tx L c = None \<or> cell_to_tx L c = Some t))
    \<and> get_locked_cells (snd (lock_acquire t cs L)) =
        (if fst (lock_acquire t cs L)
         then (\<lambda>c. if c \<in> set cs then Some t else cell_to_tx L c) else cell_to_tx L)"
  using cell_locks.good_acquire [OF assms] cell_locks.acquire_iff [OF assms]
    cell_locks.acquire_no [OF assms] cell_locks.acquire_yes [OF assms]
  by (auto simp: get_locked_cells_def)

lemma acquire_all_or_nothing_witness:
  "fst (lock_acquire ''t1'' [''a_0'', ''b_1''] (new_locks 5000))"
  using acquire_all_or_nothing [OF locks_wf_new, of "''t1''" "[''a_0'', ''b_1'']" 5000]
  by (simp add: new_locks_def)

text \<open>
  C4. Mutual exclusion and clean-up: a cell held by one transaction makes every other
  transaction's request for it fail without effect, and a transaction that comes with no lock,
  asks for any cells (granted or not) and releases leaves the table with the same holders.
\<close>

theorem lock_exclusion_and_release:
  assumes "locks_wf L" "t \<notin> ran (cell_to_tx L)"
  shows "cell_to_tx (lock_release t (snd (lock_acquire t cs L))) = cell_to_tx L
    \<and> (\<forall>c \<in> set cs. \<forall>u. cell_to_tx L c = Some u \<longrightarrow>
         \<not> fst (lock_acquire t cs L) \<and> snd (lock_acquire t cs L) = L)"
proof -
  have "u \<noteq> t" if "cell_to_tx L c = Some u" for c u
    using assms(2) that by (auto simp: ran_def)
  then show ?thesis
    using cell_locks.acquire_release_frame [OF assms, of cs] cell_locks.held_excludes [OF assms(1)]
    by blast
qed

lemma lock_exclusion_and_release_witness:
  "cell_to_tx (lock_release ''t2'' (snd (lock_acquire ''t2'' [''a_0'', ''b_1'']
      (snd (lock_acquire ''t1'' [''a_0''] (new_locks 5000)))))) ''a_0'' = Some ''t1''"
proof -
  let ?L = "snd (lock_acquire ''t1'' [''a_0''] (new_locks 5000))"
  have wf: "locks_wf ?L" by (intro wf_intros)
  have h: "cell_to_tx ?L = [''a_0'' \<mapsto> ''t1'']"
    by (simp add: lock_acquire_def new_locks_def Let_def fun_eq_iff)
  then have "''t2'' \<notin> ran (cell_to_tx ?L)" by simp
  from lock_exclusion_and_release [OF wf this, of "[''a_0'', ''b_1'']"] show ?thesis
    unfolding h by (elim conjE) (simp only: fun_upd_same)
qed

end
