(* ===== verification/Transactions.thy ===== *)
theory Transactions
  imports Prelude
begin

text \<open>
  \<open>core/transaction.py\<close>: operations, transactions and their state machine. A transaction
  moves along \<open>_ALLOWED_TRANSITIONS\<close>, every move leaves a timed record, and \<open>fail\<close> is the
  best-effort way out. The lemmas show that the recorded transitions are a path of the
  allowed graph, that the graph has no cycle, and what \<open>fail\<close> leaves behind.
  The clock readings (\<open>time.perf_counter\<close>, \<open>datetime.now\<close>) are arguments.
\<close>

section \<open>Operations\<close>

text \<open>
  The payload of a structural operation is a JSON object; the record has the keys the
  engine reads, each with the value \<open>dict.get\<close> gives when the key is missing.
\<close>

record payload =
  pl_frame_id :: string
  pl_count :: int
  pl_at :: "int option"
  pl_default :: pyval
  pl_rows :: "int list"
  pl_row_ids :: "string list"
  pl_name :: string
  pl_new_name :: string
  pl_values :: "pyval list option"
  pl_deleted_row_ids :: "string list option"

definition empty_payload :: payload where
  "empty_payload = \<lparr>pl_frame_id = [], pl_count = 0, pl_at = None, pl_default = PNone,
     pl_rows = [], pl_row_ids = [], pl_name = [], pl_new_name = [], pl_values = None,
     pl_deleted_row_ids = None\<rparr>"

record operation =
  op_cell_id :: string
  op_old :: pyval
  op_new :: pyval
  op_author_type :: string
  op_author_id :: "string option"
  op_confidence :: "rat option"
  op_kind :: string
  op_payload :: "payload option"

definition set_cell :: string where
  "set_cell = ''set_cell''"

definition is_structural :: "operation \<Rightarrow> bool" where
  "is_structural op = (op_kind op \<noteq> set_cell)"

text \<open>\<open>Operation(cell_id, old_value, new_value, author_type)\<close> with the defaults of the dataclass.\<close>

definition cell_op :: "string \<Rightarrow> pyval \<Rightarrow> pyval \<Rightarrow> string \<Rightarrow> operation" where
  "cell_op cid old new author = \<lparr>op_cell_id = cid, op_old = old, op_new = new,
     op_author_type = author, op_author_id = None, op_confidence = None,
     op_kind = set_cell, op_payload = None\<rparr>"

lemma cell_op_not_structural [simp]: "\<not> is_structural (cell_op cid old new author)"
  by (simp add: is_structural_def cell_op_def)

lemma cell_op_simps [simp]:
  "op_cell_id (cell_op cid old new author) = cid" "op_old (cell_op cid old new author) = old"
  "op_new (cell_op cid old new author) = new"
  by (simp_all add: cell_op_def)

text \<open>
  \<open>Operation.to_dict\<close>: the keys \<open>kind\<close> and \<open>payload\<close> are present for structural operations
  only, which \<open>None\<close> records here.
\<close>

record op_dict =
  od_cell_id :: string
  od_old :: pyval
  od_new :: pyval
  od_author_type :: string
  od_author_id :: "string option"
  od_confidence :: "rat option"
  od_kind :: "string option"
  od_payload :: "payload option option"

definition op_to_dict :: "operation \<Rightarrow> op_dict" where
  "op_to_dict op = \<lparr>od_cell_id = op_cell_id op, od_old = op_old op, od_new = op_new op,
     od_author_type = op_author_type op, od_author_id = op_author_id op,
     od_confidence = op_confidence op,
     od_kind = (if is_structural op then Some (op_kind op) else None),
     od_payload = (if is_structural op then Some (op_payload op) else None)\<rparr>"

lemma op_to_dict_simps [simp]:
  "od_cell_id (op_to_dict op) = op_cell_id op" "od_new (op_to_dict op) = op_new op"
  "od_old (op_to_dict op) = op_old op" "od_author_type (op_to_dict op) = op_author_type op"
  "od_author_id (op_to_dict op) = op_author_id op"
  "od_confidence (op_to_dict op) = op_confidence op"
  by (simp_all add: op_to_dict_def)

section \<open>The state machine\<close>

datatype tx_state =
  PENDING | VALIDATING | LOCKED | APPLYING | COMMITTED | SYNCING | SYNCED | FAILED | ROLLED_BACK

text \<open>\<open>_ALLOWED_TRANSITIONS\<close>.\<close>

fun allowed_transitions :: "tx_state \<Rightarrow> tx_state list" where
  "allowed_transitions PENDING = [VALIDATING, FAILED]"
| "allowed_transitions VALIDATING = [LOCKED, FAILED]"
| "allowed_transitions LOCKED = [APPLYING, FAILED]"
| "allowed_transitions APPLYING = [COMMITTED, FAILED]"
| "allowed_transitions COMMITTED = [SYNCING, FAILED]"
| "allowed_transitions SYNCING = [SYNCED, FAILED]"
| "allowed_transitions SYNCED = [FAILED]"
| "allowed_transitions FAILED = [ROLLED_BACK]"
| "allowed_transitions ROLLED_BACK = []"

record transition_record =
  tr_from :: tx_state
  tr_to :: tx_state
  tr_timestamp :: string
  tr_elapsed_ms :: rat

record transaction =
  tx_ops :: "operation list"
  tx_id :: string
  tx_state :: tx_state
  tx_created_at :: string
  tx_transitions :: "transition_record list"
  tx_error :: "string option"
  tx_last_perf :: rat

datatype tx_error = InvalidTransitionError tx_state tx_state

text \<open>The dataclass constructor with its defaults; \<open>uuid4\<close> and the clocks are arguments.\<close>

definition new_transaction :: "operation list \<Rightarrow> string \<Rightarrow> string \<Rightarrow> rat \<Rightarrow> transaction" where
  "new_transaction ops tid created perf = \<lparr>tx_ops = ops, tx_id = tid, tx_state = PENDING,
     tx_created_at = created, tx_transitions = [], tx_error = None, tx_last_perf = perf\<rparr>"

text \<open>
  \<open>Transaction.transition\<close>; \<open>now\<close> is the pair of the \<open>perf_counter\<close> reading in seconds and
  the wall-clock text.
\<close>

definition transition ::
  "rat \<times> string \<Rightarrow> tx_state \<Rightarrow> transaction \<Rightarrow> tx_error + transaction" where
  "transition now next_state t =
     (if next_state \<notin> set (allowed_transitions (tx_state t))
      then Inl (InvalidTransitionError (tx_state t) next_state)
      else Inr (t\<lparr>tx_transitions := tx_transitions t @
                   [\<lparr>tr_from = tx_state t, tr_to = next_state, tr_timestamp = snd now,
                     tr_elapsed_ms = (fst now - tx_last_perf t) * 1000\<rparr>],
                 tx_state := next_state,
                 tx_last_perf := fst now\<rparr>))"

text \<open>
  \<open>Transaction.fail\<close>, with the clock readings of its two transitions. Where the first
  transition is refused, the state is forced to FAILED without a record.
\<close>

definition tx_fail :: "rat \<times> string \<Rightarrow> rat \<times> string \<Rightarrow> transaction \<Rightarrow> transaction" where
  "tx_fail now1 now2 t =
     (if tx_state t \<noteq> FAILED
      then (case transition now1 FAILED t of
              Inl _ \<Rightarrow> t\<lparr>tx_state := FAILED\<rparr>
            | Inr t1 \<Rightarrow> (case transition now2 ROLLED_BACK t1 of Inl _ \<Rightarrow> t1 | Inr t2 \<Rightarrow> t2))
      else (case transition now2 ROLLED_BACK t of Inl _ \<Rightarrow> t | Inr t2 \<Rightarrow> t2))"

section \<open>The graph\<close>

text \<open>Every allowed move goes up in this rank, so the graph has no cycle.\<close>

fun tx_rank :: "tx_state \<Rightarrow> nat" where
  "tx_rank PENDING = 0" | "tx_rank VALIDATING = 1" | "tx_rank LOCKED = 2"
| "tx_rank APPLYING = 3" | "tx_rank COMMITTED = 4" | "tx_rank SYNCING = 5"
| "tx_rank SYNCED = 6" | "tx_rank FAILED = 7" | "tx_rank ROLLED_BACK = 8"

lemma allowed_rank: "s' \<in> set (allowed_transitions s) \<Longrightarrow> tx_rank s < tx_rank s'"
  by (cases s) auto

lemma tx_rank_le: "tx_rank s \<le> 8"
  by (cases s) auto

lemma FAILED_allowed: "FAILED \<in> set (allowed_transitions s) \<longleftrightarrow> s \<noteq> FAILED \<and> s \<noteq> ROLLED_BACK"
  by (cases s) auto

text \<open>A list of records is a path of the graph from one state to another.\<close>

fun tx_path :: "tx_state \<Rightarrow> transition_record list \<Rightarrow> tx_state \<Rightarrow> bool" where
  "tx_path s [] s' = (s = s')"
| "tx_path s (r # rs) s' =
     (tr_from r = s \<and> tr_to r \<in> set (allowed_transitions s) \<and> tx_path (tr_to r) rs s')"

lemma tx_path_snoc:
  "tx_path s (rs @ [r]) s' \<longleftrightarrow>
   tx_path s rs (tr_from r) \<and> tr_to r = s' \<and> s' \<in> set (allowed_transitions (tr_from r))"
  by (induction rs arbitrary: s) auto

lemma tx_path_append:
  "tx_path s (rs @ rs') s' \<longleftrightarrow> (\<exists>m. tx_path s rs m \<and> tx_path m rs' s')"
  by (induction rs arbitrary: s) auto

lemma tx_path_rank: "tx_path s rs s' \<Longrightarrow> tx_rank s + length rs \<le> tx_rank s'"
proof (induction rs arbitrary: s)
  case (Cons r rs)
  then show ?case using allowed_rank [of "tr_to r" s] by fastforce
qed simp

text \<open>The well-formedness of a transaction: its history explains its state.\<close>

definition tx_wf :: "transaction \<Rightarrow> bool" where
  "tx_wf t = tx_path PENDING (tx_transitions t) (tx_state t)"

lemma tx_wf_new [wf_intros]: "tx_wf (new_transaction ops tid created perf)"
  by (simp add: tx_wf_def new_transaction_def)

lemma transition_ok [step_simps]:
  "s' \<in> set (allowed_transitions (tx_state t)) \<Longrightarrow>
   transition now s' t = Inr (t\<lparr>tx_transitions := tx_transitions t @
       [\<lparr>tr_from = tx_state t, tr_to = s', tr_timestamp = snd now,
         tr_elapsed_ms = (fst now - tx_last_perf t) * 1000\<rparr>],
     tx_state := s', tx_last_perf := fst now\<rparr>)"
  by (simp add: transition_def)

lemma transition_Inr:
  "transition now s' t = Inr t' \<Longrightarrow>
   tx_state t' = s' \<and> s' \<in> set (allowed_transitions (tx_state t)) \<and> tx_ops t' = tx_ops t \<and>
   tx_id t' = tx_id t \<and> tx_error t' = tx_error t"
  by (auto simp: transition_def split: if_splits)

lemma tx_wf_transition [wf_intros]:
  "tx_wf t \<Longrightarrow> transition now s' t = Inr t' \<Longrightarrow> tx_wf t'"
  by (auto simp: transition_def tx_wf_def tx_path_snoc split: if_splits)

lemma tx_fail_state: "tx_state t \<noteq> ROLLED_BACK \<Longrightarrow> tx_state (tx_fail n1 n2 t) = ROLLED_BACK"
  by (cases "tx_state t") (simp_all add: tx_fail_def transition_def)

lemma tx_fail_fields [simp]:
  "tx_ops (tx_fail n1 n2 t) = tx_ops t" "tx_id (tx_fail n1 n2 t) = tx_id t"
  "tx_error (tx_fail n1 n2 t) = tx_error t"
  by (auto simp: tx_fail_def transition_def split: sum.splits)

lemma tx_wf_fail [wf_intros]:
  "tx_wf t \<Longrightarrow> tx_state t \<noteq> ROLLED_BACK \<Longrightarrow> tx_wf (tx_fail n1 n2 t)"
  by (cases "tx_state t") (auto simp: tx_fail_def transition_def tx_wf_def tx_path_append)

section \<open>Runs\<close>

text \<open>
  What a caller can do with a transaction: any transition that is accepted (a refused one
  raises and changes nothing) and, on a transaction not yet rolled back, \<open>fail\<close>.
\<close>

inductive tx_run :: "transaction \<Rightarrow> transaction \<Rightarrow> bool" for t0 where
  tx_start: "tx_run t0 t0"
| tx_move: "tx_run t0 t \<Longrightarrow> transition now s t = Inr t' \<Longrightarrow> tx_run t0 t'"
| tx_fail_step: "tx_run t0 t \<Longrightarrow> tx_state t \<noteq> ROLLED_BACK \<Longrightarrow> tx_run t0 (tx_fail n1 n2 t)"

lemma tx_run_wf: "tx_run t0 t \<Longrightarrow> tx_wf t0 \<Longrightarrow> tx_wf t"
  by (induction rule: tx_run.induct) (auto intro: wf_intros)



text \<open>
  \<open>fail\<close> ends a transaction of any state but ROLLED_BACK in ROLLED_BACK, by recorded and
  allowed transitions only (one if it had failed already, else two); the operations, the id
  and the error text stay.
\<close>

theorem tx_fail_rolls_back:
  assumes "tx_wf t" "tx_state t \<noteq> ROLLED_BACK"
  shows "tx_state (tx_fail n1 n2 t) = ROLLED_BACK \<and> tx_wf (tx_fail n1 n2 t)
    \<and> length (tx_transitions (tx_fail n1 n2 t)) =
        length (tx_transitions t) + (if tx_state t = FAILED then 1 else 2)
    \<and> tx_ops (tx_fail n1 n2 t) = tx_ops t \<and> tx_id (tx_fail n1 n2 t) = tx_id t"
  using tx_wf_fail [OF assms] assms
  by (cases "tx_state t") (auto simp: tx_fail_def transition_def)

lemma tx_fail_rolls_back_witness:
  "tx_state (tx_fail (1, ''a'') (2, ''b'') (new_transaction [] ''t1'' ''now'' 0)) = ROLLED_BACK"
proof -
  have "tx_wf (new_transaction [] ''t1'' ''now'' 0)" by (rule tx_wf_new)
  moreover have "tx_state (new_transaction [] ''t1'' ''now'' 0) \<noteq> ROLLED_BACK"
    by (simp add: new_transaction_def)
  ultimately show ?thesis using tx_fail_rolls_back by blast
qed

text \<open>
  The end state is not quite terminal: calling \<open>fail\<close> on a rolled back transaction forces it
  back to FAILED, a move \<open>_ALLOWED_TRANSITIONS\<close> refuses and the history does not show.
\<close>

lemma tx_fail_leaves_rolled_back:
  "tx_state t = ROLLED_BACK \<Longrightarrow> tx_fail n1 n2 t = t\<lparr>tx_state := FAILED\<rparr>"
  by (simp add: tx_fail_def transition_def)

end
