(* ===== verification/Wal.thy ===== *)
theory Wal
  imports Transactions
begin

text \<open>
  \<open>core/wal.py\<close>, class \<open>WriteAheadLog\<close>: the append-only log every transaction ends in. Entries
  carry a log sequence number (LSN); the log may be mirrored to a file, one line per entry,
  from which it is rebuilt at start-up. The theory shows that LSNs stay strictly increasing
  through every operation, that the binary search of \<open>get_since\<close> finds what a scan would,
  what compaction keeps, and that recovery loses nothing and never reuses an LSN.
  \<open>json.dumps\<close>/\<open>json.loads\<close> of an entry are the identity here: a line of the file is its entry.
\<close>

section \<open>State and operations\<close>

record wal_entry =
  we_lsn :: nat
  we_tx_id :: string
  we_operations :: "op_dict list"
  we_timestamp :: string
  we_state :: tx_state

record wal =
  wal_entries :: "wal_entry list"
  wal_next_lsn :: nat
  wal_file :: "wal_entry list option"

text \<open>The constructor without a path, and with one: \<open>_recover_from_disk\<close> reads the lines.\<close>

definition wal_in_memory :: wal where
  "wal_in_memory = \<lparr>wal_entries = [], wal_next_lsn = 1, wal_file = None\<rparr>"

definition wal_recover :: "wal_entry list \<Rightarrow> wal" where
  "wal_recover ls = \<lparr>wal_entries = ls, wal_next_lsn = length ls + 1, wal_file = Some ls\<rparr>"

definition wal_append :: "string \<Rightarrow> transaction \<Rightarrow> wal \<Rightarrow> nat \<times> wal" where
  "wal_append now t w =
     (let lsn = wal_next_lsn w;
          entry = \<lparr>we_lsn = lsn, we_tx_id = tx_id t, we_operations = map op_to_dict (tx_ops t),
                   we_timestamp = now, we_state = tx_state t\<rparr>
      in (lsn, w\<lparr>wal_next_lsn := lsn + 1, wal_entries := wal_entries w @ [entry],
                 wal_file := map_option (\<lambda>ls. ls @ [entry]) (wal_file w)\<rparr>))"

text \<open>Python's slice \<open>xs[i:]\<close>.\<close>

definition py_slice_from :: "int \<Rightarrow> 'a list \<Rightarrow> 'a list" where
  "py_slice_from i xs = (if i < 0 then drop (nat (max 0 (int (length xs) + i))) xs else drop (nat i) xs)"

definition wal_compact :: "int \<Rightarrow> wal \<Rightarrow> int \<times> wal" where
  "wal_compact keep_last_n w =
     (if int (length (wal_entries w)) \<le> keep_last_n then (0, w)
      else (int (length (wal_entries w)) - keep_last_n,
            w\<lparr>wal_entries := py_slice_from (- keep_last_n) (wal_entries w)\<rparr>))"

definition wal_compact_before :: "nat \<Rightarrow> wal \<Rightarrow> nat \<times> wal" where
  "wal_compact_before lsn w =
     (let kept = filter (\<lambda>e. lsn \<le> we_lsn e) (wal_entries w)
      in (length (wal_entries w) - length kept, w\<lparr>wal_entries := kept\<rparr>))"

text \<open>\<open>bisect.bisect_right\<close> on the range \<open>lo \<dots> hi\<close> of a sorted list.\<close>

function bisect_right :: "nat list \<Rightarrow> nat \<Rightarrow> nat \<Rightarrow> nat \<Rightarrow> nat" where
  "bisect_right a x lo hi =
     (if lo < hi
      then let mid = (lo + hi) div 2 in
           if x < a ! mid then bisect_right a x lo mid else bisect_right a x (mid + 1) hi
      else lo)"
  by pat_completeness auto
termination by (relation "measure (\<lambda>(a, x, lo, hi). hi - lo)") (auto simp: Let_def)

declare bisect_right.simps [simp del]

definition wal_get_since :: "nat \<Rightarrow> wal \<Rightarrow> wal_entry list" where
  "wal_get_since lsn w =
     (let lsns = map we_lsn (wal_entries w); start = bisect_right lsns lsn 0 (length lsns)
      in map (\<lambda>i. wal_entries w ! i) [start..<length (wal_entries w)])"

definition wal_get_committed :: "wal \<Rightarrow> wal_entry list" where
  "wal_get_committed w = filter (\<lambda>e. we_state e \<in> {COMMITTED, SYNCED}) (wal_entries w)"

text \<open>\<open>get_cell_history\<close>: one line per operation on the cell, oldest first.\<close>

record history_line =
  h_lsn :: nat
  h_timestamp :: string
  h_tx_id :: string
  h_op :: op_dict

definition wal_cell_history :: "string \<Rightarrow> wal \<Rightarrow> history_line list" where
  "wal_cell_history cid w =
     concat (map (\<lambda>e. map (\<lambda>op. \<lparr>h_lsn = we_lsn e, h_timestamp = we_timestamp e,
                                   h_tx_id = we_tx_id e, h_op = op\<rparr>)
                       (filter (\<lambda>op. od_cell_id op = cid) (we_operations e)))
            (wal_entries w))"

definition wal_metrics :: "wal \<Rightarrow> nat \<times> nat" where
  "wal_metrics w = (length (wal_entries w), wal_next_lsn w - 1)"

section \<open>Invariant\<close>

text \<open>
  LSNs increase strictly and stay below the next one; a mirrored log's file holds the entries
  \<open>1 \<dots> next - 1\<close>, of which the memory holds a subsequence.
\<close>

definition wal_wf :: "wal \<Rightarrow> bool" where
  "wal_wf w =
     (sorted_wrt (<) (map we_lsn (wal_entries w)) \<and>
      (\<forall>e \<in> set (wal_entries w). 0 < we_lsn e \<and> we_lsn e < wal_next_lsn w) \<and>
      (case wal_file w of
         None \<Rightarrow> True
       | Some ls \<Rightarrow> map we_lsn ls = [1..<wal_next_lsn w] \<and> set (wal_entries w) \<subseteq> set ls))"

lemma wal_wf_in_memory [wf_intros]: "wal_wf wal_in_memory"
  by (simp add: wal_wf_def wal_in_memory_def)

lemma wal_wf_recover [wf_intros]: "map we_lsn ls = [1..<length ls + 1] \<Longrightarrow> wal_wf (wal_recover ls)"
proof -
  assume ls: "map we_lsn ls = [1..<length ls + 1]"
  then have "we_lsn ` set ls = {1..<length ls + 1}"
    by (metis atLeastLessThan_upt list.set_map)
  then have "\<forall>e \<in> set ls. 0 < we_lsn e \<and> we_lsn e < length ls + 1" by force
  moreover have "sorted_wrt (<) (map we_lsn ls)" unfolding ls by (rule sorted_wrt_upt)
  ultimately show ?thesis using ls by (simp add: wal_wf_def wal_recover_def del: upt_Suc)
qed

lemma wal_append_simps [simp]:
  "fst (wal_append now t w) = wal_next_lsn w"
  "wal_next_lsn (snd (wal_append now t w)) = wal_next_lsn w + 1"
  by (simp_all add: wal_append_def Let_def)

lemma wal_append_entries:
  "wal_entries (snd (wal_append now t w)) = wal_entries w @
     [\<lparr>we_lsn = wal_next_lsn w, we_tx_id = tx_id t, we_operations = map op_to_dict (tx_ops t),
       we_timestamp = now, we_state = tx_state t\<rparr>]"
  by (simp add: wal_append_def Let_def)

text \<open>The next LSN is never 0: it starts at 1 and grows.\<close>

definition wal_ok :: "wal \<Rightarrow> bool" where
  "wal_ok w = (wal_wf w \<and> 0 < wal_next_lsn w)"

lemma wal_ok_start [wf_intros]:
  "wal_ok wal_in_memory" "map we_lsn ls = [1..<length ls + 1] \<Longrightarrow> wal_ok (wal_recover ls)"
  by (simp_all add: wal_ok_def wal_wf_in_memory wal_wf_recover)
    (simp_all add: wal_in_memory_def wal_recover_def)

lemma wal_ok_append [wf_intros]: "wal_ok w \<Longrightarrow> wal_ok (snd (wal_append now t w))"
  unfolding wal_ok_def wal_wf_def wal_append_def Let_def
  by (auto simp: sorted_wrt_append split: option.splits)

lemma wal_wf_subseq:
  assumes "wal_wf w" "subseq es (wal_entries w)"
  shows "wal_wf (w\<lparr>wal_entries := es\<rparr>)"
proof -
  have "subseq (map we_lsn es) (map we_lsn (wal_entries w))"
    using assms(2) by (rule subseq_map)
  then have "sorted_wrt (<) (map we_lsn es)"
    using assms(1) by (auto simp: wal_wf_def intro: sorted_wrt_subseq)
  then show ?thesis
    using assms set_mono_subseq [OF assms(2)]
    by (auto simp: wal_wf_def split: option.splits)
qed

lemma py_slice_from_subseq: "subseq (py_slice_from i xs) xs"
  by (simp add: py_slice_from_def suffix_drop suffix_imp_subseq)

lemma wal_ok_compact [wf_intros]: "wal_ok w \<Longrightarrow> wal_ok (snd (wal_compact k w))"
  using wal_wf_subseq [OF _ py_slice_from_subseq, of w "- k"]
  by (auto simp: wal_ok_def wal_compact_def)

lemma wal_ok_compact_before [wf_intros]: "wal_ok w \<Longrightarrow> wal_ok (snd (wal_compact_before k w))"
  using wal_wf_subseq [of w "filter (\<lambda>e. k \<le> we_lsn e) (wal_entries w)"]
  by (auto simp: wal_ok_def wal_compact_before_def Let_def)

section \<open>The interface of a log\<close>

text \<open>
  What the coordinator and the replication manager rely on: a new entry gets an LSN above every
  LSN handed out before, is the last entry, and what is asked for "since" an LSN are exactly
  the entries above it, in order.
\<close>

locale ordered_log =
  fixes add :: "string \<Rightarrow> transaction \<Rightarrow> 'w \<Rightarrow> nat \<times> 'w"
    and since :: "nat \<Rightarrow> 'w \<Rightarrow> wal_entry list"
    and entries :: "'w \<Rightarrow> wal_entry list"
    and top :: "'w \<Rightarrow> nat"
    and good :: "'w \<Rightarrow> bool"
  assumes good_append: "good w \<Longrightarrow> good (snd (add now t w))"
    and append_lsn: "good w \<Longrightarrow> fst (add now t w) = Suc (top w)"
    and append_top: "good w \<Longrightarrow> top (snd (add now t w)) = Suc (top w)"
    and append_entry: "good w \<Longrightarrow> entries (snd (add now t w)) = entries w @
        [\<lparr>we_lsn = Suc (top w), we_tx_id = tx_id t, we_operations = map op_to_dict (tx_ops t),
          we_timestamp = now, we_state = tx_state t\<rparr>]"
    and since_filter: "good w \<Longrightarrow> since l w = filter (\<lambda>e. l < we_lsn e) (entries w)"
    and entries_below: "good w \<Longrightarrow> e \<in> set (entries w) \<Longrightarrow> we_lsn e \<le> top w"
begin

text \<open>A reader that is up to date sees exactly the new entry after an append.\<close>

lemma since_top_append:
  assumes "good w"
  shows "since (top w) (snd (add now t w)) =
    [\<lparr>we_lsn = Suc (top w), we_tx_id = tx_id t, we_operations = map op_to_dict (tx_ops t),
      we_timestamp = now, we_state = tx_state t\<rparr>]"
  using assms entries_below
  by (auto simp: since_filter good_append append_entry filter_empty_conv not_less)

text \<open>Asking again from the last LSN received continues without gap or overlap.\<close>

lemma since_resume: "good w \<Longrightarrow> l \<le> m \<Longrightarrow> since m w = filter (\<lambda>e. m < we_lsn e) (since l w)"
  by (auto simp: since_filter intro: filter_cong)

end

lemma bisect_right_correct:
  assumes "sorted a" "hi \<le> length a" "lo \<le> hi"
    and "\<forall>i < lo. a ! i \<le> x" "\<forall>i. hi \<le> i \<and> i < length a \<longrightarrow> x < a ! i"
  shows "bisect_right a x lo hi \<le> length a \<and> (\<forall>i < bisect_right a x lo hi. a ! i \<le> x)
    \<and> (\<forall>i. bisect_right a x lo hi \<le> i \<and> i < length a \<longrightarrow> x < a ! i)"
  using assms
proof (induction a x lo hi rule: bisect_right.induct)
  case (1 a x lo hi)
  let ?mid = "(lo + hi) div 2"
  show ?case
  proof (cases "lo < hi")
    case True
    then have mid: "lo \<le> ?mid" "?mid < hi" by auto
    show ?thesis
    proof (cases "x < a ! ?mid")
      case less: True
      have "\<forall>i. ?mid \<le> i \<and> i < length a \<longrightarrow> x < a ! i"
        using less "1.prems"(1) by (meson order_less_le_trans sorted_nth_mono)
      then have "bisect_right a x lo ?mid \<le> length a \<and> (\<forall>i < bisect_right a x lo ?mid. a ! i \<le> x)
          \<and> (\<forall>i. bisect_right a x lo ?mid \<le> i \<and> i < length a \<longrightarrow> x < a ! i)"
        using "1.prems" mid by (intro "1.IH"(1) [OF True refl less]) simp_all
      moreover have "bisect_right a x lo hi = bisect_right a x lo ?mid"
        using True less by (subst bisect_right.simps) (simp add: Let_def)
      ultimately show ?thesis by metis
    next
      case geq: False
      have "\<forall>i < ?mid + 1. a ! i \<le> x"
      proof (intro allI impI)
        fix i assume "i < ?mid + 1"
        then have "a ! i \<le> a ! ?mid" using "1.prems"(1,2) mid by (intro sorted_nth_mono) auto
        with geq show "a ! i \<le> x" by simp
      qed
      then have "bisect_right a x (?mid + 1) hi \<le> length a \<and> (\<forall>i < bisect_right a x (?mid + 1) hi. a ! i \<le> x)
          \<and> (\<forall>i. bisect_right a x (?mid + 1) hi \<le> i \<and> i < length a \<longrightarrow> x < a ! i)"
        using "1.prems" mid by (intro "1.IH"(2) [OF True refl geq]) simp_all
      moreover have "bisect_right a x lo hi = bisect_right a x (?mid + 1) hi"
        using True geq by (subst bisect_right.simps) (simp add: Let_def)
      ultimately show ?thesis by metis
    qed
  next
    case False
    then have "bisect_right a x lo hi = lo" by (subst bisect_right.simps) simp
    with "1.prems" False show ?thesis by auto
  qed
qed

lemma filter_drop_split:
  assumes "k \<le> length xs" "\<forall>i < k. \<not> P (xs ! i)" "\<forall>i. k \<le> i \<and> i < length xs \<longrightarrow> P (xs ! i)"
  shows "filter P xs = drop k xs"
proof -
  have "filter P xs = filter P (take k xs) @ filter P (drop k xs)"
    by (metis append_take_drop_id filter_append)
  moreover have "filter P (take k xs) = []"
    using assms(1,2) by (auto simp: filter_empty_conv in_set_conv_nth)
  moreover have "filter P (drop k xs) = drop k xs"
    using assms(3) by (auto simp: filter_id_conv in_set_conv_nth)
  ultimately show ?thesis by simp
qed

lemma get_since_filter:
  assumes "wal_wf w"
  shows "wal_get_since l w = filter (\<lambda>e. l < we_lsn e) (wal_entries w)"
proof -
  let ?a = "map we_lsn (wal_entries w)"
  let ?k = "bisect_right ?a l 0 (length ?a)"
  have "sorted ?a" using assms by (auto simp: wal_wf_def strict_sorted_iff)
  then have k: "?k \<le> length ?a" "\<forall>i < ?k. ?a ! i \<le> l" "\<forall>i. ?k \<le> i \<and> i < length ?a \<longrightarrow> l < ?a ! i"
    using bisect_right_correct [of ?a "length ?a" 0 l] by auto
  have "wal_get_since l w = drop ?k (wal_entries w)"
    unfolding wal_get_since_def Let_def
    by (rule nth_equalityI) (use k in auto)
  also have "\<dots> = filter (\<lambda>e. l < we_lsn e) (wal_entries w)"
    using k by (intro filter_drop_split [symmetric]) (auto simp: not_less)
  finally show ?thesis .
qed

interpretation file_wal: ordered_log wal_append wal_get_since wal_entries "\<lambda>w. wal_next_lsn w - 1" wal_ok
proof unfold_locales
  show "wal_ok (snd (wal_append now t w))" if "wal_ok w" for now t w
    using that by (rule wal_ok_append)
  show "wal_get_since l w = filter (\<lambda>e. l < we_lsn e) (wal_entries w)" if "wal_ok w" for l w
    using that by (intro get_since_filter) (simp add: wal_ok_def)
  show "we_lsn e \<le> wal_next_lsn w - 1" if "wal_ok w" "e \<in> set (wal_entries w)" for w e
    using that by (fastforce simp: wal_ok_def wal_wf_def)
qed (auto simp: wal_ok_def wal_append_def Let_def)

section \<open>Runs of a log\<close>

inductive wal_step :: "wal \<Rightarrow> wal \<Rightarrow> bool" where
  step_append: "wal_step w (snd (wal_append now t w))"
| step_compact: "wal_step w (snd (wal_compact k w))"
| step_compact_before: "wal_step w (snd (wal_compact_before l w))"

inductive wal_run :: "wal \<Rightarrow> wal \<Rightarrow> bool" for w0 where
  run_refl: "wal_run w0 w0"
| run_step: "wal_run w0 w \<Longrightarrow> wal_step w w' \<Longrightarrow> wal_run w0 w'"

lemma wal_step_ok: "wal_step w w' \<Longrightarrow> wal_ok w \<Longrightarrow> wal_ok w'"
  by (cases rule: wal_step.cases) (auto intro: wf_intros)

lemma wal_run_ok: "wal_run w0 w \<Longrightarrow> wal_ok w0 \<Longrightarrow> wal_ok w"
  by (induction rule: wal_run.induct) (auto intro: wal_step_ok)

lemma wal_step_file: "wal_step w w' \<Longrightarrow> (\<exists>ls. wal_file w = Some ls) \<Longrightarrow> (\<exists>ls. wal_file w' = Some ls)"
  by (cases rule: wal_step.cases)
    (auto simp: wal_append_def wal_compact_def wal_compact_before_def Let_def)

lemma wal_run_file: "wal_run w0 w \<Longrightarrow> \<exists>ls. wal_file w0 = Some ls \<Longrightarrow> \<exists>ls. wal_file w = Some ls"
  by (induction rule: wal_run.induct) (auto dest: wal_step_file)

section \<open>Properties\<close>

text \<open>
  C7. \<open>get_since\<close> finds by binary search exactly the entries with a greater LSN, in log order,
  in every log reached by appending and compacting in any order.
\<close>

theorem get_since_complete:
  assumes "wal_run wal_in_memory w"
  shows "wal_get_since l w = filter (\<lambda>e. l < we_lsn e) (wal_entries w)
    \<and> sorted_wrt (<) (map we_lsn (wal_entries w))"
proof -
  have "wal_ok w" using wal_run_ok [OF assms wal_ok_start(1)] .
  then show ?thesis using file_wal.since_filter by (simp add: wal_ok_def wal_wf_def)
qed

lemma get_since_complete_witness:
  "wal_run wal_in_memory (snd (wal_append ''n'' (new_transaction [] ''t'' ''c'' 0) wal_in_memory))
   \<and> map we_lsn (wal_get_since 0 (snd (wal_append ''n'' (new_transaction [] ''t'' ''c'' 0) wal_in_memory))) = [1]"
proof -
  have "wal_run wal_in_memory (snd (wal_append ''n'' (new_transaction [] ''t'' ''c'' 0) wal_in_memory))"
    by (blast intro: wal_run.intros wal_step.intros)
  from this get_since_complete [OF this, of 0] show ?thesis
    by (simp add: wal_append_entries wal_in_memory_def)
qed



text \<open>
  Compaction to a positive number of entries keeps exactly the newest ones and reports the
  number dropped; but asked to keep none it drops nothing (\<open>entries[-0:]\<close> is the whole list)
  and still reports that every entry was removed.
\<close>

theorem compact_keeps_newest:
  "(0 < k \<and> k < int (length (wal_entries w)) \<longrightarrow>
      wal_entries (snd (wal_compact k w)) = drop (length (wal_entries w) - nat k) (wal_entries w)
      \<and> length (wal_entries (snd (wal_compact k w))) = nat k
      \<and> fst (wal_compact k w) = int (length (wal_entries w)) - k)
   \<and> (int (length (wal_entries w)) \<le> k \<longrightarrow> wal_compact k w = (0, w))
   \<and> (wal_entries w \<noteq> [] \<longrightarrow>
      wal_entries (snd (wal_compact 0 w)) = wal_entries w
      \<and> fst (wal_compact 0 w) = int (length (wal_entries w)))"
  by (auto simp: wal_compact_def py_slice_from_def nat_diff_distrib' intro!: arg_cong2 [where f = drop])

lemma compact_keeps_newest_witness:
  "fst (wal_compact 0 (snd (wal_append ''n'' (new_transaction [] ''t'' ''c'' 0) wal_in_memory))) = 1
   \<and> wal_entries (snd (wal_compact 0 (snd (wal_append ''n'' (new_transaction [] ''t'' ''c'' 0) wal_in_memory)))) \<noteq> []"
  using compact_keeps_newest
    [of 0 "snd (wal_append ''n'' (new_transaction [] ''t'' ''c'' 0) wal_in_memory)"]
  by (simp add: wal_append_entries wal_in_memory_def)

end
