(* ===== verification/Cells.thy ===== *)
theory Cells
  imports Prelude
begin

text \<open>
  Cell identifiers, \<open>"frame::column_row"\<close>, and the table the write and the read node keep
  their cells in. \<open>_parse_cell_id\<close> is the same code in \<open>core/write_node.py\<close> and
  \<open>core/read_node.py\<close>.

  The table stands for the pandas frame, by what the nodes read and write through: the
  column names in order, one list of values per column, rows numbered \<open>0 \<dots> n - 1\<close>. Column
  types (dtypes) are not modelled: a value reads back as it was written. What pandas may
  change when it widens a column (3 becomes 3.0, None becomes NaN) is not visible through
  the comparison \<open>same_value\<close> that the engine uses.
\<close>

section \<open>Cell identifiers\<close>

definition parse_cell_id :: "string \<Rightarrow> py_error + (string \<times> int)" where
  "parse_cell_id cid =
     (if py_endswith cid ''::__bulk_init__'' \<or> py_endswith cid ''::__bulk_chunk__''
      then Inr (''__bulk__'', -1)
      else case py_rsplit1 (CHR ''_'') cid of
             None \<Rightarrow> Inl ValueError
           | Some (col, row) \<Rightarrow>
               if col = [] \<or> \<not> py_isdigit row then Inl ValueError
               else Inr (col, int (read_nat row)))"

text \<open>\<open>DFrame._cell_id\<close> without the frame prefix: the column, an underscore, the row number.\<close>

definition make_cell_id :: "string \<Rightarrow> nat \<Rightarrow> string" where
  "make_cell_id col row = col @ ''_'' @ show_nat row"

lemma digits_no_underscore: "list_all is_digit s \<Longrightarrow> CHR ''_'' \<notin> set s"
  by (auto simp: list_all_iff)

lemma endswith_last: "py_endswith s (p @ [c]) \<Longrightarrow> s \<noteq> [] \<and> last s = c"
proof -
  assume "py_endswith s (p @ [c])"
  then have le: "length p < length s" and d: "drop (length s - Suc (length p)) s = p @ [c]"
    by (auto simp: py_endswith_def)
  from d have "last (drop (length s - Suc (length p)) s) = c" by simp
  with le show ?thesis by (subst (asm) last_drop) auto
qed

lemma last_show_nat: "is_digit (last (show_nat n))"
  using show_nat_digits [of n] last_in_set [OF show_nat_nonempty] by (auto simp: list_all_iff)

lemma make_cell_id_not_bulk:
  "\<not> py_endswith (make_cell_id col row) ''::__bulk_init__''"
  "\<not> py_endswith (make_cell_id col row) ''::__bulk_chunk__''"
  using last_show_nat [of row] endswith_last [of "make_cell_id col row" "''::__bulk_init_''" "CHR ''_''"]
    endswith_last [of "make_cell_id col row" "''::__bulk_chunk_''" "CHR ''_''"]
  by (auto simp: make_cell_id_def)

lemma parse_make_cell_id: "col \<noteq> [] \<Longrightarrow> parse_cell_id (make_cell_id col row) = Inr (col, int row)"
proof -
  assume col: "col \<noteq> []"
  have "py_rsplit1 (CHR ''_'') (make_cell_id col row) = Some (col, show_nat row)"
    using py_rsplit1_append [OF digits_no_underscore [OF show_nat_digits]]
    by (simp add: make_cell_id_def)
  then show ?thesis
    unfolding parse_cell_id_def using make_cell_id_not_bulk [of col row] col by simp
qed

lemma parse_cell_id_cases:
  "parse_cell_id cid = Inr (col, r) \<Longrightarrow> (col = ''__bulk__'' \<and> r = -1) \<or> (col \<noteq> [] \<and> 0 \<le> r)"
  by (auto simp: parse_cell_id_def split: if_splits option.splits)

text \<open>
  C11. Building a cell id and parsing it gives the column and the row back, for every non-empty
  column name (underscores, digits and colons in it included) and every row; and a parsed id
  either is one of the two bulk markers or names a non-negative row of a non-empty column.
\<close>

theorem cell_id_roundtrip:
  "(col \<noteq> [] \<longrightarrow> parse_cell_id (make_cell_id col row) = Inr (col, int row))
   \<and> (parse_cell_id cid = Inr (c, r) \<longrightarrow> (c, r) = (''__bulk__'', -1) \<or> (c \<noteq> [] \<and> 0 \<le> r))"
  using parse_make_cell_id parse_cell_id_cases by blast

lemma cell_id_roundtrip_witness:
  "parse_cell_id (make_cell_id ''f1::city_2'' 17) = Inr (''f1::city_2'', 17)"
  using cell_id_roundtrip [of "''f1::city_2''" 17 "[]" "[]" 0] by simp

text \<open>
  The id of a structural operation ends in \<open>__structure__\<close>: it is no bulk marker, what follows
  its last underscore is empty, and parsing it raises.
\<close>

lemma parse_structure_id: "parse_cell_id (fid @ ''::__structure__'') = Inl ValueError"
proof -
  have "py_rsplit1 (CHR ''_'') ((fid @ ''::__structure_'') @ CHR ''_'' # []) = Some (fid @ ''::__structure_'', [])"
    by (rule py_rsplit1_append) simp
  moreover have "\<not> py_endswith (fid @ ''::__structure__'') ''::__bulk_init__''"
    "\<not> py_endswith (fid @ ''::__structure__'') ''::__bulk_chunk__''"
    by (simp_all add: py_endswith_def)
  ultimately show ?thesis by (simp add: parse_cell_id_def py_isdigit_def)
qed

section \<open>The table\<close>

record table =
  t_cols :: "(string \<times> pyval list) list"
  t_len :: nat

definition empty_table :: table where
  "empty_table = \<lparr>t_cols = [], t_len = 0\<rparr>"

definition t_columns :: "table \<Rightarrow> string list" where
  "t_columns d = map fst (t_cols d)"

definition t_col :: "table \<Rightarrow> string \<Rightarrow> pyval list option" where
  "t_col d c = map_of (t_cols d) c"

text \<open>\<open>df.at[row, col]\<close>, for an existing column and row; elsewhere the callers do not read.\<close>

definition t_at :: "table \<Rightarrow> nat \<Rightarrow> string \<Rightarrow> pyval" where
  "t_at d r c = (case t_col d c of None \<Rightarrow> PNone | Some xs \<Rightarrow> if r < length xs then xs ! r else PNone)"

text \<open>\<open>df[col] = values\<close>: in place, or as a new last column.\<close>

definition t_put :: "string \<Rightarrow> pyval list \<Rightarrow> table \<Rightarrow> table" where
  "t_put c xs d = d\<lparr>t_cols := AList.update c xs (t_cols d)\<rparr>"

definition t_set :: "nat \<Rightarrow> string \<Rightarrow> pyval \<Rightarrow> table \<Rightarrow> table" where
  "t_set r c v d = (case t_col d c of None \<Rightarrow> d | Some xs \<Rightarrow> t_put c (xs[r := v]) d)"

text \<open>\<open>series.reindex(range(n))\<close>: cut or filled with NaN.\<close>

definition reindex :: "nat \<Rightarrow> pyval list \<Rightarrow> pyval list" where
  "reindex n xs = take n xs @ replicate (n - length xs) PNaN"

definition t_reindex :: "nat \<Rightarrow> table \<Rightarrow> table" where
  "t_reindex n d = \<lparr>t_cols = map (\<lambda>(c, xs). (c, reindex n xs)) (t_cols d), t_len = n\<rparr>"

text \<open>\<open>df.iloc[:n]\<close> for \<open>n \<le> len(df)\<close>.\<close>

definition t_take :: "nat \<Rightarrow> table \<Rightarrow> table" where
  "t_take n d = \<lparr>t_cols = map (\<lambda>(c, xs). (c, take n xs)) (t_cols d), t_len = n\<rparr>"

definition t_drop :: "string \<Rightarrow> table \<Rightarrow> table" where
  "t_drop c d = d\<lparr>t_cols := AList.delete c (t_cols d)\<rparr>"

definition t_rename :: "string \<Rightarrow> string \<Rightarrow> table \<Rightarrow> table" where
  "t_rename c c' d = d\<lparr>t_cols := map (\<lambda>(k, xs). (if k = c then c' else k, xs)) (t_cols d)\<rparr>"

definition table_wf :: "table \<Rightarrow> bool" where
  "table_wf d = (distinct (t_columns d) \<and> (\<forall>(c, xs) \<in> set (t_cols d). length xs = t_len d))"

subsection \<open>Laws\<close>

lemma length_reindex [simp]: "length (reindex n xs) = n"
  by (auto simp: reindex_def)

lemma take_reindex: "k \<le> length xs \<Longrightarrow> k \<le> n \<Longrightarrow> take k (reindex n xs) = take k xs"
  by (simp add: reindex_def min_def)

lemma reindex_id [simp]: "length xs = n \<Longrightarrow> reindex n xs = xs"
  by (simp add: reindex_def)

lemma map_of_map_snd: "map_of (map (\<lambda>(c, xs). (c, f xs)) ps) c = map_option f (map_of ps c)"
  by (induction ps) auto

lemma t_col_put [simp]: "t_col (t_put c xs d) k = (if k = c then Some xs else t_col d k)"
  by (simp add: t_col_def t_put_def update_conv')

lemma t_col_reindex [simp]: "t_col (t_reindex n d) c = map_option (reindex n) (t_col d c)"
  by (simp add: t_col_def t_reindex_def map_of_map_snd)

lemma t_col_take [simp]: "t_col (t_take n d) c = map_option (take n) (t_col d c)"
  by (simp add: t_col_def t_take_def map_of_map_snd)

lemma t_col_drop [simp]: "t_col (t_drop c d) k = (if k = c then None else t_col d k)"
  by (simp add: t_col_def t_drop_def delete_conv')

lemma t_col_set:
  "t_col (t_set r c v d) k = (if k = c then map_option (\<lambda>xs. xs[r := v]) (t_col d c) else t_col d k)"
  by (auto simp: t_set_def split: option.splits)

lemma t_len_simps [simp]:
  "t_len (t_put c xs d) = t_len d" "t_len (t_reindex n d) = n" "t_len (t_take n d) = n"
  "t_len (t_drop c d) = t_len d" "t_len (t_rename c c' d) = t_len d" "t_len (t_set r c v d) = t_len d"
  by (auto simp: t_put_def t_reindex_def t_take_def t_drop_def t_rename_def t_set_def split: option.splits)

lemma t_columns_Some: "c \<in> set (t_columns d) \<longleftrightarrow> (\<exists>xs. t_col d c = Some xs)"
  using map_of_eq_None_iff [of "t_cols d" c] by (cases "t_col d c") (auto simp: t_columns_def t_col_def)

lemma t_columns_None: "c \<notin> set (t_columns d) \<longleftrightarrow> t_col d c = None"
  by (simp add: t_columns_Some)

lemma table_wf_col: "table_wf d \<Longrightarrow> t_col d c = Some xs \<Longrightarrow> length xs = t_len d"
  by (auto simp: table_wf_def t_col_def dest: map_of_SomeD)

lemma table_wf_iff:
  "table_wf d \<longleftrightarrow> distinct (t_columns d) \<and> (\<forall>c xs. t_col d c = Some xs \<longrightarrow> length xs = t_len d)"
proof
  assume r: "distinct (t_columns d) \<and> (\<forall>c xs. t_col d c = Some xs \<longrightarrow> length xs = t_len d)"
  then have "(c, xs) \<in> set (t_cols d) \<Longrightarrow> t_col d c = Some xs" for c xs
    by (simp add: t_columns_def t_col_def)
  with r show "table_wf d" by (auto simp: table_wf_def)
qed (auto simp: table_wf_def t_col_def dest: map_of_SomeD)

lemma table_wf_empty [wf_intros]: "table_wf empty_table"
  by (simp add: table_wf_def empty_table_def t_columns_def)

lemma table_wf_put [wf_intros]: "table_wf d \<Longrightarrow> length xs = t_len d \<Longrightarrow> table_wf (t_put c xs d)"
  by (auto simp: table_wf_iff t_columns_def t_put_def distinct_update t_col_def update_conv' split: if_splits)

lemma t_columns_map_snd [simp]:
  "t_columns (t_reindex n d) = t_columns d" "t_columns (t_take n d) = t_columns d"
  by (auto simp: t_columns_def t_reindex_def t_take_def case_prod_unfold comp_def)

lemma table_wf_reindex [wf_intros]: "table_wf d \<Longrightarrow> table_wf (t_reindex n d)"
  by (auto simp: table_wf_iff)

lemma table_wf_take [wf_intros]: "table_wf d \<Longrightarrow> n \<le> t_len d \<Longrightarrow> table_wf (t_take n d)"
  by (auto simp: table_wf_iff)

lemma table_wf_drop [wf_intros]: "table_wf d \<Longrightarrow> table_wf (t_drop c d)"
  by (auto simp: table_wf_iff t_columns_def t_drop_def t_col_def distinct_delete delete_conv' split: if_splits)

lemma table_wf_set [wf_intros]: "table_wf d \<Longrightarrow> table_wf (t_set r c v d)"
  by (auto simp: t_set_def table_wf_col intro!: table_wf_put split: option.splits)


lemma t_columns_put:
  "t_columns (t_put c xs d) = (if c \<in> set (t_columns d) then t_columns d else t_columns d @ [c])"
  by (simp add: t_columns_def t_put_def update_keys)

lemma t_columns_drop: "t_columns (t_drop c d) = removeAll c (t_columns d)"
  by (simp add: t_columns_def t_drop_def delete_keys)

lemma map_of_rename_key:
  "c' \<notin> fst ` set ps \<Longrightarrow>
    map_of (map (\<lambda>(j, xs). (if j = c then c' else j, xs)) ps) k =
      (if k = c' then map_of ps c else if k = c then None else map_of ps k)"
proof (induction ps)
  case (Cons p ps)
  obtain j xs where p: "p = (j, xs)" by (cases p)
  from Cons have "c' \<noteq> j" by (auto simp: p)
  with Cons show ?case by (cases "j = c") (auto simp: p)
qed auto

lemma t_col_rename:
  assumes "c' \<notin> set (t_columns d)"
  shows "t_col (t_rename c c' d) k = (if k = c' then t_col d c else if k = c then None else t_col d k)"
  using assms map_of_rename_key [of c' "t_cols d" c k] by (simp add: t_col_def t_rename_def t_columns_def)

lemma table_wf_rename [wf_intros]:
  assumes "table_wf d" "c' \<notin> set (t_columns d)" "c \<in> set (t_columns d)"
  shows "table_wf (t_rename c c' d)"
proof -
  have "t_columns (t_rename c c' d) = map (\<lambda>k. if k = c then c' else k) (t_columns d)"
    by (simp add: t_columns_def t_rename_def comp_def case_prod_unfold)
  moreover have "distinct (map (\<lambda>k. if k = c then c' else k) (t_columns d))"
    using assms by (auto simp: table_wf_iff distinct_map inj_on_def)
  ultimately show ?thesis
    using assms by (auto simp: table_wf_iff t_col_rename split: if_splits)
qed

end
