(* ===== verification/WriteNode.thy ===== *)
theory WriteNode
  imports Cells Transactions
begin

text \<open>
  \<open>core/write_node.py\<close>: the mutable store transactions are applied to. All frames share one
  table whose columns are called \<open>frame::column\<close>; beside it the node keeps, per frame, how
  many rows the frame owns and a stable id for each of them. The theory models \<open>apply\<close> with
  its optimistic check and its rollback, every structural operation, and the row bookkeeping,
  and shows what a successful application writes and what a failed one restores.
  The node's lock makes \<open>apply\<close>, \<open>get\<close> and the row-id readers atomic steps.
\<close>

section \<open>State\<close>

record write_node =
  wn_df :: table
  wn_version :: nat
  wn_frame_rows :: "string \<rightharpoonup> nat"
  wn_row_ids :: "string \<rightharpoonup> string list"
  wn_row_seq :: "string \<rightharpoonup> nat"

definition new_write_node :: "table \<Rightarrow> write_node" where
  "new_write_node d = \<lparr>wn_df = d, wn_version = 0, wn_frame_rows = Map.empty,
     wn_row_ids = Map.empty, wn_row_seq = Map.empty\<rparr>"

definition frame_prefix :: "string \<Rightarrow> string" where
  "frame_prefix fid = fid @ ''::''"

definition frame_columns :: "string \<Rightarrow> table \<Rightarrow> string list" where
  "frame_columns fid d = filter (\<lambda>c. py_startswith c (frame_prefix fid)) (t_columns d)"

section \<open>Row bookkeeping\<close>

definition ensure_row :: "nat \<Rightarrow> write_node \<Rightarrow> write_node" where
  "ensure_row row_idx w =
     (if t_len (wn_df w) < row_idx + 1 then w\<lparr>wn_df := t_reindex (row_idx + 1) (wn_df w)\<rparr> else w)"

text \<open>\<open>_extent_frame\<close>: one past the last row in which some column of the frame holds a value.\<close>

definition extent_frame :: "string \<Rightarrow> table \<Rightarrow> nat" where
  "extent_frame fid d =
     (let kolom = frame_columns fid d;
          terisi = filter (\<lambda>r. list_ex (\<lambda>c. \<not> py_isna (t_at d r c)) kolom) [0..<t_len d]
      in if kolom = [] \<or> terisi = [] then 0 else last terisi + 1)"

definition catat_baris :: "string \<Rightarrow> nat \<Rightarrow> write_node \<Rightarrow> write_node" where
  "catat_baris fid baris w =
     (if fid = [] \<or> baris = 0 then w
      else case wn_frame_rows w fid of
             None \<Rightarrow> w\<lparr>wn_frame_rows := (wn_frame_rows w)(fid \<mapsto> max (extent_frame fid (wn_df w)) baris)\<rparr>
           | Some lama \<Rightarrow>
               if baris > lama then w\<lparr>wn_frame_rows := (wn_frame_rows w)(fid \<mapsto> baris)\<rparr> else w)"

definition row_name :: "nat \<Rightarrow> string" where
  "row_name seq = CHR ''r'' # show_nat seq"

text \<open>The loop of \<open>_pastikan_row_ids\<close>: append fresh names until there are \<open>jumlah\<close>.\<close>

function fill_row_ids :: "nat \<Rightarrow> string list \<Rightarrow> nat \<Rightarrow> string list \<times> nat" where
  "fill_row_ids jumlah ids seq =
     (if length ids < jumlah then fill_row_ids jumlah (ids @ [row_name seq]) (seq + 1) else (ids, seq))"
  by pat_completeness auto
termination by (relation "measure (\<lambda>(n, ids, _). n - length ids)") auto

declare fill_row_ids.simps [simp del]

definition the_list :: "'a list option \<Rightarrow> 'a list" where
  "the_list m = (case m of None \<Rightarrow> [] | Some xs \<Rightarrow> xs)"

definition the_nat :: "nat option \<Rightarrow> nat" where
  "the_nat m = (case m of None \<Rightarrow> 0 | Some n \<Rightarrow> n)"

definition pastikan_row_ids :: "string \<Rightarrow> nat \<Rightarrow> write_node \<Rightarrow> string list \<times> write_node" where
  "pastikan_row_ids fid jumlah w =
     (let (ids, seq) = fill_row_ids jumlah (the_list (wn_row_ids w fid)) (the_nat (wn_row_seq w fid))
      in (ids, w\<lparr>wn_row_ids := (wn_row_ids w)(fid \<mapsto> ids),
                 wn_row_seq := (wn_row_seq w)(fid \<mapsto> max seq (length ids))\<rparr>))"

definition next_row_id :: "string \<Rightarrow> write_node \<Rightarrow> string \<times> write_node" where
  "next_row_id fid w =
     (let seq = the_nat (wn_row_seq w fid)
      in (row_name seq, w\<lparr>wn_row_seq := (wn_row_seq w)(fid \<mapsto> seq + 1)\<rparr>))"

fun next_row_ids :: "nat \<Rightarrow> string \<Rightarrow> write_node \<Rightarrow> string list \<times> write_node" where
  "next_row_ids 0 fid w = ([], w)"
| "next_row_ids (Suc k) fid w =
     (let (rid, w1) = next_row_id fid w; (rids, w2) = next_row_ids k fid w1 in (rid # rids, w2))"

definition frame_rows_now :: "string \<Rightarrow> write_node \<Rightarrow> nat" where
  "frame_rows_now fid w =
     (case wn_frame_rows w fid of None \<Rightarrow> extent_frame fid (wn_df w) | Some n \<Rightarrow> n)"

definition restore_row_ids :: "string \<Rightarrow> string list \<Rightarrow> write_node \<Rightarrow> write_node" where
  "restore_row_ids fid ids w =
     (let bersih = filter (\<lambda>rid. rid \<noteq> []) ids in
      if bersih = [] then w
      else let seq = foldl (\<lambda>seq rid. if py_startswith rid ''r'' \<and> py_isdigit (tl rid)
                                        then max seq (read_nat (tl rid) + 1) else seq) 0 bersih
           in w\<lparr>wn_row_ids := (wn_row_ids w)(fid \<mapsto> bersih),
                wn_row_seq := (wn_row_seq w)(fid \<mapsto> max seq (length bersih))\<rparr>)"

definition row_ids :: "string \<Rightarrow> write_node \<Rightarrow> string list \<times> write_node" where
  "row_ids fid w = pastikan_row_ids fid (frame_rows_now fid w) w"

definition row_ids_range :: "string \<Rightarrow> int \<Rightarrow> int option \<Rightarrow> write_node \<Rightarrow> string list \<times> write_node" where
  "row_ids_range fid start stop w =
     (let (ids, w') = pastikan_row_ids fid (frame_rows_now fid w) w;
          hi = (case stop of None \<Rightarrow> length ids | Some e \<Rightarrow> nat (max 0 e))
      in (drop (nat (max 0 start)) (take hi ids), w'))"

section \<open>Structural operations\<close>

text \<open>A loop over columns that rewrites each one's values.\<close>

definition t_update_cols :: "string list \<Rightarrow> (pyval list \<Rightarrow> pyval list) \<Rightarrow> table \<Rightarrow> table" where
  "t_update_cols cs f d =
     foldl (\<lambda>d c. case t_col d c of None \<Rightarrow> d | Some xs \<Rightarrow> t_put c (f xs) d) d cs"

definition insert_at :: "nat \<Rightarrow> 'a list \<Rightarrow> 'a list \<Rightarrow> 'a list" where
  "insert_at i new xs = take i xs @ new @ drop i xs"

definition clamp :: "int \<Rightarrow> nat \<Rightarrow> nat" where
  "clamp i hi = nat (max 0 (min i (int hi)))"

text \<open>\<open>kind == "insert_rows"\<close>; \<open>baris\<close> is the frame's present number of rows.\<close>

definition insert_rows :: "payload \<Rightarrow> string \<Rightarrow> nat \<Rightarrow> write_node \<Rightarrow> write_node" where
  "insert_rows pl fid baris w =
     (if pl_count pl \<le> 0 then w
      else
        let kolom = frame_columns fid (wn_df w);
            jumlah = nat (pl_count pl);
            posisi = clamp (case pl_at pl of None \<Rightarrow> int baris | Some a \<Rightarrow> a) baris;
            target = baris + jumlah;
            w1 = ensure_row (target - 1) w;
            (ids, w2) = pastikan_row_ids fid baris w1;
            n = t_len (wn_df w2);
            d1 = (if posisi < baris
                  then t_update_cols kolom
                         (\<lambda>xs. reindex n (insert_at posisi (replicate jumlah PNone) (take baris xs))) (wn_df w2)
                  else wn_df w2);
            d2 = (if pl_default pl \<noteq> PNone
                  then t_update_cols kolom
                         (\<lambda>xs. take posisi xs @ replicate jumlah (pl_default pl) @ drop (posisi + jumlah) xs) d1
                  else d1);
            diminta = filter (\<lambda>rid. rid \<notin> set ids) (take jumlah (filter (\<lambda>x. x \<noteq> []) (pl_row_ids pl)));
            (baru, w3) = next_row_ids (jumlah - length diminta) fid (w2\<lparr>wn_df := d2\<rparr>)
        in w3\<lparr>wn_row_ids := (wn_row_ids w3)(fid \<mapsto> insert_at posisi (diminta @ baru) ids),
              wn_frame_rows := (wn_frame_rows w3)(fid \<mapsto> target)\<rparr>)"

definition list_index :: "'a \<Rightarrow> 'a list \<Rightarrow> nat" where
  "list_index x xs = length (takeWhile (\<lambda>y. y \<noteq> x) xs)"

definition drop_rows :: "nat list \<Rightarrow> 'a list \<Rightarrow> 'a list" where
  "drop_rows baris xs = map (\<lambda>i. xs ! i) (filter (\<lambda>i. i \<notin> set baris) [0..<length xs])"

text \<open>\<open>kind == "delete_rows"\<close>; \<open>drop(index=\<dots>)\<close> raises KeyError for a row the frame does not have.\<close>

definition delete_rows ::
  "payload \<Rightarrow> string \<Rightarrow> nat \<Rightarrow> write_node \<Rightarrow> py_error option \<times> write_node \<times> payload option" where
  "delete_rows pl fid baris_kini w =
     (let kolom = frame_columns fid (wn_df w);
          (ids, w1) = pastikan_row_ids fid baris_kini w;
          dari_id = map (\<lambda>rid. list_index rid ids) (filter (\<lambda>rid. rid \<in> set ids) (pl_row_ids pl));
          dari_rows = map nat (filter (\<lambda>i. 0 \<le> i \<and> i < int baris_kini) (pl_rows pl));
          baris = sort (remdups (dari_id @ dari_rows));
          n = t_len (wn_df w1)
      in if baris = [] \<or> kolom = [] then (None, w1, None)
         else if list_ex (\<lambda>b. min baris_kini n \<le> b) baris then (Some KeyError, w1, None)
         else (None,
               w1\<lparr>wn_df := t_update_cols kolom (\<lambda>xs. reindex n (drop_rows baris (take baris_kini xs))) (wn_df w1),
                  wn_row_ids := (wn_row_ids w1)(fid \<mapsto> drop_rows baris ids),
                  wn_frame_rows := (wn_frame_rows w1)(fid \<mapsto> baris_kini - length baris)\<rparr>,
               Some (pl\<lparr>pl_deleted_row_ids := Some (map (\<lambda>i. ids ! i) baris)\<rparr>)))"

text \<open>\<open>kind == "rename_column"\<close>.\<close>

definition rename_column :: "payload \<Rightarrow> string \<Rightarrow> write_node \<Rightarrow> py_error option \<times> write_node" where
  "rename_column pl fid w =
     (let lama = pl_name pl; baru = pl_new_name pl;
          kolom_lama = frame_prefix fid @ lama; kolom_baru = frame_prefix fid @ baru in
      if lama = [] \<or> baru = [] \<or> lama = baru then (None, w)
      else if kolom_lama \<notin> set (t_columns (wn_df w)) then (Some ValueError, w)
      else if kolom_baru \<in> set (t_columns (wn_df w)) then (Some ValueError, w)
      else (None, w\<lparr>wn_df := t_rename kolom_lama kolom_baru (wn_df w), wn_version := wn_version w + 1\<rparr>))"

text \<open>\<open>df[urutan]\<close>: the same columns in the given order.\<close>

definition t_reorder :: "string list \<Rightarrow> table \<Rightarrow> table" where
  "t_reorder urutan d =
     d\<lparr>t_cols := map (\<lambda>c. (c, case t_col d c of None \<Rightarrow> [] | Some xs \<Rightarrow> xs)) urutan\<rparr>"

text \<open>\<open>kind == "insert_column"\<close>.\<close>

definition insert_column :: "payload \<Rightarrow> string \<Rightarrow> nat \<Rightarrow> write_node \<Rightarrow> py_error option \<times> write_node" where
  "insert_column pl fid baris_kini w =
     (let nama = pl_name pl; namespaced = frame_prefix fid @ nama;
          kolom = frame_columns fid (wn_df w) in
      if nama = [] then (Some ValueError, w)
      else if namespaced \<in> set (t_columns (wn_df w)) then (Some ValueError, w)
      else
        let seri = (case pl_values pl of None \<Rightarrow> replicate baris_kini PNone
                                       | Some nilai \<Rightarrow> take baris_kini nilai);
            d1 = t_put namespaced (reindex (t_len (wn_df w)) seri) (wn_df w);
            d2 = (case pl_at pl of None \<Rightarrow> d1
                  | Some a \<Rightarrow>
                      let posisi = clamp a (length kolom);
                          urutan = removeAll namespaced (t_columns d1);
                          i = (if posisi < length kolom then list_index (kolom ! posisi) urutan
                               else if kolom \<noteq> [] then list_index (last kolom) urutan + 1
                               else length urutan)
                      in t_reorder (insert_at i [namespaced] urutan) d1)
        in (None, w\<lparr>wn_df := d2\<rparr>))"

text \<open>\<open>kind == "delete_column"\<close>.\<close>

definition delete_column :: "payload \<Rightarrow> string \<Rightarrow> write_node \<Rightarrow> write_node" where
  "delete_column pl fid w =
     (let namespaced = frame_prefix fid @ pl_name pl in
      if namespaced \<in> set (t_columns (wn_df w)) then w\<lparr>wn_df := t_drop namespaced (wn_df w)\<rparr> else w)"

text \<open>
  \<open>_apply_structural\<close>. The result is the exception raised, if any, the state at that point,
  and the operation, whose payload \<open>delete_rows\<close> extends in place.
\<close>

definition apply_structural ::
  "operation \<Rightarrow> write_node \<Rightarrow> py_error option \<times> write_node \<times> operation" where
  "apply_structural op w =
     (let pl = (case op_payload op of None \<Rightarrow> empty_payload | Some p \<Rightarrow> p);
          fid = pl_frame_id pl in
      if fid = [] then (Some ValueError, w, op)
      else
        let baris_kini = frame_rows_now fid w in
        if op_kind op = ''insert_rows'' then (None, insert_rows pl fid baris_kini w, op)
        else if op_kind op = ''delete_rows'' then
          (let (e, w', pl') = delete_rows pl fid baris_kini w
           in (e, w', case pl' of None \<Rightarrow> op | Some p \<Rightarrow> op\<lparr>op_payload := Some p\<rparr>))
        else if op_kind op = ''rename_column'' then
          (let (e, w') = rename_column pl fid w in (e, w', op))
        else if op_kind op = ''insert_column'' then
          (let (e, w') = insert_column pl fid baris_kini w in (e, w', op))
        else if op_kind op = ''delete_column'' then (None, delete_column pl fid w, op)
        else (Some ValueError, w, op))"

section \<open>Apply\<close>

text \<open>
  The first loop of \<open>apply\<close>: the columns the cell operations touch. It runs outside the
  \<open>try\<close>, so an id that does not parse raises out of \<open>apply\<close>.
\<close>

fun touched_cols :: "operation list \<Rightarrow> py_error + string list" where
  "touched_cols [] = Inr []"
| "touched_cols (op # ops) =
     (if is_structural op then touched_cols ops
      else case parse_cell_id (op_cell_id op) of
             Inl e \<Rightarrow> Inl e
           | Inr (col, row) \<Rightarrow>
               (case touched_cols ops of
                  Inl e \<Rightarrow> Inl e
                | Inr cs \<Rightarrow> Inr (if 0 \<le> row then col # cs else cs)))"

definition payload_frame :: "operation \<Rightarrow> string" where
  "payload_frame op = (case op_payload op of None \<Rightarrow> [] | Some p \<Rightarrow> pl_frame_id p)"

definition structural_frames :: "operation list \<Rightarrow> string list" where
  "structural_frames ops =
     remdups (filter (\<lambda>f. f \<noteq> []) (map payload_frame (filter is_structural ops)))"

text \<open>Column snapshots, and per frame its columns with its row count.\<close>

definition col_snapshots :: "string list \<Rightarrow> table \<Rightarrow> (string \<times> pyval list) list" where
  "col_snapshots cs d =
     map (\<lambda>c. (c, case t_col d c of None \<Rightarrow> [] | Some xs \<Rightarrow> xs))
       (filter (\<lambda>c. c \<in> set (t_columns d)) (remdups cs))"

definition frame_snapshots ::
  "string list \<Rightarrow> write_node \<Rightarrow> (string \<times> (string \<times> pyval list) list \<times> nat option) list" where
  "frame_snapshots fids w =
     map (\<lambda>f. (f, col_snapshots (frame_columns f (wn_df w)) (wn_df w), wn_frame_rows w f)) fids"

definition t_put_all :: "(string \<times> pyval list) list \<Rightarrow> table \<Rightarrow> table" where
  "t_put_all snaps d = foldl (\<lambda>d (c, xs). t_put c xs d) d snaps"

text \<open>\<open>_rollback\<close>.\<close>

definition rollback_frame ::
  "string \<times> (string \<times> pyval list) list \<times> nat option \<Rightarrow> write_node \<Rightarrow> write_node" where
  "rollback_frame fs w =
     (case fs of (fid, snap, baris_lama) \<Rightarrow>
        let d1 = foldl (\<lambda>d c. if c \<notin> fst ` set snap then t_drop c d else d) (wn_df w)
                   (frame_columns fid (wn_df w));
            d2 = t_put_all (map (\<lambda>(c, xs). (c, reindex (t_len d1) xs)) snap) d1
        in w\<lparr>wn_df := d2, wn_frame_rows := (wn_frame_rows w)(fid := baris_lama)\<rparr>)"

definition rollback ::
  "(string \<times> pyval list) list \<Rightarrow> nat \<Rightarrow>
   (string \<times> (string \<times> pyval list) list \<times> nat option) list \<Rightarrow> write_node \<Rightarrow> write_node" where
  "rollback snaps orig_len fsnaps w =
     (let d1 = (if t_len (wn_df w) > orig_len then t_take orig_len (wn_df w) else wn_df w)
      in foldl (\<lambda>w fs. rollback_frame fs w) (w\<lparr>wn_df := t_put_all snaps d1\<rparr>) fsnaps)"

text \<open>
  One cell operation inside the \<open>try\<close>: grow the table, create the column, compare with the
  expected old value, write. \<open>None\<close> is the optimistic conflict, with the state it leaves.
\<close>

definition write_cell :: "operation \<Rightarrow> string \<Rightarrow> nat \<Rightarrow> write_node \<Rightarrow> bool \<times> write_node" where
  "write_cell op col r w =
     (let w1 = ensure_row r w;
          w2 = (if col \<notin> set (t_columns (wn_df w1))
                then w1\<lparr>wn_df := t_put col (replicate (t_len (wn_df w1)) PNone) (wn_df w1)\<rparr> else w1)
      in if \<not> same_value (t_at (wn_df w2) r col) (op_old op) then (False, w2)
         else (True, w2\<lparr>wn_df := t_set r col (op_new op) (wn_df w2)\<rparr>))"

text \<open>
  The loop of \<open>apply\<close>: whether it ran to its end, the operations (with the payloads it
  extended), the delta, and the state it stopped in.
\<close>

fun apply_ops ::
  "operation list \<Rightarrow> write_node \<Rightarrow> bool \<times> operation list \<times> op_dict list \<times> write_node" where
  "apply_ops [] w = (True, [], [], w)"
| "apply_ops (op # ops) w =
     (if is_structural op
      then (case apply_structural op w of
              (Some e, w', op') \<Rightarrow> (False, op' # ops, [], w')
            | (None, w', op') \<Rightarrow>
                (let (ok, ops', delta, w'') = apply_ops ops w'
                 in (ok, op' # ops', op_to_dict op' # delta, w'')))
      else (case parse_cell_id (op_cell_id op) of
              Inl e \<Rightarrow> (False, op # ops, [], w)
            | Inr (col, row) \<Rightarrow>
                if row < 0
                then (let (ok, ops', delta, w') = apply_ops ops w in (ok, op # ops', delta, w'))
                else (case write_cell op col (nat row) w of
                        (False, w') \<Rightarrow> (False, op # ops, [], w')
                      | (True, w') \<Rightarrow>
                          (let (ok, ops', delta, w'') = apply_ops ops w'
                           in (ok, op # ops', op_to_dict op # delta, w'')))))"

text \<open>The row-count loop that follows it.\<close>

definition catat_op :: "operation \<Rightarrow> write_node \<Rightarrow> write_node" where
  "catat_op op w =
     (if is_structural op then w
      else case parse_cell_id (op_cell_id op) of
             Inl e \<Rightarrow> w
           | Inr (col, row) \<Rightarrow>
               if row < 0 then w
               else case before_dcolon col of None \<Rightarrow> w | Some fid \<Rightarrow> catat_baris fid (nat row + 1) w)"

text \<open>
  \<open>WriteNode.apply\<close>: the exception it raises, or its boolean result with the operations as it
  leaves them, the delta handed to the callback (when it succeeds) and the new state.
\<close>

definition wn_apply ::
  "operation list \<Rightarrow> write_node \<Rightarrow>
   py_error + bool \<times> operation list \<times> op_dict list \<times> write_node" where
  "wn_apply ops w =
     (case touched_cols ops of
        Inl e \<Rightarrow> Inl e
      | Inr cs \<Rightarrow>
          let snaps = col_snapshots cs (wn_df w);
              fsnaps = frame_snapshots (structural_frames ops) w;
              orig_len = t_len (wn_df w);
              (ok, ops', delta, w') = apply_ops ops w
          in if ok
             then let w'' = foldl (\<lambda>w op. catat_op op w) w' ops'
                  in Inr (True, ops', delta, w''\<lparr>wn_version := wn_version w'' + 1\<rparr>)
             else Inr (False, ops', [], rollback snaps orig_len fsnaps w'))"

text \<open>\<open>WriteNode.get\<close>.\<close>

definition wn_get :: "string \<Rightarrow> write_node \<Rightarrow> py_error + pyval" where
  "wn_get cid w =
     (case parse_cell_id cid of
        Inl e \<Rightarrow> Inl e
      | Inr (col, row) \<Rightarrow>
          if col \<notin> set (t_columns (wn_df w)) \<or> row \<ge> int (t_len (wn_df w)) then Inr PNone
          else if row < 0 then Inl KeyError
          else Inr (t_at (wn_df w) (nat row) col))"


section \<open>What one structural operation may touch\<close>

lemma t_col_update_cols_other: "k \<notin> set cs \<Longrightarrow> t_col (t_update_cols cs f d) k = t_col d k"
proof (induction cs arbitrary: d)
  case (Cons c cs)
  then show ?case by (simp add: t_update_cols_def split: option.split)
qed (simp add: t_update_cols_def)

lemma t_len_update_cols [simp]: "t_len (t_update_cols cs f d) = t_len d"
proof (induction cs arbitrary: d)
  case (Cons c cs)
  then show ?case by (simp add: t_update_cols_def split: option.split)
qed (simp add: t_update_cols_def)

lemma t_columns_update_cols [simp]: "t_columns (t_update_cols cs f d) = t_columns d"
proof (induction cs arbitrary: d)
  case (Cons c cs)
  then show ?case by (auto simp: t_update_cols_def t_columns_put t_columns_Some split: option.split)
qed (simp add: t_update_cols_def)

lemma t_col_update_cols:
  "distinct cs \<Longrightarrow> k \<in> set cs \<Longrightarrow> t_col (t_update_cols cs f d) k = map_option f (t_col d k)"
proof (induction cs arbitrary: d)
  case (Cons c cs)
  have step: "t_update_cols (c # cs) f d =
      t_update_cols cs f (case t_col d c of None \<Rightarrow> d | Some xs \<Rightarrow> t_put c (f xs) d)"
    by (simp add: t_update_cols_def)
  show ?case
  proof (cases "k = c")
    case True
    with Cons.prems show ?thesis
      unfolding step by (subst t_col_update_cols_other) (auto split: option.split)
  next
    case False
    with Cons show ?thesis unfolding step by (auto split: option.split)
  qed
qed simp

lemma table_wf_update_cols:
  "table_wf d \<Longrightarrow> (\<And>xs. length xs = t_len d \<Longrightarrow> length (f xs) = t_len d) \<Longrightarrow>
   table_wf (t_update_cols cs f d)"
proof (induction cs arbitrary: d)
  case (Cons c cs)
  have "table_wf (case t_col d c of None \<Rightarrow> d | Some xs \<Rightarrow> t_put c (f xs) d)"
    using Cons.prems by (auto intro!: table_wf_put simp: table_wf_col split: option.split)
  moreover have "t_len (case t_col d c of None \<Rightarrow> d | Some xs \<Rightarrow> t_put c (f xs) d) = t_len d"
    by (auto split: option.split)
  ultimately show ?case
    using Cons by (simp add: t_update_cols_def)
qed (simp add: t_update_cols_def)

text \<open>
  \<open>frame_effect fid w w'\<close>: from \<open>w\<close> to \<open>w'\<close> the table may have grown, and besides that only
  columns and the row count of the frame \<open>fid\<close> may have changed.
\<close>

definition in_frame :: "string \<Rightarrow> string \<Rightarrow> bool" where
  "in_frame fid c = py_startswith c (frame_prefix fid)"

definition frame_effect :: "string \<Rightarrow> write_node \<Rightarrow> write_node \<Rightarrow> bool" where
  "frame_effect fid w w' =
     (table_wf (wn_df w') \<and> t_len (wn_df w) \<le> t_len (wn_df w') \<and>
      (\<forall>c. \<not> in_frame fid c \<longrightarrow> t_col (wn_df w') c = map_option (reindex (t_len (wn_df w'))) (t_col (wn_df w) c)) \<and>
      (\<forall>f. f \<noteq> fid \<longrightarrow> wn_frame_rows w' f = wn_frame_rows w f))"

lemma in_frame_columns: "c \<in> set (frame_columns fid d) \<Longrightarrow> in_frame fid c"
  by (simp add: frame_columns_def in_frame_def)

lemma in_frame_prefix [simp]: "in_frame fid (frame_prefix fid @ s)"
  by (simp add: in_frame_def py_startswith_def)

lemma wf_reindex_col:
  "table_wf d \<Longrightarrow> map_option (reindex (t_len d)) (t_col d c) = t_col d c"
  by (cases "t_col d c") (auto simp: table_wf_col)

lemma frame_effect_refl: "table_wf (wn_df w) \<Longrightarrow> frame_effect fid w w"
  by (simp add: frame_effect_def wf_reindex_col)

text \<open>A step that keeps the table's length and writes to the frame's own columns only.\<close>

lemma frame_effect_local:
  assumes "table_wf (wn_df w)" "table_wf (wn_df w')" "t_len (wn_df w') = t_len (wn_df w)"
    and "\<And>c. \<not> in_frame fid c \<Longrightarrow> t_col (wn_df w') c = t_col (wn_df w) c"
    and "\<And>f. f \<noteq> fid \<Longrightarrow> wn_frame_rows w' f = wn_frame_rows w f"
  shows "frame_effect fid w w'"
  using assms by (simp add: frame_effect_def wf_reindex_col)

lemma ensure_row_simps [simp]:
  "wn_frame_rows (ensure_row r w) = wn_frame_rows w" "wn_version (ensure_row r w) = wn_version w"
  "wn_row_ids (ensure_row r w) = wn_row_ids w" "wn_row_seq (ensure_row r w) = wn_row_seq w"
  "t_columns (wn_df (ensure_row r w)) = t_columns (wn_df w)"
  by (simp_all add: ensure_row_def)

lemma ensure_row_len [simp]: "t_len (wn_df (ensure_row r w)) = max (r + 1) (t_len (wn_df w))"
  by (simp add: ensure_row_def max_def)

lemma ensure_row_wf [wf_intros]: "table_wf (wn_df w) \<Longrightarrow> table_wf (wn_df (ensure_row r w))"
  by (simp add: ensure_row_def table_wf_reindex)

lemma ensure_row_col:
  "table_wf (wn_df w) \<Longrightarrow>
   t_col (wn_df (ensure_row r w)) c = map_option (reindex (max (r + 1) (t_len (wn_df w)))) (t_col (wn_df w) c)"
  by (auto simp: ensure_row_def max_def wf_reindex_col)

lemma pastikan_row_ids_df [simp]:
  "wn_df (snd (pastikan_row_ids fid n w)) = wn_df w"
  "wn_frame_rows (snd (pastikan_row_ids fid n w)) = wn_frame_rows w"
  "wn_version (snd (pastikan_row_ids fid n w)) = wn_version w"
  by (simp_all add: pastikan_row_ids_def case_prod_unfold Let_def)

lemma next_row_ids_df [simp]:
  "wn_df (snd (next_row_ids k fid w)) = wn_df w"
  "wn_frame_rows (snd (next_row_ids k fid w)) = wn_frame_rows w"
  "wn_version (snd (next_row_ids k fid w)) = wn_version w"
  by (induction k arbitrary: w) (simp_all add: next_row_id_def case_prod_unfold Let_def)

lemma clamp_le [simp]: "clamp i n \<le> n"
  by (simp add: clamp_def)

lemma frame_effect_insert_rows:
  assumes wf: "table_wf (wn_df w)"
  shows "frame_effect fid w (insert_rows pl fid baris w)"
proof (cases "pl_count pl \<le> 0")
  case True
  with wf show ?thesis by (simp add: insert_rows_def frame_effect_refl)
next
  case False
  define jumlah posisi where "jumlah = nat (pl_count pl)"
    and "posisi = clamp (case pl_at pl of None \<Rightarrow> int baris | Some a \<Rightarrow> a) baris"
  define w1 where "w1 = ensure_row (baris + jumlah - 1) w"
  define d1 where "d1 = (if posisi < baris then t_update_cols (frame_columns fid (wn_df w))
      (\<lambda>xs. reindex (t_len (wn_df w1)) (insert_at posisi (replicate jumlah PNone) (take baris xs))) (wn_df w1)
      else wn_df w1)"
  define d2 where "d2 = (if pl_default pl \<noteq> PNone then t_update_cols (frame_columns fid (wn_df w))
      (\<lambda>xs. take posisi xs @ replicate jumlah (pl_default pl) @ drop (posisi + jumlah) xs) d1 else d1)"
  have len: "posisi + jumlah \<le> t_len (wn_df w1)"
  proof -
    have "posisi \<le> baris" by (simp add: posisi_def)
    then show ?thesis by (auto simp: w1_def)
  qed
  have wf1: "table_wf (wn_df w1)" using wf by (simp add: w1_def ensure_row_wf)
  have wfd1: "table_wf d1" "t_len d1 = t_len (wn_df w1)"
    using wf1 by (auto simp: d1_def intro!: table_wf_update_cols)
  have wfd2: "table_wf d2" "t_len d2 = t_len (wn_df w1)"
    using wfd1 len by (auto simp: d2_def intro!: table_wf_update_cols)
  have other: "\<not> in_frame fid c \<Longrightarrow> t_col d2 c = t_col (wn_df w1) c" for c
  proof -
    assume "\<not> in_frame fid c"
    then have "c \<notin> set (frame_columns fid (wn_df w))" using in_frame_columns by blast
    then show ?thesis by (simp add: d2_def d1_def t_col_update_cols_other)
  qed
  have df: "wn_df (insert_rows pl fid baris w) = d2"
    using False by (simp add: insert_rows_def Let_def case_prod_unfold d2_def d1_def w1_def jumlah_def posisi_def)
  have rows: "wn_frame_rows (insert_rows pl fid baris w) = (wn_frame_rows w)(fid \<mapsto> baris + jumlah)"
    using False by (simp add: insert_rows_def Let_def case_prod_unfold jumlah_def)
  show ?thesis
    unfolding frame_effect_def df rows
    using wfd2 other wf by (auto simp: w1_def ensure_row_col)
qed

lemma frame_effect_delete_rows:
  assumes wf: "table_wf (wn_df w)"
  shows "frame_effect fid w (fst (snd (delete_rows pl fid baris w)))"
proof (rule frame_effect_local [OF wf])
  show "table_wf (wn_df (fst (snd (delete_rows pl fid baris w))))"
    using wf by (auto simp: delete_rows_def Let_def case_prod_unfold intro!: table_wf_update_cols)
  show "t_len (wn_df (fst (snd (delete_rows pl fid baris w)))) = t_len (wn_df w)"
    by (auto simp: delete_rows_def Let_def case_prod_unfold)
  show "wn_frame_rows (fst (snd (delete_rows pl fid baris w))) f = wn_frame_rows w f" if "f \<noteq> fid" for f
    using that by (auto simp: delete_rows_def Let_def case_prod_unfold)
  show "t_col (wn_df (fst (snd (delete_rows pl fid baris w)))) c = t_col (wn_df w) c" if "\<not> in_frame fid c" for c
  proof -
    have "c \<notin> set (frame_columns fid (wn_df w))" using that in_frame_columns by blast
    then show ?thesis by (auto simp: delete_rows_def Let_def case_prod_unfold t_col_update_cols_other)
  qed
qed

lemma frame_effect_rename_column:
  "table_wf (wn_df w) \<Longrightarrow> frame_effect fid w (snd (rename_column pl fid w))"
  by (rule frame_effect_local)
    (auto simp: rename_column_def Let_def t_col_rename intro!: table_wf_rename)

lemma t_col_reorder:
  "c \<in> set cs \<Longrightarrow> distinct cs \<Longrightarrow> t_col (t_reorder cs d) c = Some (case t_col d c of None \<Rightarrow> [] | Some xs \<Rightarrow> xs)"
proof -
  have "c \<in> set cs \<Longrightarrow> map_of (map (\<lambda>c. (c, f c)) cs) c = Some (f c)" for f :: "string \<Rightarrow> pyval list"
    by (induction cs) auto
  moreover have "t_col (t_reorder cs d) c =
      map_of (map (\<lambda>c. (c, case t_col d c of None \<Rightarrow> [] | Some xs \<Rightarrow> xs)) cs) c"
    by (simp add: t_col_def t_reorder_def)
  ultimately show "c \<in> set cs \<Longrightarrow> ?thesis" by simp
qed

lemma t_col_reorder_perm:
  "distinct cs \<Longrightarrow> set cs = set (t_columns d) \<Longrightarrow> t_col (t_reorder cs d) c = t_col d c"
proof (cases "c \<in> set cs")
  case True
  assume "distinct cs" "set cs = set (t_columns d)"
  with True show ?thesis by (auto simp: t_col_reorder t_columns_Some split: option.split)
next
  case False
  assume "set cs = set (t_columns d)"
  with False have "t_col d c = None" by (simp flip: t_columns_None)
  moreover have "c \<notin> set (t_columns (t_reorder cs d))"
    using False by (simp add: t_columns_def t_reorder_def comp_def)
  ultimately show ?thesis by (simp add: t_columns_None)
qed

lemma table_wf_reorder:
  "table_wf d \<Longrightarrow> distinct cs \<Longrightarrow> set cs = set (t_columns d) \<Longrightarrow> table_wf (t_reorder cs d)"
  unfolding table_wf_iff by (simp add: t_col_reorder_perm) (simp add: t_columns_def t_reorder_def comp_def)

lemma insert_at_perm: "set (insert_at i new xs) = set new \<union> set xs"
  by (simp add: insert_at_def) (metis Un_assoc Un_commute append_take_drop_id set_append)

lemma distinct_insert_at: "distinct xs \<Longrightarrow> x \<notin> set xs \<Longrightarrow> distinct (insert_at i [x] xs)"
proof -
  assume d: "distinct xs" "x \<notin> set xs"
  then have "distinct (take i xs @ drop i xs)" by simp
  moreover have "x \<notin> set (take i xs)" "x \<notin> set (drop i xs)"
    using d by (auto dest: in_set_takeD in_set_dropD)
  ultimately show ?thesis by (auto simp: insert_at_def simp del: append_take_drop_id)
qed

lemma frame_effect_insert_column:
  assumes wf: "table_wf (wn_df w)"
  shows "frame_effect fid w (snd (insert_column pl fid baris w))"
proof (cases "pl_name pl = [] \<or> frame_prefix fid @ pl_name pl \<in> set (t_columns (wn_df w))")
  case True
  then show ?thesis using wf by (auto simp: insert_column_def Let_def frame_effect_refl)
next
  case False
  let ?c = "frame_prefix fid @ pl_name pl"
  let ?seri = "reindex (t_len (wn_df w)) (case pl_values pl of None \<Rightarrow> replicate baris PNone
                                       | Some nilai \<Rightarrow> take baris nilai)"
  let ?d1 = "t_put ?c ?seri (wn_df w)"
  have wf1: "table_wf ?d1" using wf by (simp add: table_wf_put)
  have "\<exists>d2. wn_df (snd (insert_column pl fid baris w)) = d2 \<and> (d2 = ?d1 \<or>
      (\<exists>i. d2 = t_reorder (insert_at i [?c] (removeAll ?c (t_columns ?d1))) ?d1))"
    using False by (auto simp: insert_column_def Let_def split: option.splits)
  then obtain d2 where d2: "wn_df (snd (insert_column pl fid baris w)) = d2"
    and alt: "d2 = ?d1 \<or> (\<exists>i. d2 = t_reorder (insert_at i [?c] (removeAll ?c (t_columns ?d1))) ?d1)"
    by blast
  have cols: "?c \<in> set (t_columns ?d1)" by (simp add: t_columns_put)
  have perm: "distinct (insert_at i [?c] (removeAll ?c (t_columns ?d1)))"
    "set (insert_at i [?c] (removeAll ?c (t_columns ?d1))) = set (t_columns ?d1)" for i
    using wf1 cols by (auto simp: insert_at_perm table_wf_iff intro!: distinct_insert_at distinct_removeAll)
  have "table_wf d2 \<and> t_len d2 = t_len (wn_df w) \<and> (\<forall>c. t_col d2 c = t_col ?d1 c)"
    using alt wf1 perm by (auto simp: t_col_reorder_perm table_wf_reorder) (simp add: t_reorder_def)
  then show ?thesis
    using wf d2 by (intro frame_effect_local)
      (auto simp: insert_column_def Let_def split: option.splits)
qed

lemma frame_effect_delete_column:
  "table_wf (wn_df w) \<Longrightarrow> frame_effect fid w (delete_column pl fid w)"
  by (rule frame_effect_local) (auto simp: delete_column_def Let_def intro!: table_wf_drop)

text \<open>The summary: a structural operation stays inside the frame its payload names.\<close>

lemma frame_effect_structural:
  assumes "table_wf (wn_df w)" "apply_structural op w = (e, w', op')"
  shows "frame_effect (payload_frame op) w w'"
proof -
  have "payload_frame op = pl_frame_id (case op_payload op of None \<Rightarrow> empty_payload | Some p \<Rightarrow> p)"
    by (simp add: payload_frame_def empty_payload_def split: option.split)
  then show ?thesis
    using assms frame_effect_refl [OF assms(1)]
      frame_effect_insert_rows [OF assms(1)] frame_effect_delete_rows [OF assms(1)]
      frame_effect_rename_column [OF assms(1)] frame_effect_insert_column [OF assms(1)]
      frame_effect_delete_column [OF assms(1)]
    unfolding apply_structural_def Let_def
    by (auto simp: case_prod_unfold split: if_splits)
qed


section \<open>Rollback\<close>

text \<open>
  What the loop of \<open>apply\<close> keeps, whatever it does: outside the touched columns \<open>T\<close> and the
  frames \<open>F\<close> of structural operations, the rows that were there at the start are intact.
\<close>

definition kept :: "string set \<Rightarrow> string set \<Rightarrow> write_node \<Rightarrow> write_node \<Rightarrow> bool" where
  "kept T F w0 w =
     (table_wf (wn_df w) \<and> t_len (wn_df w0) \<le> t_len (wn_df w) \<and>
      (\<forall>f. f \<notin> F \<longrightarrow> wn_frame_rows w f = wn_frame_rows w0 f) \<and>
      (\<forall>c xs. t_col (wn_df w0) c = Some xs \<longrightarrow>
         c \<in> T \<or> (\<exists>f \<in> F. in_frame f c) \<or>
         (\<exists>ys. t_col (wn_df w) c = Some ys \<and> take (t_len (wn_df w0)) ys = xs)))"

lemma kept_colE:
  assumes "kept T F w0 w" "t_col (wn_df w0) c = Some xs" "\<not> (c \<in> T \<or> (\<exists>f \<in> F. in_frame f c))"
  obtains ys where "t_col (wn_df w) c = Some ys" "take (t_len (wn_df w0)) ys = xs"
  using assms unfolding kept_def by blast

lemma kept_refl: "table_wf (wn_df w) \<Longrightarrow> kept T F w w"
  by (auto simp: kept_def table_wf_col)

lemma kept_frame_effect:
  assumes "kept T F w0 w" "frame_effect fid w w'" "fid \<in> F"
  shows "kept T F w0 w'"
  unfolding kept_def
proof (intro conjI allI impI)
  show "table_wf (wn_df w')" "t_len (wn_df w0) \<le> t_len (wn_df w')"
    using assms by (auto simp: kept_def frame_effect_def)
  show "wn_frame_rows w' f = wn_frame_rows w0 f" if "f \<notin> F" for f
    using assms that by (auto simp: kept_def frame_effect_def)
  show "c \<in> T \<or> (\<exists>f \<in> F. in_frame f c) \<or>
      (\<exists>ys. t_col (wn_df w') c = Some ys \<and> take (t_len (wn_df w0)) ys = xs)"
    if c: "t_col (wn_df w0) c = Some xs" for c xs
  proof (cases "c \<in> T \<or> (\<exists>f \<in> F. in_frame f c)")
    case False
    obtain ys where ys: "t_col (wn_df w) c = Some ys" "take (t_len (wn_df w0)) ys = xs"
      by (rule kept_colE [OF assms(1) c False])
    have len: "length ys = t_len (wn_df w)" using assms(1) ys by (auto simp: kept_def table_wf_col)
    have "t_col (wn_df w') c = Some (reindex (t_len (wn_df w')) ys)"
      using assms False ys by (auto simp: frame_effect_def)
    moreover have "take (t_len (wn_df w0)) (reindex (t_len (wn_df w')) ys) = take (t_len (wn_df w0)) ys"
      using assms len by (intro take_reindex) (auto simp: kept_def frame_effect_def)
    ultimately show ?thesis using ys by auto
  qed auto
qed

lemma write_cell_effect:
  assumes wf: "table_wf (wn_df w)" and res: "write_cell op col r w = (b, w')"
  shows "table_wf (wn_df w') \<and> t_len (wn_df w') = max (r + 1) (t_len (wn_df w))
    \<and> wn_frame_rows w' = wn_frame_rows w \<and> wn_version w' = wn_version w
    \<and> (\<forall>c. c \<noteq> col \<longrightarrow> t_col (wn_df w') c = map_option (reindex (t_len (wn_df w'))) (t_col (wn_df w) c))"
proof -
  define w1 where "w1 = ensure_row r w"
  define w2 where "w2 = (if col \<notin> set (t_columns (wn_df w1))
     then w1\<lparr>wn_df := t_put col (replicate (t_len (wn_df w1)) PNone) (wn_df w1)\<rparr> else w1)"
  have wf2: "table_wf (wn_df w2)" "t_len (wn_df w2) = max (r + 1) (t_len (wn_df w))"
    using wf by (auto simp: w2_def w1_def intro!: wf_intros table_wf_put ensure_row_wf)
  have col2: "c \<noteq> col \<Longrightarrow> t_col (wn_df w2) c = map_option (reindex (t_len (wn_df w2))) (t_col (wn_df w) c)" for c
    using wf by (auto simp: w2_def w1_def ensure_row_col)
  have "w' = w2 \<or> w' = w2\<lparr>wn_df := t_set r col (op_new op) (wn_df w2)\<rparr>"
    using res by (auto simp: write_cell_def Let_def w2_def w1_def split: if_splits)
  then show ?thesis
    using wf2 col2 by (auto simp: table_wf_set t_col_set w2_def w1_def)
qed

lemma kept_write_cell:
  assumes k: "kept T F w0 w" and res: "write_cell op col r w = (b, w')" and T: "col \<in> T"
  shows "kept T F w0 w'"
proof -
  have wf: "table_wf (wn_df w)" using k by (simp add: kept_def)
  note eff = write_cell_effect [OF wf res]
  show ?thesis
    unfolding kept_def
  proof (intro conjI allI impI)
    show "table_wf (wn_df w')" "t_len (wn_df w0) \<le> t_len (wn_df w')"
      using eff k by (auto simp: kept_def)
    show "wn_frame_rows w' f = wn_frame_rows w0 f" if "f \<notin> F" for f
      using eff k that by (auto simp: kept_def)
    show "c \<in> T \<or> (\<exists>f \<in> F. in_frame f c) \<or>
        (\<exists>ys. t_col (wn_df w') c = Some ys \<and> take (t_len (wn_df w0)) ys = xs)"
      if c: "t_col (wn_df w0) c = Some xs" for c xs
    proof (cases "c \<in> T \<or> (\<exists>f \<in> F. in_frame f c)")
      case False
      obtain ys where ys: "t_col (wn_df w) c = Some ys" "take (t_len (wn_df w0)) ys = xs"
        by (rule kept_colE [OF k c False])
      have len: "length ys = t_len (wn_df w)" using wf ys by (simp add: table_wf_col)
      from False T have "c \<noteq> col" by blast
      with eff ys have "t_col (wn_df w') c = Some (reindex (t_len (wn_df w')) ys)" by simp
      moreover have "take (t_len (wn_df w0)) (reindex (t_len (wn_df w')) ys) = take (t_len (wn_df w0)) ys"
        using eff len k by (intro take_reindex) (auto simp: kept_def)
      ultimately show ?thesis using ys by auto
    qed auto
  qed
qed

lemma structural_no_frame:
  "payload_frame op = [] \<Longrightarrow> apply_structural op w = (Some ValueError, w, op)"
  by (auto simp: apply_structural_def payload_frame_def empty_payload_def Let_def split: option.splits)

lemma kept_structural:
  assumes "kept T F w0 w" "apply_structural op w = (e, w', op')"
    and "payload_frame op = [] \<or> payload_frame op \<in> F"
  shows "kept T F w0 w'"
proof (cases "payload_frame op = []")
  case True
  with assms structural_no_frame [OF True, of w] show ?thesis by simp
next
  case False
  have "table_wf (wn_df w)" using assms(1) by (simp add: kept_def)
  from kept_frame_effect [OF assms(1) frame_effect_structural [OF this assms(2)]] False assms(3)
  show ?thesis by simp
qed

lemma touched_cols_mem:
  "touched_cols ops = Inr cs \<Longrightarrow> op \<in> set ops \<Longrightarrow> \<not> is_structural op \<Longrightarrow>
   \<exists>col row. parse_cell_id (op_cell_id op) = Inr (col, row) \<and> (0 \<le> row \<longrightarrow> col \<in> set cs)"
  by (induction ops arbitrary: cs) (auto split: if_splits sum.splits)

lemma kept_apply_ops:
  "apply_ops ops w = (ok, ops', delta, w') \<Longrightarrow> kept T F w0 w \<Longrightarrow>
   (\<And>op. op \<in> set ops \<Longrightarrow> is_structural op \<Longrightarrow> payload_frame op = [] \<or> payload_frame op \<in> F) \<Longrightarrow>
   (\<And>op. op \<in> set ops \<Longrightarrow> \<not> is_structural op \<Longrightarrow>
      \<exists>col row. parse_cell_id (op_cell_id op) = Inr (col, row) \<and> (0 \<le> row \<longrightarrow> col \<in> T)) \<Longrightarrow>
   kept T F w0 w'"
proof (induction ops arbitrary: w ok ops' delta w')
  case (Cons op ops)
  note IH = Cons.IH [OF _ _ Cons.prems(3) Cons.prems(4)]
  show ?case
  proof (cases "is_structural op")
    case True
    obtain e w1 op1 where st: "apply_structural op w = (e, w1, op1)" by (metis prod_cases3)
    have k1: "kept T F w0 w1"
      using kept_structural [OF Cons.prems(2) st] Cons.prems(3) [of op] True by simp
    show ?thesis
    proof (cases e)
      case None
      obtain ok2 o2 d2 w2 where rest: "apply_ops ops w1 = (ok2, o2, d2, w2)" by (metis prod_cases4)
      have "kept T F w0 w2" by (rule IH [OF rest k1]) simp_all
      with Cons.prems(1) True st None rest show ?thesis by simp
    next
      case (Some x)
      with Cons.prems(1) True st k1 show ?thesis by simp
    qed
  next
    case False
    from Cons.prems(4) [of op] False obtain col row
      where p: "parse_cell_id (op_cell_id op) = Inr (col, row)" and T: "0 \<le> row \<longrightarrow> col \<in> T" by auto
    show ?thesis
    proof (cases "row < 0")
      case True
      obtain ok2 o2 d2 w2 where rest: "apply_ops ops w = (ok2, o2, d2, w2)" by (metis prod_cases4)
      have "kept T F w0 w2" by (rule IH [OF rest Cons.prems(2)]) simp_all
      with Cons.prems(1) False p True rest show ?thesis by simp
    next
      case nonneg: False
      obtain b w1 where wc: "write_cell op col (nat row) w = (b, w1)" by (metis prod.exhaust)
      have k1: "kept T F w0 w1"
        using kept_write_cell [OF Cons.prems(2) wc] T nonneg by simp
      show ?thesis
      proof (cases b)
        case True
        obtain ok2 o2 d2 w2 where rest: "apply_ops ops w1 = (ok2, o2, d2, w2)" by (metis prod_cases4)
        have "kept T F w0 w2" by (rule IH [OF rest k1]) simp_all
        with Cons.prems(1) False p nonneg wc True rest show ?thesis by simp
      next
        case no: False
        with Cons.prems(1) False p nonneg wc k1 show ?thesis by simp
      qed
    qed
  qed
qed simp

subsection \<open>What restoring the snapshots gives\<close>

lemma t_len_put_all [simp]: "t_len (t_put_all snaps d) = t_len d"
  by (induction snaps arbitrary: d) (auto simp: t_put_all_def)

lemma t_col_put_all:
  "distinct (map fst snaps) \<Longrightarrow>
   t_col (t_put_all snaps d) c = (case map_of snaps c of None \<Rightarrow> t_col d c | Some xs \<Rightarrow> Some xs)"
proof (induction snaps arbitrary: d)
  case (Cons s snaps)
  obtain k xs where s: "s = (k, xs)" by (cases s)
  have "t_put_all (s # snaps) d = t_put_all snaps (t_put k xs d)" by (simp add: t_put_all_def s)
  moreover have "map_of snaps k = None" using Cons.prems by (simp add: s map_of_eq_None_iff)
  ultimately show ?case using Cons by (auto simp: s split: option.split)
qed (simp add: t_put_all_def)

lemma col_snapshots_map_of:
  "map_of (col_snapshots cs d) c = (if c \<in> set cs then t_col d c else None)"
proof -
  have "map_of (map (\<lambda>c. (c, f c)) xs) c = (if c \<in> set xs then Some (f c) else None)"
    for f :: "string \<Rightarrow> pyval list" and xs
    by (induction xs) auto
  then show ?thesis
    by (auto simp: col_snapshots_def t_columns_Some split: option.splits)
qed

lemma col_snapshots_distinct [simp]: "distinct (map fst (col_snapshots cs d))"
  by (simp add: col_snapshots_def comp_def)

lemma drop_others:
  "t_col (foldl (\<lambda>d c. if c \<notin> S then t_drop c d else d) d cs) k =
     (if k \<in> set cs \<and> k \<notin> S then None else t_col d k)
   \<and> t_len (foldl (\<lambda>d c. if c \<notin> S then t_drop c d else d) d cs) = t_len d"
  by (induction cs arbitrary: d) auto

text \<open>
  \<open>restored w0 w\<close>: every column that \<open>w0\<close> had reads in \<open>w\<close> exactly as before, and the table
  has its old length.
\<close>

definition restored :: "write_node \<Rightarrow> write_node \<Rightarrow> bool" where
  "restored w0 w = (t_len (wn_df w) = t_len (wn_df w0) \<and>
     (\<forall>c xs. t_col (wn_df w0) c = Some xs \<longrightarrow> t_col (wn_df w) c = Some xs))"

lemma fst_col_snapshots: "fst ` set (col_snapshots cs d) = {c \<in> set cs. c \<in> set (t_columns d)}"
  by (auto simp: col_snapshots_def image_iff)

text \<open>One frame put back: its columns of the start are there again, new ones are gone.\<close>

lemma rollback_frame_col:
  fixes fid :: string
  assumes wf0: "table_wf (wn_df w0)" and len: "t_len (wn_df w) = t_len (wn_df w0)"
  defines "w' \<equiv> rollback_frame (fid, col_snapshots (frame_columns fid (wn_df w0)) (wn_df w0), wn_frame_rows w0 fid) w"
  shows "t_len (wn_df w') = t_len (wn_df w0)
    \<and> wn_frame_rows w' = (wn_frame_rows w)(fid := wn_frame_rows w0 fid)
    \<and> t_col (wn_df w') c = (if in_frame fid c then t_col (wn_df w0) c else t_col (wn_df w) c)"
proof -
  let ?snap = "col_snapshots (frame_columns fid (wn_df w0)) (wn_df w0)"
  define d1 where "d1 = foldl (\<lambda>d c. if c \<notin> fst ` set ?snap then t_drop c d else d) (wn_df w)
                   (frame_columns fid (wn_df w))"
  have d1: "t_col d1 k = (if k \<in> set (frame_columns fid (wn_df w)) \<and> k \<notin> fst ` set ?snap
      then None else t_col (wn_df w) k)" "t_len d1 = t_len (wn_df w0)" for k
    using drop_others [of "fst ` set ?snap"] len by (simp_all add: d1_def)
  define snap2 where "snap2 = map (\<lambda>(c, xs). (c, reindex (t_len d1) xs)) ?snap"
  have dist: "distinct (map fst snap2)"
    by (simp add: snap2_def comp_def case_prod_unfold)
  have snap2: "map_of snap2 k = (if in_frame fid k then t_col (wn_df w0) k else None)" for k
  proof -
    have "map_of snap2 k = map_option (reindex (t_len (wn_df w0))) (map_of ?snap k)"
      by (simp add: snap2_def map_of_map_snd d1)
    also have "\<dots> = (if in_frame fid k then t_col (wn_df w0) k else None)"
    proof (cases "k \<in> set (t_columns (wn_df w0))")
      case True
      then show ?thesis
        using wf_reindex_col [OF wf0, of k]
        by (auto simp: col_snapshots_map_of frame_columns_def in_frame_def)
    next
      case False
      then show ?thesis by (auto simp: col_snapshots_map_of t_columns_None)
    qed
    finally show ?thesis .
  qed
  have w': "w' = w\<lparr>wn_df := t_put_all snap2 d1, wn_frame_rows := (wn_frame_rows w)(fid := wn_frame_rows w0 fid)\<rparr>"
    by (simp add: w'_def rollback_frame_def Let_def d1_def snap2_def)
  have "in_frame fid c \<Longrightarrow> t_col (wn_df w0) c = None \<Longrightarrow> t_col d1 c = None"
    using d1(1) [of c]
    by (auto simp: fst_col_snapshots t_columns_Some frame_columns_def in_frame_def t_columns_None)
  moreover have "\<not> in_frame fid c \<Longrightarrow> t_col d1 c = t_col (wn_df w) c"
    using d1(1) [of c] in_frame_columns [of c fid "wn_df w"] by auto
  ultimately show ?thesis
    using d1(2) by (cases "t_col (wn_df w0) c") (auto simp: w' t_col_put_all [OF dist] snap2)
qed

lemma rollback_frames:
  assumes wf0: "table_wf (wn_df w0)"
  shows "t_len (wn_df w) = t_len (wn_df w0) \<Longrightarrow>
    (\<And>c xs. t_col (wn_df w0) c = Some xs \<Longrightarrow> t_col (wn_df w) c \<noteq> Some xs \<Longrightarrow> \<exists>f \<in> set fids. in_frame f c) \<Longrightarrow>
    (\<And>f. f \<notin> set fids \<Longrightarrow> wn_frame_rows w f = wn_frame_rows w0 f) \<Longrightarrow>
    restored w0 (foldl (\<lambda>w fs. rollback_frame fs w) w (frame_snapshots fids w0)) \<and>
    wn_frame_rows (foldl (\<lambda>w fs. rollback_frame fs w) w (frame_snapshots fids w0)) = wn_frame_rows w0"
proof (induction fids arbitrary: w)
  case Nil
  then show ?case by (auto simp: frame_snapshots_def restored_def fun_eq_iff)
next
  case (Cons f fids)
  let ?w = "rollback_frame (f, col_snapshots (frame_columns f (wn_df w0)) (wn_df w0), wn_frame_rows w0 f) w"
  note step = rollback_frame_col [OF wf0 Cons.prems(1), of f]
  have "restored w0 (foldl (\<lambda>w fs. rollback_frame fs w) ?w (frame_snapshots fids w0)) \<and>
      wn_frame_rows (foldl (\<lambda>w fs. rollback_frame fs w) ?w (frame_snapshots fids w0)) = wn_frame_rows w0"
  proof (rule Cons.IH)
    show "t_len (wn_df ?w) = t_len (wn_df w0)" using step by blast
    show "\<exists>g \<in> set fids. in_frame g c"
      if "t_col (wn_df w0) c = Some xs" "t_col (wn_df ?w) c \<noteq> Some xs" for c xs
      using that step [of c] Cons.prems(2) [of c xs] by (auto split: if_splits)
    show "wn_frame_rows ?w g = wn_frame_rows w0 g" if "g \<notin> set fids" for g
      using that step [of "[]"] Cons.prems(3) [of g] by auto
  qed
  then show ?case by (simp add: frame_snapshots_def)
qed

lemma rollback_restores:
  assumes wf: "table_wf (wn_df w0)" and k: "kept (set cs) (set fids) w0 w"
  shows "restored w0 (rollback (col_snapshots cs (wn_df w0)) (t_len (wn_df w0)) (frame_snapshots fids w0) w)
    \<and> wn_frame_rows (rollback (col_snapshots cs (wn_df w0)) (t_len (wn_df w0)) (frame_snapshots fids w0) w)
        = wn_frame_rows w0"
proof -
  let ?n = "t_len (wn_df w0)"
  define d1 where "d1 = (if t_len (wn_df w) > ?n then t_take ?n (wn_df w) else wn_df w)"
  define w1 where "w1 = w\<lparr>wn_df := t_put_all (col_snapshots cs (wn_df w0)) d1\<rparr>"
  have len: "t_len d1 = ?n" using k by (auto simp: d1_def kept_def)
  have d1: "t_col d1 c = map_option (take ?n) (t_col (wn_df w) c)" for c
    using k by (cases "t_col (wn_df w) c") (auto simp: d1_def kept_def table_wf_col)
  have "restored w0 (foldl (\<lambda>w fs. rollback_frame fs w) w1 (frame_snapshots fids w0)) \<and>
      wn_frame_rows (foldl (\<lambda>w fs. rollback_frame fs w) w1 (frame_snapshots fids w0)) = wn_frame_rows w0"
  proof (rule rollback_frames [OF wf])
    show "t_len (wn_df w1) = ?n" by (simp add: w1_def len)
    show "wn_frame_rows w1 f = wn_frame_rows w0 f" if "f \<notin> set fids" for f
      using that k by (simp add: w1_def kept_def)
    show "\<exists>f \<in> set fids. in_frame f c"
      if c: "t_col (wn_df w0) c = Some xs" and ne: "t_col (wn_df w1) c \<noteq> Some xs" for c xs
    proof (rule ccontr)
      assume no: "\<not> ?thesis"
      have w1c: "t_col (wn_df w1) c = (if c \<in> set cs then Some xs else t_col d1 c)"
        using c by (simp add: w1_def t_col_put_all col_snapshots_map_of)
      with ne have "c \<notin> set cs" by auto
      with no have "\<not> (c \<in> set cs \<or> (\<exists>f \<in> set fids. in_frame f c))" by blast
      with k c obtain ys where "t_col (wn_df w) c = Some ys" "take ?n ys = xs"
        by (rule kept_colE)
      with d1 [of c] w1c ne show False by (auto split: if_splits)
    qed
  qed
  then show ?thesis by (simp add: rollback_def Let_def w1_def d1_def)
qed

lemma failed_restores:
  assumes wf: "table_wf (wn_df w)" and res: "wn_apply ops w = Inr (False, ops', delta, w')"
  shows "t_len (wn_df w') = t_len (wn_df w)
    \<and> (\<forall>c xs. t_col (wn_df w) c = Some xs \<longrightarrow> t_col (wn_df w') c = Some xs)
    \<and> wn_frame_rows w' = wn_frame_rows w \<and> delta = []"
proof -
  obtain cs where cs: "touched_cols ops = Inr cs"
    using res by (auto simp: wn_apply_def split: sum.splits)
  obtain ok o1 d1 w1 where run: "apply_ops ops w = (ok, o1, d1, w1)" by (metis prod_cases4)
  have w': "w' = rollback (col_snapshots cs (wn_df w)) (t_len (wn_df w))
      (frame_snapshots (structural_frames ops) w) w1" and delta: "delta = []"
    using res cs run by (auto simp: wn_apply_def Let_def split: if_splits)
  have "kept (set cs) (set (structural_frames ops)) w w1"
    using touched_cols_mem [OF cs]
    by (intro kept_apply_ops [OF run kept_refl [OF wf]]) (auto simp: structural_frames_def)
  from rollback_restores [OF wf this] w' delta show ?thesis by (auto simp: restored_def)
qed

text \<open>
  C5. A transaction that \<open>apply\<close> refuses, by an optimistic conflict or because a structural
  operation raised half-way, is undone: the table has its old number of rows, every column
  that existed before holds exactly its old values, every frame has its old row count, and no
  delta is handed out. This holds for any mixture of cell and structural operations.
\<close>

theorem failed_apply_restores:
  assumes wf: "table_wf (wn_df w)" and res: "wn_apply ops w = Inr (False, ops', delta, w')"
  shows "t_len (wn_df w') = t_len (wn_df w)
    \<and> (\<forall>c xs. t_col (wn_df w) c = Some xs \<longrightarrow> t_col (wn_df w') c = Some xs)
    \<and> wn_frame_rows w' = wn_frame_rows w \<and> delta = []"
  by (rule failed_restores [OF wf res])

lemma failed_apply_restores_witness:
  "\<exists>ops' w'. wn_apply [cell_op ''f::a_0'' (PInt 1) (PInt 5) ''user'', cell_op ''f::a_1'' (PInt 9) (PInt 6) ''user'']
      (new_write_node \<lparr>t_cols = [(''f::a'', [PInt 1, PInt 2])], t_len = 2\<rparr>) = Inr (False, ops', [], w')
     \<and> t_col (wn_df w') ''f::a'' = Some [PInt 1, PInt 2]" (is "\<exists>ops' w'. wn_apply ?ops ?w = _ \<and> _")
proof -
  have wf: "table_wf (wn_df ?w)" by (simp add: new_write_node_def table_wf_def t_columns_def)
  have "case wn_apply ?ops ?w of Inl _ \<Rightarrow> False | Inr (ok, _, d, _) \<Rightarrow> \<not> ok \<and> d = []" by code_simp
  then obtain ops' w' where res: "wn_apply ?ops ?w = Inr (False, ops', [], w')"
    by (auto split: sum.splits)
  have "t_col (wn_df ?w) ''f::a'' = Some [PInt 1, PInt 2]" by (simp add: new_write_node_def t_col_def)
  with failed_apply_restores [OF wf res] res show ?thesis by blast
qed

section \<open>What a successful transaction writes\<close>

text \<open>The content of a cell as the engine's comparisons see it: all missing values are one.\<close>

definition norm_value :: "pyval \<Rightarrow> pyval" where
  "norm_value v = (if py_isna v then PNone else v)"

definition cell_view :: "write_node \<Rightarrow> string \<Rightarrow> nat \<Rightarrow> pyval" where
  "cell_view w c r = norm_value (t_at (wn_df w) r c)"

text \<open>
  The specification of a transaction of cell operations, over nothing but the cells: each
  operation must find its expected old value and then writes its new one; the whole is
  refused otherwise.
\<close>

fun spec_apply :: "operation list \<Rightarrow> (string \<Rightarrow> nat \<Rightarrow> pyval) \<Rightarrow> (string \<Rightarrow> nat \<Rightarrow> pyval) option" where
  "spec_apply [] V = Some V"
| "spec_apply (op # ops) V =
     (case parse_cell_id (op_cell_id op) of
        Inl _ \<Rightarrow> None
      | Inr (col, row) \<Rightarrow>
          if row < 0 then spec_apply ops V
          else if same_value (V col (nat row)) (op_old op)
          then spec_apply ops (V(col := (V col)(nat row := norm_value (op_new op))))
          else None)"

definition names_cell :: "operation \<Rightarrow> bool" where
  "names_cell op = (case parse_cell_id (op_cell_id op) of Inl _ \<Rightarrow> False | Inr (col, row) \<Rightarrow> 0 \<le> row)"

lemma norm_value_simps [simp]:
  "norm_value PNone = PNone" "norm_value PNaN = PNone"
  by (simp_all add: norm_value_def)

lemma same_value_norm [simp]: "same_value (norm_value v) w = same_value v w"
  by (cases v; cases w) (auto simp: norm_value_def same_value_def)

lemma nth_reindex: "length xs \<le> n \<Longrightarrow> r < n \<Longrightarrow> reindex n xs ! r = (if r < length xs then xs ! r else PNaN)"
  by (simp add: reindex_def nth_append min_def)

lemma cell_view_reindex:
  assumes "table_wf d" "table_wf d'" "t_len d \<le> t_len d'"
    and "t_col d' c = map_option (reindex (t_len d')) (t_col d c)"
  shows "norm_value (t_at d' r c) = norm_value (t_at d r c)"
  using assms by (cases "t_col d c") (auto simp: t_at_def nth_reindex table_wf_col)

lemma write_cell_view:
  assumes wf: "table_wf (wn_df w)" and res: "write_cell op col r w = (b, w')"
  shows "b = same_value (cell_view w col r) (op_old op)
    \<and> (b \<longrightarrow> cell_view w' = (cell_view w)(col := (cell_view w col)(r := norm_value (op_new op))))"
proof -
  define w1 where "w1 = ensure_row r w"
  define w2 where "w2 = (if col \<notin> set (t_columns (wn_df w1))
     then w1\<lparr>wn_df := t_put col (replicate (t_len (wn_df w1)) PNone) (wn_df w1)\<rparr> else w1)"
  have wf1: "table_wf (wn_df w1)" and len1: "r < t_len (wn_df w1)" "t_len (wn_df w) \<le> t_len (wn_df w1)"
    using wf by (auto simp: w1_def ensure_row_wf)
  have v1: "cell_view w1 = cell_view w"
    unfolding cell_view_def fun_eq_iff
    using cell_view_reindex [OF wf wf1 len1(2)] wf by (simp add: w1_def ensure_row_col)
  have wf2: "table_wf (wn_df w2)" and len2: "t_len (wn_df w2) = t_len (wn_df w1)"
    using wf1 by (auto simp: w2_def intro: table_wf_put)
  have v2: "cell_view w2 = cell_view w"
    unfolding v1 [symmetric] by (auto simp: fun_eq_iff cell_view_def t_at_def w2_def t_columns_None)
  obtain xs where xs0: "t_col (wn_df w2) col = Some xs"
    by (cases "t_col (wn_df w1) col") (auto simp: w2_def t_columns_None)
  with wf2 len1 len2 have xs: "t_col (wn_df w2) col = Some xs" "r < length xs"
    by (auto dest: table_wf_col)
  have b: "b = same_value (t_at (wn_df w2) r col) (op_old op)"
    and w': "b \<Longrightarrow> w' = w2\<lparr>wn_df := t_set r col (op_new op) (wn_df w2)\<rparr>"
    using res by (auto simp: write_cell_def Let_def w2_def w1_def split: if_splits)
  have "same_value (cell_view w col r) (op_old op) = same_value (t_at (wn_df w2) r col) (op_old op)"
    unfolding v2 [symmetric] by (simp add: cell_view_def)
  moreover have "b \<Longrightarrow> cell_view w' = (cell_view w2)(col := (cell_view w2 col)(r := norm_value (op_new op)))"
    using xs by (auto simp: w' fun_eq_iff cell_view_def t_at_def t_col_set nth_list_update)
  ultimately show ?thesis using b v2 by auto
qed

lemma apply_ops_spec:
  assumes "\<forall>op \<in> set ops. \<not> is_structural op" "table_wf (wn_df w)"
    and "\<forall>op \<in> set ops. \<exists>p. parse_cell_id (op_cell_id op) = Inr p"
  shows "case spec_apply ops (cell_view w) of
      None \<Rightarrow> \<exists>d w'. apply_ops ops w = (False, ops, d, w')
    | Some V \<Rightarrow> \<exists>w'. apply_ops ops w = (True, ops, map op_to_dict (filter names_cell ops), w')
        \<and> cell_view w' = V \<and> table_wf (wn_df w') \<and> wn_version w' = wn_version w"
  using assms
proof (induction ops arbitrary: w)
  case (Cons op ops)
  have names: "names_cell op = (0 \<le> row)" if "parse_cell_id (op_cell_id op) = Inr (col, row)" for col row
    using that by (simp add: names_cell_def)
  from Cons.prems obtain col row where p: "parse_cell_id (op_cell_id op) = Inr (col, row)" by fastforce
  have ns: "\<not> is_structural op" using Cons.prems by simp
  show ?case
  proof (cases "row < 0")
    case True
    with Cons.IH [of w] Cons.prems p ns show ?thesis
      by (auto simp: names [OF p] split: option.splits)
  next
    case False
    obtain b w1 where wc: "write_cell op col (nat row) w = (b, w1)" by (metis prod.exhaust)
    note v = write_cell_view [OF Cons.prems(2) wc]
    note e = write_cell_effect [OF Cons.prems(2) wc]
    show ?thesis
    proof (cases b)
      case True
      with Cons.IH [of w1] Cons.prems p ns wc v e False show ?thesis
        by (auto simp: names [OF p] split: option.splits)
    next
      case no: False
      with p ns wc v False show ?thesis by auto
    qed
  qed
qed simp

lemma touched_cols_parse:
  "touched_cols ops = Inr cs \<Longrightarrow> \<forall>op \<in> set ops. \<not> is_structural op \<longrightarrow> (\<exists>p. parse_cell_id (op_cell_id op) = Inr p)"
  using touched_cols_mem by blast

lemma catat_simps [simp]:
  "wn_df (catat_op op w) = wn_df w" "wn_version (catat_op op w) = wn_version w"
  by (auto simp: catat_op_def catat_baris_def split: sum.split option.split)

lemma fold_catat_simps [simp]:
  "wn_df (foldl (\<lambda>w op. catat_op op w) w ops) = wn_df w"
  "wn_version (foldl (\<lambda>w op. catat_op op w) w ops) = wn_version w"
  by (induction ops arbitrary: w) simp_all

lemma apply_spec:
  assumes wf: "table_wf (wn_df w)" and cells: "\<forall>op \<in> set ops. \<not> is_structural op"
    and ids: "touched_cols ops = Inr cs"
  shows "case spec_apply ops (cell_view w) of
      None \<Rightarrow> \<exists>w'. wn_apply ops w = Inr (False, ops, [], w')
    | Some V \<Rightarrow> \<exists>w'. wn_apply ops w = Inr (True, ops, map op_to_dict (filter names_cell ops), w')
        \<and> cell_view w' = V \<and> table_wf (wn_df w') \<and> wn_version w' = wn_version w + 1"
proof -
  have "\<forall>op \<in> set ops. \<exists>p. parse_cell_id (op_cell_id op) = Inr p"
    using touched_cols_parse [OF ids] cells by blast
  from apply_ops_spec [OF cells wf this] show ?thesis
    using ids by (auto simp: wn_apply_def Let_def cell_view_def fun_eq_iff split: option.splits)
qed

text \<open>
  C6. \<open>apply\<close> implements the specification on transactions of cell operations: it succeeds
  exactly when every operation finds its expected value in turn; then the cells are what the
  specification says (missing values taken as one), the version goes up by one, and the delta
  for the read node is the list of the cell writes, bulk markers left out. Otherwise it
  answers False with an empty delta.
\<close>

theorem apply_refines_spec:
  assumes wf: "table_wf (wn_df w)" and cells: "\<forall>op \<in> set ops. \<not> is_structural op"
    and ids: "touched_cols ops = Inr cs"
  shows "case spec_apply ops (cell_view w) of
      None \<Rightarrow> \<exists>w'. wn_apply ops w = Inr (False, ops, [], w')
    | Some V \<Rightarrow> \<exists>w'. wn_apply ops w = Inr (True, ops, map op_to_dict (filter names_cell ops), w')
        \<and> cell_view w' = V \<and> table_wf (wn_df w') \<and> wn_version w' = wn_version w + 1"
  by (rule apply_spec [OF assms])

lemma apply_refines_spec_witness:
  "\<exists>d w'. wn_apply [cell_op ''f::a_0'' (PInt 1) (PInt 5) ''user'']
      (new_write_node \<lparr>t_cols = [(''f::a'', [PInt 1, PInt 2])], t_len = 2\<rparr>) =
        Inr (True, [cell_op ''f::a_0'' (PInt 1) (PInt 5) ''user''], d, w') \<and> wn_version w' = 1"
  (is "\<exists>d w'. wn_apply ?ops ?w = _ \<and> _")
proof -
  have wf: "table_wf (wn_df ?w)" by (simp add: new_write_node_def table_wf_def t_columns_def)
  have cells: "\<forall>op \<in> set ?ops. \<not> is_structural op" by simp
  have ids: "touched_cols ?ops = Inr [''f::a'']" by code_simp
  have "spec_apply ?ops (cell_view ?w) \<noteq> None" by code_simp
  then obtain V where V: "spec_apply ?ops (cell_view ?w) = Some V" by blast
  from apply_refines_spec [OF wf cells ids] show ?thesis
    unfolding V by (auto simp: new_write_node_def)
qed

text \<open>
  The limit of the rollback: a column that the refused transaction itself created is in no
  snapshot, so it stays, with the values written to it before the conflict. Here one cell of a
  new column is written, the next operation conflicts, \<open>apply\<close> answers False, and reading the
  cell afterwards gives the written value although it was missing before.
\<close>

theorem failed_apply_keeps_new_column:
  "\<exists>ops w w' ops'. table_wf (wn_df w) \<and> list_all (\<lambda>op. \<not> is_structural op) ops
     \<and> wn_get ''f::new_0'' w = Inr PNone
     \<and> wn_apply ops w = Inr (False, ops', [], w')
     \<and> wn_get ''f::new_0'' w' = Inr (PInt 7)"
proof -
  let ?w = "new_write_node \<lparr>t_cols = [(''f::a'', [PInt 1])], t_len = 1\<rparr>"
  let ?ops = "[cell_op ''f::new_0'' PNone (PInt 7) ''user'', cell_op ''f::a_0'' (PInt 9) (PInt 2) ''user'']"
  have "case wn_apply ?ops ?w of Inl _ \<Rightarrow> False
      | Inr (ok, _, d, w') \<Rightarrow> \<not> ok \<and> d = [] \<and> wn_get ''f::new_0'' w' = Inr (PInt 7)"
    by code_simp
  moreover have "wn_get ''f::new_0'' ?w = Inr PNone" by code_simp
  moreover have "table_wf (wn_df ?w)" by (simp add: new_write_node_def table_wf_def t_columns_def)
  moreover have "list_all (\<lambda>op. \<not> is_structural op) ?ops" by simp
  moreover from calculation(1) obtain ops' w' where "wn_apply ?ops ?w = Inr (False, ops', [], w')"
    "wn_get ''f::new_0'' w' = Inr (PInt 7)"
    by (auto split: sum.splits)
  ultimately show ?thesis by blast
qed

section \<open>The table stays well-formed\<close>

lemma table_wf_put_all:
  "table_wf d \<Longrightarrow> \<forall>(c, xs) \<in> set snaps. length xs = t_len d \<Longrightarrow> table_wf (t_put_all snaps d)"
proof (induction snaps arbitrary: d)
  case (Cons s snaps)
  obtain k xs where s: "s = (k, xs)" by (cases s)
  have "t_put_all (s # snaps) d = t_put_all snaps (t_put k xs d)" by (simp add: t_put_all_def s)
  with Cons show ?case by (simp add: s table_wf_put)
qed (simp add: t_put_all_def)

lemma col_snapshots_lengths:
  "table_wf d \<Longrightarrow> \<forall>(c, xs) \<in> set (col_snapshots cs d). length xs = t_len d"
  by (auto simp: col_snapshots_def t_columns_Some table_wf_col)

lemma table_wf_drop_others:
  "table_wf d \<Longrightarrow> table_wf (foldl (\<lambda>d c. if c \<notin> S then t_drop c d else d) d cs)"
  by (induction cs arbitrary: d) (auto intro: table_wf_drop)

lemma table_wf_rollback_frame:
  "table_wf (wn_df w) \<Longrightarrow> table_wf (wn_df (rollback_frame (fid, snap, n) w))"
  unfolding rollback_frame_def Let_def
  by (auto intro!: table_wf_put_all table_wf_drop_others)

lemma table_wf_rollback:
  assumes "table_wf (wn_df w0)" "table_wf (wn_df w)" "t_len (wn_df w0) \<le> t_len (wn_df w)"
  shows "table_wf (wn_df (rollback (col_snapshots cs (wn_df w0)) (t_len (wn_df w0)) fs w))"
proof -
  have fold: "table_wf (wn_df w) \<Longrightarrow> table_wf (wn_df (foldl (\<lambda>w fs. rollback_frame fs w) w fs))" for w
    by (induction fs arbitrary: w) (auto intro: table_wf_rollback_frame)
  show ?thesis
    unfolding rollback_def Let_def
    using assms col_snapshots_lengths [OF assms(1), of cs]
    by (intro fold) (auto intro!: table_wf_put_all table_wf_take)
qed

lemma wn_apply_wf:
  assumes wf: "table_wf (wn_df w)" and res: "wn_apply ops w = Inr (ok, ops', delta, w')"
  shows "table_wf (wn_df w')"
proof -
  obtain cs where cs: "touched_cols ops = Inr cs"
    using res by (auto simp: wn_apply_def split: sum.splits)
  obtain ok1 o1 d1 w1 where run: "apply_ops ops w = (ok1, o1, d1, w1)" by (metis prod_cases4)
  have k: "kept (set cs) (set (structural_frames ops)) w w1"
    using touched_cols_mem [OF cs]
    by (intro kept_apply_ops [OF run kept_refl [OF wf]]) (auto simp: structural_frames_def)
  then have "table_wf (wn_df w1)" "t_len (wn_df w) \<le> t_len (wn_df w1)" by (simp_all add: kept_def)
  then show ?thesis
    using res cs run wf by (auto simp: wn_apply_def Let_def table_wf_rollback split: if_splits)
qed

end
