(* ===== verification/ReadNode.thy ===== *)
theory ReadNode
  imports WriteNode
begin

text \<open>
  \<open>core/read_node.py\<close>: the analytical cache behind \<open>read\<close>. Deltas of the write node are
  buffered and applied in batches: \<open>receive_delta\<close> appends, a full buffer or a timer flushes.
  The theory shows that a cache that receives the deltas in commit order lags behind the write
  node by exactly its buffer, and three ways in which the flush departs from that: a delta with
  a structural operation, deltas delivered out of order, and an explicit NaN.
  Parquet files, SQL queries and MinIO are not modelled.
\<close>

section \<open>State and operations\<close>

record read_node =
  rn_cache :: table
  rn_version :: nat
  rn_buffer :: "(op_dict \<times> nat) list"
  rn_timer :: bool
  rn_batch_size :: nat

definition new_read_node :: read_node where
  "new_read_node = \<lparr>rn_cache = empty_table, rn_version = 0, rn_buffer = [], rn_timer = False,
     rn_batch_size = 500\<rparr>"

type_synonym updates = "(string \<times> (int \<times> pyval) list) list"

text \<open>The loop that aggregates the buffered operations: updates, newest version, last row.\<close>

fun collect :: "(op_dict \<times> nat) list \<Rightarrow> updates \<Rightarrow> nat \<Rightarrow> int \<Rightarrow> py_error + updates \<times> nat \<times> int" where
  "collect [] cu maxv maxr = Inr (cu, maxv, maxr)"
| "collect ((op, version) # ops) cu maxv maxr =
     (let maxv' = (if version > maxv then version else maxv) in
      case parse_cell_id (od_cell_id op) of
        Inl e \<Rightarrow> Inl e
      | Inr (col, row) \<Rightarrow>
          collect ops (AList.update col (AList.update row (od_new op) (the_list (map_of cu col))) cu)
            maxv' (if row > maxr then row else maxr))"

text \<open>The values of one column after its updates: NaN counts as neither written nor null.\<close>

definition merge_column :: "(int \<times> pyval) list \<Rightarrow> pyval list \<Rightarrow> pyval list" where
  "merge_column m xs =
     map (\<lambda>i. case map_of m (int i) of
                None \<Rightarrow> xs ! i
              | Some v \<Rightarrow> if \<not> py_isna v then v else if v = PNone then PNone else xs ! i) [0..<length xs]"

definition add_column :: "string \<Rightarrow> table \<Rightarrow> table" where
  "add_column col d = (if col \<in> set (t_columns d) then d else t_put col (replicate (t_len d) PNone) d)"

definition merge_into :: "table \<Rightarrow> string \<times> (int \<times> pyval) list \<Rightarrow> table" where
  "merge_into d cm = (case t_col d (fst cm) of None \<Rightarrow> d | Some xs \<Rightarrow> t_put (fst cm) (merge_column (snd cm) xs) d)"

definition apply_updates :: "updates \<Rightarrow> int \<Rightarrow> table \<Rightarrow> table" where
  "apply_updates cu maxr d =
     (let target = nat (maxr + 1);
          d1 = (if target > t_len d then t_reindex target d else d);
          d2 = foldl (\<lambda>d col. add_column col d) d1 (map fst cu)
      in foldl merge_into d2 cu)"

text \<open>
  \<open>_flush_buffer_locked\<close>. The buffer is swapped out before the operations are parsed, so when
  a parse raises the batch is gone.
\<close>

definition flush :: "read_node \<Rightarrow> py_error option \<times> read_node" where
  "flush r =
     (let r1 = r\<lparr>rn_timer := False\<rparr> in
      if rn_buffer r = [] then (None, r1)
      else let r2 = r1\<lparr>rn_buffer := []\<rparr> in
        case collect (rn_buffer r) [] (rn_version r) (-1) of
          Inl e \<Rightarrow> (Some e, r2)
        | Inr (cu, maxv, maxr) \<Rightarrow>
            (None, r2\<lparr>rn_cache := apply_updates cu maxr (rn_cache r),
                      rn_version := max (rn_version r) maxv\<rparr>))"

text \<open>\<open>_timer_cb\<close>: the timer's flush swallows the exception.\<close>

definition timer_flush :: "read_node \<Rightarrow> read_node" where
  "timer_flush r = snd (flush r)"

definition receive_delta :: "op_dict list \<Rightarrow> nat \<Rightarrow> read_node \<Rightarrow> py_error option \<times> read_node" where
  "receive_delta delta version r =
     (let r1 = r\<lparr>rn_buffer := rn_buffer r @ map (\<lambda>op. (op, version)) delta\<rparr> in
      if rn_batch_size r1 \<le> length (rn_buffer r1) then flush r1
      else (None, r1\<lparr>rn_timer := True\<rparr>))"

text \<open>\<open>ReadNode.query\<close>, for one cell and for a list.\<close>

definition query_cell :: "string \<Rightarrow> read_node \<Rightarrow> py_error + pyval" where
  "query_cell cid r =
     (case parse_cell_id cid of
        Inl e \<Rightarrow> Inl e
      | Inr (col, row) \<Rightarrow>
          if col \<in> set (t_columns (rn_cache r)) \<and> row < int (t_len (rn_cache r))
          then (if row < 0 then Inl KeyError else Inr (t_at (rn_cache r) (nat row) col))
          else Inr PNone)"

fun query :: "string list \<Rightarrow> read_node \<Rightarrow> py_error + (string \<times> pyval) list" where
  "query [] r = Inr []"
| "query (cid # cids) r =
     (case query_cell cid r of
        Inl e \<Rightarrow> Inl e
      | Inr v \<Rightarrow> (case query cids r of Inl e \<Rightarrow> Inl e | Inr rest \<Rightarrow> Inr ((cid, v) # rest)))"

section \<open>What a flush does to the cells\<close>

definition cache_view :: "read_node \<Rightarrow> string \<Rightarrow> nat \<Rightarrow> pyval" where
  "cache_view r c i = norm_value (t_at (rn_cache r) i c)"

text \<open>The specification: the operations of the delta written one after the other.\<close>

definition deliver_one :: "(string \<Rightarrow> nat \<Rightarrow> pyval) \<Rightarrow> op_dict \<Rightarrow> string \<Rightarrow> nat \<Rightarrow> pyval" where
  "deliver_one V op =
     (case parse_cell_id (od_cell_id op) of
        Inl _ \<Rightarrow> V
      | Inr (col, row) \<Rightarrow> if row < 0 then V else V(col := (V col)(nat row := norm_value (od_new op))))"

definition deliver :: "op_dict list \<Rightarrow> (string \<Rightarrow> nat \<Rightarrow> pyval) \<Rightarrow> string \<Rightarrow> nat \<Rightarrow> pyval" where
  "deliver ops V = foldl deliver_one V ops"

lemma deliver_append: "deliver (xs @ ys) V = deliver ys (deliver xs V)"
  by (simp add: deliver_def)

definition parses :: "op_dict \<Rightarrow> bool" where
  "parses op = (case parse_cell_id (od_cell_id op) of Inl _ \<Rightarrow> False | Inr _ \<Rightarrow> True)"

definition cu_get :: "updates \<Rightarrow> string \<Rightarrow> int \<Rightarrow> pyval option" where
  "cu_get cu c i = map_of (the_list (map_of cu c)) i"

lemma cu_get_Nil [simp]: "cu_get [] c i = None"
  by (simp add: cu_get_def the_list_def)

lemma cu_get_update:
  "cu_get (AList.update col (AList.update row v (the_list (map_of cu col))) cu) c i =
     (if c = col \<and> i = row then Some v else cu_get cu c i)"
  by (simp add: cu_get_def update_conv' the_list_def)

text \<open>A view patched with an update table: rows of the table win where they are present.\<close>

definition patch :: "updates \<Rightarrow> (string \<Rightarrow> nat \<Rightarrow> pyval) \<Rightarrow> string \<Rightarrow> nat \<Rightarrow> pyval" where
  "patch cu V c i = (case cu_get cu c (int i) of None \<Rightarrow> V c i | Some v \<Rightarrow> norm_value v)"

lemma patch_Nil [simp]: "patch [] V = V"
  by (simp add: patch_def fun_eq_iff)

lemma collect_ok: "\<forall>(op, v) \<in> set ops. parses op \<Longrightarrow> \<exists>res. collect ops cu maxv maxr = Inr res"
  by (induction ops cu maxv maxr rule: collect.induct) (auto simp: parses_def Let_def split: sum.splits)

lemma collect_patch:
  "collect ops cu maxv maxr = Inr (cu', maxv', maxr') \<Longrightarrow>
   patch cu' V = deliver (map fst ops) (patch cu V)"
proof (induction ops cu maxv maxr rule: collect.induct)
  case (2 op version ops cu maxv maxr)
  from "2.prems" obtain col row where p: "parse_cell_id (od_cell_id op) = Inr (col, row)"
    by (auto simp: Let_def split: sum.splits)
  have "patch (AList.update col (AList.update row (od_new op) (the_list (map_of cu col))) cu) V =
      deliver_one (patch cu V) op"
    by (auto simp: fun_eq_iff patch_def cu_get_update deliver_one_def p)
  with "2.IH" [OF refl p refl] "2.prems" p show ?case by (simp add: Let_def deliver_def)
qed (simp add: deliver_def)

lemma collect_maxv: "collect ops cu maxv maxr = Inr (cu', maxv', maxr') \<Longrightarrow> maxv \<le> maxv'"
  by (induction ops cu maxv maxr rule: collect.induct)
    (auto simp: Let_def split: sum.splits if_splits, fastforce+)

text \<open>Every row in the table lies below the largest row, every value comes from an operation.\<close>

lemma collect_bounds:
  "collect ops cu maxv maxr = Inr (cu', maxv', maxr') \<Longrightarrow>
   (\<forall>c i v. cu_get cu c i = Some v \<longrightarrow> i \<le> maxr \<and> v \<noteq> PNaN) \<Longrightarrow> \<forall>(op, _) \<in> set ops. od_new op \<noteq> PNaN \<Longrightarrow>
   (\<forall>c i v. cu_get cu' c i = Some v \<longrightarrow> i \<le> maxr' \<and> v \<noteq> PNaN)"
proof (induction ops cu maxv maxr rule: collect.induct)
  case (2 op version ops cu maxv maxr)
  from "2.prems" obtain col row where p: "parse_cell_id (od_cell_id op) = Inr (col, row)"
    by (auto simp: Let_def split: sum.splits)
  have "\<forall>c i v. cu_get (AList.update col (AList.update row (od_new op) (the_list (map_of cu col))) cu) c i = Some v
      \<longrightarrow> i \<le> (if row > maxr then row else maxr) \<and> v \<noteq> PNaN"
  proof (intro allI impI)
    fix c i v
    assume "cu_get (AList.update col (AList.update row (od_new op) (the_list (map_of cu col))) cu) c i = Some v"
    then consider "i = row" "v = od_new op" | "cu_get cu c i = Some v"
      unfolding cu_get_update by (metis option.inject)
    then show "i \<le> (if row > maxr then row else maxr) \<and> v \<noteq> PNaN"
    proof cases
      case 1
      with "2.prems"(3) show ?thesis by simp
    next
      case 2
      with "2.prems"(2) have "i \<le> maxr \<and> v \<noteq> PNaN" by blast
      then show ?thesis by auto
    qed
  qed
  with "2.IH" [OF refl p refl] "2.prems" p show ?case by (simp add: Let_def)
qed simp

lemma collect_keys:
  "collect ops cu maxv maxr = Inr (cu', maxv', maxr') \<Longrightarrow> distinct (map fst cu) \<Longrightarrow> distinct (map fst cu')"
  by (induction ops cu maxv maxr rule: collect.induct)
    (auto simp: Let_def distinct_update split: sum.splits)

subsection \<open>The table part\<close>

lemma fold_add_column:
  "t_len (foldl (\<lambda>d col. add_column col d) d cs) = t_len d
   \<and> (table_wf d \<longrightarrow> table_wf (foldl (\<lambda>d col. add_column col d) d cs))
   \<and> t_col (foldl (\<lambda>d col. add_column col d) d cs) c =
       (case t_col d c of Some xs \<Rightarrow> Some xs | None \<Rightarrow> if c \<in> set cs then Some (replicate (t_len d) PNone) else None)"
proof (induction cs arbitrary: d)
  case (Cons k cs)
  have "table_wf d \<Longrightarrow> table_wf (add_column k d)" "t_len (add_column k d) = t_len d"
    "t_col (add_column k d) c = (case t_col d c of Some xs \<Rightarrow> Some xs
       | None \<Rightarrow> if c = k then Some (replicate (t_len d) PNone) else None)"
    by (auto simp: add_column_def t_columns_Some intro: table_wf_put split: option.splits)
  with Cons [of "add_column k d"] show ?case by (auto split: option.splits)
qed (auto split: option.splits)

lemma length_merge_column [simp]: "length (merge_column m xs) = length xs"
  by (simp add: merge_column_def)

lemma fold_merge_into:
  "distinct (map fst cu) \<Longrightarrow>
   t_len (foldl merge_into d cu) = t_len d
   \<and> (table_wf d \<longrightarrow> table_wf (foldl merge_into d cu))
   \<and> t_col (foldl merge_into d cu) c =
       (case map_of cu c of None \<Rightarrow> t_col d c | Some m \<Rightarrow> map_option (merge_column m) (t_col d c))"
proof (induction cu arbitrary: d)
  case (Cons cm cu)
  obtain k m where cm: "cm = (k, m)" by (cases cm)
  have "table_wf d \<Longrightarrow> table_wf (merge_into d cm)" "t_len (merge_into d cm) = t_len d"
    "t_col (merge_into d cm) c = (if c = k then map_option (merge_column m) (t_col d c) else t_col d c)"
    by (auto simp: merge_into_def cm table_wf_col intro!: table_wf_put split: option.splits)
  moreover have "map_of cu k = None" using Cons.prems by (simp add: cm map_of_eq_None_iff)
  ultimately show ?case using Cons.IH [of "merge_into d cm"] Cons.prems by (auto simp: cm split: option.splits)
qed simp

lemma nth_merge_column:
  "i < length xs \<Longrightarrow> (\<forall>v. map_of m (int i) = Some v \<longrightarrow> v \<noteq> PNaN) \<Longrightarrow>
   norm_value (merge_column m xs ! i) =
     (case map_of m (int i) of None \<Rightarrow> norm_value (xs ! i) | Some v \<Rightarrow> norm_value v)"
  by (auto simp: merge_column_def py_isna_def split: option.split)

lemma apply_updates_view:
  assumes wf: "table_wf d" and dist: "distinct (map fst cu)"
    and bounds: "\<forall>c i v. cu_get cu c i = Some v \<longrightarrow> i \<le> maxr \<and> v \<noteq> PNaN"
  shows "table_wf (apply_updates cu maxr d)
    \<and> norm_value (t_at (apply_updates cu maxr d) i c) = patch cu (\<lambda>c i. norm_value (t_at d i c)) c i"
proof -
  define d1 where "d1 = (if nat (maxr + 1) > t_len d then t_reindex (nat (maxr + 1)) d else d)"
  define d2 where "d2 = foldl (\<lambda>d col. add_column col d) d1 (map fst cu)"
  have au: "apply_updates cu maxr d = foldl merge_into d2 cu"
    by (simp add: apply_updates_def Let_def d1_def d2_def)
  have wf1: "table_wf d1" and len1: "t_len d \<le> t_len d1" "maxr < int (t_len d1)"
    using wf by (auto simp: d1_def table_wf_reindex)
  have v1: "norm_value (t_at d1 i c) = norm_value (t_at d i c)"
    using wf by (intro cell_view_reindex [OF wf wf1 len1(1)]) (auto simp: d1_def wf_reindex_col)
  note d2 = fold_add_column [of d1 "map fst cu" c, folded d2_def]
  note d3 = fold_merge_into [OF dist, of d2 c]
  have wf2: "table_wf d2" using d2 wf1 by blast
  show ?thesis
  proof (intro conjI)
    show "table_wf (apply_updates cu maxr d)" using d3 wf2 by (simp add: au)
    show "norm_value (t_at (apply_updates cu maxr d) i c) = patch cu (\<lambda>c i. norm_value (t_at d i c)) c i"
    proof (cases "map_of cu c")
      case None
      then have "c \<notin> set (map fst cu)" by (simp add: map_of_eq_None_iff)
      with None d2 d3 have "t_col (apply_updates cu maxr d) c = t_col d1 c"
        by (auto simp: au split: option.splits)
      with None v1 show ?thesis by (simp add: patch_def cu_get_def the_list_def t_at_def)
    next
      case (Some m)
      then have mem: "c \<in> set (map fst cu)" by (metis map_of_eq_None_iff option.distinct(1) list.set_map)
      obtain xs where xs: "t_col d2 c = Some xs" using d2 mem by (auto split: option.splits)
      have len: "length xs = t_len d1" using table_wf_col [OF wf2 xs] d2 by simp
      have x: "norm_value (if i < length xs then xs ! i else PNone) = norm_value (t_at d i c)"
        using d2 xs mem len by (simp add: v1 [symmetric]) (auto simp: t_at_def split: option.splits)
      have m: "cu_get cu c (int i) = map_of m (int i)" by (simp add: cu_get_def Some the_list_def)
      have col: "t_col (apply_updates cu maxr d) c = Some (merge_column m xs)"
        using d3 Some xs by (simp add: au)
      show ?thesis
      proof (cases "i < length xs")
        case True
        have "\<forall>v. map_of m (int i) = Some v \<longrightarrow> v \<noteq> PNaN" using bounds m by metis
        from nth_merge_column [OF True this] True x show ?thesis
          by (simp add: patch_def m t_at_def [of "apply_updates _ _ _"] col split: option.split)
      next
        case False
        have "map_of m (int i) = None"
        proof (rule ccontr)
          assume "map_of m (int i) \<noteq> None"
          then obtain v where "cu_get cu c (int i) = Some v" using m by auto
          with bounds have "int i \<le> maxr" by blast
          with False len len1 show False by simp
        qed
        with False x show ?thesis
          by (simp add: patch_def m t_at_def [of "apply_updates _ _ _"] col)
      qed
    qed
  qed
qed

definition clean :: "(op_dict \<times> nat) list \<Rightarrow> bool" where
  "clean ops = (\<forall>(op, _) \<in> set ops. parses op \<and> od_new op \<noteq> PNaN)"

text \<open>A clean buffer is delivered as specified, and the flush does not raise.\<close>

lemma flush_view:
  assumes "table_wf (rn_cache r)" "clean (rn_buffer r)"
  shows "fst (flush r) = None \<and> rn_buffer (snd (flush r)) = [] \<and> table_wf (rn_cache (snd (flush r)))
    \<and> cache_view (snd (flush r)) = deliver (map fst (rn_buffer r)) (cache_view r)
    \<and> rn_version r \<le> rn_version (snd (flush r)) \<and> rn_batch_size (snd (flush r)) = rn_batch_size r"
proof (cases "rn_buffer r = []")
  case True
  with assms show ?thesis by (simp add: flush_def Let_def deliver_def cache_view_def fun_eq_iff)
next
  case False
  have "\<forall>(op, v) \<in> set (rn_buffer r). parses op" using assms(2) by (auto simp: clean_def)
  then obtain cu maxv maxr where c: "collect (rn_buffer r) [] (rn_version r) (-1) = Inr (cu, maxv, maxr)"
    using collect_ok by (metis prod_cases3)
  have "\<forall>(op, _) \<in> set (rn_buffer r). od_new op \<noteq> PNaN" using assms(2) by (auto simp: clean_def)
  then have bounds: "\<forall>c i v. cu_get cu c i = Some v \<longrightarrow> i \<le> maxr \<and> v \<noteq> PNaN"
    by (rule collect_bounds [OF c, rotated]) simp
  have dist: "distinct (map fst cu)" using collect_keys [OF c] by simp
  note av = apply_updates_view [OF assms(1) dist bounds]
  have "cache_view (snd (flush r)) = patch cu (cache_view r)"
    using av False c by (auto simp: flush_def Let_def fun_eq_iff cache_view_def [abs_def])
  also have "\<dots> = deliver (map fst (rn_buffer r)) (cache_view r)"
    using collect_patch [OF c, of "cache_view r"] by simp
  finally show ?thesis using av False c by (simp add: flush_def Let_def)
qed

section \<open>Properties\<close>

text \<open>
  The lag invariant: the write node's cells are the cached ones with the buffer written over
  them.
\<close>

definition lag_inv :: "write_node \<Rightarrow> read_node \<Rightarrow> bool" where
  "lag_inv w r = (table_wf (wn_df w) \<and> table_wf (rn_cache r) \<and> clean (rn_buffer r)
     \<and> cell_view w = deliver (map fst (rn_buffer r)) (cache_view r))"

lemma spec_apply_deliver:
  "spec_apply ops V = Some V' \<Longrightarrow> deliver (map op_to_dict (filter names_cell ops)) V = V'"
proof (induction ops arbitrary: V)
  case (Cons op ops)
  from Cons.prems obtain col row where p: "parse_cell_id (op_cell_id op) = Inr (col, row)"
    by (auto split: sum.splits)
  then have n: "names_cell op = (0 \<le> row)" by (simp add: names_cell_def)
  show ?case
    using Cons.IH Cons.prems p n
    by (cases "row < 0") (auto simp: deliver_def deliver_one_def split: if_splits)
qed (simp add: deliver_def)

lemma receive_delta_lag:
  assumes inv: "lag_inv w r" and cl: "clean (map (\<lambda>op. (op, v)) delta)"
    and view: "cell_view w' = deliver delta (cell_view w)" "table_wf (wn_df w')"
  shows "fst (receive_delta delta v r) = None \<and> lag_inv w' (snd (receive_delta delta v r))"
proof -
  define r1 where "r1 = r\<lparr>rn_buffer := rn_buffer r @ map (\<lambda>op. (op, v)) delta\<rparr>"
  have buf: "clean (rn_buffer r1)" using inv cl by (auto simp: r1_def lag_inv_def clean_def)
  have v1: "cell_view w' = deliver (map fst (rn_buffer r1)) (cache_view r1)"
    using inv view by (simp add: r1_def lag_inv_def deliver_append comp_def cache_view_def [abs_def])
  have wf1: "table_wf (rn_cache r1)" using inv by (simp add: r1_def lag_inv_def)
  note f = flush_view [OF wf1 buf]
  show ?thesis
  proof (cases "rn_batch_size r1 \<le> length (rn_buffer r1)")
    case True
    then have "receive_delta delta v r = flush r1" by (simp add: receive_delta_def r1_def Let_def)
    with f v1 view show ?thesis by (simp add: lag_inv_def clean_def deliver_def)
  next
    case False
    then have "receive_delta delta v r = (None, r1\<lparr>rn_timer := True\<rparr>)"
      by (simp add: receive_delta_def r1_def Let_def)
    with buf wf1 v1 view show ?thesis by (simp add: lag_inv_def cache_view_def [abs_def])
  qed
qed



lemma parse_error: "parse_cell_id cid = Inl e \<Longrightarrow> e = ValueError"
  by (auto simp: parse_cell_id_def split: if_splits option.splits)

lemma collect_error:
  "op \<in> fst ` set ops \<Longrightarrow> parse_cell_id (od_cell_id op) = Inl e \<Longrightarrow> collect ops cu maxv maxr = Inl ValueError"
proof (induction ops cu maxv maxr rule: collect.induct)
  case (2 op1 version ops cu maxv maxr)
  show ?case
  proof (cases "parse_cell_id (od_cell_id op1)")
    case (Inl e1)
    then show ?thesis using parse_error [OF Inl] by (simp add: Let_def)
  next
    case (Inr p)
    obtain col row where p: "p = (col, row)" by (cases p)
    with Inr 2 have "op \<in> fst ` set ops" by auto
    from "2.IH" [OF refl Inr [unfolded p] refl this "2.prems"(2)] Inr p show ?thesis
      by (simp add: Let_def)
  qed
qed simp

text \<open>
  A structural operation in the buffer poisons the batch: its cell id does not parse, the
  flush raises after the buffer was emptied, and the cache and its version stay as they were.
  Every cell write buffered with it, of whatever transaction, is lost to the cache.
\<close>

theorem structural_delta_loses_batch:
  assumes "op \<in> fst ` set (rn_buffer r)" "od_cell_id op = fid @ ''::__structure__''"
  shows "flush r = (Some ValueError, r\<lparr>rn_timer := False, rn_buffer := []\<rparr>)
    \<and> rn_cache (timer_flush r) = rn_cache r \<and> rn_buffer (timer_flush r) = []"
proof -
  have "collect (rn_buffer r) [] (rn_version r) (-1) = Inl ValueError"
    using collect_error [OF assms(1)] parse_structure_id assms(2) by simp
  moreover have "rn_buffer r \<noteq> []" using assms(1) by auto
  ultimately show ?thesis by (simp add: flush_def timer_flush_def Let_def)
qed

definition structural_example :: op_dict where
  "structural_example = op_to_dict (cell_op ''f::__structure__'' PNone PNone ''user''
     \<lparr>op_kind := ''insert_rows'', op_payload := Some (empty_payload\<lparr>pl_frame_id := ''f'', pl_count := 1\<rparr>)\<rparr>)"

lemma structural_delta_loses_batch_witness:
  "let r = snd (receive_delta [structural_example] 2
             (snd (receive_delta [op_to_dict (cell_op ''f::a_0'' PNone (PInt 5) ''user'')] 1 new_read_node)))
   in length (rn_buffer r) = 2 \<and> rn_buffer (timer_flush r) = [] \<and> rn_cache (timer_flush r) = empty_table"
proof -
  let ?r = "snd (receive_delta [structural_example] 2
             (snd (receive_delta [op_to_dict (cell_op ''f::a_0'' PNone (PInt 5) ''user'')] 1 new_read_node)))"
  have buf: "structural_example \<in> fst ` set (rn_buffer ?r)" "length (rn_buffer ?r) = 2" "rn_cache ?r = empty_table"
    by (simp_all add: receive_delta_def new_read_node_def)
  have "od_cell_id structural_example = ''f'' @ ''::__structure__''" by (simp add: structural_example_def)
  from structural_delta_loses_batch [OF buf(1) this] buf show ?thesis by (simp add: Let_def)
qed

text \<open>
  The buffer is applied in the order of arrival, not of the versions it records: two
  successive deltas on one cell that arrive in swapped order (the callback pool has two
  threads) leave the older value in the cache, under the newer version number.
\<close>

theorem swapped_deltas_leave_stale_value:
  fixes c a :: string and i v :: nat and old new :: pyval and r :: read_node
  assumes "table_wf (rn_cache r)" "rn_buffer r = []" "rn_version r \<le> v" "2 < rn_batch_size r"
    and "c \<noteq> []" "old \<noteq> PNaN" "new \<noteq> PNaN"
  defines "first \<equiv> op_to_dict (cell_op (make_cell_id c i) PNone old a)"
    and "second \<equiv> op_to_dict (cell_op (make_cell_id c i) old new a)"
  defines "r' \<equiv> timer_flush (snd (receive_delta [first] (v + 1) (snd (receive_delta [second] (v + 2) r))))"
  shows "cache_view r' c i = norm_value old \<and> rn_version r' = v + 2"
proof -
  let ?r = "snd (receive_delta [first] (v + 1) (snd (receive_delta [second] (v + 2) r)))"
  have p: "parse_cell_id (make_cell_id c i) = Inr (c, int i)" using assms(5) by (rule parse_make_cell_id)
  have buf: "rn_buffer ?r = [(second, v + 2), (first, v + 1)]" "rn_cache ?r = rn_cache r" "rn_version ?r = rn_version r"
    using assms(2,4) by (simp_all add: receive_delta_def Let_def)
  have cl: "clean (rn_buffer ?r)"
    using assms(6,7) p unfolding buf by (simp add: clean_def parses_def first_def second_def)
  have "cache_view r' = deliver [second, first] (cache_view ?r)"
    using flush_view [OF _ cl] assms(1) buf by (simp add: r'_def timer_flush_def)
  then have "cache_view r' c i = norm_value old"
    using p by (simp add: deliver_def deliver_one_def first_def second_def)
  moreover have "rn_version r' = v + 2"
    using buf p assms(3) by (simp add: r'_def timer_flush_def flush_def first_def second_def Let_def)
  ultimately show ?thesis by simp
qed

lemma swapped_deltas_leave_stale_value_witness:
  "cache_view (timer_flush (snd (receive_delta [op_to_dict (cell_op (make_cell_id ''f::a'' 0) PNone (PInt 1) ''u'')] 1
     (snd (receive_delta [op_to_dict (cell_op (make_cell_id ''f::a'' 0) (PInt 1) (PInt 2) ''u'')] 2 new_read_node)))))
     ''f::a'' 0 = PInt 1"
proof -
  have "table_wf (rn_cache new_read_node)" "rn_buffer new_read_node = []" "rn_version new_read_node \<le> 0"
    "2 < rn_batch_size new_read_node"
    by (simp_all add: new_read_node_def table_wf_empty)
  from swapped_deltas_leave_stale_value [OF this, of "''f::a''" "PInt 1" "PInt 2" 0 "''u''"]
  show ?thesis by (simp add: norm_value_def del: One_nat_def flip: One_nat_def)
qed

text \<open>
  An explicit NaN is neither a written value nor a null to the flush: the cache keeps the old
  value where the write node now holds NaN.
\<close>

lemma nan_write_is_dropped:
  "cache_view (timer_flush (snd (receive_delta [op_to_dict (cell_op ''f::a_0'' (PInt 1) PNaN ''u'')] 2
     (timer_flush (snd (receive_delta [op_to_dict (cell_op ''f::a_0'' PNone (PInt 1) ''u'')] 1 new_read_node))))))
     ''f::a'' 0 = PInt 1"
  by code_simp

end
