(* ===== verification/Coordinator.thy ===== *)
theory Coordinator
  imports LockManager Wal ReadNode
begin

text \<open>
  \<open>core/coordinator.py\<close>: the life of a transaction. \<open>submit\<close> takes locks, applies to the write
  node, logs and releases, turning every failure into a rolled-back transaction and a log
  entry; \<open>_wal_replay_loop\<close> brings a node up to date from a shared log. The theory composes the
  lock table, the write node and the log, shows what each outcome of \<open>submit\<close> leaves behind, and
  what a replayed entry does to the cells.
  Sending deltas to the read node and to replicas is asynchronous: the model collects what is
  handed to the callback pool. Logging and timing are not modelled; the clock readings are
  an argument.
\<close>

section \<open>State\<close>

record coordinator =
  co_write :: write_node
  co_locks :: locks
  co_wal :: wal
  co_node_id :: "string option"
  co_leader_id :: "string option"
  co_tx_count :: nat
  co_success_count :: nat
  co_failed_count :: nat
  co_sent :: "(string \<times> op_dict list \<times> nat) list"
  co_cursor :: nat
  co_cursor_file :: "nat option option"
  co_pending_since_save :: nat
  co_save_every :: nat

text \<open>
  \<open>_save_wal_replay_checkpoint\<close>: \<open>co_cursor_file\<close> is \<open>None\<close> without a configured path, else the
  number the file holds, if it exists.
\<close>

definition save_checkpoint :: "bool \<Rightarrow> coordinator \<Rightarrow> coordinator" where
  "save_checkpoint force c =
     (case co_cursor_file c of
        None \<Rightarrow> c
      | Some _ \<Rightarrow>
          if \<not> force \<and> co_pending_since_save c < co_save_every c then c
          else c\<lparr>co_cursor_file := Some (Some (co_cursor c)), co_pending_since_save := 0\<rparr>)"

definition advance_cursor :: "nat \<Rightarrow> bool \<Rightarrow> coordinator \<Rightarrow> coordinator" where
  "advance_cursor lsn persist c =
     (if lsn \<le> co_cursor c then c
      else save_checkpoint persist
             (c\<lparr>co_cursor := lsn, co_pending_since_save := co_pending_since_save c + 1\<rparr>))"

definition load_checkpoint :: "coordinator \<Rightarrow> coordinator" where
  "load_checkpoint c =
     (case co_cursor_file c of
        Some (Some n) \<Rightarrow> c\<lparr>co_cursor := max (co_cursor c) n\<rparr>
      | _ \<Rightarrow> c)"

section \<open>Submit\<close>

definition is_not_leader :: "coordinator \<Rightarrow> bool" where
  "is_not_leader c =
     (co_leader_id c \<noteq> None \<and> co_node_id c \<noteq> None \<and> co_node_id c \<noteq> co_leader_id c)"

definition error_text :: "py_error \<Rightarrow> string" where
  "error_text e = (case e of RuntimeError s \<Rightarrow> s | _ \<Rightarrow> ''invalid'')"

definition log_tx :: "string \<Rightarrow> transaction \<Rightarrow> coordinator \<Rightarrow> coordinator" where
  "log_tx now t c =
     (let (lsn, w) = wal_append now t (co_wal c) in advance_cursor lsn True (c\<lparr>co_wal := w\<rparr>))"

text \<open>
  The body of the \<open>try\<close>: the exception with the transaction and the state it left, or the
  transaction and the state of a normal return. \<open>clk k\<close> is the k-th reading of the clocks.
\<close>

definition bind_tx ::
  "tx_error + transaction \<Rightarrow> transaction \<Rightarrow> coordinator \<Rightarrow>
   (transaction \<Rightarrow> (py_error \<times> transaction \<times> coordinator) + transaction \<times> coordinator) \<Rightarrow>
   (py_error \<times> transaction \<times> coordinator) + transaction \<times> coordinator" where
  "bind_tx m t c k = (case m of Inl _ \<Rightarrow> Inl (RuntimeError ''Invalid transition'', t, c) | Inr t' \<Rightarrow> k t')"

definition try_submit ::
  "(nat \<Rightarrow> rat \<times> string) \<Rightarrow> transaction \<Rightarrow> coordinator \<Rightarrow>
   (py_error \<times> transaction \<times> coordinator) + transaction \<times> coordinator" where
  "try_submit clk t c =
     bind_tx (transition (clk 0) VALIDATING t) t c (\<lambda>t1.
       let (locked, L) = lock_acquire (tx_id t1) (map op_cell_id (tx_ops t1)) (co_locks c);
           c1 = c\<lparr>co_locks := L\<rparr>
       in if \<not> locked then Inl (RuntimeError ''Lock conflict'', t1, c1)
          else bind_tx (transition (clk 1) LOCKED t1) t1 c1 (\<lambda>t2.
            bind_tx (transition (clk 2) APPLYING t2) t2 c1 (\<lambda>t3.
              case wn_apply (tx_ops t3) (co_write c1) of
                Inl e \<Rightarrow> Inl (e, t3, c1)
              | Inr (applied, ops', delta, w') \<Rightarrow>
                  let t4 = t3\<lparr>tx_ops := ops'\<rparr>; c2 = c1\<lparr>co_write := w'\<rparr> in
                  if \<not> applied then Inl (RuntimeError ''Write apply failed'', t4, c2)
                  else
                    let c3 = c2\<lparr>co_sent := co_sent c2 @ [(tx_id t4, delta, wn_version w')]\<rparr> in
                    bind_tx (transition (clk 3) COMMITTED t4) t4 c3 (\<lambda>t5.
                      let c4 = log_tx (snd (clk 4)) t5 c3 in
                      bind_tx (transition (clk 5) SYNCING t5) t5 c4 (\<lambda>t6.
                        bind_tx (transition (clk 6) SYNCED t6) t6 c4 (\<lambda>t7.
                          Inr (t7, c4\<lparr>co_success_count := co_success_count c4 + 1\<rparr>)))))))"

definition submit ::
  "(nat \<Rightarrow> rat \<times> string) \<Rightarrow> string \<Rightarrow> operation list \<Rightarrow> coordinator \<Rightarrow>
   py_error + transaction \<times> coordinator" where
  "submit clk tid ops c =
     (if is_not_leader c then Inl NotLeaderError
      else
        let t = new_transaction ops tid (snd (clk 0)) (fst (clk 0));
            c0 = c\<lparr>co_tx_count := co_tx_count c + 1\<rparr>;
            (t', c') =
              (case try_submit clk t c0 of
                 Inr res \<Rightarrow> res
               | Inl (e, t1, c1) \<Rightarrow>
                   let t2 = tx_fail (clk 7) (clk 8) (t1\<lparr>tx_error := Some (error_text e)\<rparr>);
                       c2 = log_tx (snd (clk 9)) t2 c1
                   in (t2, c2\<lparr>co_failed_count := co_failed_count c2 + 1\<rparr>))
        in Inr (t', c'\<lparr>co_locks := lock_release (tx_id t') (co_locks c')\<rparr>))"

text \<open>\<open>submit_non_transactional\<close>: no locks, no log.\<close>

definition submit_non_transactional ::
  "string \<Rightarrow> operation list \<Rightarrow> coordinator \<Rightarrow> py_error + bool \<times> coordinator" where
  "submit_non_transactional tid ops c =
     (if ops = [] then Inr (True, c)
      else case wn_apply ops (co_write c) of
             Inl e \<Rightarrow> Inl e
           | Inr (applied, _, delta, w') \<Rightarrow>
               let c1 = c\<lparr>co_write := w'\<rparr> in
               if \<not> applied then Inr (False, c1\<lparr>co_failed_count := co_failed_count c1 + 1\<rparr>)
               else Inr (True, c1\<lparr>co_sent := co_sent c1 @ [(tid, delta, wn_version w')]\<rparr>))"

text \<open>\<open>read_fresh\<close>: the write node's value of every cell asked for.\<close>

fun read_fresh :: "string list \<Rightarrow> coordinator \<Rightarrow> py_error + (string \<times> pyval) list" where
  "read_fresh [] c = Inr []"
| "read_fresh (cid # cids) c =
     (case wn_get cid (co_write c) of
        Inl e \<Rightarrow> Inl e
      | Inr v \<Rightarrow> (case read_fresh cids c of Inl e \<Rightarrow> Inl e | Inr rest \<Rightarrow> Inr ((cid, v) # rest)))"

section \<open>Replay\<close>

text \<open>
  The loop of \<open>_apply_wal_entry\<close>: an operation per raw operation that changes something, with
  the present value as the expected one. The kind of the raw operation is not looked at.
\<close>

fun replay_ops :: "op_dict list \<Rightarrow> write_node \<Rightarrow> py_error + operation list" where
  "replay_ops [] w = Inr []"
| "replay_ops (raw # raws) w =
     (if od_cell_id raw = [] then replay_ops raws w
      else case wn_get (od_cell_id raw) w of
             Inl e \<Rightarrow> Inl e
           | Inr current \<Rightarrow>
               if py_eq current (od_new raw) then replay_ops raws w
               else (case replay_ops raws w of
                       Inl e \<Rightarrow> Inl e
                     | Inr ops \<Rightarrow>
                         Inr (\<lparr>op_cell_id = od_cell_id raw, op_old = current, op_new = od_new raw,
                               op_author_type = od_author_type raw, op_author_id = od_author_id raw,
                               op_confidence = od_confidence raw, op_kind = set_cell,
                               op_payload = None\<rparr> # ops)))"

definition apply_wal_entry :: "wal_entry \<Rightarrow> coordinator \<Rightarrow> py_error + coordinator" where
  "apply_wal_entry e c =
     (if we_operations e = [] then Inr c
      else case replay_ops (we_operations e) (co_write c) of
             Inl x \<Rightarrow> Inl x
           | Inr ops \<Rightarrow>
               if ops = [] then Inr c
               else case wn_apply ops (co_write c) of
                      Inl x \<Rightarrow> Inl x
                    | Inr (applied, _, delta, w') \<Rightarrow>
                        let c1 = c\<lparr>co_write := w'\<rparr> in
                        Inr (if applied then c1\<lparr>co_sent := co_sent c1 @ [(we_tx_id e, delta, wn_version w')]\<rparr>
                             else c1))"

text \<open>One pass of \<open>_wal_replay_loop\<close>; an exception ends the pass and is only logged.\<close>

fun replay_entries :: "wal_entry list \<Rightarrow> coordinator \<Rightarrow> py_error option \<times> coordinator" where
  "replay_entries [] c = (None, c)"
| "replay_entries (e # es) c =
     (if we_lsn e \<le> co_cursor c then replay_entries es c
      else if we_state e \<in> {COMMITTED, SYNCED}
      then (case apply_wal_entry e c of
              Inl x \<Rightarrow> (Some x, c)
            | Inr c' \<Rightarrow> replay_entries es (advance_cursor (we_lsn e) False c'))
      else replay_entries es (advance_cursor (we_lsn e) False c))"

definition replay_pass :: "wal \<Rightarrow> coordinator \<Rightarrow> py_error option \<times> coordinator" where
  "replay_pass shared c = replay_entries (sort_key we_lsn (wal_get_since (co_cursor c) shared)) c"

section \<open>Invariant and outcomes\<close>

definition co_wf :: "coordinator \<Rightarrow> bool" where
  "co_wf c = (table_wf (wn_df (co_write c)) \<and> locks_wf (co_locks c) \<and> wal_ok (co_wal c)
     \<and> co_cursor c < wal_next_lsn (co_wal c))"

lemma save_checkpoint_frame [simp]:
  "co_write (save_checkpoint b c) = co_write c" "co_locks (save_checkpoint b c) = co_locks c"
  "co_wal (save_checkpoint b c) = co_wal c" "co_cursor (save_checkpoint b c) = co_cursor c"
  "co_sent (save_checkpoint b c) = co_sent c" "co_tx_count (save_checkpoint b c) = co_tx_count c"
  "co_success_count (save_checkpoint b c) = co_success_count c"
  "co_failed_count (save_checkpoint b c) = co_failed_count c"
  by (auto simp: save_checkpoint_def split: option.split)

lemma advance_cursor_frame [simp]:
  "co_write (advance_cursor l b c) = co_write c" "co_locks (advance_cursor l b c) = co_locks c"
  "co_wal (advance_cursor l b c) = co_wal c" "co_cursor (advance_cursor l b c) = max l (co_cursor c)"
  "co_sent (advance_cursor l b c) = co_sent c" "co_tx_count (advance_cursor l b c) = co_tx_count c"
  "co_success_count (advance_cursor l b c) = co_success_count c"
  "co_failed_count (advance_cursor l b c) = co_failed_count c"
  by (auto simp: advance_cursor_def)

definition logged_entry :: "string \<Rightarrow> transaction \<Rightarrow> wal \<Rightarrow> wal_entry" where
  "logged_entry now t w = \<lparr>we_lsn = wal_next_lsn w, we_tx_id = tx_id t,
     we_operations = map op_to_dict (tx_ops t), we_timestamp = now, we_state = tx_state t\<rparr>"

lemma log_tx_frame:
  "co_write (log_tx now t c) = co_write c" "co_locks (log_tx now t c) = co_locks c"
  "co_wal (log_tx now t c) = snd (wal_append now t (co_wal c))"
  "co_cursor (log_tx now t c) = max (wal_next_lsn (co_wal c)) (co_cursor c)"
  "co_sent (log_tx now t c) = co_sent c" "co_tx_count (log_tx now t c) = co_tx_count c"
  "co_success_count (log_tx now t c) = co_success_count c"
  "co_failed_count (log_tx now t c) = co_failed_count c"
  by (simp_all add: log_tx_def case_prod_unfold Let_def)

text \<open>
  The stages of a transaction as \<open>submit\<close> drives it; none of these transitions is refused.
\<close>

definition staged :: "(nat \<Rightarrow> rat \<times> string) \<Rightarrow> (nat \<times> tx_state) list \<Rightarrow> transaction \<Rightarrow> transaction" where
  "staged clk path t = foldl (\<lambda>t (k, s). the_right (transition (clk k) s t)) t path"

lemma staged_simps:
  "staged clk [] t = t"
  "staged clk ((k, s) # p) t = staged clk p (the_right (transition (clk k) s t))"
  by (simp_all add: staged_def)

definition to_applying :: "(nat \<times> tx_state) list" where
  "to_applying = [(0, VALIDATING), (1, LOCKED), (2, APPLYING)]"

lemma try_submit_cases:
  "try_submit clk (new_transaction ops tid created perf) c =
    (let t = new_transaction ops tid created perf;
         (locked, L) = lock_acquire tid (map op_cell_id ops) (co_locks c);
         t3 = staged clk to_applying t in
     if \<not> locked then Inl (RuntimeError ''Lock conflict'', staged clk [(0, VALIDATING)] t, c\<lparr>co_locks := L\<rparr>)
     else case wn_apply ops (co_write c) of
       Inl e \<Rightarrow> Inl (e, t3, c\<lparr>co_locks := L\<rparr>)
     | Inr (applied, ops', delta, w') \<Rightarrow>
         if \<not> applied
         then Inl (RuntimeError ''Write apply failed'', t3\<lparr>tx_ops := ops'\<rparr>, c\<lparr>co_locks := L, co_write := w'\<rparr>)
         else
           let t5 = staged clk [(3, COMMITTED)] (t3\<lparr>tx_ops := ops'\<rparr>);
               c4 = log_tx (snd (clk 4)) t5
                     (c\<lparr>co_locks := L, co_write := w', co_sent := co_sent c @ [(tid, delta, wn_version w')]\<rparr>)
           in Inr (staged clk [(5, SYNCING), (6, SYNCED)] t5,
                   c4\<lparr>co_success_count := co_success_count c4 + 1\<rparr>))"
  by (auto simp: try_submit_def bind_tx_def transition_def new_transaction_def the_right_def Let_def
      staged_simps to_applying_def split: sum.split prod.split)

lemma staged_facts:
  assumes "t = new_transaction ops tid created perf"
  shows "tx_state (staged clk [(0, VALIDATING)] t) = VALIDATING"
    "tx_state (staged clk to_applying t) = APPLYING"
    "tx_id (staged clk [(0, VALIDATING)] t) = tid" "tx_id (staged clk to_applying t) = tid"
    "tx_ops (staged clk [(0, VALIDATING)] t) = ops" "tx_ops (staged clk to_applying t) = ops"
    "tx_error (staged clk to_applying t) = None"
    "tx_wf (staged clk [(0, VALIDATING)] t)" "tx_wf (staged clk to_applying t)"
  using assms
  by (simp_all add: staged_simps to_applying_def transition_def new_transaction_def the_right_def
      tx_wf_def)

lemma tx_wf_ops [simp]: "tx_wf (t\<lparr>tx_ops := ops\<rparr>) = tx_wf t" "tx_wf (t\<lparr>tx_error := e\<rparr>) = tx_wf t"
  by (simp_all add: tx_wf_def)

lemma staged_end:
  assumes "tx_state t = APPLYING" "tx_wf t"
  shows "tx_state (staged clk [(3, COMMITTED)] t) = COMMITTED"
    "tx_state (staged clk [(5, SYNCING), (6, SYNCED)] (staged clk [(3, COMMITTED)] t)) = SYNCED"
    "tx_wf (staged clk [(5, SYNCING), (6, SYNCED)] (staged clk [(3, COMMITTED)] t))"
    "tx_id (staged clk [(3, COMMITTED)] t) = tx_id t" "tx_ops (staged clk [(3, COMMITTED)] t) = tx_ops t"
    "tx_id (staged clk [(5, SYNCING), (6, SYNCED)] (staged clk [(3, COMMITTED)] t)) = tx_id t"
    "tx_ops (staged clk [(5, SYNCING), (6, SYNCED)] (staged clk [(3, COMMITTED)] t)) = tx_ops t"
  using assms by (simp_all add: staged_simps transition_def the_right_def tx_wf_def tx_path_append)

text \<open>
  The three ways a submission ends: refused before the write node was changed, refused by the
  write node, committed.
\<close>

definition failed_submission ::
  "(nat \<Rightarrow> rat \<times> string) \<Rightarrow> py_error \<Rightarrow> transaction \<Rightarrow> coordinator \<Rightarrow> transaction \<times> coordinator" where
  "failed_submission clk e t c =
     (let t2 = tx_fail (clk 7) (clk 8) (t\<lparr>tx_error := Some (error_text e)\<rparr>);
          c2 = log_tx (snd (clk 9)) t2 c
      in (t2, c2\<lparr>co_failed_count := co_failed_count c2 + 1,
                 co_locks := lock_release (tx_id t2) (co_locks c2)\<rparr>))"

definition counted :: "coordinator \<Rightarrow> coordinator" where
  "counted c = c\<lparr>co_tx_count := co_tx_count c + 1\<rparr>"

lemma submit_unfold:
  "\<not> is_not_leader c \<Longrightarrow>
   submit clk tid ops c = Inr
     (case try_submit clk (new_transaction ops tid (snd (clk 0)) (fst (clk 0))) (counted c) of
        Inr (t', c') \<Rightarrow> (t', c'\<lparr>co_locks := lock_release (tx_id t') (co_locks c')\<rparr>)
      | Inl (e, t1, c1) \<Rightarrow> failed_submission clk e t1 c1)"
  by (simp add: submit_def counted_def failed_submission_def Let_def split: sum.split prod.split)

lemma failed_submission_facts:
  assumes "failed_submission clk e t1 c1 = (t', c')" "tx_state t1 \<noteq> ROLLED_BACK" "tx_wf t1"
  shows "tx_state t' = ROLLED_BACK" "tx_wf t'" "tx_id t' = tx_id t1" "tx_ops t' = tx_ops t1"
    "tx_error t' = Some (error_text e)"
    "co_write c' = co_write c1" "co_locks c' = lock_release (tx_id t1) (co_locks c1)"
    "co_wal c' = snd (wal_append (snd (clk 9)) t' (co_wal c1))"
    "co_cursor c' = max (wal_next_lsn (co_wal c1)) (co_cursor c1)" "co_sent c' = co_sent c1"
    "co_tx_count c' = co_tx_count c1" "co_success_count c' = co_success_count c1"
    "co_failed_count c' = co_failed_count c1 + 1"
  using assms
  by (auto simp: failed_submission_def Let_def log_tx_frame tx_fail_state intro!: tx_wf_fail)

text \<open>The relation between the coordinator before and after a submission by \<open>tid\<close>.\<close>

definition one_logged :: "string \<Rightarrow> operation list \<Rightarrow> tx_state \<Rightarrow> coordinator \<Rightarrow> coordinator \<Rightarrow> bool" where
  "one_logged tid ops s c c' =
     (\<exists>now t. tx_id t = tid \<and> tx_ops t = ops \<and> tx_state t = s
        \<and> co_wal c' = snd (wal_append now t (co_wal c)) \<and> co_cursor c' = wal_next_lsn (co_wal c))"

lemma one_logged_entry:
  "one_logged tid ops s c c' \<Longrightarrow> \<exists>e. wal_entries (co_wal c') = wal_entries (co_wal c) @ [e]
     \<and> we_lsn e = wal_next_lsn (co_wal c) \<and> we_tx_id e = tid \<and> we_operations e = map op_to_dict ops
     \<and> we_state e = s \<and> co_cursor c' = we_lsn e"
  by (auto simp: one_logged_def wal_append_entries)

lemma submit_cases:
  assumes wf: "co_wf c" and lead: "\<not> is_not_leader c" and res: "submit clk tid ops c = Inr (t', c')"
  obtains (locked) "\<not> fst (lock_acquire tid (map op_cell_id ops) (co_locks c))"
      "tx_error t' = Some ''Lock conflict''"
      "tx_state t' = ROLLED_BACK" "tx_ops t' = ops" "co_write c' = co_write c" "co_sent c' = co_sent c"
      "co_success_count c' = co_success_count c" "co_failed_count c' = co_failed_count c + 1"
  | (raised) e where "fst (lock_acquire tid (map op_cell_id ops) (co_locks c))"
      "wn_apply ops (co_write c) = Inl e" "tx_error t' = Some (error_text e)"
      "tx_state t' = ROLLED_BACK" "tx_ops t' = ops" "co_write c' = co_write c" "co_sent c' = co_sent c"
      "co_success_count c' = co_success_count c" "co_failed_count c' = co_failed_count c + 1"
  | (refused) delta where "fst (lock_acquire tid (map op_cell_id ops) (co_locks c))"
      "wn_apply ops (co_write c) = Inr (False, tx_ops t', delta, co_write c')"
      "tx_error t' = Some ''Write apply failed''"
      "tx_state t' = ROLLED_BACK" "co_sent c' = co_sent c"
      "co_success_count c' = co_success_count c" "co_failed_count c' = co_failed_count c + 1"
  | (committed) delta where "fst (lock_acquire tid (map op_cell_id ops) (co_locks c))"
      "wn_apply ops (co_write c) = Inr (True, tx_ops t', delta, co_write c')"
      "tx_state t' = SYNCED" "co_sent c' = co_sent c @ [(tid, delta, wn_version (co_write c'))]"
      "co_success_count c' = co_success_count c + 1" "co_failed_count c' = co_failed_count c"
proof -
  let ?t = "new_transaction ops tid (snd (clk 0)) (fst (clk 0))"
  note st = staged_facts [of ?t ops tid, OF refl]
  obtain locked L where LA: "lock_acquire tid (map op_cell_id ops) (co_locks c) = (locked, L)"
    by fastforce
  have LA': "lock_acquire tid (map op_cell_id ops) (co_locks (counted c)) = (locked, L)"
    "co_write (counted c) = co_write c" "co_sent (counted c) = co_sent c"
    "co_success_count (counted c) = co_success_count c" "co_failed_count (counted c) = co_failed_count c"
    using LA by (simp_all add: counted_def)
  note res' = res [unfolded submit_unfold [OF lead] try_submit_cases Let_def LA' prod.case]
  show thesis
  proof (cases locked)
    case False
    with res' have fs: "failed_submission clk (RuntimeError ''Lock conflict'') (staged clk [(0, VALIDATING)] ?t)
        (counted c\<lparr>co_locks := L\<rparr>) = (t', c')" by simp
    from failed_submission_facts [OF fs] st False LA show thesis
      by (intro locked) (simp_all add: error_text_def LA')
  next
    case True
    show thesis
    proof (cases "wn_apply ops (co_write c)")
      case (Inl e)
      with res' True have fs: "failed_submission clk e (staged clk to_applying ?t)
          (counted c\<lparr>co_locks := L\<rparr>) = (t', c')" by simp
      from failed_submission_facts [OF fs] st True LA Inl show thesis
        by (intro raised [of e]) (simp_all add: LA')
    next
      case (Inr r)
      obtain ap ops' delta w' where r: "r = (ap, ops', delta, w')" by (cases r)
      show thesis
      proof (cases ap)
        case False
        with res' True Inr r have fs: "failed_submission clk (RuntimeError ''Write apply failed'')
            (staged clk to_applying ?t\<lparr>tx_ops := ops'\<rparr>)
            (counted c\<lparr>co_locks := L, co_write := w'\<rparr>) = (t', c')" by simp
        from failed_submission_facts [OF fs] st True LA Inr r False show thesis
          by (intro refused [of delta]) (simp_all add: LA' error_text_def)
      next
        case ap: True
        have mid: "tx_state (staged clk to_applying ?t\<lparr>tx_ops := ops'\<rparr>) = APPLYING"
          "tx_wf (staged clk to_applying ?t\<lparr>tx_ops := ops'\<rparr>)" using st by simp_all
        note se = staged_end [OF mid]
        from res' True Inr r ap se show thesis
          by (intro committed [of delta]) (auto simp: log_tx_frame LA' LA)
      qed
    qed
  qed
qed

lemma log_tx_cursor:
  "co_wf c \<Longrightarrow> max (wal_next_lsn (co_wal c)) (co_cursor c) = wal_next_lsn (co_wal c)"
  by (simp add: co_wf_def)

lemma submit_frame:
  assumes wf: "co_wf c" and lead: "\<not> is_not_leader c" and res: "submit clk tid ops c = Inr (t', c')"
  shows "tx_wf t' \<and> tx_id t' = tid \<and> co_tx_count c' = co_tx_count c + 1
    \<and> co_locks c' = lock_release tid (snd (lock_acquire tid (map op_cell_id ops) (co_locks c)))
    \<and> one_logged tid (tx_ops t') (if tx_state t' = SYNCED then COMMITTED else ROLLED_BACK) c c'"
proof -
  let ?t = "new_transaction ops tid (snd (clk 0)) (fst (clk 0))"
  note st = staged_facts [of ?t ops tid, OF refl]
  obtain locked L where LA: "lock_acquire tid (map op_cell_id ops) (co_locks c) = (locked, L)"
    by fastforce
  have LA': "lock_acquire tid (map op_cell_id ops) (co_locks (counted c)) = (locked, L)"
    "co_write (counted c) = co_write c" "co_wal (counted c) = co_wal c"
    "co_cursor (counted c) = co_cursor c" "co_tx_count (counted c) = co_tx_count c + 1"
    using LA by (simp_all add: counted_def)
  have failed: ?thesis
    if fs: "failed_submission clk e t1 c1 = (t', c')" and t1: "tx_state t1 \<noteq> ROLLED_BACK" "tx_wf t1" "tx_id t1 = tid"
      and c1: "co_wal c1 = co_wal c" "co_cursor c1 = co_cursor c" "co_locks c1 = L"
        "co_tx_count c1 = co_tx_count c + 1" for e t1 c1
    using failed_submission_facts [OF fs t1(1,2)] t1(3) c1 LA log_tx_cursor [OF wf]
    by (auto simp: one_logged_def)
  note res' = res [unfolded submit_unfold [OF lead] try_submit_cases Let_def LA' prod.case]
  show ?thesis
  proof (cases locked)
    case False
    with res' have fs: "failed_submission clk (RuntimeError ''Lock conflict'') (staged clk [(0, VALIDATING)] ?t)
        (counted c\<lparr>co_locks := L\<rparr>) = (t', c')" by simp
    then show ?thesis by (rule failed) (simp_all add: st LA')
  next
    case True
    show ?thesis
    proof (cases "wn_apply ops (co_write c)")
      case (Inl e)
      with res' True have fs: "failed_submission clk e (staged clk to_applying ?t)
          (counted c\<lparr>co_locks := L\<rparr>) = (t', c')" by simp
      then show ?thesis by (rule failed) (simp_all add: st LA')
    next
      case (Inr r)
      obtain ap ops' delta w' where r: "r = (ap, ops', delta, w')" by (cases r)
      show ?thesis
      proof (cases ap)
        case False
        with res' True Inr r have fs: "failed_submission clk (RuntimeError ''Write apply failed'')
            (staged clk to_applying ?t\<lparr>tx_ops := ops'\<rparr>)
            (counted c\<lparr>co_locks := L, co_write := w'\<rparr>) = (t', c')" by simp
        then show ?thesis by (rule failed) (simp_all add: st LA')
      next
        case ap: True
        have mid: "tx_state (staged clk to_applying ?t\<lparr>tx_ops := ops'\<rparr>) = APPLYING"
          "tx_wf (staged clk to_applying ?t\<lparr>tx_ops := ops'\<rparr>)"
          "tx_id (staged clk to_applying ?t\<lparr>tx_ops := ops'\<rparr>) = tid"
          using st by simp_all
        note se = staged_end [OF mid(1,2)]
        from res' True Inr r ap have eq:
          "t' = staged clk [(5, SYNCING), (6, SYNCED)] (staged clk [(3, COMMITTED)] (staged clk to_applying ?t\<lparr>tx_ops := ops'\<rparr>))"
          "co_wal c' = snd (wal_append (snd (clk 4)) (staged clk [(3, COMMITTED)] (staged clk to_applying ?t\<lparr>tx_ops := ops'\<rparr>)) (co_wal c))"
          "co_cursor c' = max (wal_next_lsn (co_wal c)) (co_cursor c)"
          "co_tx_count c' = co_tx_count c + 1" "co_locks c' = lock_release (tx_id t') L"
          by (auto simp: log_tx_frame LA')
        have "one_logged tid (tx_ops t') COMMITTED c c'"
          unfolding one_logged_def eq(2,3) log_tx_cursor [OF wf]
          by (intro exI conjI refl) (simp_all add: se mid eq(1))
        with eq se mid LA show ?thesis by simp
      qed
    qed
  qed
qed

lemma submit_wf:
  assumes wf: "co_wf c" and res: "submit clk tid ops c = Inr (t', c')"
  shows "co_wf c'"
proof -
  have lead: "\<not> is_not_leader c" using res by (auto simp: submit_def)
  have "table_wf (wn_df (co_write c'))"
    using wf by (cases rule: submit_cases [OF wf lead res]) (auto simp: co_wf_def intro: wn_apply_wf)
  moreover have "locks_wf (co_locks c')"
    using submit_frame [OF wf lead res] wf by (auto simp: co_wf_def intro: wf_intros)
  moreover have "wal_ok (co_wal c') \<and> co_cursor c' < wal_next_lsn (co_wal c')"
    using submit_frame [OF wf lead res] wf by (auto simp: co_wf_def one_logged_def intro: wal_ok_append)
  ultimately show ?thesis by (simp add: co_wf_def)
qed

section \<open>Properties of a submission\<close>

text \<open>
  C10. A submission on the leader always comes back with a transaction in an end state, SYNCED
  or ROLLED_BACK, reached by allowed transitions only; it appends exactly one log entry, with
  the next LSN and the state COMMITTED or ROLLED_BACK to match, moves the replay cursor to it,
  counts the transaction as exactly one success or one failure, and leaves no lock behind.
  Well-formedness of table, locks and log is kept.
\<close>

theorem submit_outcome:
  assumes wf: "co_wf c" and lead: "\<not> is_not_leader c" and fresh: "tid \<notin> ran (cell_to_tx (co_locks c))"
  shows "\<exists>t c' e. submit clk tid ops c = Inr (t, c')
    \<and> co_wf c' \<and> tx_wf t \<and> tx_id t = tid \<and> tx_state t \<in> {SYNCED, ROLLED_BACK}
    \<and> wal_entries (co_wal c') = wal_entries (co_wal c) @ [e]
    \<and> we_lsn e = wal_next_lsn (co_wal c) \<and> we_tx_id e = tid
    \<and> we_operations e = map op_to_dict (tx_ops t)
    \<and> we_state e = (if tx_state t = SYNCED then COMMITTED else ROLLED_BACK)
    \<and> co_cursor c' = we_lsn e
    \<and> co_tx_count c' = co_tx_count c + 1
    \<and> co_success_count c' = co_success_count c + (if tx_state t = SYNCED then 1 else 0)
    \<and> co_failed_count c' = co_failed_count c + (if tx_state t = SYNCED then 0 else 1)
    \<and> cell_to_tx (co_locks c') = cell_to_tx (co_locks c)"
proof -
  obtain t c' where res: "submit clk tid ops c = Inr (t, c')"
    by (cases "the_right (submit clk tid ops c)") (simp add: submit_unfold [OF lead] the_right_def)
  note fr = submit_frame [OF wf lead res]
  have counts: "tx_state t \<in> {SYNCED, ROLLED_BACK} \<and>
      co_success_count c' = co_success_count c + (if tx_state t = SYNCED then 1 else 0) \<and>
      co_failed_count c' = co_failed_count c + (if tx_state t = SYNCED then 0 else 1)"
    by (cases rule: submit_cases [OF wf lead res]) simp_all
  obtain e where e: "wal_entries (co_wal c') = wal_entries (co_wal c) @ [e]
      \<and> we_lsn e = wal_next_lsn (co_wal c) \<and> we_tx_id e = tid \<and> we_operations e = map op_to_dict (tx_ops t)
      \<and> we_state e = (if tx_state t = SYNCED then COMMITTED else ROLLED_BACK) \<and> co_cursor c' = we_lsn e"
    using fr one_logged_entry by blast
  have free: "cell_to_tx (co_locks c') = cell_to_tx (co_locks c)"
    using fr cell_locks.acquire_release_frame [OF _ fresh] wf by (simp add: co_wf_def)
  show ?thesis
    using res submit_wf [OF wf res] fr counts e free
    by (intro exI [of _ t] exI [of _ c'] exI [of _ e]) simp
qed

definition new_coordinator :: "table \<Rightarrow> coordinator" where
  "new_coordinator d = \<lparr>co_write = new_write_node d, co_locks = new_locks 5000, co_wal = wal_in_memory,
     co_node_id = None, co_leader_id = None, co_tx_count = 0, co_success_count = 0, co_failed_count = 0,
     co_sent = [], co_cursor = 0, co_cursor_file = None, co_pending_since_save = 0, co_save_every = 1\<rparr>"

lemma new_coordinator_wf [wf_intros]: "table_wf d \<Longrightarrow> co_wf (new_coordinator d)"
  using wal_ok_start(1)
  by (simp add: co_wf_def new_coordinator_def new_write_node_def locks_wf_new)
    (simp add: wal_in_memory_def)

lemma new_coordinator_simps [simp]:
  "\<not> is_not_leader (new_coordinator d)" "cell_to_tx (co_locks (new_coordinator d)) = Map.empty"
  "co_write (new_coordinator d) = new_write_node d" "wal_next_lsn (co_wal (new_coordinator d)) = 1"
  by (simp_all add: is_not_leader_def new_coordinator_def new_locks_def wal_in_memory_def)

definition one_column :: table where
  "one_column = \<lparr>t_cols = [(''f::a'', [PInt 1, PInt 2])], t_len = 2\<rparr>"

lemma one_column_wf [wf_intros]: "table_wf one_column"
  by (simp add: one_column_def table_wf_def t_columns_def)

lemma submit_outcome_witness:
  "\<exists>t c' e. submit (\<lambda>k. (of_nat k, ''now'')) ''t1'' [cell_op ''f::a_0'' (PInt 1) (PInt 5) ''user'']
      (new_coordinator one_column) = Inr (t, c') \<and> we_lsn e = 1 \<and> e \<in> set (wal_entries (co_wal c'))"
  using submit_outcome [OF new_coordinator_wf [OF one_column_wf], of "''t1''" "\<lambda>k. (of_nat k, ''now'')"
      "[cell_op ''f::a_0'' (PInt 1) (PInt 5) ''user'']"]
  by fastforce

section \<open>Atomicity of a submission\<close>

lemma free_acquire:
  "locks_wf L \<Longrightarrow> fst (lock_acquire tid cs L) \<longleftrightarrow> (\<forall>c \<in> set cs. cell_to_tx L c \<in> {None, Some tid})"
  by (rule cell_locks.acquire_iff)

text \<open>
  C1. A submission of cell operations is atomic. If another transaction holds one of its
  cells it is rolled back as a lock conflict and the write node is not touched. Otherwise the
  cell-level specification \<open>spec_apply\<close> decides: where it accepts, the transaction ends SYNCED, the
  cells become exactly what it says and one delta with the new version is sent; where it
  refuses, the transaction is rolled back, every column that existed keeps all its values and
  nothing is sent.
\<close>

theorem submit_is_atomic:
  assumes wf: "co_wf c" and lead: "\<not> is_not_leader c"
    and cells: "\<forall>op \<in> set ops. \<not> is_structural op" and ids: "touched_cols ops = Inr cs"
    and res: "submit clk tid ops c = Inr (t, c')"
  shows "if \<exists>op \<in> set ops. cell_to_tx (co_locks c) (op_cell_id op) \<notin> {None, Some tid}
    then tx_state t = ROLLED_BACK \<and> tx_error t = Some ''Lock conflict'' \<and> co_write c' = co_write c
      \<and> co_sent c' = co_sent c
    else case spec_apply ops (cell_view (co_write c)) of
      None \<Rightarrow> tx_state t = ROLLED_BACK \<and> tx_error t = Some ''Write apply failed''
        \<and> (\<forall>k xs. t_col (wn_df (co_write c)) k = Some xs \<longrightarrow> t_col (wn_df (co_write c')) k = Some xs)
        \<and> co_sent c' = co_sent c
    | Some V \<Rightarrow> tx_state t = SYNCED \<and> cell_view (co_write c') = V
        \<and> co_sent c' = co_sent c @ [(tid, map op_to_dict (filter names_cell ops),
             wn_version (co_write c) + 1)]"
proof -
  have W: "table_wf (wn_df (co_write c))" and L: "locks_wf (co_locks c)"
    using wf by (simp_all add: co_wf_def)
  note spec = apply_spec [OF W cells ids]
  from wf lead res show ?thesis
  proof (cases rule: submit_cases)
    case locked
    then show ?thesis by (auto simp: free_acquire [OF L])
  next
    case (raised e)
    then show ?thesis using spec by (auto split: option.splits)
  next
    case (refused delta)
    with spec have "spec_apply ops (cell_view (co_write c)) = None" by (auto split: option.splits)
    with refused failed_restores [OF W refused(2)] show ?thesis by (auto simp: free_acquire [OF L])
  next
    case (committed delta)
    with spec obtain V where "spec_apply ops (cell_view (co_write c)) = Some V"
      by (auto split: option.splits)
    with committed spec show ?thesis by (auto simp: free_acquire [OF L])
  qed
qed

lemma submit_is_atomic_witness:
  "\<exists>t c'. submit (\<lambda>k. (of_nat k, ''now'')) ''t1'' [cell_op ''f::a_0'' (PInt 1) (PInt 5) ''user'']
      (new_coordinator one_column) = Inr (t, c') \<and> tx_state t = SYNCED
      \<and> cell_view (co_write c') ''f::a'' 0 = PInt 5"
proof -
  let ?ops = "[cell_op ''f::a_0'' (PInt 1) (PInt 5) ''user'']" and ?clk = "\<lambda>k. (of_nat k :: rat, ''now'')"
  let ?c = "new_coordinator one_column"
  obtain t c' where res: "submit ?clk ''t1'' ?ops ?c = Inr (t, c')"
    by (cases "the_right (submit ?clk ''t1'' ?ops ?c)") (simp add: submit_unfold the_right_def)
  have "case spec_apply ?ops (cell_view (new_write_node one_column)) of
      None \<Rightarrow> False | Some V \<Rightarrow> V ''f::a'' 0 = PInt 5" by code_simp
  then obtain V where V: "spec_apply ?ops (cell_view (new_write_node one_column)) = Some V"
    "V ''f::a'' 0 = PInt 5" by (auto split: option.splits)
  have "touched_cols ?ops = Inr [''f::a'']" by code_simp
  from submit_is_atomic [OF new_coordinator_wf [OF one_column_wf] _ _ this res] V res show ?thesis
    by simp
qed

section \<open>Replay\<close>

lemma touched_cols_ok:
  "\<forall>op \<in> set ops. \<exists>p. parse_cell_id (op_cell_id op) = Inr p \<Longrightarrow> \<exists>cs. touched_cols ops = Inr cs"
  by (induction ops) (auto split: sum.splits)

definition cell_of :: "op_dict \<Rightarrow> string \<times> nat" where
  "cell_of op = (case parse_cell_id (od_cell_id op) of Inr (col, row) \<Rightarrow> (col, nat row) | Inl _ \<Rightarrow> ([], 0))"

definition plain_cell :: "op_dict \<Rightarrow> bool" where
  "plain_cell op = (case parse_cell_id (od_cell_id op) of Inr (col, row) \<Rightarrow> 0 \<le> row | Inl _ \<Rightarrow> False)"

lemma plain_cellE:
  assumes "plain_cell op"
  obtains col row where "parse_cell_id (od_cell_id op) = Inr (col, int row)" "cell_of op = (col, row)"
    "od_cell_id op \<noteq> []"
proof -
  obtain col row where p: "parse_cell_id (od_cell_id op) = Inr (col, row)" "0 \<le> row"
    using assms by (auto simp: plain_cell_def split: sum.splits)
  moreover have "parse_cell_id [] = Inl ValueError" by code_simp
  ultimately show thesis using that [of col "nat row"] by (cases "od_cell_id op = []") (simp_all add: cell_of_def)
qed

lemma wn_get_view:
  assumes "parse_cell_id cid = Inr (col, int row)" "table_wf (wn_df w)"
  shows "\<exists>v. wn_get cid w = Inr v \<and> norm_value v = cell_view w col row"
  using assms
  by (auto simp: wn_get_def cell_view_def t_at_def t_columns_Some table_wf_col split: option.splits)

lemma set_cell_not_structural [simp]: "op_kind op = set_cell \<Longrightarrow> \<not> is_structural op"
  by (simp add: is_structural_def)

lemma deliver_one_at:
  assumes "cell_of op = (col, row)" "plain_cell op"
  shows "deliver_one D op = D(col := (D col)(row := norm_value (od_new op)))"
  using assms by (auto elim!: plain_cellE simp: deliver_one_def)

lemma replay_ops_spec:
  assumes wf: "table_wf (wn_df w)"
  shows "\<lbrakk>\<forall>op \<in> set raws. plain_cell op; distinct (map cell_of raws);
     \<And>col row. (col, row) \<in> cell_of ` set raws \<Longrightarrow> V col row = cell_view w col row;
     \<And>col row. same_value (V col row) (D col row)\<rbrakk> \<Longrightarrow>
   \<exists>ops V'. replay_ops raws w = Inr ops
     \<and> (\<forall>op \<in> set ops. \<not> is_structural op \<and> (\<exists>p. parse_cell_id (op_cell_id op) = Inr p))
     \<and> spec_apply ops V = Some V'
     \<and> (\<forall>col row. same_value (V' col row) (deliver raws D col row))"
proof (induction raws arbitrary: V D)
  case (Cons op raws)
  obtain col row where p: "parse_cell_id (od_cell_id op) = Inr (col, int row)" "cell_of op = (col, row)"
    "od_cell_id op \<noteq> []" using Cons.prems(1) by (auto elim: plain_cellE)
  obtain cur where cur: "wn_get (od_cell_id op) w = Inr cur" "norm_value cur = cell_view w col row"
    using wn_get_view [OF p(1) wf] by blast
  have Vc: "V col row = norm_value cur" using Cons.prems(3) [of col row] p(2) cur(2) by force
  let ?D = "D(col := (D col)(row := norm_value (od_new op)))"
  have D: "deliver (op # raws) D = deliver raws ?D"
    using Cons.prems(1) p(2) by (simp add: deliver_def deliver_one_at)
  have fresh: "(col, row) \<notin> cell_of ` set raws" using Cons.prems(2) p(2) by auto
  show ?case
  proof (cases "py_eq cur (od_new op)")
    case True
    then have "same_value (V col row) (norm_value (od_new op))"
      by (simp add: Vc same_value_sym [of _ "norm_value (od_new op)"] same_value_sym [of "od_new op"])
        (simp add: same_value_def)
    then have same: "same_value (V c r) (?D c r)" for c r using Cons.prems(4) by simp
    have step: "replay_ops (op # raws) w = replay_ops raws w" using True p cur by simp
    show ?thesis unfolding step D
    proof (rule Cons.IH)
      show "\<forall>op \<in> set raws. plain_cell op" "distinct (map cell_of raws)" using Cons.prems(1,2) by auto
    qed (use Cons.prems(3) same in auto)
  next
    case False
    let ?V = "V(col := (V col)(row := norm_value (od_new op)))"
    have eqV: "?V c r = cell_view w c r" if "(c, r) \<in> cell_of ` set raws" for c r
      using that fresh Cons.prems(3) [of c r] by auto
    have same: "same_value (?V c r) (?D c r)" for c r using Cons.prems(4) by simp
    have "\<exists>ops V'. replay_ops raws w = Inr ops
      \<and> (\<forall>op \<in> set ops. \<not> is_structural op \<and> (\<exists>p. parse_cell_id (op_cell_id op) = Inr p))
      \<and> spec_apply ops ?V = Some V' \<and> (\<forall>col row. same_value (V' col row) (deliver raws ?D col row))"
    proof (rule Cons.IH)
      show "\<forall>op \<in> set raws. plain_cell op" "distinct (map cell_of raws)" using Cons.prems(1,2) by auto
    qed (fact eqV same)+
    then obtain ops V' where IH:
      "replay_ops raws w = Inr ops"
      "\<forall>op \<in> set ops. \<not> is_structural op \<and> (\<exists>p. parse_cell_id (op_cell_id op) = Inr p)"
      "spec_apply ops ?V = Some V'" "\<forall>col row. same_value (V' col row) (deliver raws ?D col row)"
      by blast
    have "same_value (V col row) cur" by (simp add: Vc)
    with IH p cur False D show ?thesis by simp
  qed
qed (simp add: deliver_def)

lemma apply_wal_entry_spec:
  assumes wf: "table_wf (wn_df (co_write c))"
    and plain: "\<forall>op \<in> set (we_operations e). plain_cell op" "distinct (map cell_of (we_operations e))"
  shows "\<exists>c'. apply_wal_entry e c = Inr c' \<and> table_wf (wn_df (co_write c'))
    \<and> (\<forall>col row. same_value (cell_view (co_write c') col row)
         (deliver (we_operations e) (cell_view (co_write c)) col row))"
proof -
  obtain ops V' where r: "replay_ops (we_operations e) (co_write c) = Inr ops"
    "\<forall>op \<in> set ops. \<not> is_structural op \<and> (\<exists>p. parse_cell_id (op_cell_id op) = Inr p)"
    "spec_apply ops (cell_view (co_write c)) = Some V'"
    "\<forall>col row. same_value (V' col row) (deliver (we_operations e) (cell_view (co_write c)) col row)"
    using replay_ops_spec [OF wf plain, of "cell_view (co_write c)" "cell_view (co_write c)"] by auto
  obtain cs where "touched_cols ops = Inr cs" using touched_cols_ok r(2) by blast
  with apply_spec [OF wf _ this] r obtain w' where
    "wn_apply ops (co_write c) = Inr (True, ops, map op_to_dict (filter names_cell ops), w')"
    "cell_view w' = V'" "table_wf (wn_df w')" by auto
  with r wf show ?thesis
    by (auto simp: apply_wal_entry_def deliver_def)
qed

lemma py_eq_na: "py_eq v w \<Longrightarrow> py_isna v \<longleftrightarrow> py_isna w"
  by (cases v; cases w) auto

lemma same_value_trans: "same_value u v \<Longrightarrow> same_value v w \<Longrightarrow> same_value u w"
  unfolding same_value_def using py_eq_trans py_eq_na by blast

lemma deliver_one_cong:
  assumes "\<forall>c r. same_value (D c r) (D' c r)"
  shows "\<forall>c r. same_value (deliver_one D op c r) (deliver_one D' op c r)"
  using assms by (auto simp: deliver_one_def split: sum.split)

lemma deliver_cong:
  "\<forall>c r. same_value (D c r) (D' c r) \<Longrightarrow> \<forall>c r. same_value (deliver ops D c r) (deliver ops D' c r)"
  unfolding deliver_def
proof (induction ops arbitrary: D D')
  case (Cons op ops)
  from deliver_one_cong [OF Cons.prems] show ?case unfolding foldl.simps by (rule Cons.IH)
qed simp

definition counts :: "wal_entry \<Rightarrow> bool" where
  "counts e = (we_state e \<in> {COMMITTED, SYNCED})"

definition replayable :: "wal_entry \<Rightarrow> bool" where
  "replayable e = ((\<forall>op \<in> set (we_operations e). plain_cell op) \<and> distinct (map cell_of (we_operations e)))"

definition committed_ops :: "wal_entry list \<Rightarrow> op_dict list" where
  "committed_ops es = concat (map we_operations (filter counts es))"

lemma replay_entries_spec:
  "\<lbrakk>table_wf (wn_df (co_write c)); sorted_wrt (<) (map we_lsn es); \<forall>e \<in> set es. co_cursor c < we_lsn e;
    \<forall>e \<in> set es. counts e \<longrightarrow> replayable e\<rbrakk> \<Longrightarrow>
   \<exists>c'. replay_entries es c = (None, c') \<and> table_wf (wn_df (co_write c'))
     \<and> co_cursor c' = (if es = [] then co_cursor c else we_lsn (last es))
     \<and> (\<forall>k r. same_value (cell_view (co_write c') k r)
          (deliver (committed_ops es) (cell_view (co_write c)) k r))"
proof (induction es arbitrary: c)
  case (Cons e es)
  obtain c1 where c1: "if counts e then apply_wal_entry e c = Inr c1 else c1 = c" "table_wf (wn_df (co_write c1))"
    "\<forall>k r. same_value (cell_view (co_write c1) k r)
         (deliver (if counts e then we_operations e else []) (cell_view (co_write c)) k r)"
    "co_cursor c1 = co_cursor c"
  proof (cases "counts e")
    case True
    with Cons.prems(4) have "\<forall>op \<in> set (we_operations e). plain_cell op"
      "distinct (map cell_of (we_operations e))" by (simp_all add: replayable_def)
    from apply_wal_entry_spec [OF Cons.prems(1) this] True obtain c1 where
      c1: "apply_wal_entry e c = Inr c1" "table_wf (wn_df (co_write c1))"
      "\<forall>k r. same_value (cell_view (co_write c1) k r)
         (deliver (if counts e then we_operations e else []) (cell_view (co_write c)) k r)" by auto
    moreover have "co_cursor c1 = co_cursor c"
      using c1(1) by (auto simp: apply_wal_entry_def Let_def split: sum.splits if_splits prod.splits)
    ultimately show thesis using that [of c1] True by simp
  next
    case False
    with that [of c] Cons.prems(1) show thesis by (simp add: deliver_def)
  qed
  let ?c = "advance_cursor (we_lsn e) False c1"
  have step: "replay_entries (e # es) c = replay_entries es ?c"
    using c1(1) Cons.prems(3) by (auto simp: counts_def split: if_splits)
  have cur: "co_cursor ?c = we_lsn e" using Cons.prems(3) c1(4) by simp
  have "\<exists>c'. replay_entries es ?c = (None, c') \<and> table_wf (wn_df (co_write c'))
     \<and> co_cursor c' = (if es = [] then co_cursor ?c else we_lsn (last es))
     \<and> (\<forall>k r. same_value (cell_view (co_write c') k r)
          (deliver (committed_ops es) (cell_view (co_write ?c)) k r))"
    by (rule Cons.IH) (use Cons.prems(2,4) c1(2) cur in auto)
  then obtain c' where c': "replay_entries es ?c = (None, c')" "table_wf (wn_df (co_write c'))"
    "co_cursor c' = (if es = [] then we_lsn e else we_lsn (last es))"
    "\<forall>k r. same_value (cell_view (co_write c') k r) (deliver (committed_ops es) (cell_view (co_write c1)) k r)"
    unfolding cur by auto
  have ops: "committed_ops (e # es) = (if counts e then we_operations e else []) @ committed_ops es"
    by (simp add: committed_ops_def)
  have "\<forall>k r. same_value (cell_view (co_write c') k r)
          (deliver (committed_ops (e # es)) (cell_view (co_write c)) k r)"
    unfolding ops deliver_append
    using c'(4) deliver_cong [OF c1(3), of "committed_ops es"] same_value_trans by blast
  with c' step show ?case by auto
qed (simp add: committed_ops_def deliver_def)

lemma last_greatest:
  fixes f :: "'a \<Rightarrow> nat"
  shows "sorted_wrt (<) (map f xs) \<Longrightarrow> x \<in> set xs \<Longrightarrow> f x \<le> f (last xs)"
  by (induction xs rule: rev_induct) (auto simp: sorted_wrt_append intro: less_imp_le)


definition example_log :: "operation list \<Rightarrow> wal" where
  "example_log ops = snd (wal_append ''now''
     (new_transaction ops ''t1'' ''now'' 0\<lparr>tx_state := COMMITTED\<rparr>) wal_in_memory)"

lemma example_log_ok [wf_intros]: "wal_ok (example_log ops)"
  unfolding example_log_def by (intro wf_intros)

lemma example_log_entries:
  "wal_entries (example_log ops) = [\<lparr>we_lsn = 1, we_tx_id = ''t1'', we_operations = map op_to_dict ops,
     we_timestamp = ''now'', we_state = COMMITTED\<rparr>]"
  by (simp add: example_log_def wal_append_entries wal_in_memory_def new_transaction_def)

lemma new_coordinator_cursor [simp]: "co_cursor (new_coordinator d) = 0"
  by (simp add: new_coordinator_def)


lemma names_cellD: "names_cell op \<Longrightarrow> \<exists>col row. parse_cell_id (op_cell_id op) = Inr (col, row) \<and> 0 \<le> row"
  by (auto simp: names_cell_def split: sum.splits prod.splits)


lemma submit_returns: "\<not> is_not_leader c \<Longrightarrow> \<exists>t c'. submit clk tid ops c = Inr (t, c')"
  by (cases "the_right (submit clk tid ops c)") (simp add: submit_unfold)




lemma replay_ops_raises:
  "raw \<in> set raws \<Longrightarrow> od_cell_id raw \<noteq> [] \<Longrightarrow> parse_cell_id (od_cell_id raw) = Inl x \<Longrightarrow>
   \<exists>y. replay_ops raws w = Inl y"
proof (induction raws)
  case (Cons r raws)
  then show ?case by (auto simp: wn_get_def split: sum.splits)
qed simp

lemma replay_stuck:
  "\<lbrakk>sorted_wrt (<) (map we_lsn es); e \<in> set es; counts e; raw \<in> set (we_operations e);
    od_cell_id raw \<noteq> []; parse_cell_id (od_cell_id raw) = Inl x; co_cursor c < we_lsn e\<rbrakk> \<Longrightarrow>
   fst (replay_entries es c) \<noteq> None \<and> co_cursor (snd (replay_entries es c)) < we_lsn e"
proof (induction es arbitrary: c)
  case (Cons f es)
  show ?case
  proof (cases "e = f")
    case True
    obtain y where "replay_ops (we_operations e) (co_write c) = Inl y"
      using replay_ops_raises Cons.prems(4-6) by blast
    then have "apply_wal_entry e c = Inl y" using Cons.prems(4) by (auto simp: apply_wal_entry_def)
    with True Cons.prems(3,7) show ?thesis by (simp add: counts_def)
  next
    case False
    with Cons.prems(1,2) have e: "e \<in> set es" "we_lsn f < we_lsn e" by auto
    have "sorted_wrt (<) (map we_lsn es)" using Cons.prems(1) by simp
    note IH = Cons.IH [OF this e(1) Cons.prems(3-6)]
    have keep: "co_cursor c1 = co_cursor c" if "apply_wal_entry f c = Inr c1" for c1
      using that by (auto simp: apply_wal_entry_def Let_def split: sum.splits if_splits prod.splits)
    show ?thesis
      using IH [of c] IH [of "advance_cursor (we_lsn f) False c"] keep e(2) Cons.prems(7)
        IH [of "advance_cursor (we_lsn f) False (the_right (apply_wal_entry f c))"]
      by (auto split: sum.split)
  qed
qed simp

text \<open>
  A committed entry with an operation whose id is not a cell id, such as the
  \<open>f::__structure__\<close> of every row or column insertion, stops replay for good: any number of
  passes over the log, or over any log that still has the entry, ends in the same exception
  with the cursor before the entry, and nothing after it is ever applied.
\<close>

theorem structural_entry_blocks_replay:
  assumes logs: "\<forall>shared \<in> set logs. wal_ok shared \<and> e \<in> set (wal_entries shared)"
    and e: "counts e" "raw \<in> set (we_operations e)" "od_cell_id raw \<noteq> []"
      "parse_cell_id (od_cell_id raw) = Inl x"
    and cur: "co_cursor c < we_lsn e"
  shows "co_cursor (foldl (\<lambda>c shared. snd (replay_pass shared c)) c logs) < we_lsn e
    \<and> (\<forall>shared \<in> set logs. \<forall>d. co_cursor d < we_lsn e \<longrightarrow> fst (replay_pass shared d) \<noteq> None)"
proof -
  have one: "fst (replay_pass shared d) \<noteq> None \<and> co_cursor (snd (replay_pass shared d)) < we_lsn e"
    if s: "shared \<in> set logs" and d: "co_cursor d < we_lsn e" for shared d
  proof -
    have ok: "wal_ok shared" "e \<in> set (wal_entries shared)" using logs s by auto
    have "sorted_wrt (<) (map we_lsn (wal_entries shared))" using ok by (simp add: wal_ok_def wal_wf_def)
    then have srt: "sorted_wrt (<) (map we_lsn (filter (\<lambda>e. co_cursor d < we_lsn e) (wal_entries shared)))"
      by (simp add: sorted_wrt_map sorted_wrt_filter)
    have "replay_pass shared d = replay_entries (filter (\<lambda>e. co_cursor d < we_lsn e) (wal_entries shared)) d"
      unfolding replay_pass_def file_wal.since_filter [OF ok(1)]
      using srt by (simp add: sort_key_id_if_sorted strict_sorted_imp_sorted)
    with replay_stuck [OF srt _ e d] ok(2) d show ?thesis by simp
  qed
  have "set ls \<subseteq> set logs \<Longrightarrow> co_cursor d < we_lsn e \<Longrightarrow>
      co_cursor (foldl (\<lambda>c shared. snd (replay_pass shared c)) d ls) < we_lsn e" for ls d
    by (induction ls arbitrary: d) (use one in auto)
  with cur one show ?thesis by blast
qed

lemma structural_entry_blocks_replay_witness:
  "co_cursor (snd (replay_pass (example_log [cell_op ''f::__structure__'' PNone PNone ''user''])
      (new_coordinator one_column))) = 0"
proof -
  let ?log = "example_log [cell_op ''f::__structure__'' PNone PNone ''user'']"
  let ?e = "hd (wal_entries ?log)"
  have "parse_cell_id ''f::__structure__'' = Inl ValueError" by code_simp
  then have "co_cursor (foldl (\<lambda>c shared. snd (replay_pass shared c)) (new_coordinator one_column) [?log]) < we_lsn ?e"
    using structural_entry_blocks_replay [of "[?log]" ?e "op_to_dict (cell_op ''f::__structure__'' PNone PNone ''user'')"
        ValueError "new_coordinator one_column"]
    by (simp add: example_log_ok) (simp add: example_log_entries counts_def)
  then show ?thesis by (simp add: example_log_entries)
qed

end
