(* ===== verification/WcDict.thy ===== *)
theory WcDict
  imports Prelude
begin

text \<open>
  The word dictionary of the bundled word segmenter,
  \<open>docs/site/assets/javascripts/lunr/wordcut.js\<close>, module 2 (\<open>WordcutDict\<close>). Texts are lists of
  UTF-16 code units, compared as JavaScript compares strings. The dictionary is a sorted
  array; an acceptor is a range of it, narrowed by two binary searches per character. The
  theory shows that the range is always that of the words beginning with what has been read,
  and that the acceptor is final exactly on the words of the dictionary.
  The built-in word list (one literal of the source) is the argument \<open>builtin\<close>: nothing proved
  here depends on which words it holds.
\<close>

section \<open>Building the dictionary\<close>

type_synonym js_text = "nat list"

text \<open>\<open>sortuniq\<close>: JavaScript's default sort, then keep what differs from its predecessor.\<close>

definition sortuniq :: "js_text list \<Rightarrow> js_text list" where
  "sortuniq a = (let arr = sort a in
     map (\<lambda>pos. arr ! pos) (filter (\<lambda>pos. pos = 0 \<or> arr ! pos \<noteq> arr ! (pos - 1)) [0..<length arr]))"

definition finalize_dict :: "js_text list \<Rightarrow> js_text list" where
  "finalize_dict dict = sortuniq dict"

definition add_words :: "js_text list \<Rightarrow> bool option \<Rightarrow> js_text list \<Rightarrow> js_text list" where
  "add_words words finalize dict =
     (let dict' = dict @ words in
      if finalize = None \<or> finalize = Some True then finalize_dict dict' else dict')"

text \<open>
  \<open>addFiles\<close>: the loop runs once whatever files are named, over the literal word list, of which
  words of at most one code unit are dropped.
\<close>

definition add_files :: "js_text list \<Rightarrow> js_text list \<Rightarrow> bool option \<Rightarrow> js_text list \<Rightarrow> js_text list" where
  "add_files builtin files finalize dict =
     (let dict' = add_words (filter (\<lambda>w. 1 < length w) builtin) (Some False) dict in
      if finalize = None \<or> finalize = Some True then finalize_dict dict' else dict')"

text \<open>
  \<open>init\<close>. The argument \<open>dictPathFile\<close> is absent, one path or an array of paths; the result of
  \<open>dictPath.concat\<close> is not used.
\<close>

datatype dict_path_file = NoPath | OnePath js_text | PathArray "js_text list"

definition dict_init ::
  "js_text list \<Rightarrow> js_text \<Rightarrow> dict_path_file \<Rightarrow> bool \<Rightarrow> js_text list option \<Rightarrow> js_text list" where
  "dict_init builtin default_dict path_file with_default words =
     (let dict_path = (if with_default \<or> path_file = NoPath then [default_dict] else []);
          dict_path' = (case path_file of
                          NoPath \<Rightarrow> dict_path | PathArray _ \<Rightarrow> dict_path | OnePath p \<Rightarrow> dict_path @ [p]);
          dict = add_files builtin dict_path' (Some False) [];
          dict' = (case words of None \<Rightarrow> dict | Some ws \<Rightarrow> add_words ws (Some False) dict)
      in finalize_dict dict')"

definition js_flatten :: "'a list list \<Rightarrow> 'a list" where
  "js_flatten a = concat a"

section \<open>The acceptor\<close>

text \<open>\<open>dictSeek\<close> over the array \<open>d\<close>; \<open>left\<close> for \<open>pos == LEFT\<close>. Indices are integers: \<open>r\<close> may be -1.\<close>

function dict_seek ::
  "js_text list \<Rightarrow> int \<Rightarrow> int \<Rightarrow> nat \<Rightarrow> nat \<Rightarrow> bool \<Rightarrow> int option \<Rightarrow> int option" where
  "dict_seek d l r ch off left ans =
     (if l \<le> r
      then let m = (l + r) div 2; item = d ! nat m in
           if length item \<le> off then dict_seek d (m + 1) r ch off left ans
           else let ch' = item ! off in
             if ch' < ch then dict_seek d (m + 1) r ch off left ans
             else if ch' > ch then dict_seek d l (m - 1) ch off left ans
             else if left then dict_seek d l (m - 1) ch off left (Some m)
             else dict_seek d (m + 1) r ch off left (Some m)
      else ans)"
  by pat_completeness auto
termination by (relation "measure (\<lambda>(d, l, r, _). nat (r - l + 1))") (auto simp: Let_def)

declare dict_seek.simps [simp del]

record dict_acceptor =
  da_l :: int
  da_r :: int
  da_off :: nat
  da_final :: bool
  da_error :: bool

definition dict_create_acceptor :: "js_text list \<Rightarrow> dict_acceptor" where
  "dict_create_acceptor d = \<lparr>da_l = 0, da_r = int (length d) - 1, da_off = 0, da_final = False,
     da_error = False\<rparr>"

definition dict_is_final :: "js_text list \<Rightarrow> dict_acceptor \<Rightarrow> bool" where
  "dict_is_final d a = (length (d ! nat (da_l a)) = da_off a)"

definition dict_transit :: "js_text list \<Rightarrow> nat \<Rightarrow> dict_acceptor \<Rightarrow> dict_acceptor" where
  "dict_transit d ch a =
     (case dict_seek d (da_l a) (da_r a) ch (da_off a) True None of
        None \<Rightarrow> a\<lparr>da_error := True\<rparr>
      | Some l \<Rightarrow>
          (let r = dict_seek d l (da_r a) ch (da_off a) False None;
               a' = a\<lparr>da_l := l, da_r := (case r of None \<Rightarrow> 0 | Some r \<Rightarrow> r), da_off := da_off a + 1\<rparr>
           in a'\<lparr>da_final := dict_is_final d a'\<rparr>))"

section \<open>The dictionary is strictly sorted\<close>

lemma sorted_le_last: "sorted xs \<Longrightarrow> y \<in> set xs \<Longrightarrow> y \<le> last xs"
  for xs :: "'a::linorder list"
  by (induction xs) auto

lemma sortuniq_aux:
  "sorted xs \<Longrightarrow>
   sorted_wrt (<) (map (\<lambda>pos. xs ! pos) (filter (\<lambda>pos. pos = 0 \<or> xs ! pos \<noteq> xs ! (pos - 1)) [0..<length xs]))
   \<and> set (map (\<lambda>pos. xs ! pos) (filter (\<lambda>pos. pos = 0 \<or> xs ! pos \<noteq> xs ! (pos - 1)) [0..<length xs])) = set xs"
  for xs :: "'a::linorder list"
proof (induction xs rule: rev_induct)
  case (snoc x xs)
  let ?f = "\<lambda>xs. map (\<lambda>pos. xs ! pos) (filter (\<lambda>pos. pos = 0 \<or> xs ! pos \<noteq> xs ! (pos - 1)) [0..<length xs])"
  have cong: "filter (\<lambda>pos. pos = 0 \<or> (xs @ [x]) ! pos \<noteq> (xs @ [x]) ! (pos - 1)) [0..<length xs]
      = filter (\<lambda>pos. pos = 0 \<or> xs ! pos \<noteq> xs ! (pos - 1)) [0..<length xs]"
    by (rule filter_cong) (auto simp: nth_append)
  have old: "map (\<lambda>pos. (xs @ [x]) ! pos) (filter (\<lambda>pos. pos = 0 \<or> (xs @ [x]) ! pos \<noteq> (xs @ [x]) ! (pos - 1)) [0..<length xs])
      = ?f xs"
    unfolding cong by (rule map_cong) (auto simp: nth_append)
  have step: "?f (xs @ [x]) = ?f xs @ (if xs = [] \<or> x \<noteq> last xs then [x] else [])"
    using old by (auto simp: nth_append last_conv_nth)
  have xs: "sorted xs" "\<forall>y \<in> set xs. y \<le> x" using snoc.prems by (auto simp: sorted_append)
  note IH = snoc.IH [OF xs(1)]
  have "\<forall>y \<in> set xs. y < x" if "x \<noteq> last xs" "xs \<noteq> []"
  proof
    fix y assume y: "y \<in> set xs"
    have "y \<le> last xs" using sorted_le_last [OF xs(1) y] .
    moreover have "last xs < x" using xs(2) that last_in_set [of xs] by (metis order_le_less)
    ultimately show "y < x" by simp
  qed
  then show ?case
    unfolding step using IH xs last_in_set [of xs]
    by (cases "xs = []") (auto simp: sorted_wrt_append)
qed simp

lemma sortuniq_sorted: "sorted_wrt (<) (sortuniq a)"
  and sortuniq_set: "set (sortuniq a) = set a"
  using sortuniq_aux [OF sorted_sort [of a]] by (simp_all add: sortuniq_def Let_def)

section \<open>Binary search\<close>

text \<open>What the search compares: the next code unit, a word that ends before it below all.\<close>

definition seek_key :: "js_text list \<Rightarrow> nat \<Rightarrow> int \<Rightarrow> nat" where
  "seek_key d off i = (let w = d ! nat i in if length w \<le> off then 0 else Suc (w ! off))"

definition found_first :: "(int \<Rightarrow> nat) \<Rightarrow> int \<Rightarrow> int \<Rightarrow> nat \<Rightarrow> int \<Rightarrow> bool" where
  "found_first f l r k m = (l \<le> m \<and> m \<le> r \<and> f m = k \<and> (\<forall>i. l \<le> i \<and> i < m \<longrightarrow> f i < k))"

definition found_last :: "(int \<Rightarrow> nat) \<Rightarrow> int \<Rightarrow> int \<Rightarrow> nat \<Rightarrow> int \<Rightarrow> bool" where
  "found_last f l r k m = (l \<le> m \<and> m \<le> r \<and> f m = k \<and> (\<forall>i. m < i \<and> i \<le> r \<longrightarrow> k < f i))"

definition mono_between :: "(int \<Rightarrow> nat) \<Rightarrow> int \<Rightarrow> int \<Rightarrow> bool" where
  "mono_between f l r = (\<forall>i j. l \<le> i \<and> i \<le> j \<and> j \<le> r \<longrightarrow> f i \<le> f j)"

lemma dict_seek_key:
  "dict_seek d l r ch off left ans =
     (if l \<le> r
      then let m = (l + r) div 2; k = seek_key d off m in
        if k < Suc ch then dict_seek d (m + 1) r ch off left ans
        else if k > Suc ch then dict_seek d l (m - 1) ch off left ans
        else if left then dict_seek d l (m - 1) ch off left (Some m)
        else dict_seek d (m + 1) r ch off left (Some m)
      else ans)"
  by (subst dict_seek.simps) (simp add: seek_key_def Let_def)

lemma mono_betweenD: "mono_between f l r \<Longrightarrow> l \<le> i \<Longrightarrow> i \<le> j \<Longrightarrow> j \<le> r \<Longrightarrow> f i \<le> f j"
  by (simp add: mono_between_def)

lemma mono_between_sub: "mono_between f l r \<Longrightarrow> l \<le> l' \<Longrightarrow> r' \<le> r \<Longrightarrow> mono_between f l' r'"
  by (simp add: mono_between_def)

text \<open>The loop invariants over a fixed range \<open>L \<dots> R\<close>, for the first and for the last hit.\<close>

definition inv_left :: "(int \<Rightarrow> nat) \<Rightarrow> int \<Rightarrow> int \<Rightarrow> nat \<Rightarrow> int \<Rightarrow> int \<Rightarrow> int option \<Rightarrow> bool" where
  "inv_left f L R k l r ans = (L \<le> l \<and> l \<le> r + 1 \<and> r \<le> R \<and> (\<forall>i. L \<le> i \<and> i < l \<longrightarrow> f i < k) \<and>
     (case ans of None \<Rightarrow> (\<forall>i. r < i \<and> i \<le> R \<longrightarrow> k < f i) | Some m \<Rightarrow> m = r + 1 \<and> m \<le> R \<and> f m = k))"

definition inv_right :: "(int \<Rightarrow> nat) \<Rightarrow> int \<Rightarrow> int \<Rightarrow> nat \<Rightarrow> int \<Rightarrow> int \<Rightarrow> int option \<Rightarrow> bool" where
  "inv_right f L R k l r ans = (L \<le> l \<and> l \<le> r + 1 \<and> r \<le> R \<and> (\<forall>i. r < i \<and> i \<le> R \<longrightarrow> k < f i) \<and>
     (case ans of None \<Rightarrow> (\<forall>i. L \<le> i \<and> i < l \<longrightarrow> f i < k) | Some m \<Rightarrow> m = l - 1 \<and> L \<le> m \<and> f m = k))"

definition no_hit :: "(int \<Rightarrow> nat) \<Rightarrow> int \<Rightarrow> int \<Rightarrow> nat \<Rightarrow> bool" where
  "no_hit f L R k = (\<forall>i. L \<le> i \<and> i \<le> R \<longrightarrow> f i \<noteq> k)"

lemma inv_left_end:
  assumes "inv_left f L R k l r ans" "r < l"
  shows "case ans of None \<Rightarrow> no_hit f L R k | Some m \<Rightarrow> found_first f L R k m"
proof -
  have "l = r + 1" using assms by (simp add: inv_left_def)
  with assms show ?thesis
    by (auto simp: inv_left_def no_hit_def found_first_def split: option.splits)
      (metis less_irrefl_nat not_less zless_add1_eq order_le_less)
qed

lemma inv_right_end:
  assumes "inv_right f L R k l r ans" "r < l"
  shows "case ans of None \<Rightarrow> no_hit f L R k | Some m \<Rightarrow> found_last f L R k m"
proof -
  have "l = r + 1" using assms by (simp add: inv_right_def)
  with assms show ?thesis
    by (auto simp: inv_right_def no_hit_def found_last_def split: option.splits)
      (metis less_irrefl_nat not_less zless_add1_eq order_le_less)
qed

lemma inv_left_lo:
  assumes "inv_left f L R k l r ans" "mono_between f L R" "l \<le> m" "m \<le> r" "f m < k"
  shows "inv_left f L R k (m + 1) r ans"
proof -
  have "f i < k" if "L \<le> i" "i < m + 1" for i
    using mono_betweenD [OF assms(2), of i m] that assms by (simp add: inv_left_def)
  with assms show ?thesis by (auto simp: inv_left_def)
qed

lemma inv_left_hi:
  assumes "inv_left f L R k l r ans" "mono_between f L R" "l \<le> m" "m \<le> r" "k < f m"
  shows "inv_left f L R k l (m - 1) ans"
proof -
  have up: "k < f i" if "m \<le> i" "i \<le> R" for i
    using mono_betweenD [OF assms(2), of m i] that assms by (simp add: inv_left_def)
  show ?thesis
  proof (cases ans)
    case (Some x)
    then have "f (r + 1) = k" "r + 1 \<le> R" using assms(1) by (auto simp: inv_left_def)
    with up [of "r + 1"] assms(4) show ?thesis by simp
  qed (use up assms in \<open>auto simp: inv_left_def\<close>)
qed

lemma inv_left_eq:
  "inv_left f L R k l r ans \<Longrightarrow> l \<le> m \<Longrightarrow> m \<le> r \<Longrightarrow> f m = k \<Longrightarrow> inv_left f L R k l (m - 1) (Some m)"
  by (auto simp: inv_left_def)

lemma inv_right_hi:
  assumes "inv_right f L R k l r ans" "mono_between f L R" "l \<le> m" "m \<le> r" "k < f m"
  shows "inv_right f L R k l (m - 1) ans"
proof -
  have "k < f i" if "m - 1 < i" "i \<le> R" for i
    using mono_betweenD [OF assms(2), of m i] that assms by (simp add: inv_right_def)
  with assms show ?thesis by (auto simp: inv_right_def)
qed

lemma inv_right_lo:
  assumes "inv_right f L R k l r ans" "mono_between f L R" "l \<le> m" "m \<le> r" "f m < k"
  shows "inv_right f L R k (m + 1) r ans"
proof -
  have up: "f i < k" if "L \<le> i" "i \<le> m" for i
    using mono_betweenD [OF assms(2), of i m] that assms by (simp add: inv_right_def)
  show ?thesis
  proof (cases ans)
    case (Some x)
    then have "f (l - 1) = k" "L \<le> l - 1" using assms(1) by (auto simp: inv_right_def)
    with up [of "l - 1"] assms(3) show ?thesis by simp
  qed (use up assms in \<open>auto simp: inv_right_def\<close>)
qed

lemma inv_right_eq:
  "inv_right f L R k l r ans \<Longrightarrow> l \<le> m \<Longrightarrow> m \<le> r \<Longrightarrow> f m = k \<Longrightarrow> inv_right f L R k (m + 1) r (Some m)"
  by (auto simp: inv_right_def)

lemma dict_seek_left:
  assumes "mono_between (seek_key d off) L R" "inv_left (seek_key d off) L R (Suc ch) l r ans"
  shows "case dict_seek d l r ch off True ans of
      None \<Rightarrow> no_hit (seek_key d off) L R (Suc ch)
    | Some m \<Rightarrow> found_first (seek_key d off) L R (Suc ch) m"
  using assms(2)
proof (induction "nat (r - l + 1)" arbitrary: l r ans rule: less_induct)
  case less
  let ?f = "seek_key d off" and ?m = "(l + r) div 2"
  show ?case
  proof (cases "l \<le> r")
    case True
    then have m: "l \<le> ?m" "?m \<le> r"
      and dec: "nat (r - (?m + 1) + 1) < nat (r - l + 1)" "nat (?m - 1 - l + 1) < nat (r - l + 1)" by auto
    consider (lo) "?f ?m < Suc ch" | (hi) "?f ?m > Suc ch" | (eq) "?f ?m = Suc ch" by linarith
    then show ?thesis
    proof cases
      case lo
      with True less.hyps [OF dec(1) inv_left_lo [OF less.prems assms(1) m lo]]
      show ?thesis by (subst dict_seek_key) (simp add: Let_def)
    next
      case hi
      with True less.hyps [OF dec(2) inv_left_hi [OF less.prems assms(1) m hi]]
      show ?thesis by (subst dict_seek_key) (simp add: Let_def)
    next
      case eq
      with True less.hyps [OF dec(2) inv_left_eq [OF less.prems m eq]]
      show ?thesis by (subst dict_seek_key) (simp add: Let_def)
    qed
  next
    case False
    with inv_left_end [OF less.prems] show ?thesis by (subst dict_seek.simps) simp
  qed
qed

lemma dict_seek_right:
  assumes "mono_between (seek_key d off) L R" "inv_right (seek_key d off) L R (Suc ch) l r ans"
  shows "case dict_seek d l r ch off False ans of
      None \<Rightarrow> no_hit (seek_key d off) L R (Suc ch)
    | Some m \<Rightarrow> found_last (seek_key d off) L R (Suc ch) m"
  using assms(2)
proof (induction "nat (r - l + 1)" arbitrary: l r ans rule: less_induct)
  case less
  let ?f = "seek_key d off" and ?m = "(l + r) div 2"
  show ?case
  proof (cases "l \<le> r")
    case True
    then have m: "l \<le> ?m" "?m \<le> r"
      and dec: "nat (r - (?m + 1) + 1) < nat (r - l + 1)" "nat (?m - 1 - l + 1) < nat (r - l + 1)" by auto
    consider (lo) "?f ?m < Suc ch" | (hi) "?f ?m > Suc ch" | (eq) "?f ?m = Suc ch" by linarith
    then show ?thesis
    proof cases
      case lo
      with True less.hyps [OF dec(1) inv_right_lo [OF less.prems assms(1) m lo]]
      show ?thesis by (subst dict_seek_key) (simp add: Let_def)
    next
      case hi
      with True less.hyps [OF dec(2) inv_right_hi [OF less.prems assms(1) m hi]]
      show ?thesis by (subst dict_seek_key) (simp add: Let_def)
    next
      case eq
      with True less.hyps [OF dec(1) inv_right_eq [OF less.prems m eq]]
      show ?thesis by (subst dict_seek_key) (simp add: Let_def)
    qed
  next
    case False
    with inv_right_end [OF less.prems] show ?thesis by (subst dict_seek.simps) simp
  qed
qed

section \<open>The range of an acceptor\<close>

lemma append_le_append: "s @ u \<le> s @ v \<longleftrightarrow> u \<le> (v :: js_text)"
  by (induction s) auto

lemma prefix_le: "prefix s w \<Longrightarrow> s \<le> (w :: js_text)"
proof -
  assume "prefix s w"
  then obtain u where "w = s @ u" by (auto simp: prefix_def)
  then show "s \<le> w" using append_le_append [of s "[]" u] by simp
qed

lemma seek_key_mono:
  assumes "prefix s (d ! nat i)" "prefix s (d ! nat j)" "d ! nat i \<le> d ! nat j"
  shows "seek_key d (length s) i \<le> seek_key d (length s) j"
proof -
  obtain u v where "d ! nat i = s @ u" "d ! nat j = s @ v" using assms(1,2) by (auto simp: prefix_def)
  moreover from this assms(3) have "u \<le> v" by (simp add: append_le_append)
  ultimately show ?thesis
    by (cases u; cases v) (auto simp: seek_key_def)
qed

lemma prefix_snoc_key:
  "prefix (s @ [c]) (d ! nat i) \<longleftrightarrow> prefix s (d ! nat i) \<and> seek_key d (length s) i = Suc c"
  by (auto simp: seek_key_def Let_def prefix_def nth_append neq_Nil_conv split: if_splits)

definition acceptor_at :: "js_text list \<Rightarrow> js_text \<Rightarrow> dict_acceptor \<Rightarrow> bool" where
  "acceptor_at d s a = (da_off a = length s \<and> \<not> da_error a \<and> 0 \<le> da_l a \<and> da_r a < int (length d) \<and>
     (\<forall>i < length d. prefix s (d ! i) \<longleftrightarrow> da_l a \<le> int i \<and> int i \<le> da_r a))"

lemma acceptor_at_start: "acceptor_at d [] (dict_create_acceptor d)"
  by (auto simp: acceptor_at_def dict_create_acceptor_def)

lemma acceptor_atD:
  assumes "acceptor_at d s a" "da_l a \<le> i" "i \<le> da_r a"
  shows "nat i < length d" "prefix s (d ! nat i)"
  using assms by (auto simp: acceptor_at_def)

lemma strict_sorted_nth_le:
  "sorted_wrt (<) d \<Longrightarrow> i \<le> j \<Longrightarrow> j < length d \<Longrightarrow> d ! i \<le> (d ! j :: 'a::linorder)"
  by (metis order_le_less order_refl sorted_wrt_nth_less)

lemma acceptor_at_mono:
  assumes d: "sorted_wrt (<) d" and a: "acceptor_at d s a"
  shows "mono_between (seek_key d (length s)) (da_l a) (da_r a)"
  unfolding mono_between_def
proof (intro allI impI, elim conjE)
  fix i j assume ij: "da_l a \<le> i" "i \<le> j" "j \<le> da_r a"
  then have "0 \<le> i" using a by (simp add: acceptor_at_def)
  then have "d ! nat i \<le> d ! nat j"
    using ij acceptor_atD(1) [OF a, of j] by (intro strict_sorted_nth_le [OF d]) auto
  then show "seek_key d (length s) i \<le> seek_key d (length s) j"
    using acceptor_atD(2) [OF a] ij by (intro seek_key_mono) auto
qed

lemma dict_transit_step:
  assumes d: "sorted_wrt (<) d" and a: "acceptor_at d s a"
  shows "if \<exists>w \<in> set d. prefix (s @ [c]) w
    then acceptor_at d (s @ [c]) (dict_transit d c a)
      \<and> (da_final (dict_transit d c a) \<longleftrightarrow> s @ [c] \<in> set d)
    else da_error (dict_transit d c a)"
proof -
  let ?f = "seek_key d (length s)"
  note mono = acceptor_at_mono [OF d a]
  have off: "da_off a = length s" using a by (simp add: acceptor_at_def)
  have hits: "prefix (s @ [c]) (d ! i) \<longleftrightarrow> da_l a \<le> int i \<and> int i \<le> da_r a \<and> ?f (int i) = Suc c"
    if "i < length d" for i
    using that a prefix_snoc_key [of s c d "int i"] by (auto simp: acceptor_at_def)
  have start: "inv_left ?f (da_l a) (da_r a) (Suc c) (da_l a) (da_r a) None" if "da_l a \<le> da_r a + 1"
    using that by (simp add: inv_left_def)
  show ?thesis
  proof (cases "dict_seek d (da_l a) (da_r a) c (length s) True None")
    case None
    have "no_hit ?f (da_l a) (da_r a) (Suc c)"
    proof (cases "da_l a \<le> da_r a + 1")
      case True
      from dict_seek_left [OF mono start [OF True]] None show ?thesis by simp
    qed (simp add: no_hit_def)
    then have "\<not> (\<exists>w \<in> set d. prefix (s @ [c]) w)"
      using hits by (auto simp: no_hit_def in_set_conv_nth)
    moreover have "da_error (dict_transit d c a)" using None by (simp add: dict_transit_def off)
    ultimately show ?thesis by simp
  next
    case (Some l)
    have le: "da_l a \<le> da_r a"
      using Some by (rule_tac ccontr) (simp add: dict_seek.simps [of d "da_l a" "da_r a"])
    with dict_seek_left [OF mono start] Some have l: "found_first ?f (da_l a) (da_r a) (Suc c) l" by simp
    then have l': "da_l a \<le> l" "l \<le> da_r a" "?f l = Suc c" by (simp_all add: found_first_def)
    have mono': "mono_between ?f l (da_r a)" by (rule mono_between_sub [OF mono l'(1)]) simp
    have "inv_right ?f l (da_r a) (Suc c) l (da_r a) None" using l' by (simp add: inv_right_def)
    from dict_seek_right [OF mono' this] l' obtain r where
      r: "dict_seek d l (da_r a) c (length s) False None = Some r" "found_last ?f l (da_r a) (Suc c) r"
      by (auto simp: no_hit_def split: option.splits)
    have r': "l \<le> r" "r \<le> da_r a" "?f r = Suc c" using r(2) by (simp_all add: found_last_def)
    have range: "?f i = Suc c \<longleftrightarrow> l \<le> i \<and> i \<le> r" if "da_l a \<le> i" "i \<le> da_r a" for i
    proof
      assume f: "?f i = Suc c"
      show "l \<le> i \<and> i \<le> r"
        using l r(2) f that unfolding found_first_def found_last_def
        by (metis less_irrefl_nat linorder_not_le order_trans)
    next
      assume "l \<le> i \<and> i \<le> r"
      then show "?f i = Suc c"
        using mono_betweenD [OF mono, of l i] mono_betweenD [OF mono, of i r] that l' r' by simp
    qed
    let ?a = "dict_transit d c a"
    have eq: "da_l ?a = l" "da_r ?a = r" "da_off ?a = length (s @ [c])" "da_error ?a = da_error a"
      "da_final ?a = (length (d ! nat l) = length (s @ [c]))"
      using Some r(1) by (simp_all add: dict_transit_def off Let_def dict_is_final_def)
    have len: "nat l < length d" and l0: "0 \<le> l"
      using acceptor_atD(1) [OF a l'(1,2)] a l'(1) by (auto simp: acceptor_at_def)
    have pl: "prefix (s @ [c]) (d ! nat l)" using hits [OF len] l' l0 by simp
    have at: "acceptor_at d (s @ [c]) ?a"
      unfolding acceptor_at_def eq
      using a l0 l'(1) r' hits range by (auto simp: acceptor_at_def)
    have "da_final ?a \<longleftrightarrow> s @ [c] \<in> set d"
    proof
      assume "da_final ?a"
      then have "d ! nat l = s @ [c]" using pl unfolding eq prefix_def by force
      then show "s @ [c] \<in> set d" using len by (metis nth_mem)
    next
      assume "s @ [c] \<in> set d"
      then obtain i where i: "i < length d" "d ! i = s @ [c]" by (auto simp: in_set_conv_nth)
      then have "l \<le> int i" using hits [OF i(1)] range by auto
      then have "d ! nat l \<le> s @ [c]" using strict_sorted_nth_le [OF d, of "nat l" i] i by simp
      with prefix_le [OF pl] have "d ! nat l = s @ [c]" by simp
      then show "da_final ?a" by (simp add: eq)
    qed
    moreover have "\<exists>w \<in> set d. prefix (s @ [c]) w" using pl len nth_mem by blast
    ultimately show ?thesis using at by simp
  qed
qed

lemma dict_transit_error: "da_error a \<Longrightarrow> da_error (dict_transit d c a)"
  by (simp add: dict_transit_def Let_def split: option.split)

definition dict_read :: "js_text list \<Rightarrow> js_text \<Rightarrow> dict_acceptor" where
  "dict_read d s = foldl (\<lambda>a c. dict_transit d c a) (dict_create_acceptor d) s"

lemma dict_read_spec:
  assumes d: "sorted_wrt (<) d"
  shows "s = [] \<and> acceptor_at d s (dict_read d s)
    \<or> s \<noteq> [] \<and> (\<exists>w \<in> set d. prefix s w) \<and> acceptor_at d s (dict_read d s)
        \<and> (da_final (dict_read d s) \<longleftrightarrow> s \<in> set d)
    \<or> s \<noteq> [] \<and> \<not> (\<exists>w \<in> set d. prefix s w) \<and> da_error (dict_read d s)"
proof (induction s rule: rev_induct)
  case (snoc c s)
  have step: "dict_read d (s @ [c]) = dict_transit d c (dict_read d s)" by (simp add: dict_read_def)
  show ?case
  proof (cases "acceptor_at d s (dict_read d s)")
    case True
    from dict_transit_step [OF d this, of c] show ?thesis unfolding step by (auto split: if_splits)
  next
    case False
    with snoc.IH have "\<not> (\<exists>w \<in> set d. prefix s w)" "da_error (dict_read d s)" by auto
    then show ?thesis unfolding step
      using dict_transit_error by (auto simp: prefix_def)
  qed
qed (simp add: dict_read_def acceptor_at_start)

section \<open>Properties\<close>

definition dict_words :: "js_text list \<Rightarrow> js_text list option \<Rightarrow> js_text set" where
  "dict_words builtin words =
     {w \<in> set builtin. 1 < length w} \<union> (case words of None \<Rightarrow> {} | Some ws \<Rightarrow> set ws)"

lemma dict_init_eq:
  "dict_init builtin dd pf wd words =
   sortuniq (filter (\<lambda>w. 1 < length w) builtin @ (case words of None \<Rightarrow> [] | Some ws \<Rightarrow> ws))"
  by (simp add: dict_init_def add_files_def add_words_def finalize_dict_def Let_def split: option.split)

lemma dict_init_facts:
  "sorted_wrt (<) (dict_init builtin dd pf wd words)"
  "set (dict_init builtin dd pf wd words) = dict_words builtin words"
  by (auto simp: dict_init_eq sortuniq_sorted sortuniq_set dict_words_def split: option.split)

text \<open>
  Initialisation leaves the dictionary strictly sorted, so without duplicates, and holding
  exactly the built-in words of at least two code units and the additional ones, whichever
  dictionary files the caller names: the paths have no effect.
\<close>

theorem dict_init_sorted:
  "sorted_wrt (<) (dict_init builtin dd pf wd words)
   \<and> distinct (dict_init builtin dd pf wd words)
   \<and> set (dict_init builtin dd pf wd words) = dict_words builtin words
   \<and> dict_init builtin dd pf wd words = dict_init builtin dd' pf' wd' words"
  using dict_init_facts [of builtin dd pf wd words]
  by (simp add: dict_init_eq strict_sorted_iff)

text \<open>
  C18. The acceptor recognises the dictionary: after reading a text it has failed exactly if no
  word begins with the text; otherwise its range is that of the words beginning with it, and
  it is final exactly if the text is a word.
\<close>

theorem dict_acceptor_recognises:
  fixes s :: js_text and builtin :: "js_text list" and dd :: js_text and pf :: dict_path_file
    and wd :: bool and words :: "js_text list option"
  assumes "s \<noteq> []"
  defines "d \<equiv> dict_init builtin dd pf wd words"
  shows "(da_error (dict_read d s) \<longleftrightarrow> \<not> (\<exists>w \<in> dict_words builtin words. prefix s w))
    \<and> (da_error (dict_read d s) \<or>
        (da_final (dict_read d s) \<longleftrightarrow> s \<in> dict_words builtin words)
        \<and> {w \<in> dict_words builtin words. prefix s w} =
          {d ! i |i. i < length d \<and> da_l (dict_read d s) \<le> int i \<and> int i \<le> da_r (dict_read d s)})"
proof -
  have set: "set d = dict_words builtin words" using dict_init_facts(2) by (simp add: d_def)
  have "sorted_wrt (<) d" using dict_init_facts(1) by (simp add: d_def)
  from dict_read_spec [OF this, of s] assms(1) show ?thesis
    unfolding set [symmetric]
    by (auto simp: acceptor_at_def in_set_conv_nth)
qed

lemma dict_acceptor_recognises_witness:
  "\<not> da_error (dict_read (dict_init [[3, 1], [3, 2, 5], [3, 2], [7]] [] NoPath False (Some [[4]])) [3, 2])
   \<and> da_final (dict_read (dict_init [[3, 1], [3, 2, 5], [3, 2], [7]] [] NoPath False (Some [[4]])) [3, 2])"
proof -
  have "[3, 2] \<in> dict_words [[3, 1], [3, 2, 5], [3, 2], [7]] (Some [[4 :: nat]])"
    by (simp add: dict_words_def)
  then show ?thesis
    using dict_acceptor_recognises [of "[3, 2]" "[[3, 1], [3, 2, 5], [3, 2], [7]]" "[]" NoPath False "Some [[4]]"]
    by blast
qed

end
