(* ===== verification/WcRules.thy ===== *)
theory WcRules
  imports WcDict
begin

text \<open>
  The recognisers of the word segmenter (\<open>wordcut.js\<close>, modules 1, 3 and 6): the Latin rules, the
  Thai rules and the set of acceptors run side by side over a text. Each rule creates an
  acceptor at every position; an acceptor reads on until it fails, and is final while what it
  has read is a unit of the text. A character is one UTF-16 code unit.
\<close>

section \<open>Acceptors\<close>

datatype acc_type = WORD_RULE | NUMBER_RULE | SPACE_RULE | SINSYM | THAI_RULE | PART | DICT

text \<open>
  The objects the rules create. All but those of the part rule and the dictionary have an
  offset and the flags \<open>isFinal\<close> and \<open>isError\<close> only.
\<close>

datatype acceptor =
  RuleAcc acc_type nat bool bool
| PartAcc "js_text list" nat bool bool
| DictAcc "js_text list" dict_acceptor

fun ac_type :: "acceptor \<Rightarrow> acc_type" where
  "ac_type (RuleAcc t _ _ _) = t" | "ac_type (PartAcc _ _ _ _) = PART" | "ac_type (DictAcc _ _) = DICT"

fun ac_off :: "acceptor \<Rightarrow> nat" where
  "ac_off (RuleAcc _ n _ _) = n" | "ac_off (PartAcc _ n _ _) = n" | "ac_off (DictAcc _ a) = da_off a"

fun ac_final :: "acceptor \<Rightarrow> bool" where
  "ac_final (RuleAcc _ _ b _) = b" | "ac_final (PartAcc _ _ b _) = b" | "ac_final (DictAcc _ a) = da_final a"

fun ac_error :: "acceptor \<Rightarrow> bool" where
  "ac_error (RuleAcc _ _ _ e) = e" | "ac_error (PartAcc _ _ _ e) = e" | "ac_error (DictAcc _ a) = da_error a"

text \<open>The weight of an unknown part counts for part acceptors only; every acceptor weighs 1.\<close>

definition ac_unk :: "acceptor \<Rightarrow> nat" where
  "ac_unk a = (if ac_type a = PART then 1 else 0)"

section \<open>Latin rules\<close>

text \<open>
  \<open>ch.toLowerCase()\<close> between \<open>a\<close> and \<open>z\<close>: the ASCII letters, and the two other characters whose
  lower case begins with one, the Kelvin sign and the dotted capital I.
\<close>

definition js_word_char :: "nat \<Rightarrow> bool" where
  "js_word_char ch = (65 \<le> ch \<and> ch \<le> 90 \<or> 97 \<le> ch \<and> ch \<le> 122 \<or> ch = 0x212A \<or> ch = 0x130)"

definition js_digit_char :: "nat \<Rightarrow> bool" where
  "js_digit_char ch = (48 \<le> ch \<and> ch \<le> 57)"

definition js_space_char :: "nat \<Rightarrow> bool" where
  "js_space_char ch = (ch \<in> {32, 9, 13, 10, 0xA0, 0x2003})"

text \<open>The class \<open>[@()/,-."`]\<close>.\<close>

definition js_symbol_char :: "nat \<Rightarrow> bool" where
  "js_symbol_char ch = (ch \<in> {64, 40, 41, 47, 44, 45, 46, 34, 96})"

definition rule_step :: "bool \<Rightarrow> acc_type \<Rightarrow> nat \<Rightarrow> bool \<Rightarrow> bool \<Rightarrow> acceptor" where
  "rule_step ok t n fin err = (if ok then RuleAcc t (n + 1) True err else RuleAcc t n fin True)"

section \<open>Thai rules\<close>

definition thai_consonant :: "nat \<Rightarrow> bool" where
  "thai_consonant ch = (0xE01 \<le> ch \<and> ch \<le> 0xE2E)"

text \<open>\<open>isMatch\<close>.\<close>

definition is_match :: "js_text \<Rightarrow> nat \<Rightarrow> nat \<Rightarrow> bool" where
  "is_match pat offset ch =
     (if length pat \<le> offset then False
      else let c = pat ! offset in
        c = ch \<or> c \<in> {0xE01, 0xE02} \<and> thai_consonant ch \<or> c \<in> {0xE21, 0xE1A} \<and> thai_consonant ch
        \<or> c = 0xE49 \<and> 0xE48 \<le> ch \<and> ch \<le> 0xE4B)"

definition rule0_pat :: js_text where
  "rule0_pat = [0xE40, 0xE2B, 0xE01, 0xE47, 0xE21]"

definition part_patterns :: "js_text list" where
  "part_patterns = [[0xE41, 0xE01], [0xE40, 0xE01], [0xE01, 0xE49], [0xE01, 0xE01, 0xE4C],
     [0xE01, 0xE32], [0xE01, 0xE35], [0xE01, 0xE34], [0xE01, 0xE37, 0xE01]]"

section \<open>Transitions\<close>

text \<open>The \<open>transit\<close> methods.\<close>

fun ac_transit :: "nat \<Rightarrow> acceptor \<Rightarrow> acceptor" where
  "ac_transit ch (RuleAcc t n fin err) =
     (case t of
        WORD_RULE \<Rightarrow> rule_step (js_word_char ch) t n fin err
      | NUMBER_RULE \<Rightarrow> rule_step (js_digit_char ch) t n fin err
      | SPACE_RULE \<Rightarrow> rule_step (js_space_char ch) t n fin err
      | SINSYM \<Rightarrow> rule_step (n = 0 \<and> js_symbol_char ch) t n fin err
      | _ \<Rightarrow> (if is_match rule0_pat n ch then RuleAcc t (n + 1) (n + 1 = length rule0_pat) err
              else RuleAcc t n fin True))"
| "ac_transit ch (PartAcc pats n fin err) =
     (let pats' = filter (\<lambda>pat. is_match pat n ch) pats in
      if pats' \<noteq> [] then PartAcc pats' (n + 1) (list_ex (\<lambda>pat. length pat = 1 + n) pats') err
      else PartAcc pats' n fin True)"
| "ac_transit ch (DictAcc d a) = DictAcc d (dict_transit d ch a)"

text \<open>
  The creators, and \<open>createAcceptor\<close>: three rules create no second acceptor while one of theirs
  is running. Of the tag table only which tags it holds is ever asked.
\<close>

datatype creator = WordRule | SpaceRule | SingleSymbolRule | NumberRule | Rule0 | PartRule
  | DictCreator "js_text list"

fun create_acceptor :: "acc_type set \<Rightarrow> creator \<Rightarrow> acceptor option" where
  "create_acceptor tag WordRule = (if WORD_RULE \<in> tag then None else Some (RuleAcc WORD_RULE 0 False False))"
| "create_acceptor tag NumberRule = (if NUMBER_RULE \<in> tag then None else Some (RuleAcc NUMBER_RULE 0 False False))"
| "create_acceptor tag SpaceRule = (if SPACE_RULE \<in> tag then None else Some (RuleAcc SPACE_RULE 0 False False))"
| "create_acceptor tag SingleSymbolRule = Some (RuleAcc SINSYM 0 False False)"
| "create_acceptor tag Rule0 = Some (RuleAcc THAI_RULE 0 False False)"
| "create_acceptor tag PartRule = Some (PartAcc part_patterns 0 False False)"
| "create_acceptor tag (DictCreator d) = Some (DictAcc d (dict_create_acceptor d))"

section \<open>The set of acceptors\<close>

record acceptors =
  as_creators :: "creator list"
  as_current :: "acceptor list"
  as_tag :: "acc_type set"

definition acceptors_init :: acceptors where
  "acceptors_init = \<lparr>as_creators = [], as_current = [], as_tag = {}\<rparr>"

definition acceptors_reset :: "acceptors \<Rightarrow> acceptors" where
  "acceptors_reset A = A\<lparr>as_current := [], as_tag := {}\<rparr>"

definition acceptors_transit :: "nat \<Rightarrow> acceptors \<Rightarrow> acceptors" where
  "acceptors_transit ch A =
     (let current = as_current A @ List.map_filter (create_acceptor (as_tag A)) (as_creators A);
          current' = filter (\<lambda>a. \<not> ac_error a) (map (ac_transit ch) current)
      in A\<lparr>as_current := current', as_tag := set (map ac_type current')\<rparr>)"

definition get_final_acceptors :: "acceptors \<Rightarrow> acceptor list" where
  "get_final_acceptors A = filter ac_final (as_current A)"

text \<open>\<open>Wordcut.initNoDict\<close> and \<open>init\<close>: Latin rules, Thai rules, then the dictionary.\<close>

definition init_no_dict :: acceptors where
  "init_no_dict = acceptors_init\<lparr>as_creators :=
     [WordRule, SpaceRule, SingleSymbolRule, NumberRule] @ [Rule0, PartRule]\<rparr>"

definition wordcut_init :: "js_text list \<Rightarrow> acceptors" where
  "wordcut_init d = init_no_dict\<lparr>as_creators := as_creators init_no_dict @ [DictCreator d]\<rparr>"

section \<open>Offsets\<close>

text \<open>A transition either fails or moves the offset on by one.\<close>

lemma ac_transit_off: "\<not> ac_error (ac_transit ch a) \<Longrightarrow> ac_off (ac_transit ch a) = ac_off a + 1"
  by (cases "(ch, a)" rule: ac_transit.cases)
    (auto simp: rule_step_def Let_def dict_transit_def split: acc_type.splits if_splits option.splits)

lemma ac_transit_type [simp]: "ac_type (ac_transit ch a) = ac_type a"
  by (cases "(ch, a)" rule: ac_transit.cases) (auto simp: rule_step_def Let_def split: acc_type.split)

lemma create_acceptor_off: "create_acceptor tag c = Some a \<Longrightarrow> ac_off a = 0"
  by (cases "(tag, c)" rule: create_acceptor.cases) (auto simp: dict_create_acceptor_def split: if_splits)

text \<open>After \<open>n\<close> characters every running acceptor has read between 1 and \<open>n\<close> of them.\<close>

definition offsets_ok :: "nat \<Rightarrow> acceptors \<Rightarrow> bool" where
  "offsets_ok n A = (\<forall>a \<in> set (as_current A). 1 \<le> ac_off a \<and> ac_off a \<le> n)"

lemma offsets_ok_reset [wf_intros]: "offsets_ok 0 (acceptors_reset A)"
  by (simp add: offsets_ok_def acceptors_reset_def)

lemma map_filter_set: "x \<in> set (List.map_filter f xs) \<longleftrightarrow> (\<exists>y \<in> set xs. f y = Some x)"
  by (induction xs) (auto simp: List.map_filter_simps split: option.splits)

lemma offsets_ok_transit: "offsets_ok n A \<Longrightarrow> offsets_ok (n + 1) (acceptors_transit ch A)"
  unfolding offsets_ok_def acceptors_transit_def Let_def
  by (auto simp: map_filter_set ac_transit_off create_acceptor_off)

end
