(* ===== verification/WcCore.thy ===== *)
theory WcCore
  imports WcRules
begin

text \<open>
  The segmentation itself (\<open>wordcut.js\<close>, modules 4, 5 and 8): the path builder, the path selector
  and \<open>WordcutCore\<close>. A path holds, for every position of the text, where the unit that ends
  there begins and what the best way to get there costs; following it back from the end gives
  the units. The theory shows that following it back always ends, that the units are
  non-empty and, put together, are the text, that the selector picks a cheapest candidate, and
  that a word of Latin letters is never cut.
\<close>

section \<open>Paths\<close>

datatype info_type = INIT | UNK | UnitOf acc_type

text \<open>\<open>null\<close> in \<open>p\<close> and an absent \<open>merge\<close> are \<open>None\<close>.\<close>

record path_info =
  pi_p :: "nat option"
  pi_mw :: nat
  pi_w :: nat
  pi_unk :: nat
  pi_type :: info_type
  pi_merge :: "nat option"

definition create_path :: "path_info list" where
  "create_path = [\<lparr>pi_p = None, pi_mw = 0, pi_w = 0, pi_unk = 0, pi_type = INIT, pi_merge = None\<rparr>]"

text \<open>
  \<open>buildByAcceptors\<close>: one candidate per final acceptor. A part acceptor also marks the entries
  of the path inside its span, whether or not its candidate is chosen later. No acceptor has
  an \<open>mw\<close> of its own.
\<close>

definition mark_merge :: "nat \<Rightarrow> nat \<Rightarrow> path_info list \<Rightarrow> path_info list" where
  "mark_merge p i path = foldl (\<lambda>path j. path[j := (path ! j)\<lparr>pi_merge := Some p\<rparr>]) path [p + 1..<i + 1]"

fun build_by_acceptors ::
  "path_info list \<Rightarrow> acceptor list \<Rightarrow> nat \<Rightarrow> path_info list \<times> path_info list" where
  "build_by_acceptors path [] i = ([], path)"
| "build_by_acceptors path (a # as) i =
     (let p = i + 1 - ac_off a; prev = path ! p;
          part = (ac_type a = PART);
          info = \<lparr>pi_p = Some p, pi_mw = pi_mw prev + 0, pi_w = 1 + pi_w prev,
                  pi_unk = ac_unk a + pi_unk prev, pi_type = UnitOf (ac_type a),
                  pi_merge = (if part then Some p else None)\<rparr>;
          (infos, path') = build_by_acceptors (if part then mark_merge p i path else path) as i
      in (info # infos, path'))"

text \<open>The tone and vowel marks that cannot begin a unit.\<close>

definition thai_mark :: "nat \<Rightarrow> bool" where
  "thai_mark ch = (0xE48 \<le> ch \<and> ch \<le> 0xE4E)"

definition path_fallback :: "path_info list \<Rightarrow> nat \<Rightarrow> js_text \<Rightarrow> nat \<Rightarrow> path_info" where
  "path_fallback path left_boundary text i =
     (let prev = path ! left_boundary in
      if thai_mark (text ! i)
      then \<lparr>pi_p = (if left_boundary \<noteq> 0 then pi_p (path ! left_boundary) else Some left_boundary),
            pi_mw = 0, pi_w = 1 + pi_w prev, pi_unk = 1 + pi_unk prev, pi_type = UNK, pi_merge = None\<rparr>
      else \<lparr>pi_p = Some left_boundary, pi_mw = pi_mw prev, pi_w = 1 + pi_w prev,
            pi_unk = 1 + pi_unk prev, pi_type = UNK, pi_merge = None\<rparr>)"

definition path_build ::
  "path_info list \<Rightarrow> acceptor list \<Rightarrow> nat \<Rightarrow> nat \<Rightarrow> js_text \<Rightarrow> path_info list \<times> path_info list" where
  "path_build path final_acceptors i left_boundary text =
     (let (basic, path') = build_by_acceptors path final_acceptors i in
      if basic \<noteq> [] then (basic, path') else ([path_fallback path' left_boundary text i], path'))"

text \<open>\<open>selectPath\<close>: a \<open>reduce\<close> that starts from \<open>null\<close>.\<close>

definition better :: "path_info \<Rightarrow> path_info \<Rightarrow> bool" where
  "better path sel =
     (pi_unk path < pi_unk sel
      \<or> pi_unk path = pi_unk sel
        \<and> (pi_mw path < pi_mw sel \<or> pi_mw path = pi_mw sel \<and> pi_w path < pi_w sel))"

definition select_path :: "path_info list \<Rightarrow> path_info option" where
  "select_path paths =
     foldl (\<lambda>sel path. case sel of None \<Rightarrow> Some path
                              | Some s \<Rightarrow> if better path s then Some path else Some s) None paths"

section \<open>Cutting a text\<close>

text \<open>The loop of \<open>buildPath\<close>: the path, the left boundary and the acceptors.\<close>

definition build_step ::
  "js_text \<Rightarrow> path_info list \<times> nat \<times> acceptors \<Rightarrow> nat \<Rightarrow> path_info list \<times> nat \<times> acceptors" where
  "build_step text st i =
     (let (path, left_boundary, A) = st;
          A' = acceptors_transit (text ! i) A;
          (possible, path') = path_build path (get_final_acceptors A') i left_boundary text;
          selected = the (select_path possible)
      in (path' @ [selected], if pi_type selected \<noteq> UNK then i else left_boundary, A'))"

definition build_path :: "acceptors \<Rightarrow> js_text \<Rightarrow> path_info list" where
  "build_path A text =
     fst (foldl (build_step text) (create_path, 0, acceptors_reset A) [0..<length text])"

text \<open>
  The loop of \<open>pathToRanges\<close>, which ends if the begins go down; \<open>null\<close> as a begin counts as 0.
\<close>

partial_function (option) ranges_loop ::
  "path_info list \<Rightarrow> nat \<Rightarrow> (nat \<times> nat) list \<Rightarrow> (nat \<times> nat) list option" where
  "ranges_loop path e ranges =
     (if 0 < e
      then (let info = path ! e in
            case pi_merge info of
              Some m \<Rightarrow>
                if ranges \<noteq> []
                then ranges_loop path m (butlast ranges @ [(m, snd (last ranges))])
                else (let s = (case pi_p info of None \<Rightarrow> 0 | Some p \<Rightarrow> p)
                      in ranges_loop path s (ranges @ [(s, e)]))
            | None \<Rightarrow> (let s = (case pi_p info of None \<Rightarrow> 0 | Some p \<Rightarrow> p)
                      in ranges_loop path s (ranges @ [(s, e)])))
      else Some ranges)"

definition path_to_ranges :: "path_info list \<Rightarrow> (nat \<times> nat) list option" where
  "path_to_ranges path = map_option rev (ranges_loop path (length path - 1) [])"

text \<open>JavaScript's \<open>substring\<close>.\<close>

definition js_substring :: "js_text \<Rightarrow> nat \<Rightarrow> nat \<Rightarrow> js_text" where
  "js_substring t a b =
     (let a' = min a (length t); b' = min b (length t)
      in take (max a' b' - min a' b') (drop (min a' b') t))"

fun js_join :: "js_text list \<Rightarrow> js_text \<Rightarrow> js_text" where
  "js_join [] delim = []"
| "js_join [w] delim = w"
| "js_join (w # ws) delim = w @ delim @ js_join ws delim"

definition ranges_to_text :: "js_text \<Rightarrow> (nat \<times> nat) list \<Rightarrow> js_text \<Rightarrow> js_text" where
  "ranges_to_text text ranges delim = js_join (map (\<lambda>(s, e). js_substring text s e) ranges) delim"

definition wc_cut :: "acceptors \<Rightarrow> js_text \<Rightarrow> js_text option \<Rightarrow> js_text option" where
  "wc_cut A text delim =
     map_option (\<lambda>ranges. ranges_to_text text ranges (case delim of None \<Rightarrow> [124] | Some d \<Rightarrow> d))
       (path_to_ranges (build_path A text))"

definition cut_into_ranges ::
  "acceptors \<Rightarrow> js_text \<Rightarrow> bool \<Rightarrow> (nat \<times> nat \<times> js_text option) list option" where
  "cut_into_ranges A text no_text =
     map_option (map (\<lambda>(s, e). (s, e, if no_text then None else Some (js_substring text s e))))
       (path_to_ranges (build_path A text))"

definition cut_into_array :: "acceptors \<Rightarrow> js_text \<Rightarrow> js_text list option" where
  "cut_into_array A text =
     map_option (map (\<lambda>(s, e). js_substring text s e)) (path_to_ranges (build_path A text))"

section \<open>The selector\<close>

lemma better_keep: "\<not> better x y \<Longrightarrow> \<not> better y z \<Longrightarrow> \<not> better x z"
  unfolding better_def by linarith

lemma select_from:
  "\<exists>r. foldl (\<lambda>sel path. case sel of None \<Rightarrow> Some path
             | Some s \<Rightarrow> if better path s then Some path else Some s) (Some s) ps = Some r
     \<and> r \<in> insert s (set ps) \<and> (\<forall>q \<in> insert s (set ps). \<not> better q r)"
proof (induction ps arbitrary: s)
  case Nil
  then show ?case by (simp add: better_def)
next
  case (Cons p ps)
  show ?case
  proof (cases "better p s")
    case True
    obtain r where r: "foldl (\<lambda>sel path. case sel of None \<Rightarrow> Some path
             | Some s \<Rightarrow> if better path s then Some path else Some s) (Some p) ps = Some r"
      "r \<in> insert p (set ps)" "\<forall>q \<in> insert p (set ps). \<not> better q r" using Cons.IH [of p] by blast
    have "\<not> better s r"
    proof
      assume "better s r"
      then show False using True r(3) unfolding better_def by (metis insertI1 less_trans order_less_asym)
    qed
    with r True show ?thesis by auto
  next
    case False
    obtain r where r: "foldl (\<lambda>sel path. case sel of None \<Rightarrow> Some path
             | Some s \<Rightarrow> if better path s then Some path else Some s) (Some s) ps = Some r"
      "r \<in> insert s (set ps)" "\<forall>q \<in> insert s (set ps). \<not> better q r" using Cons.IH [of s] by blast
    have "\<not> better p r" using better_keep [OF False] r(3) by blast
    with r False show ?thesis by auto
  qed
qed

lemma select_path_spec:
  assumes "ps \<noteq> []"
  obtains r where "select_path ps = Some r" "r \<in> set ps" "\<forall>q \<in> set ps. \<not> better q r"
proof -
  obtain p qs where ps: "ps = p # qs" using assms by (cases ps) auto
  from select_from [of p qs] that show thesis by (auto simp: select_path_def ps)
qed

section \<open>Every entry points back\<close>

definition points_back :: "nat \<Rightarrow> path_info \<Rightarrow> bool" where
  "points_back k info = ((\<exists>p < k. pi_p info = Some p) \<and> (\<forall>m. pi_merge info = Some m \<longrightarrow> m < k))"

definition path_ok :: "path_info list \<Rightarrow> bool" where
  "path_ok path = (path \<noteq> [] \<and> (\<forall>k < length path. 0 < k \<longrightarrow> points_back k (path ! k)))"

lemma mark_merge_facts:
  "i < length path \<Longrightarrow> length (mark_merge p i path) = length path \<and>
   (\<forall>k < length path. mark_merge p i path ! k =
      (if p < k \<and> k \<le> i then (path ! k)\<lparr>pi_merge := Some p\<rparr> else path ! k))"
proof -
  assume i: "i < length path"
  let ?g = "\<lambda>path j. path[j := (path ! j)\<lparr>pi_merge := Some p\<rparr>]"
  have "n < length path \<Longrightarrow> length (foldl ?g path [p + 1..<n + 1]) = length path \<and>
     (\<forall>k < length path. foldl ?g path [p + 1..<n + 1] ! k =
        (if p < k \<and> k \<le> n then (path ! k)\<lparr>pi_merge := Some p\<rparr> else path ! k))" for n
  proof (induction n)
    case (Suc n)
    then have IH: "length (foldl ?g path [p + 1..<n + 1]) = length path"
      "\<forall>k < length path. foldl ?g path [p + 1..<n + 1] ! k =
        (if p < k \<and> k \<le> n then (path ! k)\<lparr>pi_merge := Some p\<rparr> else path ! k)" by auto
    show ?case
    proof (cases "p < Suc n")
      case True
      then have "[p + 1..<Suc n + 1] = [p + 1..<n + 1] @ [Suc n]" by simp
      with IH Suc.prems True show ?thesis by (auto simp: nth_list_update)
    next
      case False
      with IH show ?thesis by auto
    qed
  qed simp
  from this [OF i] show ?thesis by (simp add: mark_merge_def)
qed

lemma mark_merge_ok: "path_ok path \<Longrightarrow> i < length path \<Longrightarrow> path_ok (mark_merge p i path)"
proof -
  assume ok: "path_ok path" and i: "i < length path"
  note f = mark_merge_facts [OF i, of p]
  have "points_back k (mark_merge p i path ! k)" if k: "k < length path" "0 < k" for k
  proof -
    have "points_back k (path ! k)" using ok k by (simp add: path_ok_def)
    with f k show ?thesis by (simp add: points_back_def)
  qed
  moreover have "mark_merge p i path \<noteq> []" using f i by fastforce
  ultimately show ?thesis using f by (simp add: path_ok_def)
qed

lemma build_by_acceptors_ok:
  "\<lbrakk>path_ok path; length path = i + 1; \<forall>a \<in> set as. 1 \<le> ac_off a \<and> ac_off a \<le> i + 1\<rbrakk> \<Longrightarrow>
   path_ok (snd (build_by_acceptors path as i)) \<and> length (snd (build_by_acceptors path as i)) = i + 1
   \<and> length (fst (build_by_acceptors path as i)) = length as
   \<and> (\<forall>info \<in> set (fst (build_by_acceptors path as i)). points_back (i + 1) info)"
proof (induction as arbitrary: path)
  case (Cons a as)
  let ?path = "if ac_type a = PART then mark_merge (i + 1 - ac_off a) i path else path"
  have "path_ok ?path" "length ?path = i + 1"
    using Cons.prems mark_merge_ok mark_merge_facts [of i path] by auto
  with Cons.IH [of ?path] Cons.prems(3) show ?case
    by (auto simp: Let_def case_prod_unfold points_back_def)
qed simp

lemma path_build_ok:
  assumes "path_ok path" "length path = i + 1" "\<forall>a \<in> set as. 1 \<le> ac_off a \<and> ac_off a \<le> i + 1"
    "lb \<le> i"
  shows "path_ok (snd (path_build path as i lb text)) \<and> length (snd (path_build path as i lb text)) = i + 1
    \<and> fst (path_build path as i lb text) \<noteq> []
    \<and> (\<forall>info \<in> set (fst (path_build path as i lb text)). points_back (i + 1) info)"
proof -
  let ?p = "snd (build_by_acceptors path as i)"
  note b = build_by_acceptors_ok [OF assms(1-3)]
  have "points_back (i + 1) (path_fallback ?p lb text i)"
  proof (cases "lb = 0")
    case False
    with b assms(4) have "points_back lb (?p ! lb)" by (simp add: path_ok_def)
    with assms(4) show ?thesis by (fastforce simp: path_fallback_def points_back_def Let_def)
  qed (simp add: path_fallback_def points_back_def Let_def)
  with b show ?thesis by (auto simp: path_build_def case_prod_unfold Let_def)
qed

definition loop_inv :: "nat \<Rightarrow> path_info list \<times> nat \<times> acceptors \<Rightarrow> bool" where
  "loop_inv n st = (path_ok (fst st) \<and> length (fst st) = n + 1 \<and> fst (snd st) \<le> n \<and> offsets_ok n (snd (snd st)))"

lemma loop_inv_start: "loop_inv 0 (create_path, 0, acceptors_reset A)"
  by (simp add: loop_inv_def path_ok_def create_path_def offsets_ok_reset)

lemma loop_inv_step: "loop_inv i st \<Longrightarrow> loop_inv (i + 1) (build_step text st i)"
proof -
  assume inv: "loop_inv i st"
  obtain path lb A where st: "st = (path, lb, A)" by (cases st)
  let ?A = "acceptors_transit (text ! i) A"
  let ?b = "path_build path (get_final_acceptors ?A) i lb text"
  have A: "offsets_ok (i + 1) ?A" using inv offsets_ok_transit [of i A] by (simp add: loop_inv_def st)
  then have as: "\<forall>a \<in> set (get_final_acceptors ?A). 1 \<le> ac_off a \<and> ac_off a \<le> i + 1"
    by (auto simp: offsets_ok_def get_final_acceptors_def)
  have p: "path_ok path" "length path = i + 1" "lb \<le> i" using inv by (simp_all add: loop_inv_def st)
  note b = path_build_ok [OF p(1,2) as p(3), of "text"]
  then obtain sel where sel: "select_path (fst ?b) = Some sel" "sel \<in> set (fst ?b)"
    using select_path_spec by blast
  with b have "points_back (i + 1) sel" by blast
  with b have "path_ok (snd ?b @ [sel])"
    by (auto simp: path_ok_def nth_append less_Suc_eq)
  with A b p sel show ?thesis
    by (auto simp: loop_inv_def st build_step_def Let_def case_prod_unfold)
qed

lemma loop_inv_run:
  "loop_inv n (foldl (build_step text) (create_path, 0, acceptors_reset A) [0..<n])"
  by (induction n) (use loop_inv_start loop_inv_step in auto)

lemma build_path_ok: "path_ok (build_path A text) \<and> length (build_path A text) = length text + 1"
  using loop_inv_run [of "length text" "text" A] by (simp add: loop_inv_def build_path_def)

section \<open>Following the path back\<close>

fun chain :: "nat \<Rightarrow> (nat \<times> nat) list \<Rightarrow> nat \<Rightarrow> bool" where
  "chain n [] e = (e = n)"
| "chain n ((s, t) # rs) e = (t = n \<and> s < t \<and> chain s rs e)"

lemma chain_snoc: "chain n (rs @ [(s, t)]) e \<longleftrightarrow> chain n rs t \<and> s < t \<and> e = s"
  by (induction rs arbitrary: n) auto

lemma chain_le: "chain n rs e \<Longrightarrow> e \<le> n"
  by (induction rs arbitrary: n) fastforce+

lemma ranges_loop_chain:
  "\<lbrakk>path_ok path; e < length path; chain n ranges e\<rbrakk> \<Longrightarrow>
   \<exists>rs. ranges_loop path e ranges = Some rs \<and> chain n rs 0"
proof (induction e arbitrary: ranges rule: less_induct)
  case (less e)
  show ?case
  proof (cases "0 < e")
    case True
    with less.prems have pb: "points_back e (path ! e)" by (simp add: path_ok_def)
    then obtain p where p: "pi_p (path ! e) = Some p" "p < e" by (auto simp: points_back_def)
    have "chain n (ranges @ [(p, e)]) p" using less.prems(3) p(2) by (simp add: chain_snoc)
    with less.IH [OF p(2)] less.prems p(2) have
      push: "\<exists>rs. ranges_loop path p (ranges @ [(p, e)]) = Some rs \<and> chain n rs 0" by simp
    show ?thesis
    proof (cases "pi_merge (path ! e)")
      case None
      with push p True show ?thesis by (subst ranges_loop.simps) simp
    next
      case (Some m)
      show ?thesis
      proof (cases "ranges = []")
        case True
        with push p Some \<open>0 < e\<close> show ?thesis by (subst ranges_loop.simps) simp
      next
        case False
        obtain rs s t where r: "ranges = rs @ [(s, t)]" using False by (metis rev_exhaust surj_pair)
        have m: "m < e" using pb Some by (simp add: points_back_def)
        have "chain n (butlast ranges @ [(m, snd (last ranges))]) m"
          using less.prems(3) m by (auto simp: r chain_snoc)
        with less.IH [OF m] less.prems m False Some \<open>0 < e\<close> show ?thesis
          by (subst ranges_loop.simps) simp
      qed
    qed
  next
    case False
    with less.prems show ?thesis by (subst ranges_loop.simps) simp
  qed
qed

lemma path_to_ranges_chain:
  "\<exists>rs. path_to_ranges (build_path A text) = Some (rev rs) \<and> chain (length text) rs 0"
  using ranges_loop_chain [of "build_path A text" "length text" "length text" "[]"] build_path_ok [of A "text"]
  by (auto simp: path_to_ranges_def)

lemma js_substring_range: "s \<le> t \<Longrightarrow> t \<le> length text \<Longrightarrow> js_substring text s t = take (t - s) (drop s text)"
  by (simp add: js_substring_def min_def max_def)

lemma chain_concat:
  "chain n rs e \<Longrightarrow> n \<le> length text \<Longrightarrow>
   concat (map (\<lambda>(s, t). js_substring text s t) (rev rs)) = take (n - e) (drop e text)
   \<and> [] \<notin> (\<lambda>(s, t). js_substring text s t) ` set rs"
proof (induction n rs e rule: chain.induct)
  case (2 n s t rs e)
  then have le: "e \<le> s" "s < n" "t = n" using chain_le [of s rs e] by auto
  have "take (s - e) (drop e text) @ take (n - s) (drop s text) = take (n - e) (drop e text)"
    using le take_add [of "s - e" "n - s" "drop e text"] by simp
  with 2 le show ?case by (auto simp: js_substring_range)
qed simp

section \<open>Properties\<close>

text \<open>
  C17. Cutting loses and invents nothing: for every text and every set of rules and
  dictionary the segmentation terminates, no unit is empty, the units put together are the
  text, and the ranges are those of the units.
\<close>

theorem cut_partitions_text:
  "\<exists>ws. cut_into_array A text = Some ws \<and> concat ws = text \<and> [] \<notin> set ws
    \<and> map_option (map (\<lambda>(s, e, w). w)) (cut_into_ranges A text False) = Some (map Some ws)
    \<and> wc_cut A text (Some d) = Some (js_join ws d)"
proof -
  obtain rs where rs: "path_to_ranges (build_path A text) = Some (rev rs)" "chain (length text) rs 0"
    using path_to_ranges_chain by blast
  from chain_concat [OF rs(2), of "text"] rs(1) show ?thesis
    by (auto simp: cut_into_array_def cut_into_ranges_def wc_cut_def ranges_to_text_def rev_map
        split_def comp_def)
qed

text \<open>
  C37. The selector picks, of any candidates, one of them that is cheapest: no candidate has
  fewer unknown parts, or as many and a smaller \<open>mw\<close>, or both equal and fewer units.
\<close>

theorem select_path_cheapest:
  assumes "ps \<noteq> []"
  shows "\<exists>r \<in> set ps. select_path ps = Some r
    \<and> (\<forall>q \<in> set ps. pi_unk r < pi_unk q \<or> pi_unk r = pi_unk q \<and>
         (pi_mw r < pi_mw q \<or> pi_mw r = pi_mw q \<and> pi_w r \<le> pi_w q))"
proof -
  obtain r where r: "select_path ps = Some r" "r \<in> set ps" "\<forall>q \<in> set ps. \<not> better q r"
    using select_path_spec [OF assms] by blast
  then show ?thesis by (intro bexI [of _ r]) (auto simp: better_def not_less)
qed

lemma select_path_cheapest_witness:
  "pi_w (the (select_path [\<lparr>pi_p = Some 0, pi_mw = 0, pi_w = 2, pi_unk = 0, pi_type = UNK, pi_merge = None\<rparr>,
     \<lparr>pi_p = Some 1, pi_mw = 0, pi_w = 1, pi_unk = 0, pi_type = UNK, pi_merge = None\<rparr>])) = 1"
  using select_path_cheapest [of "[\<lparr>pi_p = Some 0, pi_mw = 0, pi_w = 2, pi_unk = 0, pi_type = UNK, pi_merge = None\<rparr>,
     \<lparr>pi_p = Some 1, pi_mw = 0, pi_w = 1, pi_unk = 0, pi_type = UNK, pi_merge = None\<rparr>]"]
  by auto

section \<open>Latin words\<close>

lemma js_word_char_thai: "js_word_char ch \<Longrightarrow> ch \<noteq> 0xE40 \<and> ch < 0xE00 \<or> 0xE80 \<le> ch"
  by (auto simp: js_word_char_def)

lemma part_fails_on_latin:
  assumes "js_word_char ch"
  shows "ac_error (ac_transit ch (PartAcc part_patterns 0 False False))"
proof -
  have "\<forall>pat \<in> set part_patterns. \<not> is_match pat 0 ch"
    using assms by (auto simp: js_word_char_def part_patterns_def is_match_def thai_consonant_def)
  then have "filter (\<lambda>pat. is_match pat 0 ch) part_patterns = []" by (simp add: filter_empty_conv)
  then show ?thesis by simp
qed

definition plain_info :: "path_info list \<Rightarrow> nat \<Rightarrow> acceptor \<Rightarrow> path_info" where
  "plain_info path i a = (let p = i + 1 - ac_off a; prev = path ! p in
     \<lparr>pi_p = Some p, pi_mw = pi_mw prev, pi_w = 1 + pi_w prev, pi_unk = pi_unk prev,
      pi_type = UnitOf (ac_type a), pi_merge = None\<rparr>)"

lemma build_plain:
  "\<forall>a \<in> set as. ac_type a \<noteq> PART \<Longrightarrow> build_by_acceptors path as i = (map (plain_info path i) as, path)"
  by (induction as) (auto simp: plain_info_def ac_unk_def Let_def)

definition whole :: "path_info \<Rightarrow> bool" where
  "whole info = (pi_p info = Some 0 \<and> pi_mw info = 0 \<and> pi_w info = 1 \<and> pi_unk info = 0
     \<and> pi_type info \<noteq> UNK \<and> pi_merge info = None)"

definition latin_inv :: "js_text list \<Rightarrow> nat \<Rightarrow> path_info list \<times> nat \<times> acceptors \<Rightarrow> bool" where
  "latin_inv d n st = (case st of (path, lb, A) \<Rightarrow>
     length path = n + 1 \<and> path ! 0 = hd create_path \<and> (\<forall>k < length path. 0 < k \<longrightarrow> whole (path ! k))
     \<and> as_creators A = as_creators (wordcut_init d) \<and> as_tag A = set (map ac_type (as_current A))
     \<and> (\<forall>a \<in> set (as_current A). ac_type a \<noteq> PART)
     \<and> offsets_ok n A \<and> (0 < n \<longrightarrow> RuleAcc WORD_RULE n True False \<in> set (as_current A)))"

lemma latin_acceptors:
  assumes ch: "js_word_char ch" and cr: "as_creators A = as_creators (wordcut_init d)"
    and tag: "as_tag A = set (map ac_type (as_current A))"
    and np: "\<forall>a \<in> set (as_current A). ac_type a \<noteq> PART" and off: "offsets_ok n A"
    and word: "0 < n \<longrightarrow> RuleAcc WORD_RULE n True False \<in> set (as_current A)"
  shows "(\<forall>a \<in> set (as_current (acceptors_transit ch A)). ac_type a \<noteq> PART)
    \<and> RuleAcc WORD_RULE (n + 1) True False \<in> set (as_current (acceptors_transit ch A))"
proof -
  let ?new = "List.map_filter (create_acceptor (as_tag A)) (as_creators A)"
  have w: "\<exists>a \<in> set (as_current A @ ?new). ac_transit ch a = RuleAcc WORD_RULE (n + 1) True False"
  proof (cases "n = 0")
    case True
    then have "as_current A = []" using off by (cases "as_current A") (auto simp: offsets_ok_def)
    then have "RuleAcc WORD_RULE 0 False False \<in> set ?new"
      using tag cr by (auto simp: map_filter_set wordcut_init_def init_no_dict_def)
    then show ?thesis using ch True by (force simp: rule_step_def)
  next
    case False
    then show ?thesis using word ch by (force simp: rule_step_def)
  qed
  have e: "ac_error (ac_transit ch a)" if "a \<in> set (as_current A @ ?new)" "ac_type a = PART" for a
  proof -
    have "a \<in> set ?new" using that np by auto
    then have "a = PartAcc part_patterns 0 False False"
      using that(2) cr by (auto simp: map_filter_set wordcut_init_def init_no_dict_def split: if_splits)
    then show ?thesis using part_fails_on_latin [OF ch] by simp
  qed
  have cur: "set (as_current (acceptors_transit ch A)) =
      {b. \<exists>a \<in> set (as_current A @ ?new). b = ac_transit ch a \<and> \<not> ac_error b}"
    unfolding acceptors_transit_def Let_def by auto
  have "\<forall>b \<in> set (as_current (acceptors_transit ch A)). ac_type b \<noteq> PART"
  proof
    fix b assume "b \<in> set (as_current (acceptors_transit ch A))"
    then obtain a where "a \<in> set (as_current A @ ?new)" "b = ac_transit ch a" "\<not> ac_error b"
      unfolding cur by blast
    with e [of a] show "ac_type b \<noteq> PART" by fastforce
  qed
  moreover have "RuleAcc WORD_RULE (n + 1) True False \<in> set (as_current (acceptors_transit ch A))"
  proof -
    obtain a where a: "a \<in> set (as_current A @ ?new)" "ac_transit ch a = RuleAcc WORD_RULE (n + 1) True False"
      using w by blast
    show ?thesis unfolding cur
      by (rule CollectI, rule bexI [OF _ a(1)], unfold a(2)) simp
  qed
  ultimately show ?thesis by simp
qed

lemma latin_step:
  assumes inv: "latin_inv d i st" and ch: "js_word_char (text ! i)"
  shows "latin_inv d (i + 1) (build_step text st i)"
proof -
  obtain path lb A where st: "st = (path, lb, A)" by (cases st)
  let ?A = "acceptors_transit (text ! i) A"
  note inv' = inv [unfolded latin_inv_def st prod.case]
  have cur: "\<forall>a \<in> set (as_current ?A). ac_type a \<noteq> PART"
    "RuleAcc WORD_RULE (i + 1) True False \<in> set (as_current ?A)"
    using latin_acceptors [OF ch] inv' by blast+
  let ?fin = "get_final_acceptors ?A"
  have fin: "\<forall>a \<in> set ?fin. ac_type a \<noteq> PART" "RuleAcc WORD_RULE (i + 1) True False \<in> set ?fin"
    using cur by (auto simp: get_final_acceptors_def)
  have off: "offsets_ok (i + 1) ?A" using offsets_ok_transit [of i A] inv' by simp
  let ?cs = "map (plain_info path i) ?fin"
  have build: "path_build path ?fin i lb text = (?cs, path)"
    using build_plain [OF fin(1), of path i] fin(2) by (auto simp: path_build_def)
  have len: "length path = i + 1" and p0: "path ! 0 = hd create_path"
    and wh: "\<And>k. k < length path \<Longrightarrow> 0 < k \<Longrightarrow> whole (path ! k)" using inv' by auto
  let ?word = "plain_info path i (RuleAcc WORD_RULE (i + 1) True False)"
  have word: "?word \<in> set ?cs" using fin(2) by (metis image_eqI list.set_map)
  have cost: "pi_w ?word = 1" "pi_unk ?word = 0" "pi_mw ?word = 0"
    using p0 by (simp_all add: plain_info_def Let_def create_path_def)
  from word obtain sel where sel: "select_path ?cs = Some sel" "sel \<in> set ?cs" "\<forall>q \<in> set ?cs. \<not> better q sel"
    using select_path_spec [of ?cs] by (metis empty_iff empty_set)
  obtain a where a: "a \<in> set ?fin" "sel = plain_info path i a" using sel(2) by auto
  have aoff: "1 \<le> ac_off a" "ac_off a \<le> i + 1"
    using a(1) off by (auto simp: get_final_acceptors_def offsets_ok_def)
  have "whole sel"
  proof (cases "ac_off a = i + 1")
    case True
    then show ?thesis using p0 by (simp add: a(2) plain_info_def whole_def create_path_def)
  next
    case False
    then have "whole (path ! (i + 1 - ac_off a))" using aoff len by (intro wh) auto
    then have "pi_w sel = 2" "pi_unk sel = 0" "pi_mw sel = 0"
      by (simp_all add: a(2) plain_info_def whole_def Let_def)
    with sel(3) word cost have False by (fastforce simp: better_def)
    then show ?thesis ..
  qed
  moreover have "build_step text st i = (path @ [sel], if pi_type sel \<noteq> UNK then i else lb, ?A)"
    by (simp add: st build_step_def build sel(1))
  ultimately show ?thesis
    using inv' cur off by (auto simp: latin_inv_def nth_append less_Suc_eq acceptors_transit_def Let_def)
qed

lemma latin_path:
  assumes "list_all js_word_char text"
  shows "n \<le> length text \<Longrightarrow>
    latin_inv d n (foldl (build_step text) (create_path, 0, acceptors_reset (wordcut_init d)) [0..<n])"
proof (induction n)
  case 0
  then show ?case
    by (simp add: latin_inv_def create_path_def offsets_ok_reset) (simp add: acceptors_reset_def)
next
  case (Suc n)
  then have "js_word_char (text ! n)" using assms by (simp add: list_all_length)
  with latin_step [of d n _ "text"] Suc show ?case by simp
qed

text \<open>
  A word of Latin letters is never cut, whatever the dictionary: the segmentation of a
  non-empty text of letters, with the rules \<open>init\<close> installs, is the text itself.
\<close>

theorem latin_word_stays_whole:
  assumes "list_all js_word_char text" "text \<noteq> []"
  shows "cut_into_array (wordcut_init d) text = Some [text]"
proof -
  let ?path = "build_path (wordcut_init d) text"
  have "latin_inv d (length text) (foldl (build_step text) (create_path, 0, acceptors_reset (wordcut_init d)) [0..<length text])"
    by (rule latin_path [OF assms(1)]) simp
  then have len: "length ?path = length text + 1" and "\<And>k. k < length ?path \<Longrightarrow> 0 < k \<Longrightarrow> whole (?path ! k)"
    by (auto simp: latin_inv_def build_path_def split: prod.splits)
  then have "whole (?path ! length text)" using assms(2) by simp
  then have "ranges_loop ?path (length text) [] = Some [(0, length text)]"
    using assms(2)
    by (subst ranges_loop.simps) (simp add: whole_def ranges_loop.simps [of _ 0])
  then show ?thesis
    using assms(2) len by (simp add: cut_into_array_def path_to_ranges_def js_substring_def)
qed

lemma latin_word_stays_whole_witness:
  "cut_into_array (wordcut_init (dict_init [[104, 105], [105]] [] NoPath False None)) [72, 105, 115]
     = Some [[72, 105, 115]]"
  by (rule latin_word_stays_whole) (simp_all add: js_word_char_def)

end
