(* ===== verification/TinySeg.thy ===== *)
theory TinySeg
  imports TsTables
begin

text \<open>
  The Japanese search segmenter, \<open>docs/site/assets/javascripts/lunr/tinyseg.js\<close>: whether to cut
  before a character is decided by a sum of weights looked up with the six characters around
  it, their types and the last three decisions. The theory shows that the units are non-empty
  and put together are the input, and that the units at the front of a text do not depend on
  what follows two characters later.
\<close>

section \<open>Character types and weights\<close>

text \<open>The character classes of the constructor, in order, as predicates on a code unit.\<close>

definition ts_patterns :: "((nat \<Rightarrow> bool) \<times> char) list" where
  "ts_patterns =
     [(\<lambda>ch. ch \<in> {0x4E00, 0x4E8C, 0x4E09, 0x56DB, 0x4E94, 0x516D, 0x4E03, 0x516B, 0x4E5D, 0x5341,
              0x767E, 0x5343, 0x4E07, 0x5104, 0x5146}, CHR ''M''),
      (\<lambda>ch. 0x4E00 \<le> ch \<and> ch \<le> 0x9FA0 \<or> ch \<in> {0x3005, 0x3006, 0x30F5, 0x30F6}, CHR ''H''),
      (\<lambda>ch. 0x3041 \<le> ch \<and> ch \<le> 0x3093, CHR ''I''),
      (\<lambda>ch. 0x30A1 \<le> ch \<and> ch \<le> 0x30F4 \<or> 0xFF71 \<le> ch \<and> ch \<le> 0xFF9D
            \<or> ch \<in> {0x30FC, 0xFF9E, 0xFF70}, CHR ''K''),
      (\<lambda>ch. 97 \<le> ch \<and> ch \<le> 122 \<or> 65 \<le> ch \<and> ch \<le> 90 \<or> 0xFF41 \<le> ch \<and> ch \<le> 0xFF5A
            \<or> 0xFF21 \<le> ch \<and> ch \<le> 0xFF3A, CHR ''A''),
      (\<lambda>ch. 48 \<le> ch \<and> ch \<le> 57 \<or> 0xFF10 \<le> ch \<and> ch \<le> 0xFF19, CHR ''N'')]"

text \<open>\<open>ctype_\<close>: the letter of the first class that matches, else \<open>O\<close>.\<close>

definition ts_ctype :: "nat \<Rightarrow> char" where
  "ts_ctype ch = (case find (\<lambda>(matches, _). matches ch) ts_patterns of
     Some (_, c) \<Rightarrow> c | None \<Rightarrow> CHR ''O'')"

text \<open>\<open>ts_(this.T__[key])\<close>: the weight, or 0 where the table has no entry.\<close>

definition ts_weight :: "('k \<times> int) list \<Rightarrow> 'k \<Rightarrow> int" where
  "ts_weight tab key = (case map_of tab key of Some v \<Rightarrow> if v \<noteq> 0 then v else 0 | None \<Rightarrow> 0)"

definition ts_bias :: int where
  "ts_bias = - 332"

text \<open>The score of a cut before \<open>seg[i]\<close> after the decisions \<open>p1 p2 p3\<close>.\<close>

definition ts_score :: "nat list list \<Rightarrow> string \<Rightarrow> nat \<Rightarrow> char \<Rightarrow> char \<Rightarrow> char \<Rightarrow> int" where
  "ts_score seg ctype i p1 p2 p3 =
     (let w1 = seg ! (i - 3); w2 = seg ! (i - 2); w3 = seg ! (i - 1);
          w4 = seg ! i; w5 = seg ! (i + 1); w6 = seg ! (i + 2);
          c1 = ctype ! (i - 3); c2 = ctype ! (i - 2); c3 = ctype ! (i - 1);
          c4 = ctype ! i; c5 = ctype ! (i + 1); c6 = ctype ! (i + 2)
      in ts_bias
         + ts_weight UP1_tab [p1] + ts_weight UP2_tab [p2] + ts_weight UP3_tab [p3]
         + ts_weight BP1_tab [p1, p2] + ts_weight BP2_tab [p2, p3]
         + ts_weight UW1_tab w1 + ts_weight UW2_tab w2 + ts_weight UW3_tab w3
         + ts_weight UW4_tab w4 + ts_weight UW5_tab w5 + ts_weight UW6_tab w6
         + ts_weight BW1_tab (w2 @ w3) + ts_weight BW2_tab (w3 @ w4) + ts_weight BW3_tab (w4 @ w5)
         + ts_weight TW1_tab (w1 @ w2 @ w3) + ts_weight TW2_tab (w2 @ w3 @ w4)
         + ts_weight TW3_tab (w3 @ w4 @ w5) + ts_weight TW4_tab (w4 @ w5 @ w6)
         + ts_weight UC1_tab [c1] + ts_weight UC2_tab [c2] + ts_weight UC3_tab [c3]
         + ts_weight UC4_tab [c4] + ts_weight UC5_tab [c5] + ts_weight UC6_tab [c6]
         + ts_weight BC1_tab [c2, c3] + ts_weight BC2_tab [c3, c4] + ts_weight BC3_tab [c4, c5]
         + ts_weight TC1_tab [c1, c2, c3] + ts_weight TC2_tab [c2, c3, c4]
         + ts_weight TC3_tab [c3, c4, c5] + ts_weight TC4_tab [c4, c5, c6]
         + ts_weight UQ1_tab [p1, c1] + ts_weight UQ2_tab [p2, c2] + ts_weight UQ3_tab [p3, c3]
         + ts_weight BQ1_tab [p2, c2, c3] + ts_weight BQ2_tab [p2, c3, c4]
         + ts_weight BQ3_tab [p3, c2, c3] + ts_weight BQ4_tab [p3, c3, c4]
         + ts_weight TQ1_tab [p2, c1, c2, c3] + ts_weight TQ2_tab [p2, c2, c3, c4]
         + ts_weight TQ3_tab [p3, c1, c2, c3] + ts_weight TQ4_tab [p3, c2, c3, c4])"

section \<open>Segmentation\<close>

definition ts_seg :: "nat list \<Rightarrow> nat list list" where
  "ts_seg input = [[66, 51], [66, 50], [66, 49]] @ map (\<lambda>c. [c]) input @ [[69, 49], [69, 50], [69, 51]]"

definition ts_ctypes :: "nat list \<Rightarrow> string" where
  "ts_ctypes input = ''OOO'' @ map ts_ctype input @ ''OOO''"

text \<open>One round of the loop: the result so far, the unit being read and the decisions.\<close>

definition ts_step ::
  "nat list list \<Rightarrow> string \<Rightarrow> nat list list \<times> nat list \<times> char \<times> char \<times> char \<Rightarrow> nat \<Rightarrow>
   nat list list \<times> nat list \<times> char \<times> char \<times> char" where
  "ts_step seg ctype st i =
     (let (result, word, p1, p2, p3) = st;
          cut = (0 < ts_score seg ctype i p1 p2 p3);
          (result, word, p) = (if cut then (result @ [word], [], CHR ''B'') else (result, word, CHR ''O''))
      in (result, word @ seg ! i, p2, p3, p))"

definition ts_segment :: "nat list \<Rightarrow> nat list list" where
  "ts_segment input =
     (if input = [] then []
      else let seg = ts_seg input; ctype = ts_ctypes input;
               (result, word, _) = foldl (ts_step seg ctype) ([], seg ! 3, CHR ''U'', CHR ''U'', CHR ''U'')
                                     [4..<length seg - 3]
           in result @ [word])"

section \<open>The loop\<close>

definition ts_state :: "nat list \<Rightarrow> nat \<Rightarrow> nat list list \<times> nat list \<times> char \<times> char \<times> char" where
  "ts_state input k = foldl (ts_step (ts_seg input) (ts_ctypes input))
     ([], ts_seg input ! 3, CHR ''U'', CHR ''U'', CHR ''U'') [4..<k + 3]"

lemma ts_state_1: "ts_state input (Suc 0) = ([], ts_seg input ! 3, CHR ''U'', CHR ''U'', CHR ''U'')"
  by (simp add: ts_state_def)

lemma ts_state_Suc:
  "0 < k \<Longrightarrow> ts_state input (Suc k) = ts_step (ts_seg input) (ts_ctypes input) (ts_state input k) (k + 3)"
  using upt_Suc_append [of 4 "k + 3"] by (simp add: ts_state_def del: upt_Suc)

lemma ts_seg_length: "length (ts_seg input) = length input + 6"
  by (simp add: ts_seg_def)

lemma ts_segment_state:
  "input \<noteq> [] \<Longrightarrow> ts_segment input =
     fst (ts_state input (length input)) @ [fst (snd (ts_state input (length input)))]"
  by (simp add: ts_segment_def ts_state_def ts_seg_length Let_def case_prod_unfold add.commute del: upt_Suc)

lemma ts_seg_nth: "k < length input \<Longrightarrow> ts_seg input ! (k + 3) = [input ! k]"
  by (simp add: ts_seg_def nth_append numeral_3_eq_3)

text \<open>What has been read is the cut units and the one being read, and no unit is empty.\<close>

lemma ts_state_text:
  "0 < k \<Longrightarrow> k \<le> length input \<Longrightarrow>
   concat (fst (ts_state input k)) @ fst (snd (ts_state input k)) = take k input
   \<and> fst (snd (ts_state input k)) \<noteq> [] \<and> [] \<notin> set (fst (ts_state input k))"
proof (induction k)
  case (Suc k)
  show ?case
  proof (cases "k = 0")
    case True
    with Suc.prems show ?thesis
      using ts_seg_nth [of 0 input] by (cases input) (simp_all add: ts_state_1 numeral_3_eq_3)
  next
    case False
    with Suc have "concat (fst (ts_state input k)) @ fst (snd (ts_state input k)) = take k input"
      "fst (snd (ts_state input k)) \<noteq> []" "[] \<notin> set (fst (ts_state input k))" by auto
    with False Suc.prems ts_seg_nth [of k input] show ?thesis
      by (auto simp: ts_state_Suc ts_step_def Let_def case_prod_unfold take_Suc_conv_app_nth
          simp flip: append_assoc)
  qed
qed simp

text \<open>A unit once cut stays, and the unit being read only grows.\<close>

lemma ts_state_grows:
  assumes "0 < j"
  shows "\<exists>y rest. fst (ts_state input (j + n)) @ [fst (snd (ts_state input (j + n)))]
    = fst (ts_state input j) @ (fst (snd (ts_state input j)) @ y) # rest"
proof (induction n)
  case 0
  then show ?case by (intro exI [of _ "[]"]) simp
next
  case (Suc n)
  obtain R W p1 p2 p3 where st: "ts_state input (j + n) = (R, W, p1, p2, p3)" by (metis surj_pair)
  let ?c = "ts_seg input ! (j + n + 3)"
  from Suc obtain y rest where IH: "R @ [W] = fst (ts_state input j) @ (fst (snd (ts_state input j)) @ y) # rest"
    by (auto simp: st)
  have step: "ts_state input (j + Suc n) = ts_step (ts_seg input) (ts_ctypes input) (R, W, p1, p2, p3) (j + n + 3)"
    using assms by (simp add: ts_state_Suc st)
  show ?case
  proof (cases "0 < ts_score (ts_seg input) (ts_ctypes input) (j + n + 3) p1 p2 p3")
    case True
    then have "fst (ts_state input (j + Suc n)) @ [fst (snd (ts_state input (j + Suc n)))] = (R @ [W]) @ [?c]"
      unfolding step by (simp add: ts_step_def Let_def)
    then show ?thesis unfolding IH by auto
  next
    case False
    then have eq: "fst (ts_state input (j + Suc n)) @ [fst (snd (ts_state input (j + Suc n)))] = R @ [W @ ?c]"
      unfolding step by (simp add: ts_step_def Let_def)
    show ?thesis
    proof (cases rest rule: rev_exhaust)
      case Nil
      with IH have "R = fst (ts_state input j)" "W = fst (snd (ts_state input j)) @ y" by auto
      with eq show ?thesis by (intro exI [of _ "y @ ?c"] exI [of _ "[]"]) simp
    next
      case (snoc rest' x)
      with IH have "R = fst (ts_state input j) @ (fst (snd (ts_state input j)) @ y) # rest'" by simp
      with eq show ?thesis by auto
    qed
  qed
qed

text \<open>The first decisions look at the first characters only.\<close>

lemma ts_seg_prefix: "i < length u + 3 \<Longrightarrow> ts_seg (u @ v) ! i = ts_seg (u @ w) ! i"
  by (auto simp: ts_seg_def nth_append nth_Cons split: nat.split)

lemma ts_ctypes_prefix: "i < length u + 3 \<Longrightarrow> ts_ctypes (u @ v) ! i = ts_ctypes (u @ w) ! i"
  by (auto simp: ts_ctypes_def nth_append nth_Cons split: nat.split)

lemma ts_state_prefix:
  "0 < k \<Longrightarrow> k + 2 \<le> length u \<Longrightarrow> ts_state (u @ v) k = ts_state (u @ w) k"
proof (induction k)
  case (Suc k)
  show ?case
  proof (cases "k = 0")
    case True
    with Suc.prems show ?thesis using ts_seg_prefix [of 3 u v w] by (cases u) (simp_all add: ts_state_1)
  next
    case False
    with Suc have IH: "ts_state (u @ v) k = ts_state (u @ w) k" by simp
    have "ts_score (ts_seg (u @ v)) (ts_ctypes (u @ v)) (k + 3) p1 p2 p3
        = ts_score (ts_seg (u @ w)) (ts_ctypes (u @ w)) (k + 3) p1 p2 p3" for p1 p2 p3
      using Suc.prems ts_seg_prefix [of _ u v w] ts_ctypes_prefix [of _ u v w]
      by (simp add: ts_score_def Let_def)
    with False IH Suc.prems ts_seg_prefix [of "k + 3" u v w] show ?thesis
      by (simp add: ts_state_Suc ts_step_def)
  qed
qed simp

section \<open>Properties\<close>

text \<open>
  C19. Segmentation cuts the input and does nothing else: the units are non-empty and put
  together are the input.
\<close>

theorem segment_partitions_input:
  "concat (ts_segment input) = input \<and> [] \<notin> set (ts_segment input)"
proof (cases "input = []")
  case False
  then have "0 < length input" by simp
  from ts_state_text [OF this order_refl] False show ?thesis
    by (auto simp: ts_segment_state)
qed (simp add: ts_segment_def)

text \<open>
  C38. Decisions are local: units of a text that end at least three characters before the end
  of a prefix \<open>u\<close> are units of every other text that begins with \<open>u\<close>.
\<close>

theorem segment_is_local:
  assumes r: "prefix r (ts_segment (u @ v))" and near: "length (concat r) + 3 \<le> length u"
  shows "prefix r (ts_segment (u @ w))"
proof -
  let ?m = "length (concat r)" and ?k = "Suc (length (concat r))"
  have u: "u @ x \<noteq> []" "?k \<le> length (u @ x)" for x using near by auto
  have st: "\<exists>y rest. ts_segment (u @ x) = fst (ts_state (u @ x) ?k) @ (fst (snd (ts_state (u @ x) ?k)) @ y) # rest" for x
    using ts_state_grows [of ?k "u @ x" "length (u @ x) - ?k"] u [of x]
    by (simp add: ts_segment_state)
  obtain y rest where yr: "ts_segment (u @ v) = fst (ts_state (u @ v) ?k) @ (fst (snd (ts_state (u @ v) ?k)) @ y) # rest"
    using st by blast
  let ?R = "fst (ts_state (u @ v) ?k)" and ?W = "fst (snd (ts_state (u @ v) ?k))"
  have parts: "concat ?R @ ?W = take ?k (u @ v)" "?W \<noteq> []" "[] \<notin> set ?R"
    using ts_state_text [of ?k "u @ v"] u(2) [of v] by simp_all
  from parts(1) u(2) [of v] have len: "length (concat ?R) + length ?W = ?k"
    by (metis length_append length_take min.absorb2)
  have "r = ?R"
  proof -
    have "prefix ?R (ts_segment (u @ v))" unfolding yr by simp
    from prefix_same_cases [OF r this] show ?thesis
    proof
      assume "prefix r ?R"
      then obtain zs where zs: "?R = r @ zs" by (auto simp: prefix_def)
      show ?thesis
      proof (cases zs)
        case (Cons z zs')
        with zs have "length (concat ?R) = ?m + length z + length (concat zs')" by simp
        moreover have "0 < length z" using zs Cons parts(3) by auto
        moreover have "0 < length ?W" using parts(2) by simp
        ultimately show ?thesis using len by linarith
      qed (use zs in simp)
    next
      assume "prefix ?R r"
      then obtain zs where zs: "r = ?R @ zs" by (auto simp: prefix_def)
      show ?thesis
      proof (cases zs)
        case (Cons z zs')
        obtain t where t: "ts_segment (u @ v) = r @ t" using r by (auto simp: prefix_def)
        have "?R @ (z # zs' @ t) = ?R @ (?W @ y) # rest" using t yr zs Cons by (metis append.assoc append_Cons)
        then have "z = ?W @ y" by simp
        then have "length (concat ?R) + length ?W \<le> length (concat (?R @ zs))" by (simp add: Cons)
        also have "concat (?R @ zs) = concat r" by (rule arg_cong [OF zs [symmetric]])
        finally show ?thesis using len by linarith
      qed (use zs in simp)
    qed
  qed
  moreover have "ts_state (u @ v) ?k = ts_state (u @ w) ?k"
    using near by (intro ts_state_prefix) auto
  ultimately show ?thesis using st [of w] by auto
qed

text \<open>The comma at the front of a text is cut off, whatever follows its next three characters.\<close>

lemmas ts_tables = BC1_tab_def BC2_tab_def BC3_tab_def BP1_tab_def BP2_tab_def BQ1_tab_def
  BQ2_tab_def BQ3_tab_def BQ4_tab_def BW1_tab_def BW2_tab_def BW3_tab_def TC1_tab_def TC2_tab_def
  TC3_tab_def TC4_tab_def TQ1_tab_def TQ2_tab_def TQ3_tab_def TQ4_tab_def TW1_tab_def TW2_tab_def
  TW3_tab_def TW4_tab_def UC1_tab_def UC2_tab_def UC3_tab_def UC4_tab_def UC5_tab_def UC6_tab_def
  UP1_tab_def UP2_tab_def UP3_tab_def UQ1_tab_def UQ2_tab_def UQ3_tab_def UW1_tab_def UW2_tab_def
  UW3_tab_def UW4_tab_def UW5_tab_def UW6_tab_def

lemma comma_score:
  "0 < ts_score (ts_seg [0x3001, 97, 98, 99]) (ts_ctypes [0x3001, 97, 98, 99]) 4 CHR ''U'' CHR ''U'' CHR ''U''"
  by (simp add: ts_score_def ts_seg_def ts_ctypes_def ts_ctype_def ts_patterns_def Let_def)
    (simp add: ts_weight_def ts_tables ts_bias_def)

lemma segment_is_local_witness:
  "prefix [[0x3001]] (ts_segment [0x3001, 97, 98, 99, 100, 46])"
proof -
  let ?u = "[0x3001, 97, 98, 99]"
  have st: "ts_state ?u 2 = ([[0x3001]], [97], CHR ''U'', CHR ''U'', CHR ''B'')"
    using ts_state_Suc [of 1 ?u] comma_score
    by (simp add: ts_state_1 ts_step_def numeral_2_eq_2) (simp add: ts_seg_def)
  have "prefix [[0x3001]] (ts_segment (?u @ []))"
  proof -
    have len: "length ?u = 2 + 2" by simp
    have "ts_segment ?u = fst (ts_state ?u (2 + 2)) @ [fst (snd (ts_state ?u (2 + 2)))]"
      using ts_segment_state [of ?u] unfolding len by simp
    moreover obtain y rest where "fst (ts_state ?u (2 + 2)) @ [fst (snd (ts_state ?u (2 + 2)))]
        = [[0x3001]] @ ([97] @ y) # rest"
      using ts_state_grows [of 2 ?u 2] unfolding st by auto
    ultimately have "ts_segment ?u = [[0x3001]] @ ([97] @ y) # rest" by (rule trans)
    then show ?thesis by simp
  qed
  from segment_is_local [OF this, of "[100, 46]"] show ?thesis by simp
qed

end
