(* ===== verification/JsValue.thy ===== *)
theory JsValue
  imports Prelude
begin

text \<open>
  The JavaScript values the search bundle's libraries work on, and the language's own operations
  they use: strict equality, truth, property access, enumeration of keys. Strings are lists of
  UTF-16 code units. Arrays, objects and functions carry an identity, which is what \<open>===\<close>
  compares; the values are trees, so a cyclic structure is not a value of the model. A finite
  double is the rational number it denotes, with \<open>-0\<close> apart. Objects list their own enumerable
  properties in the order of enumeration; properties inherited from a prototype are left out.
\<close>

section \<open>Values\<close>

type_synonym js_string = "nat list"

definition js :: "string \<Rightarrow> js_string" where
  "js s = map of_char s"

lemma js_simps [simp]: "js [] = []" "js (c # s) = of_char c # js s"
  by (simp_all add: js_def)

lemma length_js [simp]: "length (js s) = length s"
  by (simp add: js_def)

lemma js_inject [simp]: "js s = js t \<longleftrightarrow> s = t"
  by (auto simp: js_def inj_map_eq_map [OF inj_of_char])

datatype js_num = NaN | PosInf | NegInf | NegZero | Fin rat

datatype js_value =
  Undefined
| Null
| JBool bool
| JNum js_num
| JStr js_string
| JArr nat "js_value list"
| JObj nat "(js_string \<times> js_value) list"
| JFun nat nat

text \<open>A function has an identity and the number of its formal parameters, its \<open>length\<close>.\<close>

definition jint :: "int \<Rightarrow> js_value" where
  "jint i = JNum (Fin (of_int i))"

section \<open>Equality, truth and comparison\<close>

fun num_eq :: "js_num \<Rightarrow> js_num \<Rightarrow> bool" where
  "num_eq NaN _ = False" | "num_eq _ NaN = False"
| "num_eq NegZero (Fin r) = (r = 0)" | "num_eq (Fin r) NegZero = (r = 0)"
| "num_eq a b = (a = b)"

text \<open>\<open>===\<close>.\<close>

fun strict_eq :: "js_value \<Rightarrow> js_value \<Rightarrow> bool" where
  "strict_eq Undefined Undefined = True"
| "strict_eq Null Null = True"
| "strict_eq (JBool a) (JBool b) = (a = b)"
| "strict_eq (JNum a) (JNum b) = num_eq a b"
| "strict_eq (JStr a) (JStr b) = (a = b)"
| "strict_eq (JArr i _) (JArr j _) = (i = j)"
| "strict_eq (JObj i _) (JObj j _) = (i = j)"
| "strict_eq (JFun i _) (JFun j _) = (i = j)"
| "strict_eq _ _ = False"

fun truthy :: "js_value \<Rightarrow> bool" where
  "truthy Undefined = False" | "truthy Null = False" | "truthy (JBool b) = b"
| "truthy (JNum n) = (n \<noteq> NaN \<and> n \<noteq> NegZero \<and> n \<noteq> Fin 0)"
| "truthy (JStr s) = (s \<noteq> [])"
| "truthy _ = True"

fun num_less :: "js_num \<Rightarrow> js_num \<Rightarrow> bool" where
  "num_less NaN _ = False" | "num_less _ NaN = False"
| "num_less NegInf b = (b \<noteq> NegInf)" | "num_less _ NegInf = False"
| "num_less a PosInf = (a \<noteq> PosInf)" | "num_less PosInf _ = False"
| "num_less NegZero NegZero = False"
| "num_less NegZero (Fin r) = (0 < r)" | "num_less (Fin r) NegZero = (r < 0)"
| "num_less (Fin r) (Fin s) = (r < s)"

text \<open>Both null and undefined are \<open>== null\<close>.\<close>

definition nullish :: "js_value \<Rightarrow> bool" where
  "nullish v = (v = Undefined \<or> v = Null)"

definition is_nan :: "js_value \<Rightarrow> bool" where
  "is_nan v = (v = JNum NaN)"

lemma num_eq_sym: "num_eq a b = num_eq b a"
  by (cases a; cases b) auto

lemma num_eq_trans: "num_eq a b \<Longrightarrow> num_eq b c \<Longrightarrow> num_eq a c"
  by (cases a; cases b; cases c) auto

lemma strict_eq_sym: "strict_eq a b = strict_eq b a"
  by (cases a; cases b) (auto simp: num_eq_sym)

lemma strict_eq_trans: "strict_eq a b \<Longrightarrow> strict_eq b c \<Longrightarrow> strict_eq a c"
  by (cases a; cases b; cases c) (auto intro: num_eq_trans)

lemma strict_eq_refl: "strict_eq v v \<longleftrightarrow> \<not> is_nan v"
proof (cases v)
  case (JNum n)
  then show ?thesis by (cases n) (auto simp: is_nan_def)
qed (auto simp: is_nan_def)

section \<open>Properties\<close>

definition length_key :: js_string where
  "length_key = js ''length''"

definition index_key :: "nat \<Rightarrow> js_string" where
  "index_key i = js (show_nat i)"

lemma index_key_inject [simp]: "index_key i = index_key j \<longleftrightarrow> i = j"
  by (metis index_key_def js_inject read_show_nat)

text \<open>The own enumerable keys, as \<open>Object.keys\<close> lists them; none for what is not an object.\<close>

fun own_keys :: "js_value \<Rightarrow> js_string list" where
  "own_keys (JArr _ xs) = map index_key [0..<length xs]"
| "own_keys (JObj _ ps) = map fst ps"
| "own_keys _ = []"

text \<open>
  \<open>hasOwnProperty\<close>: besides the enumerable ones, the \<open>length\<close> of arrays, strings and functions and
  the characters of a string.
\<close>

fun has_own :: "js_value \<Rightarrow> js_string \<Rightarrow> bool" where
  "has_own (JArr _ xs) key = (key \<in> set (map index_key [0..<length xs]) \<or> key = length_key)"
| "has_own (JObj _ ps) key = (key \<in> fst ` set ps)"
| "has_own (JStr s) key = (key \<in> set (map index_key [0..<length s]) \<or> key = length_key)"
| "has_own (JFun _ _) key = (key = length_key)"
| "has_own _ key = False"

text \<open>\<open>v[key]\<close> for own properties, the \<open>length\<close> of arrays, strings and functions included.\<close>

definition array_get :: "js_value list \<Rightarrow> js_string \<Rightarrow> js_value" where
  "array_get xs key = (case map_of (zip (map index_key [0..<length xs]) xs) key of
     Some v \<Rightarrow> v | None \<Rightarrow> if key = length_key then jint (int (length xs)) else Undefined)"

fun get_prop :: "js_value \<Rightarrow> js_string \<Rightarrow> js_value" where
  "get_prop (JArr _ xs) key = array_get xs key"
| "get_prop (JStr s) key = array_get (map (\<lambda>c. JStr [c]) s) key"
| "get_prop (JObj _ ps) key = (case map_of ps key of Some v \<Rightarrow> v | None \<Rightarrow> Undefined)"
| "get_prop (JFun _ n) key = (if key = length_key then jint (int n) else Undefined)"
| "get_prop _ key = Undefined"

definition get_index :: "js_value \<Rightarrow> nat \<Rightarrow> js_value" where
  "get_index v i = get_prop v (index_key i)"

lemma index_key_not_length [simp]: "index_key i \<noteq> length_key"
proof
  assume "index_key i = length_key"
  then have "show_nat i = ''length''" by (simp only: index_key_def length_key_def js_inject)
  moreover have "is_digit (hd (show_nat i))"
    using show_nat_digits [of i] show_nat_nonempty [of i] by (cases "show_nat i") auto
  ultimately show False by (simp add: is_digit_def)
qed

lemma array_get_index [simp]:
  "array_get xs (index_key i) = (if i < length xs then xs ! i else Undefined)"
proof (cases "i < length xs")
  case True
  have "distinct (map index_key [0..<length xs])" by (simp add: distinct_map inj_on_def)
  then have "map_of (zip (map index_key [0..<length xs]) xs) (map index_key [0..<length xs] ! i) = Some (xs ! i)"
    using True by (intro map_of_zip_nth) auto
  with True show ?thesis by (simp add: array_get_def)
next
  case False
  then have none: "map_of (zip (map index_key [0..<length xs]) xs) (index_key i) = None"
    by (auto simp: map_of_eq_None_iff dest!: set_zip_leftD)
  from False show ?thesis unfolding array_get_def none by simp
qed

lemma array_get_length [simp]: "array_get xs length_key = jint (int (length xs))"
proof -
  have none: "map_of (zip (map index_key [0..<length xs]) xs) length_key = None"
    by (auto simp: map_of_eq_None_iff dest!: set_zip_leftD) (metis index_key_not_length)
  show ?thesis unfolding array_get_def none by simp
qed

lemma get_index_array [simp]: "get_index (JArr a xs) i = (if i < length xs then xs ! i else Undefined)"
  by (simp add: get_index_def)

text \<open>\<open>obj[key] = v\<close> on an object: in place, or as a new last property.\<close>

definition put_prop :: "js_string \<Rightarrow> js_value \<Rightarrow> (js_string \<times> js_value) list \<Rightarrow> (js_string \<times> js_value) list" where
  "put_prop key v ps = AList.update key v ps"

lemma put_prop_lookup [simp]: "map_of (put_prop k v ps) = (map_of ps)(k \<mapsto> v)"
  by (simp add: put_prop_def update_conv')

end
