(* ===== verification/UsIndex.thy ===== *)
theory UsIndex
  imports JsValue
begin

text \<open>
  Underscore 1.8.3 (\<open>wordcut.js\<close>, module 25): callbacks, array-likes, and the functions that find a
  position in an array: \<open>findIndex\<close>, \<open>findLastIndex\<close>, \<open>sortedIndex\<close>, \<open>indexOf\<close> and
  \<open>lastIndexOf\<close>. A callback is a HOL function of the value, the key or index, and the
  collection; callbacks with side effects are not covered. Two operations of the language are
  arguments: the comparison \<open><\<close> of arbitrary values and the conversion of a value to a property
  name.
\<close>

section \<open>Callbacks\<close>

type_synonym callback = "js_value \<Rightarrow> js_value \<Rightarrow> js_value \<Rightarrow> js_value"

text \<open>What a caller may pass where a callback is expected: nothing, a function, another value.\<close>

datatype iteratee = NoIteratee | FunIteratee callback | ValIteratee js_value

definition us_identity :: "js_value \<Rightarrow> js_value" where
  "us_identity value = value"

definition us_property :: "js_string \<Rightarrow> js_value \<Rightarrow> js_value" where
  "us_property key obj = (if nullish obj then Undefined else get_prop obj key)"

text \<open>\<open>_.has\<close>.\<close>

definition us_has :: "js_value \<Rightarrow> js_string \<Rightarrow> bool" where
  "us_has obj key = (\<not> nullish obj \<and> has_own obj key)"

fun us_is_object :: "js_value \<Rightarrow> bool" where
  "us_is_object (JArr _ _) = True" | "us_is_object (JObj _ _) = True"
| "us_is_object (JFun _ _) = True" | "us_is_object _ = False"

fun us_is_array :: "js_value \<Rightarrow> bool" where
  "us_is_array (JArr _ _) = True" | "us_is_array _ = False"

definition us_keys :: "js_value \<Rightarrow> js_string list" where
  "us_keys obj = (if \<not> us_is_object obj then [] else own_keys obj)"

text \<open>\<open>isMatch\<close>: every own property of \<open>attrs\<close> is there with a strictly equal value.\<close>

definition us_is_match :: "js_value \<Rightarrow> js_value \<Rightarrow> bool" where
  "us_is_match object attrs =
     (let keys = us_keys attrs in
      if nullish object then keys = []
      else list_all (\<lambda>key. strict_eq (get_prop attrs key) (get_prop object key) \<and> us_has object key) keys)"

definition us_matcher :: "js_value \<Rightarrow> js_value \<Rightarrow> bool" where
  "us_matcher attrs obj = us_is_match obj attrs"

text \<open>\<open>cb\<close>, with \<open>optimizeCb\<close>: how an iteratee is turned into a callback.\<close>

definition us_cb :: "(js_value \<Rightarrow> js_string) \<Rightarrow> iteratee \<Rightarrow> callback" where
  "us_cb to_key it =
     (case it of
        NoIteratee \<Rightarrow> (\<lambda>v _ _. us_identity v)
      | FunIteratee f \<Rightarrow> f
      | ValIteratee w \<Rightarrow>
          if nullish w then (\<lambda>v _ _. us_identity v)
          else if us_is_object w then (\<lambda>v _ _. JBool (us_matcher w v))
          else (\<lambda>v _ _. us_property (to_key w) v))"

section \<open>Array-likes\<close>

definition max_array_index :: int where
  "max_array_index = 2 ^ 53 - 1"

definition get_length :: "js_value \<Rightarrow> js_value" where
  "get_length v = us_property length_key v"

text \<open>\<open>isArrayLike\<close>: the \<open>length\<close> is a number between 0 and the greatest index.\<close>

definition is_array_like :: "js_value \<Rightarrow> bool" where
  "is_array_like v =
     (case get_length v of
        JNum (Fin r) \<Rightarrow> 0 \<le> r \<and> r \<le> of_int max_array_index
      | JNum NegZero \<Rightarrow> True
      | _ \<Rightarrow> False)"

text \<open>How many indices a loop \<open>for (i = 0; i < length; i++)\<close> runs over.\<close>

definition loop_length :: "js_value \<Rightarrow> nat" where
  "loop_length v = (case get_length v of JNum (Fin r) \<Rightarrow> nat \<lceil>r\<rceil> | _ \<Rightarrow> 0)"

definition elems :: "js_value \<Rightarrow> js_value list" where
  "elems v = map (get_index v) [0..<loop_length v]"

lemma loop_length_array [simp]: "loop_length (JArr a xs) = length xs"
  by (simp add: loop_length_def get_length_def us_property_def nullish_def array_get_length jint_def)

lemma elems_array [simp]: "elems (JArr a xs) = xs"
  by (rule nth_equalityI) (simp_all add: elems_def)

text \<open>JavaScript's \<open>slice\<close> of a list.\<close>

definition slice_index :: "int \<Rightarrow> nat \<Rightarrow> nat" where
  "slice_index i n = (if i < 0 then nat (max 0 (int n + i)) else min (nat i) n)"

definition js_slice :: "int \<Rightarrow> int \<Rightarrow> 'a list \<Rightarrow> 'a list" where
  "js_slice a b xs = (let s = slice_index a (length xs); e = slice_index b (length xs)
     in take (e - s) (drop s xs))"

section \<open>Finding by a predicate\<close>

text \<open>\<open>createPredicateIndexFinder\<close>: upwards for \<open>findIndex\<close>, downwards for \<open>findLastIndex\<close>.\<close>

definition predicate_index :: "bool \<Rightarrow> (js_value \<Rightarrow> js_value \<Rightarrow> js_value \<Rightarrow> bool) \<Rightarrow> js_value \<Rightarrow> int" where
  "predicate_index up predicate array =
     (let n = loop_length array; order = (if up then [0..<n] else rev [0..<n]) in
      case find (\<lambda>i. predicate (get_index array i) (jint (int i)) array) order of
        Some i \<Rightarrow> int i | None \<Rightarrow> -1)"

definition us_find_index :: "(js_value \<Rightarrow> js_string) \<Rightarrow> js_value \<Rightarrow> iteratee \<Rightarrow> int" where
  "us_find_index to_key array it = predicate_index True (\<lambda>v k l. truthy (us_cb to_key it v k l)) array"

definition us_find_last_index :: "(js_value \<Rightarrow> js_string) \<Rightarrow> js_value \<Rightarrow> iteratee \<Rightarrow> int" where
  "us_find_last_index to_key array it =
     predicate_index False (\<lambda>v k l. truthy (us_cb to_key it v k l)) array"

section \<open>Binary search\<close>

text \<open>The loop of \<open>sortedIndex\<close>; \<open>less_at mid\<close> is \<open>iteratee(array[mid]) < value\<close>.\<close>

function sorted_index_loop :: "(nat \<Rightarrow> bool) \<Rightarrow> nat \<Rightarrow> nat \<Rightarrow> nat" where
  "sorted_index_loop less_at low high =
     (if low < high
      then let mid = (low + high) div 2 in
           if less_at mid then sorted_index_loop less_at (mid + 1) high
           else sorted_index_loop less_at low mid
      else low)"
  by pat_completeness auto
termination by (relation "measure (\<lambda>(_, low, high). high - low)") (auto simp: Let_def)

declare sorted_index_loop.simps [simp del]

definition us_sorted_index ::
  "(js_value \<Rightarrow> js_value \<Rightarrow> bool) \<Rightarrow> (js_value \<Rightarrow> js_value) \<Rightarrow> js_value \<Rightarrow> js_value \<Rightarrow> nat" where
  "us_sorted_index lt iteratee array obj =
     (let value = iteratee obj
      in sorted_index_loop (\<lambda>mid. lt (iteratee (get_index array mid)) value) 0 (loop_length array))"

lemma sorted_index_loop_spec:
  assumes mono: "\<And>i j. i \<le> j \<Longrightarrow> j < n \<Longrightarrow> P j \<Longrightarrow> P i"
  shows "low \<le> high \<Longrightarrow> high \<le> n \<Longrightarrow> (\<And>i. i < low \<Longrightarrow> P i) \<Longrightarrow> (\<And>i. high \<le> i \<Longrightarrow> i < n \<Longrightarrow> \<not> P i) \<Longrightarrow>
    let k = sorted_index_loop P low high in
      k \<le> n \<and> (\<forall>i < k. P i) \<and> (\<forall>i. k \<le> i \<and> i < n \<longrightarrow> \<not> P i)"
proof (induction "high - low" arbitrary: low high rule: less_induct)
  case less
  show ?case
  proof (cases "low < high")
    case True
    let ?mid = "(low + high) div 2"
    have mid: "low \<le> ?mid" "?mid < high" using True by auto
    show ?thesis
    proof (cases "P ?mid")
      case Pm: True
      have "\<And>i. i < ?mid + 1 \<Longrightarrow> P i" using mono [of _ ?mid] Pm mid less.prems(2) by auto
      with less.hyps [of high "?mid + 1"] less.prems mid Pm True show ?thesis
        by (subst sorted_index_loop.simps) (simp add: Let_def)
    next
      case Pm: False
      have "\<And>i. ?mid \<le> i \<Longrightarrow> i < n \<Longrightarrow> \<not> P i" using mono Pm by blast
      with less.hyps [of ?mid low] less.prems mid Pm True show ?thesis
        by (subst sorted_index_loop.simps) (simp add: Let_def)
    qed
  next
    case False
    with less.prems show ?thesis by (subst sorted_index_loop.simps) (simp add: Let_def)
  qed
qed

section \<open>Positions of an item\<close>

text \<open>The third argument of \<open>indexOf\<close>: absent, a number, or \<open>true\<close> for a sorted array.\<close>

datatype index_arg = NoIndex | NumIndex int | SortedIndex

text \<open>
  The loop at the end of \<open>createIndexFinder\<close>, from \<open>idx\<close> by steps of \<open>dir\<close> within \<open>length\<close>.
\<close>

function scan_for :: "bool \<Rightarrow> js_value \<Rightarrow> js_value \<Rightarrow> int \<Rightarrow> int \<Rightarrow> int" where
  "scan_for up array item idx len =
     (if 0 \<le> idx \<and> idx < len
      then if strict_eq (get_index array (nat idx)) item then idx
           else scan_for up array item (if up then idx + 1 else idx - 1) len
      else -1)"
  by pat_completeness auto
termination
  by (relation "measure (\<lambda>(up, _, _, idx, len). if up then nat (len - idx) else nat (idx + 1))") auto

declare scan_for.simps [simp del]

definition index_finder ::
  "bool \<Rightarrow> (js_value \<Rightarrow> js_value \<Rightarrow> bool) \<Rightarrow> js_value \<Rightarrow> js_value \<Rightarrow> index_arg \<Rightarrow> int" where
  "index_finder up lt array item arg =
     (let n = int (loop_length array);
          (i, len) = (case arg of
             NumIndex idx \<Rightarrow>
               if up then (if 0 \<le> idx then idx else max (idx + n) 0, n)
               else (0, if 0 \<le> idx then min (idx + 1) n else idx + n + 1)
           | _ \<Rightarrow> (0, n))
      in if arg = SortedIndex \<and> up \<and> n \<noteq> 0
         then (let k = us_sorted_index lt us_identity array item
               in if strict_eq (get_index array k) item then int k else -1)
         else if is_nan item
         then (let k = predicate_index up (\<lambda>v _ _. is_nan v) (JArr 0 (js_slice i len (elems array)))
               in if 0 \<le> k then k + i else -1)
         else scan_for up array item (if up then i else len - 1) len)"

definition us_index_of :: "(js_value \<Rightarrow> js_value \<Rightarrow> bool) \<Rightarrow> js_value \<Rightarrow> js_value \<Rightarrow> index_arg \<Rightarrow> int" where
  "us_index_of lt array item arg = index_finder True lt array item arg"

definition us_last_index_of :: "js_value \<Rightarrow> js_value \<Rightarrow> index_arg \<Rightarrow> int" where
  "us_last_index_of array item arg = index_finder False (\<lambda>_ _. False) array item arg"

lemma scan_up:
  assumes "0 \<le> idx"
  shows "case scan_for True array item idx len of r \<Rightarrow>
    (r = -1 \<and> (\<forall>j. idx \<le> j \<and> j < len \<longrightarrow> \<not> strict_eq (get_index array (nat j)) item))
    \<or> (idx \<le> r \<and> r < len \<and> strict_eq (get_index array (nat r)) item
       \<and> (\<forall>j. idx \<le> j \<and> j < r \<longrightarrow> \<not> strict_eq (get_index array (nat j)) item))"
  using assms
proof (induction "nat (len - idx)" arbitrary: idx rule: less_induct)
  case less
  show ?case
  proof (cases "idx < len")
    case True
    show ?thesis
    proof (cases "strict_eq (get_index array (nat idx)) item")
      case eq: True
      have "scan_for True array item idx len = idx"
        using True eq less.prems by (subst scan_for.simps) simp
      with True eq less.prems show ?thesis by auto
    next
      case ne: False
      have step: "scan_for True array item idx len = scan_for True array item (idx + 1) len"
        using True ne less.prems by (subst scan_for.simps) simp
      have split: "(\<forall>j. idx \<le> j \<and> j < k \<longrightarrow> \<not> strict_eq (get_index array (nat j)) item)
          \<longleftrightarrow> (\<forall>j. idx + 1 \<le> j \<and> j < k \<longrightarrow> \<not> strict_eq (get_index array (nat j)) item)" for k
        using ne by (metis order_le_less zless_add1_eq add1_zle_eq)
      show ?thesis unfolding step split using less.hyps [of "idx + 1"] True less.prems by auto
    qed
  next
    case False
    then show ?thesis by (subst scan_for.simps) auto
  qed
qed

section \<open>Properties\<close>

text \<open>The order a caller sorts by: a weak order on the values that occur.\<close>

definition weak_order_on :: "(js_value \<Rightarrow> js_value \<Rightarrow> bool) \<Rightarrow> js_value set \<Rightarrow> bool" where
  "weak_order_on lt S =
     ((\<forall>a \<in> S. \<forall>b \<in> S. lt a b \<longrightarrow> \<not> lt b a) \<and>
      (\<forall>a \<in> S. \<forall>b \<in> S. \<forall>c \<in> S. lt a c \<longrightarrow> lt a b \<or> lt b c))"

lemma weak_order_onD:
  assumes "weak_order_on lt S"
  shows "a \<in> S \<Longrightarrow> b \<in> S \<Longrightarrow> lt a b \<Longrightarrow> \<not> lt b a"
    "a \<in> S \<Longrightarrow> b \<in> S \<Longrightarrow> c \<in> S \<Longrightarrow> lt a c \<Longrightarrow> lt a b \<or> lt b c"
  using assms unfolding weak_order_on_def by blast+

definition sorted_by :: "(js_value \<Rightarrow> js_value \<Rightarrow> bool) \<Rightarrow> (js_value \<Rightarrow> js_value) \<Rightarrow> js_value list \<Rightarrow> bool" where
  "sorted_by lt f xs = sorted_wrt (\<lambda>a b. \<not> lt (f b) (f a)) xs"

text \<open>The language's comparison where both values are numbers or both are strings.\<close>

fun value_less :: "js_value \<Rightarrow> js_value \<Rightarrow> bool" where
  "value_less (JNum a) (JNum b) = num_less a b"
| "value_less (JStr a) (JStr b) = (a < b)"
| "value_less _ _ = False"

lemma value_less_weak_order: "weak_order_on value_less {JNum (Fin r) |r. True}"
  by (auto simp: weak_order_on_def)

lemma sorted_index_position:
  fixes a :: nat
  assumes ord: "weak_order_on lt S" and vals: "f ` set xs \<subseteq> S" "f obj \<in> S" and srt: "sorted_by lt f xs"
  shows "us_sorted_index lt f (JArr a xs) obj \<le> length xs
    \<and> (\<forall>i < us_sorted_index lt f (JArr a xs) obj. lt (f (xs ! i)) (f obj))
    \<and> (\<forall>i. us_sorted_index lt f (JArr a xs) obj \<le> i \<and> i < length xs \<longrightarrow> \<not> lt (f (xs ! i)) (f obj))"
proof -
  let ?P = "\<lambda>i. lt (f (get_index (JArr a xs) i)) (f obj)"
  have mono: "?P i" if "i \<le> j" "j < length xs" "?P j" for i j
  proof (cases "i = j")
    case False
    then have "\<not> lt (f (xs ! j)) (f (xs ! i))"
      using srt that by (auto simp: sorted_by_def sorted_wrt_iff_nth_less)
    moreover have "f (xs ! i) \<in> S" "f (xs ! j) \<in> S" using vals(1) that by (auto simp: subset_iff)
    ultimately show ?thesis using weak_order_onD(2) [OF ord, of "f (xs ! j)" "f (xs ! i)" "f obj"] vals(2) that
      by simp
  qed (use that in simp)
  have eq: "us_sorted_index lt f (JArr a xs) obj = sorted_index_loop ?P 0 (length xs)"
    by (simp only: us_sorted_index_def Let_def loop_length_array)
  have r: "sorted_index_loop ?P 0 (length xs) \<le> length xs \<and> (\<forall>i < sorted_index_loop ?P 0 (length xs). ?P i)
    \<and> (\<forall>i. sorted_index_loop ?P 0 (length xs) \<le> i \<and> i < length xs \<longrightarrow> \<not> ?P i)"
    by (rule sorted_index_loop_spec [of "length xs" ?P 0 "length xs", unfolded Let_def]) (use mono in auto)
  have at: "get_index (JArr a xs) i = xs ! i" if "i < length xs" for i using that by simp
  let ?k = "sorted_index_loop ?P 0 (length xs)"
  show ?thesis unfolding eq
  proof (intro conjI allI impI)
    show "?k \<le> length xs" using r by blast
    fix i
    show "lt (f (xs ! i)) (f obj)" if "i < ?k"
    proof -
      have "i < length xs" using r that by linarith
      moreover have "?P i" using r that by blast
      ultimately show ?thesis by (simp only: at not_False_eq_True)
    qed
    show "\<not> lt (f (xs ! i)) (f obj)" if "?k \<le> i \<and> i < length xs"
    proof -
      have "i < length xs" using that by blast
      moreover have "\<not> ?P i" using r that by blast
      ultimately show ?thesis by (simp only: at not_False_eq_True)
    qed
  qed
qed

text \<open>
  \<open>sortedIndex\<close> finds the place of a value in a sorted array: every element before the
  position is below the value and none from it on is, so the value inserted there leaves the
  array sorted, and no earlier position would do.
\<close>

theorem sorted_index_inserts:
  assumes ord: "weak_order_on lt S" and vals: "f ` set xs \<subseteq> S" "f obj \<in> S" and srt: "sorted_by lt f xs"
  shows "us_sorted_index lt f (JArr a xs) obj \<le> length xs
    \<and> sorted_by lt f (take (us_sorted_index lt f (JArr a xs) obj) xs @ [obj]
        @ drop (us_sorted_index lt f (JArr a xs) obj) xs)
    \<and> (\<forall>i < us_sorted_index lt f (JArr a xs) obj. lt (f (xs ! i)) (f obj))"
proof -
  let ?k = "us_sorted_index lt f (JArr a xs) obj"
  have pos: "?k \<le> length xs" "\<And>i. i < ?k \<Longrightarrow> lt (f (xs ! i)) (f obj)"
    "\<And>i. ?k \<le> i \<Longrightarrow> i < length xs \<Longrightarrow> \<not> lt (f (xs ! i)) (f obj)"
    using sorted_index_position [OF ord vals srt, of a] by auto
  have "\<not> lt (f obj) (f x)" if "x \<in> set (take ?k xs)" for x
  proof -
    from that obtain i where "i < length (take ?k xs)" "take ?k xs ! i = x" unfolding in_set_conv_nth by blast
    then have i: "i < ?k" "i < length xs" "x = xs ! i" by auto
    then have "f x \<in> S" using vals(1) by auto
    with i pos(2) show ?thesis using weak_order_onD(1) [OF ord _ vals(2)] by simp
  qed
  moreover have "\<not> lt (f x) (f obj)" if "x \<in> set (drop ?k xs)" for x
  proof -
    from that obtain i where "i < length (drop ?k xs)" "drop ?k xs ! i = x" unfolding in_set_conv_nth by blast
    then have "i < length xs - ?k" "x = xs ! (?k + i)" using pos(1) by auto
    with pos(3) [of "?k + i"] show ?thesis by simp
  qed
  moreover have "sorted_wrt (\<lambda>a b. \<not> lt (f b) (f a)) (take ?k xs @ drop ?k xs)"
    using srt by (simp add: sorted_by_def)
  ultimately have "sorted_by lt f (take ?k xs @ [obj] @ drop ?k xs)"
    unfolding sorted_by_def by (simp only: sorted_wrt_append) auto
  with pos(1,2) show ?thesis by blast
qed

lemma sorted_index_inserts_witness:
  "us_sorted_index value_less us_identity (JArr 0 [jint 10, jint 20, jint 40]) (jint 30) \<le> 3"
proof -
  have "us_identity ` set [jint 10, jint 20, jint 40] \<subseteq> {JNum (Fin r) |r. True}"
    "us_identity (jint 30) \<in> {JNum (Fin r) |r. True}"
    by (auto simp: us_identity_def jint_def)
  moreover have "sorted_by value_less us_identity [jint 10, jint 20, jint 40]"
    by (simp add: sorted_by_def us_identity_def jint_def)
  ultimately have "us_sorted_index value_less us_identity (JArr 0 [jint 10, jint 20, jint 40]) (jint 30)
      \<le> length [jint 10, jint 20, jint 40]"
    by (rule sorted_index_inserts [OF value_less_weak_order, THEN conjunct1])
  then show ?thesis by simp
qed

lemma index_of_scan:
  assumes "\<not> is_nan item"
  shows "us_index_of lt (JArr a xs) item NoIndex = -1 \<and> (\<forall>i < length xs. \<not> strict_eq (xs ! i) item)
    \<or> (\<exists>k < length xs. us_index_of lt (JArr a xs) item NoIndex = int k \<and> strict_eq (xs ! k) item
        \<and> (\<forall>i < k. \<not> strict_eq (xs ! i) item))"
proof -
  have eq: "us_index_of lt (JArr a xs) item NoIndex = scan_for True (JArr a xs) item 0 (int (length xs))"
    using assms by (simp add: us_index_of_def index_finder_def)
  let ?r = "scan_for True (JArr a xs) item 0 (int (length xs))"
  have at: "get_index (JArr a xs) (nat (int i)) = xs ! i" if "i < length xs" for i using that by simp
  from scan_up [of 0 "JArr a xs" item "int (length xs)"] consider
      (no) "?r = -1" "\<forall>j. 0 \<le> j \<and> j < int (length xs) \<longrightarrow> \<not> strict_eq (get_index (JArr a xs) (nat j)) item"
    | (yes) "0 \<le> ?r" "?r < int (length xs)" "strict_eq (get_index (JArr a xs) (nat ?r)) item"
        "\<forall>j. 0 \<le> j \<and> j < ?r \<longrightarrow> \<not> strict_eq (get_index (JArr a xs) (nat j)) item" by auto
  then show ?thesis
  proof cases
    case no
    have "\<not> strict_eq (xs ! i) item" if "i < length xs" for i
      using no(2) [rule_format, of "int i"] at [OF that] that by simp
    with no(1) eq show ?thesis by simp
  next
    case yes
    obtain k where k: "?r = int k" using yes(1) nonneg_int_cases by blast
    have kl: "k < length xs" using yes(2) k by simp
    have "\<not> strict_eq (xs ! i) item" if "i < k" for i
      using yes(4) [rule_format, of "int i"] at [of i] that k kl by simp
    moreover have "strict_eq (xs ! k) item" using yes(3) at [OF kl] k by simp
    ultimately show ?thesis using eq k kl by metis
  qed
qed

text \<open>
  On a sorted array \<open>indexOf\<close> by binary search (\<open>isSorted\<close>) and by scanning agree, where
  values the order does not separate are the strictly equal ones and \<open>undefined\<close> is not among
  the values.
\<close>

theorem index_of_sorted_agrees:
  assumes ord: "weak_order_on lt S" and vals: "set xs \<subseteq> S" "item \<in> S" and srt: "sorted_by lt us_identity xs"
    and total: "\<forall>x \<in> S. \<forall>y \<in> S. strict_eq x y \<longleftrightarrow> \<not> lt x y \<and> \<not> lt y x"
    and proper: "Undefined \<notin> S" "\<not> is_nan item"
  shows "us_index_of lt (JArr a xs) item SortedIndex = us_index_of lt (JArr a xs) item NoIndex"
proof (cases "xs = []")
  case True
  then show ?thesis using proper by (simp add: us_index_of_def index_finder_def scan_for.simps)
next
  case False
  let ?k = "us_sorted_index lt us_identity (JArr a xs) item"
  have id: "us_identity ` set xs \<subseteq> S" "us_identity item \<in> S" using vals by (auto simp: us_identity_def)
  have pos: "?k \<le> length xs" "\<And>i. i < ?k \<Longrightarrow> lt (xs ! i) item"
    "\<And>i. ?k \<le> i \<Longrightarrow> i < length xs \<Longrightarrow> \<not> lt (xs ! i) item"
    using sorted_index_position [OF ord id srt, of a] by (auto simp: us_identity_def)
  have S: "xs ! i \<in> S" if "i < length xs" for i using that vals(1) by auto
  have bin: "us_index_of lt (JArr a xs) item SortedIndex =
      (if strict_eq (get_index (JArr a xs) ?k) item then int ?k else -1)"
    using False by (simp add: us_index_of_def index_finder_def Let_def)
  have before: "\<not> strict_eq (xs ! i) item" if "i < ?k" for i
    using pos(1,2) that S [of i] vals(2) total by auto
  show ?thesis
  proof (cases "strict_eq (get_index (JArr a xs) ?k) item")
    case True
    have k: "?k < length xs"
    proof (rule ccontr)
      assume "\<not> ?k < length xs"
      then have "strict_eq Undefined item" using True by simp
      then show False using proper vals(2) by (cases item) auto
    qed
    with True have hit: "strict_eq (xs ! ?k) item" by simp
    from index_of_scan [OF proper(2), of lt a xs] have "us_index_of lt (JArr a xs) item NoIndex = int ?k"
      using before hit k by (metis linorder_neqE_nat)
    with bin True show ?thesis by simp
  next
    case miss: False
    have "\<not> strict_eq (xs ! i) item" if "i < length xs" for i
    proof
      assume e: "strict_eq (xs ! i) item"
      with before [of i] have "?k \<le> i" by (rule_tac ccontr) simp
      then have k: "?k < length xs" using that by simp
      have inc: "\<not> lt (xs ! i) item" "\<not> lt item (xs ! i)" using e S [OF that] vals(2) total by auto
      have "\<not> lt (xs ! i) (xs ! ?k)"
        using srt \<open>?k \<le> i\<close> that pos(3) inc
        by (cases "?k = i") (auto simp: sorted_by_def us_identity_def sorted_wrt_iff_nth_less
            dest: weak_order_onD(1) [OF ord S S])
      then have "\<not> lt item (xs ! ?k)"
        using weak_order_onD(2) [OF ord vals(2) S [OF that] S [OF k]] inc by blast
      moreover have "\<not> lt (xs ! ?k) item" using pos(3) [of ?k] k by simp
      ultimately have "strict_eq (xs ! ?k) item" using total S [OF k] vals(2) by blast
      with miss k show False by simp
    qed
    with index_of_scan [OF proper(2), of lt a xs] have "us_index_of lt (JArr a xs) item NoIndex = -1"
      by auto
    with bin miss show ?thesis by simp
  qed
qed

lemma index_of_sorted_agrees_witness:
  "us_index_of value_less (JArr 0 [jint 10, jint 20]) (jint 20) SortedIndex =
   us_index_of value_less (JArr 0 [jint 10, jint 20]) (jint 20) NoIndex"
  by (rule index_of_sorted_agrees [OF value_less_weak_order])
    (auto simp: sorted_by_def us_identity_def jint_def is_nan_def)

end
