(* ===== verification/UsCollections.thy ===== *)
theory UsCollections
  imports UsIndex "HOL-Library.Multiset"
begin

text \<open>
  The collection functions of Underscore 1.8.3 (\<open>wordcut.js\<close>, module 25). \<open>each\<close> is the list of
  the calls it makes, in order, and the functions built on it run over that list. The random
  numbers of \<open>shuffle\<close> and \<open>sample\<close> are an argument. The theory shows that shuffling permutes
  whatever the numbers are, that sorting is a stable sort, and that grouping loses nothing.
\<close>

section \<open>Iteration\<close>

text \<open>The values of an object, in the order of its keys.\<close>

definition us_values :: "js_value \<Rightarrow> js_value list" where
  "us_values obj = map (get_prop obj) (us_keys obj)"

text \<open>The pairs of value and key a loop over a collection visits.\<close>

definition visits :: "js_value \<Rightarrow> (js_value \<times> js_value) list" where
  "visits obj =
     (if is_array_like obj
      then map (\<lambda>i. (get_index obj i, jint (int i))) [0..<loop_length obj]
      else map (\<lambda>key. (get_prop obj key, JStr key)) (us_keys obj))"

definition us_each :: "js_value \<Rightarrow> (js_value \<times> js_value \<times> js_value) list \<times> js_value" where
  "us_each obj = (map (\<lambda>(v, k). (v, k, obj)) (visits obj), obj)"

definition us_map :: "(js_value \<Rightarrow> js_string) \<Rightarrow> js_value \<Rightarrow> iteratee \<Rightarrow> js_value list" where
  "us_map to_key obj it = map (\<lambda>(v, k). us_cb to_key it v k obj) (visits obj)"

text \<open>
  \<open>createReduce\<close>: \<open>None\<close> as the result is the TypeError of looking into \<open>null\<close> when neither an
  initial value nor an element is there.
\<close>

definition us_reduce ::
  "bool \<Rightarrow> js_value \<Rightarrow> (js_value \<Rightarrow> callback) \<Rightarrow> js_value option \<Rightarrow> js_value option" where
  "us_reduce forward obj f memo =
     (let order = (if forward then visits obj else rev (visits obj));
          run = foldl (\<lambda>m (v, k). f m v k obj)
      in case memo of
           Some m \<Rightarrow> Some (run m order)
         | None \<Rightarrow> (case order of
               [] \<Rightarrow> if nullish obj then None else Some Undefined
             | (v, _) # rest \<Rightarrow> Some (run v rest)))"

definition us_find_key :: "(js_value \<Rightarrow> js_string) \<Rightarrow> js_value \<Rightarrow> iteratee \<Rightarrow> js_string option" where
  "us_find_key to_key obj it =
     find (\<lambda>key. truthy (us_cb to_key it (get_prop obj key) (JStr key) obj)) (us_keys obj)"

definition us_find :: "(js_value \<Rightarrow> js_string) \<Rightarrow> js_value \<Rightarrow> iteratee \<Rightarrow> js_value" where
  "us_find to_key obj it =
     (if is_array_like obj
      then (let i = us_find_index to_key obj it in if i \<noteq> -1 then get_index obj (nat i) else Undefined)
      else (case us_find_key to_key obj it of Some key \<Rightarrow> get_prop obj key | None \<Rightarrow> Undefined))"

definition us_filter_by :: "(js_value \<Rightarrow> js_value \<Rightarrow> js_value \<Rightarrow> bool) \<Rightarrow> js_value \<Rightarrow> js_value list" where
  "us_filter_by p obj =
     foldl (\<lambda>results (v, k, l). if p v k l then results @ [v] else results) [] (fst (us_each obj))"

definition us_filter :: "(js_value \<Rightarrow> js_string) \<Rightarrow> js_value \<Rightarrow> iteratee \<Rightarrow> js_value list" where
  "us_filter to_key obj it = us_filter_by (\<lambda>v k l. truthy (us_cb to_key it v k l)) obj"

definition us_negate :: "(js_value \<Rightarrow> js_value \<Rightarrow> js_value \<Rightarrow> bool) \<Rightarrow> js_value \<Rightarrow> js_value \<Rightarrow> js_value \<Rightarrow> bool" where
  "us_negate p v k l = (\<not> p v k l)"

definition us_reject :: "(js_value \<Rightarrow> js_string) \<Rightarrow> js_value \<Rightarrow> iteratee \<Rightarrow> js_value list" where
  "us_reject to_key obj it = us_filter_by (us_negate (\<lambda>v k l. truthy (us_cb to_key it v k l))) obj"

definition us_every :: "(js_value \<Rightarrow> js_string) \<Rightarrow> js_value \<Rightarrow> iteratee \<Rightarrow> bool" where
  "us_every to_key obj it = list_all (\<lambda>(v, k). truthy (us_cb to_key it v k obj)) (visits obj)"

definition us_some :: "(js_value \<Rightarrow> js_string) \<Rightarrow> js_value \<Rightarrow> iteratee \<Rightarrow> bool" where
  "us_some to_key obj it = list_ex (\<lambda>(v, k). truthy (us_cb to_key it v k obj)) (visits obj)"

text \<open>A fresh array, for the functions that hand one on; its identity is never compared.\<close>

definition fresh_array :: "js_value list \<Rightarrow> js_value" where
  "fresh_array xs = JArr 0 xs"

definition us_contains :: "js_value \<Rightarrow> js_value \<Rightarrow> int option \<Rightarrow> bool \<Rightarrow> bool" where
  "us_contains obj item from_index guard =
     (let arr = (if is_array_like obj then obj else fresh_array (us_values obj));
          from = (case from_index of Some n \<Rightarrow> if guard then 0 else n | None \<Rightarrow> 0)
      in 0 \<le> us_index_of (\<lambda>_ _. False) arr item (NumIndex from))"

definition us_pluck :: "js_string \<Rightarrow> js_value \<Rightarrow> js_value list" where
  "us_pluck key obj = map (\<lambda>(v, k). us_property key v) (visits obj)"

definition us_where :: "js_value \<Rightarrow> js_value \<Rightarrow> js_value list" where
  "us_where obj attrs = us_filter_by (\<lambda>v _ _. us_matcher attrs v) obj"

definition us_find_where :: "js_value \<Rightarrow> js_value \<Rightarrow> js_value" where
  "us_find_where obj attrs = us_find (\<lambda>_. []) obj (FunIteratee (\<lambda>v _ _. JBool (us_matcher attrs v)))"

text \<open>\<open>iteratee == null\<close>.\<close>

definition no_iteratee :: "iteratee \<Rightarrow> bool" where
  "no_iteratee it = (case it of NoIteratee \<Rightarrow> True | FunIteratee _ \<Rightarrow> False | ValIteratee w \<Rightarrow> nullish w)"

text \<open>\<open>max\<close> and \<open>min\<close>; \<open>better a b\<close> is \<open>a > b\<close> for the one and \<open>a < b\<close> for the other.\<close>

definition us_extreme ::
  "js_num \<Rightarrow> (js_value \<Rightarrow> js_value \<Rightarrow> bool) \<Rightarrow> (js_value \<Rightarrow> js_string) \<Rightarrow> js_value \<Rightarrow> iteratee \<Rightarrow> js_value" where
  "us_extreme start better to_key obj it =
     (if no_iteratee it \<and> \<not> nullish obj
      then foldl (\<lambda>result value. if better value result then value else result) (JNum start)
             (if is_array_like obj then elems obj else us_values obj)
      else fst (foldl (\<lambda>(result, last_computed) (v, k, l).
                  let computed = us_cb to_key it v k l in
                  if better computed last_computed
                     \<or> strict_eq computed (JNum start) \<and> strict_eq result (JNum start)
                  then (v, computed) else (result, last_computed))
                (JNum start, JNum start) (fst (us_each obj))))"

definition us_max ::
  "(js_value \<Rightarrow> js_value \<Rightarrow> bool) \<Rightarrow> (js_value \<Rightarrow> js_string) \<Rightarrow> js_value \<Rightarrow> iteratee \<Rightarrow> js_value" where
  "us_max lt = us_extreme NegInf (\<lambda>a b. lt b a)"

definition us_min ::
  "(js_value \<Rightarrow> js_value \<Rightarrow> bool) \<Rightarrow> (js_value \<Rightarrow> js_string) \<Rightarrow> js_value \<Rightarrow> iteratee \<Rightarrow> js_value" where
  "us_min lt = us_extreme PosInf lt"

section \<open>Shuffling\<close>

text \<open>\<open>random(min, max)\<close> with the number \<open>x\<close> that \<open>Math.random\<close> gives.\<close>

definition us_random :: "rat \<Rightarrow> int \<Rightarrow> int option \<Rightarrow> int" where
  "us_random x mn mx = (let (lo, hi) = (case mx of None \<Rightarrow> (0, mn) | Some hi \<Rightarrow> (mn, hi))
     in lo + \<lfloor>x * of_int (hi - lo + 1)\<rfloor>)"

definition collection_list :: "js_value \<Rightarrow> js_value list" where
  "collection_list obj = (if is_array_like obj then elems obj else us_values obj)"

definition shuffle_step :: "(nat \<Rightarrow> rat) \<Rightarrow> js_value list \<Rightarrow> js_value list \<Rightarrow> nat \<Rightarrow> js_value list" where
  "shuffle_step rnd xs shuffled index =
     (let rand = nat (us_random (rnd index) 0 (Some (int index)));
          s1 = (if rand \<noteq> index then shuffled[index := shuffled ! rand] else shuffled)
      in s1[rand := xs ! index])"

definition us_shuffle :: "(nat \<Rightarrow> rat) \<Rightarrow> js_value \<Rightarrow> js_value list" where
  "us_shuffle rnd obj =
     (let xs = collection_list obj in
      foldl (shuffle_step rnd xs) (replicate (length xs) Undefined) [0..<length xs])"

definition us_sample :: "(nat \<Rightarrow> rat) \<Rightarrow> js_value \<Rightarrow> int option \<Rightarrow> bool \<Rightarrow> js_value + js_value list" where
  "us_sample rnd obj n guard =
     (case n of
        Some k \<Rightarrow> if guard then Inl (get_index (fresh_array (collection_list obj))
                                       (nat (us_random (rnd 0) (int (length (collection_list obj)) - 1) None)))
                  else Inr (js_slice 0 (max 0 k) (us_shuffle rnd obj))
      | None \<Rightarrow> Inl (get_index (fresh_array (collection_list obj))
                       (nat (us_random (rnd 0) (int (length (collection_list obj)) - 1) None))))"

section \<open>Sorting\<close>

record sort_item =
  si_value :: js_value
  si_index :: nat
  si_criteria :: js_value

text \<open>The comparator of \<open>sortBy\<close>.\<close>

definition sort_cmp :: "(js_value \<Rightarrow> js_value \<Rightarrow> bool) \<Rightarrow> sort_item \<Rightarrow> sort_item \<Rightarrow> int" where
  "sort_cmp lt left right =
     (let a = si_criteria left; b = si_criteria right in
      if \<not> strict_eq a b \<and> (lt b a \<or> a = Undefined) then 1
      else if \<not> strict_eq a b \<and> (lt a b \<or> b = Undefined) then -1
      else int (si_index left) - int (si_index right))"

text \<open>\<open>Array.prototype.sort\<close> with a comparator: a sort by insertion.\<close>

fun insert_cmp :: "('a \<Rightarrow> 'a \<Rightarrow> int) \<Rightarrow> 'a \<Rightarrow> 'a list \<Rightarrow> 'a list" where
  "insert_cmp cmp x [] = [x]"
| "insert_cmp cmp x (y # ys) = (if cmp x y < 0 then x # y # ys else y # insert_cmp cmp x ys)"

definition sort_with :: "('a \<Rightarrow> 'a \<Rightarrow> int) \<Rightarrow> 'a list \<Rightarrow> 'a list" where
  "sort_with cmp xs = foldl (\<lambda>ys x. insert_cmp cmp x ys) [] xs"

definition sort_items :: "(js_value \<Rightarrow> js_string) \<Rightarrow> js_value \<Rightarrow> iteratee \<Rightarrow> sort_item list" where
  "sort_items to_key obj it =
     map (\<lambda>(i, (v, k)). \<lparr>si_value = v, si_index = i, si_criteria = us_cb to_key it v k obj\<rparr>)
       (enumerate 0 (visits obj))"

definition us_sort_by ::
  "(js_value \<Rightarrow> js_value \<Rightarrow> bool) \<Rightarrow> (js_value \<Rightarrow> js_string) \<Rightarrow> js_value \<Rightarrow> iteratee \<Rightarrow> js_value list" where
  "us_sort_by lt to_key obj it = map si_value (sort_with (sort_cmp lt) (sort_items to_key obj it))"

section \<open>Grouping\<close>

text \<open>
  \<open>group\<close>: the object the behaviour builds, call by call, as its list of properties. What a
  callback returns is turned into a property name.
\<close>

definition us_group ::
  "((js_string \<times> 'r) list \<Rightarrow> js_value \<Rightarrow> js_string \<Rightarrow> (js_string \<times> 'r) list) \<Rightarrow>
   (js_value \<Rightarrow> js_string) \<Rightarrow> js_value \<Rightarrow> iteratee \<Rightarrow> (js_string \<times> 'r) list" where
  "us_group behavior to_key obj it =
     foldl (\<lambda>result (v, k, l). behavior result v (to_key (us_cb to_key it v k l))) [] (fst (us_each obj))"

definition us_group_by :: "(js_value \<Rightarrow> js_string) \<Rightarrow> js_value \<Rightarrow> iteratee \<Rightarrow> (js_string \<times> js_value list) list" where
  "us_group_by = us_group (\<lambda>result value key. case map_of result key of
     Some vs \<Rightarrow> AList.update key (vs @ [value]) result | None \<Rightarrow> AList.update key [value] result)"

definition us_index_by :: "(js_value \<Rightarrow> js_string) \<Rightarrow> js_value \<Rightarrow> iteratee \<Rightarrow> (js_string \<times> js_value) list" where
  "us_index_by = us_group (\<lambda>result value key. AList.update key value result)"

definition us_count_by :: "(js_value \<Rightarrow> js_string) \<Rightarrow> js_value \<Rightarrow> iteratee \<Rightarrow> (js_string \<times> nat) list" where
  "us_count_by = us_group (\<lambda>result value key. case map_of result key of
     Some n \<Rightarrow> AList.update key (n + 1) result | None \<Rightarrow> AList.update key 1 result)"

definition us_to_array :: "js_value \<Rightarrow> js_value list" where
  "us_to_array obj =
     (if \<not> truthy obj then [] else if us_is_array obj then elems obj
      else if is_array_like obj then map (\<lambda>(v, k). us_identity v) (visits obj) else us_values obj)"

definition us_size :: "js_value \<Rightarrow> js_value" where
  "us_size obj =
     (if nullish obj then jint 0
      else if is_array_like obj then get_length obj else jint (int (length (us_keys obj))))"

definition us_partition :: "(js_value \<Rightarrow> js_string) \<Rightarrow> js_value \<Rightarrow> iteratee \<Rightarrow> js_value list \<times> js_value list" where
  "us_partition to_key obj it =
     foldl (\<lambda>(pass, fail) (v, k, l). if truthy (us_cb to_key it v k l) then (pass @ [v], fail)
                                   else (pass, fail @ [v])) ([], []) (fst (us_each obj))"

section \<open>Properties of shuffling\<close>

lemma us_random_bounds:
  assumes "0 \<le> x" "x < 1"
  shows "nat (us_random x 0 (Some (int i))) \<le> i"
proof -
  have "x * of_int (int i + 1) < of_int (int i + 1)" using assms by simp
  then have "\<lfloor>x * of_int (int i + 1)\<rfloor> < int i + 1" by (simp only: floor_less_iff)
  then show ?thesis by (simp add: us_random_def)
qed

lemma shuffle_step_mset:
  assumes "0 \<le> rnd k" "rnd k < 1" and k: "k < length xs" and len: "length sh = length xs"
    and inv: "mset (take k sh) = mset (take k xs)"
  shows "length (shuffle_step rnd xs sh k) = length xs"
    "mset (take (Suc k) (shuffle_step rnd xs sh k)) = mset (take (Suc k) xs)"
proof -
  define r where "r = nat (us_random (rnd k) 0 (Some (int k)))"
  have r: "r \<le> k" unfolding r_def using assms by (intro us_random_bounds) auto
  show "length (shuffle_step rnd xs sh k) = length xs" by (simp add: shuffle_step_def Let_def len)
  have xs: "take (Suc k) xs = take k xs @ [xs ! k]" using k by (rule take_Suc_conv_app_nth)
  show "mset (take (Suc k) (shuffle_step rnd xs sh k)) = mset (take (Suc k) xs)"
  proof (cases "r = k")
    case True
    have "take (Suc k) (sh[k := xs ! k]) = take k sh @ [xs ! k]"
      using k len by (simp add: take_Suc_conv_app_nth)
    then show ?thesis using True inv xs by (simp add: shuffle_step_def r_def [symmetric] Let_def)
  next
    case False
    with r have rk: "r < k" by simp
    have "take k (sh[k := sh ! r, r := xs ! k]) = (take k sh)[r := xs ! k]"
      using k len rk by (simp add: list_eq_iff_nth_eq nth_list_update)
    then have "take (Suc k) (sh[k := sh ! r, r := xs ! k]) = (take k sh)[r := xs ! k] @ [sh ! r]"
      using k len rk by (simp add: take_Suc_conv_app_nth)
    then have "mset (take (Suc k) (shuffle_step rnd xs sh k))
        = add_mset (sh ! r) (mset ((take k sh)[r := xs ! k]))"
      using False by (simp add: shuffle_step_def r_def [symmetric] Let_def)
    also have "mset ((take k sh)[r := xs ! k]) = add_mset (xs ! k) (mset (take k sh) - {#sh ! r#})"
      using rk k len by (subst mset_update) auto
    also have "add_mset (sh ! r) (add_mset (xs ! k) (mset (take k sh) - {#sh ! r#}))
        = add_mset (xs ! k) (mset (take k sh))"
    proof -
      have "sh ! r \<in> set (take k sh)" using rk k len by (auto simp: in_set_conv_nth intro!: exI [of _ r])
      then show ?thesis by simp
    qed
    finally show ?thesis using inv xs by simp
  qed
qed

text \<open>
  Whatever numbers in \<open>[0, 1)\<close> are drawn, a shuffle holds the elements of the collection, each as often.
\<close>

theorem shuffle_permutes:
  assumes rnd: "\<And>i. 0 \<le> rnd i \<and> rnd i < 1"
  shows "mset (us_shuffle rnd obj) = mset (collection_list obj)"
proof -
  let ?xs = "collection_list obj"
  have "length (foldl (shuffle_step rnd ?xs) (replicate (length ?xs) Undefined) [0..<k]) = length ?xs
      \<and> mset (take k (foldl (shuffle_step rnd ?xs) (replicate (length ?xs) Undefined) [0..<k]))
        = mset (take k ?xs)" if "k \<le> length ?xs" for k
    using that
  proof (induction k)
    case (Suc k)
    then show ?case
      using shuffle_step_mset [of rnd k ?xs "foldl (shuffle_step rnd ?xs) (replicate (length ?xs) Undefined) [0..<k]"]
        rnd by simp
  qed simp
  moreover have "us_shuffle rnd obj = foldl (shuffle_step rnd ?xs) (replicate (length ?xs) Undefined) [0..<length ?xs]"
    by (simp add: us_shuffle_def Let_def)
  ultimately show ?thesis by (metis order_refl take_all)
qed

lemma shuffle_permutes_witness:
  "mset (us_shuffle (\<lambda>_. 1 / 2) (JArr 0 [jint 1, jint 2, jint 3])) = {#jint 1, jint 2, jint 3#}"
  by (subst shuffle_permutes) (simp_all add: collection_list_def is_array_like_def get_length_def
      us_property_def nullish_def array_get_length jint_def max_array_index_def elems_array [unfolded jint_def])

section \<open>Properties of sorting\<close>

lemma insert_cmp_mset [simp]: "mset (insert_cmp cmp x ys) = add_mset x (mset ys)"
  by (induction ys) auto

lemma sort_with_mset [simp]: "mset (sort_with cmp xs) = mset xs"
proof -
  have "mset (foldl (\<lambda>ys x. insert_cmp cmp x ys) acc xs) = mset acc + mset xs" for acc
    by (induction xs arbitrary: acc) auto
  then show ?thesis by (simp add: sort_with_def)
qed

lemma set_insert_cmp [simp]: "set (insert_cmp cmp x ys) = insert x (set ys)"
  by (metis insert_cmp_mset set_mset_add_mset_insert set_mset_mset)

lemma set_sort_with [simp]: "set (sort_with cmp xs) = set xs"
  by (metis set_mset_mset sort_with_mset)

lemma insert_cmp_sorted:
  fixes cmp :: "'a \<Rightarrow> 'a \<Rightarrow> int"
  assumes trans: "\<And>a b c. a \<in> S \<Longrightarrow> b \<in> S \<Longrightarrow> c \<in> S \<Longrightarrow> cmp a b < 0 \<Longrightarrow> cmp b c < 0 \<Longrightarrow> cmp a c < 0"
    and x: "x \<in> S"
  shows "sorted_wrt (\<lambda>a b. cmp a b < 0) ys \<Longrightarrow> set ys \<subseteq> S \<Longrightarrow>
    list_all (\<lambda>y. cmp x y < 0 \<or> cmp y x < 0) ys \<Longrightarrow> sorted_wrt (\<lambda>a b. cmp a b < 0) (insert_cmp cmp x ys)"
proof (induction ys)
  case (Cons y ys)
  have z: "z \<in> S" if "z \<in> set ys" for z using that Cons.prems(2) by auto
  have y: "y \<in> S" using Cons.prems(2) by simp
  show ?case
  proof (cases "cmp x y < 0")
    case True
    have "cmp x z < 0" if "z \<in> set ys" for z
      using trans [OF x y z [OF that] True] Cons.prems(1) that by simp
    with True Cons.prems(1) show ?thesis by simp
  next
    case False
    then show ?thesis using Cons.prems Cons.IH by simp
  qed
qed simp

lemma sort_with_sorted:
  fixes cmp :: "'a \<Rightarrow> 'a \<Rightarrow> int"
  assumes total: "\<And>a b. a \<in> S \<Longrightarrow> b \<in> S \<Longrightarrow> a \<noteq> b \<Longrightarrow> cmp a b < 0 \<or> cmp b a < 0"
    and trans: "\<And>a b c. a \<in> S \<Longrightarrow> b \<in> S \<Longrightarrow> c \<in> S \<Longrightarrow> cmp a b < 0 \<Longrightarrow> cmp b c < 0 \<Longrightarrow> cmp a c < 0"
  shows "distinct xs \<Longrightarrow> set xs \<subseteq> S \<Longrightarrow> sorted_wrt (\<lambda>a b. cmp a b < 0) (sort_with cmp xs)"
proof (induction xs rule: rev_induct)
  case (snoc x xs)
  have x: "x \<in> S" using snoc.prems(2) by simp
  have "list_all (\<lambda>y. cmp x y < 0 \<or> cmp y x < 0) (sort_with cmp xs)"
    unfolding list_all_iff
  proof
    fix y assume "y \<in> set (sort_with cmp xs)"
    then show "cmp x y < 0 \<or> cmp y x < 0" using total [OF x, of y] snoc.prems by auto
  qed
  moreover have "sorted_wrt (\<lambda>a b. cmp a b < 0) (sort_with cmp xs)" using snoc by simp
  ultimately have "sorted_wrt (\<lambda>a b. cmp a b < 0) (insert_cmp cmp x (sort_with cmp xs))"
    using snoc.prems(2) by (intro insert_cmp_sorted [OF trans x]) auto
  then show ?case by (simp add: sort_with_def)
qed (simp add: sort_with_def)

text \<open>The order \<open>sortBy\<close> puts criteria in: that of \<open><\<close>, with \<open>undefined\<close> after everything.\<close>

definition crit_less :: "(js_value \<Rightarrow> js_value \<Rightarrow> bool) \<Rightarrow> js_value \<Rightarrow> js_value \<Rightarrow> bool" where
  "crit_less lt a b = (a \<noteq> Undefined \<and> (lt a b \<or> b = Undefined))"

text \<open>What the language's comparison promises on the criteria of a sort.\<close>

definition sort_order_on :: "(js_value \<Rightarrow> js_value \<Rightarrow> bool) \<Rightarrow> js_value set \<Rightarrow> bool" where
  "sort_order_on lt S =
     (weak_order_on lt (S - {Undefined}) \<and> (\<forall>a. \<not> lt a Undefined \<and> \<not> lt Undefined a)
      \<and> (\<forall>a b. strict_eq a b \<longrightarrow> \<not> lt a b))"

lemma crit_less_weak: "sort_order_on lt S \<Longrightarrow> weak_order_on (crit_less lt) S"
  unfolding sort_order_on_def weak_order_on_def crit_less_def by (intro conjI ballI impI) blast+

lemma sort_cmp_less:
  assumes ord: "sort_order_on lt S" and S: "si_criteria l \<in> S" "si_criteria r \<in> S"
  shows "sort_cmp lt l r < 0 \<longleftrightarrow> crit_less lt (si_criteria l) (si_criteria r)
    \<or> \<not> crit_less lt (si_criteria r) (si_criteria l) \<and> si_index l < si_index r"
proof -
  have "\<not> lt a Undefined" "\<not> lt Undefined a" "strict_eq a b \<Longrightarrow> \<not> lt a b" for a b
    using ord unfolding sort_order_on_def by blast+
  moreover have "crit_less lt (si_criteria l) (si_criteria r) \<Longrightarrow> \<not> crit_less lt (si_criteria r) (si_criteria l)"
    using weak_order_onD(1) [OF crit_less_weak [OF ord]] S by blast
  moreover have "strict_eq a b \<Longrightarrow> strict_eq b a" for a b by (simp add: strict_eq_sym)
  moreover have "strict_eq Undefined b \<longleftrightarrow> b = Undefined" "strict_eq b Undefined \<longleftrightarrow> b = Undefined" for b
    by (cases b; simp)+
  ultimately show ?thesis unfolding sort_cmp_def Let_def crit_less_def by auto
qed

lemma lex_trans:
  fixes i j k :: nat
  assumes "ac \<Longrightarrow> ab \<or> bc" "ab \<Longrightarrow> ac \<or> cb" "bc \<Longrightarrow> ba \<or> ac"
    "cb \<Longrightarrow> ca \<or> ab" "ca \<Longrightarrow> cb \<or> ba" "ca \<Longrightarrow> \<not> ac" "ab \<Longrightarrow> \<not> ba" "bc \<Longrightarrow> \<not> cb"
    and "ab \<or> \<not> ba \<and> i < j" "bc \<or> \<not> cb \<and> j < k"
  shows "ac \<or> \<not> ca \<and> i < k"
  using assms by (meson order_less_trans)

lemma sort_items_facts:
  shows "map si_value (sort_items to_key obj it) = map fst (visits obj)"
    and "map si_index (sort_items to_key obj it) = [0..<length (visits obj)]"
proof -
  have "map si_value (sort_items to_key obj it) = map (fst \<circ> snd) (enumerate 0 (visits obj))"
    by (simp add: sort_items_def split_def comp_def)
  also have "\<dots> = map fst (map snd (enumerate 0 (visits obj)))" by (simp only: map_map)
  finally show "map si_value (sort_items to_key obj it) = map fst (visits obj)" by (simp only: map_snd_enumerate)
  have "map si_index (sort_items to_key obj it) = map fst (enumerate 0 (visits obj))"
    by (simp add: sort_items_def split_def comp_def del: map_fst_enumerate)
  then show "map si_index (sort_items to_key obj it) = [0..<length (visits obj)]" by simp
qed

lemma sort_items_sorted:
  assumes ord: "sort_order_on lt S" and S: "si_criteria ` set (sort_items to_key obj it) \<subseteq> S"
  defines "items \<equiv> sort_items to_key obj it"
  shows "sorted_wrt (\<lambda>l r. sort_cmp lt l r < 0) (sort_with (sort_cmp lt) items)"
proof (rule sort_with_sorted [where S = "set items"])
  show "set items \<subseteq> set items" ..
  have dist: "distinct (map si_index items)" by (simp add: items_def sort_items_facts)
  then show "distinct items" by (simp add: distinct_map)
  note less = sort_cmp_less [OF ord]
  note weak = weak_order_onD [OF crit_less_weak [OF ord]]
  have crit: "si_criteria a \<in> S" if "a \<in> set items" for a using S that by (auto simp: items_def)
  show "sort_cmp lt a b < 0 \<or> sort_cmp lt b a < 0" if "a \<in> set items" "b \<in> set items" "a \<noteq> b" for a b
  proof -
    have "si_index a \<noteq> si_index b" using dist that by (auto simp: distinct_map dest: inj_onD)
    then show ?thesis using less crit that by (auto simp: neq_iff)
  qed
  show "sort_cmp lt a c < 0"
    if "a \<in> set items" "b \<in> set items" "c \<in> set items" "sort_cmp lt a b < 0" "sort_cmp lt b c < 0" for a b c
  proof -
    note sub = crit [OF that(1)] crit [OF that(2)] crit [OF that(3)]
    let ?L = "\<lambda>l r. crit_less lt (si_criteria l) (si_criteria r)"
    have "?L a c \<or> \<not> ?L c a \<and> si_index a < si_index c"
    proof (rule lex_trans [where j = "si_index b"])
      show "?L a c \<Longrightarrow> ?L a b \<or> ?L b c" "?L a b \<Longrightarrow> ?L a c \<or> ?L c b" "?L b c \<Longrightarrow> ?L b a \<or> ?L a c"
        "?L c b \<Longrightarrow> ?L c a \<or> ?L a b" "?L c a \<Longrightarrow> ?L c b \<or> ?L b a"
        using weak(2) sub by blast+
      show "?L c a \<Longrightarrow> \<not> ?L a c" "?L a b \<Longrightarrow> \<not> ?L b a" "?L b c \<Longrightarrow> \<not> ?L c b"
        using weak(1) sub by blast+
    qed (use that(4,5) less [OF sub(1,2)] less [OF sub(2,3)] in blast)+
    then show ?thesis using less [OF sub(1,3)] by blast
  qed
qed


lemma sort_items_stable:
  assumes ord: "sort_order_on lt S" and S: "si_criteria ` set (sort_items to_key obj it) \<subseteq> S"
    and P: "\<And>l r. P l \<Longrightarrow> P r \<Longrightarrow> \<not> crit_less lt (si_criteria l) (si_criteria r)"
  shows "filter P (sort_with (sort_cmp lt) (sort_items to_key obj it)) = filter P (sort_items to_key obj it)"
proof (rule map_sorted_distinct_set_unique [where f = si_index])
  let ?items = "sort_items to_key obj it" and ?out = "sort_with (sort_cmp lt) (sort_items to_key obj it)"
  have dist: "distinct (map si_index ?items)" by (simp add: sort_items_facts)
  then have inj: "inj_on si_index (set ?items)" by (simp add: distinct_map)
  have distinct_out: "distinct ?out"
    using dist by (metis distinct_map mset_eq_imp_distinct_iff sort_with_mset)
  show "inj_on si_index (set (filter P ?out) \<union> set (filter P ?items))"
    using inj by (auto intro: inj_on_subset)
  show "distinct (map si_index (filter P ?out))"
    using distinct_out inj by (auto simp: distinct_map intro: inj_on_subset)
  show "distinct (map si_index (filter P ?items))"
    using dist by (auto simp: distinct_map intro: inj_on_subset)
  show "set (filter P ?out) = set (filter P ?items)" by simp
  have "sorted (map si_index ?items)" by (simp add: sort_items_facts)
  then show "sorted (map si_index (filter P ?items))" by (rule sorted_filter)
  have "sorted_wrt (\<lambda>l r. sort_cmp lt l r < 0) (filter P ?out)"
    using sort_items_sorted [OF ord S] by (rule sorted_wrt_filter)
  then have "sorted_wrt (\<lambda>l r. si_index l \<le> si_index r) (filter P ?out)"
  proof (rule sorted_wrt_mono_rel [rotated])
    fix l r assume l: "l \<in> set (filter P ?out)" and r: "r \<in> set (filter P ?out)" and less: "sort_cmp lt l r < 0"
    have "si_criteria l \<in> S" "si_criteria r \<in> S" "P l" "P r" using l r S by auto
    then show "si_index l \<le> si_index r" using less P sort_cmp_less [OF ord, of l r] by auto
  qed
  then show "sorted (map si_index (filter P ?out))" by (simp add: sorted_wrt_map)
qed

lemma visits_array [simp]: "map fst (visits (JArr a xs)) = xs"
proof -
  have "map fst (visits (JArr a xs)) = map (get_index (JArr a xs)) [0..<length xs]"
    by (simp add: visits_def comp_def us_keys_def flip: get_index_def get_prop.simps)
  then show ?thesis using elems_array [of a xs] unfolding elems_def loop_length_array by simp
qed

text \<open>
  C20. \<open>sortBy\<close> is a stable sort: the result holds the same elements, no criterion comes before
  a smaller one, \<open>undefined\<close> criteria come last, and elements whose criteria the order does not
  separate keep their order.
\<close>

theorem sort_by_stable:
  fixes to_key :: "js_value \<Rightarrow> js_string"
  assumes ord: "sort_order_on lt S" and crit: "f ` set xs \<subseteq> S"
    and c: "c \<in> S" and ys: "ys = us_sort_by lt to_key (JArr a xs) (FunIteratee (\<lambda>v _ _. f v))"
  shows "mset ys = mset xs \<and> sorted_wrt (\<lambda>x y. \<not> crit_less lt (f y) (f x)) ys
    \<and> filter (\<lambda>x. \<not> crit_less lt (f x) c \<and> \<not> crit_less lt c (f x)) ys
      = filter (\<lambda>x. \<not> crit_less lt (f x) c \<and> \<not> crit_less lt c (f x)) xs"
proof (intro conjI)
  let ?items = "sort_items to_key (JArr a xs) (FunIteratee (\<lambda>v _ _. f v))"
  let ?out = "sort_with (sort_cmp lt) ?items"
  have vals: "map si_value ?items = xs" by (simp add: sort_items_facts)
  have fc: "si_criteria l = f (si_value l)" if "l \<in> set ?items" for l
    using that by (auto simp: sort_items_def us_cb_def)
  have "si_value l \<in> set (map si_value ?items)" if "l \<in> set ?items" for l using that by simp
  then have S: "si_criteria ` set ?items \<subseteq> S" unfolding vals using fc crit by (auto simp: image_subset_iff)
  have out: "ys = map si_value ?out" by (simp add: ys us_sort_by_def)
  have "mset (map si_value ?out) = mset (map si_value ?items)" by (simp only: mset_map sort_with_mset)
  then show "mset ys = mset xs" using out vals by simp
  have "sorted_wrt (\<lambda>l r. \<not> crit_less lt (f (si_value r)) (f (si_value l))) ?out"
    using sort_items_sorted [OF ord S]
  proof (rule sorted_wrt_mono_rel [rotated])
    fix l r assume "l \<in> set ?out" "r \<in> set ?out" and less: "sort_cmp lt l r < 0"
    then have "l \<in> set ?items" "r \<in> set ?items" by simp_all
    then have sub: "f (si_value l) \<in> S" "f (si_value r) \<in> S"
      and eq: "si_criteria l = f (si_value l)" "si_criteria r = f (si_value r)"
      using S fc [of l] fc [of r] by (auto simp: image_subset_iff)
    show "\<not> crit_less lt (f (si_value r)) (f (si_value l))"
      using less sort_cmp_less [OF ord, of l r] weak_order_onD(1) [OF crit_less_weak [OF ord] sub] sub
      unfolding eq by blast
  qed
  then show "sorted_wrt (\<lambda>x y. \<not> crit_less lt (f y) (f x)) ys" by (simp add: out sorted_wrt_map)
  let ?P = "\<lambda>x. \<not> crit_less lt (f x) c \<and> \<not> crit_less lt c (f x)"
  let ?Q = "\<lambda>l. l \<in> set ?items \<and> ?P (si_value l)"
  have "filter ?Q ?out = filter ?Q ?items"
  proof (rule sort_items_stable [OF ord S])
    fix l r assume "?Q l" "?Q r"
    then show "\<not> crit_less lt (si_criteria l) (si_criteria r)"
      using weak_order_onD(2) [OF crit_less_weak [OF ord], of "si_criteria l" c "si_criteria r"] fc S c by auto
  qed
  moreover have "filter ?Q ?out = filter (?P \<circ> si_value) ?out" by (rule filter_cong) auto
  moreover have "filter ?Q ?items = filter (?P \<circ> si_value) ?items" by (rule filter_cong) auto
  ultimately have "map si_value (filter (?P \<circ> si_value) ?out) = map si_value (filter (?P \<circ> si_value) ?items)"
    by simp
  then show "filter ?P ys = filter ?P xs" using out vals by (metis filter_map)
qed

lemma sort_by_stable_witness:
  "mset (us_sort_by value_less (\<lambda>_. []) (JArr 0 [jint 30, jint 10, jint 20]) (FunIteratee (\<lambda>v _ _. v)))
   = {#jint 30, jint 10, jint 20#}"
proof -
  let ?S = "{JNum (Fin r) |r. True}"
  have "\<not> value_less a Undefined \<and> \<not> value_less Undefined a" for a by (cases a) auto
  moreover have "\<not> value_less a b" if "strict_eq a b" for a b
    using that by (cases "(a, b)" rule: value_less.cases; auto elim!: num_eq.elims)
  moreover have "?S - {Undefined} = ?S" by auto
  ultimately have ord: "sort_order_on value_less ?S"
    using value_less_weak_order by (auto simp: sort_order_on_def)
  show ?thesis
    using sort_by_stable [OF ord _ _ refl, where f = "\<lambda>v. v" and xs = "[jint 30, jint 10, jint 20]"
        and a = 0 and c = "jint 5" and to_key = "\<lambda>_. []"]
    by (auto simp: jint_def add_mset_commute)
qed

section \<open>Properties of grouping\<close>

lemma group_fold:
  assumes step: "\<And>result v key. map_of (behavior result v key) =
      (map_of result)(key \<mapsto> (case map_of result key of Some r \<Rightarrow> upd r v | None \<Rightarrow> start v))"
  shows "map_of (foldl (\<lambda>result (v, k, l). behavior result v (key_of v k l)) [] calls) key =
    (case filter (\<lambda>(v, k, l). key_of v k l = key) calls of
       [] \<Rightarrow> None | (v, _) # rest \<Rightarrow> Some (foldl (\<lambda>r (v, _). upd r v) (start v) rest))"
  by (induction calls rule: rev_induct) (auto simp: step split: list.splits prod.splits)

text \<open>The values a group is made of, in order.\<close>

definition group_values :: "(js_value \<Rightarrow> js_string) \<Rightarrow> js_value \<Rightarrow> iteratee \<Rightarrow> js_string \<Rightarrow> js_value list" where
  "group_values to_key obj it key =
     map fst (filter (\<lambda>(v, k). to_key (us_cb to_key it v k obj) = key) (visits obj))"

lemma group_calls:
  "map fst (filter (\<lambda>(v, k, l). to_key (us_cb to_key it v k l) = key) (fst (us_each obj))) =
   group_values to_key obj it key"
  by (simp add: us_each_def group_values_def filter_map comp_def split_def)

lemma group_lookup:
  assumes step: "\<And>result v key. map_of (behavior result v key) =
      (map_of result)(key \<mapsto> (case map_of result key of Some r \<Rightarrow> upd r v | None \<Rightarrow> start v))"
  shows "map_of (us_group behavior to_key obj it) key =
    (case group_values to_key obj it key of [] \<Rightarrow> None | v # vs \<Rightarrow> Some (foldl upd (start v) vs))"
proof -
  have "foldl (\<lambda>r (v, _). upd r v) s xs = foldl upd s (map fst xs)" for s :: 'a and xs :: "(js_value \<times> js_value \<times> js_value) list"
    by (induction xs arbitrary: s) auto
  then show ?thesis
    unfolding us_group_def group_fold [where behavior = behavior, OF step] group_calls [symmetric]
    by (auto split: list.splits)
qed

text \<open>
  Grouping loses nothing and invents nothing: under each key \<open>groupBy\<close> has exactly the
  values with that key, in their order, \<open>countBy\<close> has their number, and \<open>indexBy\<close> the last of
  them; a key no value has is in none of the three.
\<close>

theorem grouping_agrees:
  "map_of (us_group_by to_key obj it) key =
     (let vs = group_values to_key obj it key in if vs = [] then None else Some vs)
   \<and> map_of (us_count_by to_key obj it) key = map_option length (map_of (us_group_by to_key obj it) key)
   \<and> map_of (us_index_by to_key obj it) key = map_option last (map_of (us_group_by to_key obj it) key)"
proof -
  have app: "foldl (\<lambda>r v. r @ [v]) s vs = s @ vs" for s vs :: "js_value list"
    by (induction vs arbitrary: s) auto
  have cnt: "foldl (\<lambda>n v. n + 1) s vs = s + length vs" for s :: nat and vs :: "js_value list"
    by (induction vs arbitrary: s) auto
  have lst: "foldl (\<lambda>r v. v) s vs = last (s # vs)" for s and vs :: "js_value list"
    by (induction vs arbitrary: s) auto
  have grouped: "map_of (us_group_by to_key obj it) key =
      (case group_values to_key obj it key of [] \<Rightarrow> None | v # vs \<Rightarrow> Some (v # vs))"
    unfolding us_group_by_def
    by (subst group_lookup [where upd = "\<lambda>r v. r @ [v]" and start = "\<lambda>v. [v]"])
      (auto simp: update_conv' app split: option.splits list.splits)
  have count: "map_of (us_count_by to_key obj it) key =
      (case group_values to_key obj it key of [] \<Rightarrow> None | v # vs \<Rightarrow> Some (length (v # vs)))"
    unfolding us_count_by_def
    by (subst group_lookup [where upd = "\<lambda>n v. n + 1" and start = "\<lambda>v. 1"])
      (auto simp: update_conv' cnt [simplified] split: option.splits list.splits)
  have index: "map_of (us_index_by to_key obj it) key =
      (case group_values to_key obj it key of [] \<Rightarrow> None | v # vs \<Rightarrow> Some (last (v # vs)))"
    unfolding us_index_by_def
    by (subst group_lookup [where upd = "\<lambda>r v. v" and start = "\<lambda>v. v"])
      (auto simp: update_conv' lst split: option.splits list.splits)
  show ?thesis unfolding grouped count index by (simp add: Let_def split: list.splits)
qed

end
