(* ===== verification/UsArrays.thy ===== *)
theory UsArrays
  imports UsCollections "HOL-Library.Sublist"
begin

text \<open>
  The array functions of Underscore 1.8.3 (\<open>wordcut.js\<close>, module 25). \<open>None\<close> is the TypeError of
  reading a property of \<open>null\<close> or \<open>undefined\<close>; \<open>arguments\<close> is the list of the arguments. The
  theory shows that \<open>uniq\<close> keeps one element per class, that its two algorithms agree on sorted
  arrays, that \<open>union\<close>, \<open>intersection\<close> and \<open>difference\<close> are the set operations, that \<open>unzip\<close> is
  its own inverse, and what \<open>range\<close> lists.
\<close>

section \<open>Ends of an array\<close>

definition us_initial :: "js_value \<Rightarrow> int option \<Rightarrow> bool \<Rightarrow> js_value list option" where
  "us_initial array n guard =
     (if nullish array then None
      else let len = int (loop_length array);
               k = (case n of Some k \<Rightarrow> if guard then 1 else k | None \<Rightarrow> 1)
           in Some (js_slice 0 (max 0 (len - k)) (elems array)))"

definition us_rest :: "js_value \<Rightarrow> int option \<Rightarrow> bool \<Rightarrow> js_value list option" where
  "us_rest array n guard =
     (if nullish array then None
      else let k = (case n of Some k \<Rightarrow> if guard then 1 else k | None \<Rightarrow> 1)
           in Some (js_slice k (int (loop_length array)) (elems array)))"

text \<open>Without a number \<open>first\<close> and \<open>last\<close> give an element, with one a list.\<close>

definition us_first :: "js_value \<Rightarrow> int option \<Rightarrow> bool \<Rightarrow> (js_value + js_value list) option" where
  "us_first array n guard =
     (if nullish array then Some (Inl Undefined)
      else case n of
          Some k \<Rightarrow> if guard then Some (Inl (get_index array 0))
                    else map_option Inr (us_initial array (Some (int (loop_length array) - k)) False)
        | None \<Rightarrow> Some (Inl (get_index array 0)))"

definition last_element :: "js_value \<Rightarrow> js_value" where
  "last_element array = (if loop_length array = 0 then Undefined else get_index array (loop_length array - 1))"

definition us_last :: "js_value \<Rightarrow> int option \<Rightarrow> bool \<Rightarrow> (js_value + js_value list) option" where
  "us_last array n guard =
     (if nullish array then Some (Inl Undefined)
      else case n of
          Some k \<Rightarrow> if guard then Some (Inl (last_element array))
                    else map_option Inr (us_rest array (Some (max 0 (int (loop_length array) - k))) False)
        | None \<Rightarrow> Some (Inl (last_element array)))"

definition us_compact :: "js_value \<Rightarrow> js_value list" where
  "us_compact array = us_filter_by (\<lambda>v _ _. truthy (us_identity v)) array"

section \<open>Flattening\<close>

text \<open>
  The loop of \<open>flatten\<close> over the elements from \<open>startIndex\<close> on; what it writes at \<open>output[idx++]\<close>
  is the next element of the result.
\<close>

fun flatten_loop :: "bool \<Rightarrow> bool \<Rightarrow> js_value list \<Rightarrow> js_value list" where
  "flatten_loop shallow strict [] = []"
| "flatten_loop shallow strict (JArr a ws # vs) =
     (if is_array_like (JArr a ws)
      then (if shallow then ws else flatten_loop shallow strict ws) @ flatten_loop shallow strict vs
      else (if strict then [] else [JArr a ws]) @ flatten_loop shallow strict vs)"
| "flatten_loop shallow strict (v # vs) = (if strict then [] else [v]) @ flatten_loop shallow strict vs"

definition js_flatten_from :: "js_value \<Rightarrow> bool \<Rightarrow> bool \<Rightarrow> nat \<Rightarrow> js_value list" where
  "js_flatten_from input shallow strict start = flatten_loop shallow strict (drop start (elems input))"

definition us_flatten :: "js_value \<Rightarrow> bool \<Rightarrow> js_value list" where
  "us_flatten array shallow = js_flatten_from array shallow False 0"

section \<open>Sets\<close>

text \<open>\<open>difference\<close> of an array and the further arguments.\<close>

definition us_difference :: "js_value \<Rightarrow> js_value list \<Rightarrow> js_value list" where
  "us_difference array others =
     (let rest = js_flatten_from (fresh_array (array # others)) True True 1
      in us_filter_by (\<lambda>v _ _. \<not> us_contains (fresh_array rest) v None False) array)"

definition us_without :: "js_value \<Rightarrow> js_value list \<Rightarrow> js_value list" where
  "us_without array values = us_difference array [fresh_array values]"

text \<open>
  One turn of the loop of \<open>uniq\<close>, on the result and on what was seen: for a sorted array the
  criterion of the element before, otherwise the criteria met so far.
\<close>

definition uniq_step ::
  "bool \<Rightarrow> callback option \<Rightarrow> js_value \<Rightarrow> js_value list \<times> js_value list \<Rightarrow> nat \<Rightarrow> js_value list \<times> js_value list" where
  "uniq_step is_sorted f array st i =
     (case st of (result, seen) \<Rightarrow>
        let value = get_index array i;
            computed = (case f of Some g \<Rightarrow> g value (jint (int i)) array | None \<Rightarrow> value)
        in if is_sorted
           then (if i = 0 \<or> \<not> strict_eq (hd seen) computed then result @ [value] else result, [computed])
           else if f \<noteq> None
           then (if \<not> us_contains (fresh_array seen) computed None False
                 then (result @ [value], seen @ [computed]) else (result, seen))
           else (if \<not> us_contains (fresh_array result) value None False then result @ [value] else result, seen))"

definition us_uniq :: "js_value \<Rightarrow> bool \<Rightarrow> callback option \<Rightarrow> js_value list" where
  "us_uniq array is_sorted f = fst (foldl (uniq_step is_sorted f array) ([], []) [0..<loop_length array])"

definition us_union :: "js_value list \<Rightarrow> js_value list" where
  "us_union args = us_uniq (fresh_array (js_flatten_from (fresh_array args) True True 0)) False None"

definition us_intersection :: "js_value \<Rightarrow> js_value list \<Rightarrow> js_value list" where
  "us_intersection array others =
     foldl (\<lambda>result item.
         if us_contains (fresh_array result) item None False then result
         else if list_all (\<lambda>arg. us_contains arg item None False) others then result @ [item] else result)
       [] (elems array)"

section \<open>Zipping\<close>

definition us_unzip :: "js_value \<Rightarrow> js_value list list" where
  "us_unzip array =
     (if \<not> truthy array then []
      else map (\<lambda>index. us_pluck (index_key index) array)
             [0..<loop_length (us_max value_less (\<lambda>_. []) array (FunIteratee (\<lambda>v _ _. get_length v)))])"

definition us_zip :: "js_value list \<Rightarrow> js_value list list" where
  "us_zip args = us_unzip (fresh_array args)"

text \<open>\<open>object\<close>: from parallel lists, or from a list of pairs.\<close>

definition us_object ::
  "(js_value \<Rightarrow> js_string) \<Rightarrow> js_value \<Rightarrow> js_value \<Rightarrow> (js_string \<times> js_value) list option" where
  "us_object to_key list values =
     foldl (\<lambda>result i. case result of
         None \<Rightarrow> None
       | Some ps \<Rightarrow>
           if truthy values then Some (put_prop (to_key (get_index list i)) (get_index values i) ps)
           else if nullish (get_index list i) then None
           else Some (put_prop (to_key (get_index (get_index list i) 0)) (get_index (get_index list i) 1) ps))
       (Some []) [0..<loop_length list]"

section \<open>Ranges\<close>

fun range_loop :: "int \<Rightarrow> int \<Rightarrow> nat \<Rightarrow> int list" where
  "range_loop start step 0 = []"
| "range_loop start step (Suc n) = start # range_loop (start + step) step n"

text \<open>\<open>None\<close> is the RangeError of \<open>Array(NaN)\<close> when only the start is left out.\<close>

definition us_range :: "int option \<Rightarrow> int option \<Rightarrow> int option \<Rightarrow> int list option" where
  "us_range start stop step =
     (let st = (case step of Some s \<Rightarrow> if s = 0 then 1 else s | None \<Rightarrow> 1);
          go = (\<lambda>lo hi. Some (range_loop lo st (nat (max \<lceil>(of_int (hi - lo) :: rat) / of_int st\<rceil> 0))))
      in case (start, stop) of
           (Some lo, Some hi) \<Rightarrow> go lo hi
         | (Some hi, None) \<Rightarrow> go 0 hi
         | (None, None) \<Rightarrow> go 0 0
         | (None, Some _) \<Rightarrow> None)"

section \<open>Same value\<close>

text \<open>What \<open>contains\<close> compares by: strict equality, with \<open>NaN\<close> the same as itself.\<close>

definition same :: "js_value \<Rightarrow> js_value \<Rightarrow> bool" where
  "same x y = (strict_eq x y \<or> is_nan x \<and> is_nan y)"

lemma same_refl [simp]: "same x x"
  by (simp add: same_def strict_eq_refl)

lemma same_sym: "same x y \<Longrightarrow> same y x"
  by (auto simp: same_def strict_eq_sym)

lemma strict_eq_not_nan: "strict_eq x y \<Longrightarrow> \<not> is_nan x"
  by (cases y) (auto simp: is_nan_def)

lemma same_trans: "same x y \<Longrightarrow> same y z \<Longrightarrow> same x z"
  unfolding same_def by (meson strict_eq_not_nan strict_eq_sym strict_eq_trans)

lemma find_index_nan:
  "0 \<le> predicate_index True (\<lambda>v _ _. is_nan v) (JArr a xs) \<longleftrightarrow> list_ex is_nan xs"
proof -
  let ?f = "find (\<lambda>i. is_nan (get_index (JArr a xs) i)) [0..<length xs]"
  have "?f = None \<longleftrightarrow> \<not> list_ex is_nan xs"
    by (simp add: find_None_iff list_ex_iff) (metis in_set_conv_nth)
  then show ?thesis by (cases ?f) (auto simp: predicate_index_def Let_def)
qed

lemma js_slice_all [simp]: "js_slice 0 (int (length xs)) xs = xs"
  by (simp add: js_slice_def slice_index_def)

lemma us_values_array [simp]: "us_values (JArr a xs) = xs"
proof -
  have "us_values (JArr a xs) = map (get_index (JArr a xs)) [0..<length xs]"
    by (simp add: us_values_def us_keys_def comp_def flip: get_index_def get_prop.simps)
  then show ?thesis using elems_array [of a xs] unfolding elems_def loop_length_array by simp
qed

lemma us_contains_array [simp]:
  "us_contains (JArr a xs) item None False = list_ex (\<lambda>x. same x item) xs"
proof -
  have "0 \<le> us_index_of (\<lambda>_ _. False) (JArr b xs) item (NumIndex 0) \<longleftrightarrow> list_ex (\<lambda>x. same x item) xs" for b
  proof (cases "is_nan item")
    case True
    then have "list_ex (\<lambda>x. same x item) xs = list_ex is_nan xs"
      by (auto simp: same_def list_ex_iff dest: strict_eq_not_nan [OF strict_eq_sym [THEN iffD1]])
    with True show ?thesis by (auto simp: us_index_of_def index_finder_def Let_def find_index_nan)
  next
    case False
    have "us_index_of (\<lambda>_ _. False) (JArr b xs) item (NumIndex 0) = us_index_of (\<lambda>_ _. False) (JArr b xs) item NoIndex"
      by (simp add: us_index_of_def index_finder_def)
    moreover have "list_ex (\<lambda>x. same x item) xs \<longleftrightarrow> (\<exists>i < length xs. strict_eq (xs ! i) item)"
      using False by (simp add: same_def list_ex_iff) (metis in_set_conv_nth)
    ultimately show ?thesis using index_of_scan [OF False, of "\<lambda>_ _. False" b xs] by auto
  qed
  then show ?thesis by (simp add: us_contains_def Let_def fresh_array_def)
qed

lemma us_contains_fresh [simp]:
  "us_contains (fresh_array xs) item None False = list_ex (\<lambda>x. same x item) xs"
  by (simp add: fresh_array_def)

lemma us_filter_by_array: "us_filter_by (\<lambda>v _ _. p v) (JArr a xs) = filter p xs"
proof -
  have "foldl (\<lambda>results (v, k, l). if p v then results @ [v] else results) acc
      (map (\<lambda>(v, k). (v, k, obj)) vs) = acc @ filter p (map fst vs)"
    for acc vs and obj :: js_value by (induction vs arbitrary: acc) auto
  from this [of "[]" "JArr a xs" "visits (JArr a xs)"] show ?thesis by (simp add: us_filter_by_def us_each_def)
qed

section \<open>Properties of \<open>uniq\<close>\<close>

text \<open>The elements no earlier element is related to.\<close>

definition firsts :: "('a \<Rightarrow> 'a \<Rightarrow> bool) \<Rightarrow> 'a list \<Rightarrow> 'a list" where
  "firsts R xs = map (nth xs) (filter (\<lambda>i. list_all (\<lambda>j. \<not> R (xs ! j) (xs ! i)) [0..<i]) [0..<length xs])"

lemma first_of_class:
  assumes trans: "\<And>x y z. R x y \<Longrightarrow> R y z \<Longrightarrow> R x z"
  shows "(\<exists>j < k. R (xs ! j) y \<and> (\<forall>i < j. \<not> R (xs ! i) (xs ! j))) \<longleftrightarrow> (\<exists>j < k. R (xs ! j) y)"
proof
  assume "\<exists>j < k. R (xs ! j) y"
  then obtain j where "j < k \<and> R (xs ! j) y" and least: "\<And>i. i < j \<Longrightarrow> \<not> (i < k \<and> R (xs ! i) y)"
    using exists_least_iff [of "\<lambda>j. j < k \<and> R (xs ! j) y"] by blast
  then show "\<exists>j < k. R (xs ! j) y \<and> (\<forall>i < j. \<not> R (xs ! i) (xs ! j))"
    using trans by (meson order.strict_trans)
qed blast

definition uniq_kept :: "('a \<Rightarrow> 'a \<Rightarrow> bool) \<Rightarrow> 'a list \<Rightarrow> nat \<Rightarrow> 'a list" where
  "uniq_kept R xs k = map (nth xs) (filter (\<lambda>i. list_all (\<lambda>j. \<not> R (xs ! j) (xs ! i)) [0..<i]) [0..<k])"

lemma uniq_kept_steps:
  "uniq_kept R xs 0 = []"
  "uniq_kept R xs (Suc k) = uniq_kept R xs k
     @ (if list_all (\<lambda>j. \<not> R (xs ! j) (xs ! k)) [0..<k] then [xs ! k] else [])"
  "firsts R xs = uniq_kept R xs (length xs)"
  by (simp_all add: uniq_kept_def firsts_def)

lemma uniq_kept_related:
  assumes "\<And>x y z. R x y \<Longrightarrow> R y z \<Longrightarrow> R x z"
  shows "list_ex (\<lambda>x. R x y) (uniq_kept R xs k) \<longleftrightarrow> \<not> list_all (\<lambda>j. \<not> R (xs ! j) y) [0..<k]"
proof -
  have "list_ex (\<lambda>x. R x y) (uniq_kept R xs k) \<longleftrightarrow> (\<exists>j < k. R (xs ! j) y \<and> (\<forall>i < j. \<not> R (xs ! i) (xs ! j)))"
    by (auto simp: uniq_kept_def list_ex_iff list_all_iff)
  also have "\<dots> \<longleftrightarrow> (\<exists>j < k. R (xs ! j) y)" using assms by (rule first_of_class)
  finally show ?thesis by (auto simp: list_all_iff)
qed

lemma uniq_firsts:
  "us_uniq (JArr a xs) False (Some (\<lambda>v _ _. g v)) = firsts (\<lambda>x y. same (g x) (g y)) xs
   \<and> us_uniq (JArr a xs) False None = firsts same xs"
proof (intro conjI)
  let ?R = "\<lambda>x y. same (g x) (g y)"
  have R: "\<And>x y z. ?R x y \<Longrightarrow> ?R y z \<Longrightarrow> ?R x z" by (rule same_trans)
  have "foldl (uniq_step False (Some (\<lambda>v _ _. g v)) (JArr a xs)) ([], []) [0..<k]
      = (uniq_kept ?R xs k, map g (uniq_kept ?R xs k))" if "k \<le> length xs" for k
    using that
  proof (induction k)
    case (Suc k)
    have "list_ex (\<lambda>x. same x (g (xs ! k))) (map g (uniq_kept ?R xs k))
        \<longleftrightarrow> list_ex (\<lambda>x. ?R x (xs ! k)) (uniq_kept ?R xs k)" by (simp add: list_ex_iff)
    with Suc show ?case
      by (simp add: uniq_step_def Let_def uniq_kept_related [where R = ?R, OF R] uniq_kept_steps(2) del: upt_Suc
        add: upt_Suc_append)
  qed (simp add: uniq_kept_steps)
  then show "us_uniq (JArr a xs) False (Some (\<lambda>v _ _. g v)) = firsts ?R xs"
    by (simp add: us_uniq_def uniq_kept_steps(3))
  have "foldl (uniq_step False None (JArr a xs)) ([], []) [0..<k] = (uniq_kept same xs k, [])"
    if "k \<le> length xs" for k
    using that
  proof (induction k)
    case (Suc k)
    then show ?case
      by (simp add: uniq_step_def Let_def uniq_kept_related [where R = same, OF same_trans] uniq_kept_steps(2)
        del: upt_Suc add: upt_Suc_append)
  qed (simp add: uniq_kept_steps)
  then show "us_uniq (JArr a xs) False None = firsts same xs"
    by (simp add: us_uniq_def uniq_kept_steps(3))
qed


lemma uniq_plain: "us_uniq (JArr a xs) False None = uniq_kept same xs (length xs)"
  by (simp only: uniq_firsts uniq_kept_steps(3))

lemma uniq_sorted_steps:
  assumes "k \<le> length xs"
  shows "foldl (uniq_step True (Some (\<lambda>v _ _. g v)) (JArr a xs)) ([], []) [0..<k] =
    (map (nth xs) (filter (\<lambda>i. i = 0 \<or> \<not> strict_eq (g (xs ! (i - 1))) (g (xs ! i))) [0..<k]),
     if k = 0 then [] else [g (xs ! (k - 1))])"
  using assms by (induction k) (simp_all add: uniq_step_def Let_def)

text \<open>
  On an array sorted by the criterion the faster algorithm of \<open>uniq\<close> gives the same result
  as the general one, the elements in order that are the first of their class; criteria the
  order does not separate are the strictly equal ones.
\<close>

theorem uniq_sorted_agrees:
  assumes ord: "weak_order_on lt S" and crit: "g ` set xs \<subseteq> S" and srt: "sorted_by lt g xs"
    and total: "\<forall>x \<in> S. \<forall>y \<in> S. strict_eq x y \<longleftrightarrow> \<not> lt x y \<and> \<not> lt y x"
  shows "us_uniq (JArr a xs) True (Some (\<lambda>v _ _. g v)) = us_uniq (JArr a xs) False (Some (\<lambda>v _ _. g v))
    \<and> us_uniq (JArr a xs) False (Some (\<lambda>v _ _. g v)) = firsts (\<lambda>x y. same (g x) (g y)) xs"
proof -
  have S: "g (xs ! i) \<in> S" if "i < length xs" for i using crit that by (auto simp: image_subset_iff)
  have same: "same x y \<longleftrightarrow> strict_eq x y" if "x \<in> S" "y \<in> S" for x y
  proof -
    have "strict_eq x x" using total weak_order_onD(1) [OF ord that(1) that(1)] that(1) by blast
    then show ?thesis by (auto simp: same_def dest: strict_eq_not_nan)
  qed
  have sorted: "\<not> lt (g (xs ! j)) (g (xs ! i))" if "i < j" "j < length xs" for i j
    using srt that by (auto simp: sorted_by_def sorted_wrt_iff_nth_less)
  have "(i = 0 \<or> \<not> strict_eq (g (xs ! (i - 1))) (g (xs ! i))) \<longleftrightarrow>
      list_all (\<lambda>j. \<not> same (g (xs ! j)) (g (xs ! i))) [0..<i]" if i: "i < length xs" for i
  proof
    assume first: "i = 0 \<or> \<not> strict_eq (g (xs ! (i - 1))) (g (xs ! i))"
    show "list_all (\<lambda>j. \<not> same (g (xs ! j)) (g (xs ! i))) [0..<i]"
      unfolding list_all_iff
    proof
      fix j assume "j \<in> set [0..<i]"
      then have j: "j < i" by simp
      then have i1: "i - 1 < length xs" "j < length xs" "i - 1 < i" "j = i - 1 \<or> j < i - 1" using i by auto
      have less: "lt (g (xs ! (i - 1))) (g (xs ! i))"
        using first j total S [OF i] S [OF i1(1)] sorted [OF i1(3) i] by auto
      have "\<not> strict_eq (g (xs ! j)) (g (xs ! i))"
      proof
        assume e: "strict_eq (g (xs ! j)) (g (xs ! i))"
        then have inc: "\<not> lt (g (xs ! j)) (g (xs ! i))" using total S [OF i] S [OF i1(2)] by blast
        then have "lt (g (xs ! (i - 1))) (g (xs ! j))"
          using weak_order_onD(2) [OF ord S [OF i1(1)] S [OF i1(2)] S [OF i] less] by blast
        then show False using sorted [of j "i - 1"] i1 inc less by auto
      qed
      then show "\<not> same (g (xs ! j)) (g (xs ! i))" using same S i i1(2) by blast
    qed
  next
    assume "list_all (\<lambda>j. \<not> same (g (xs ! j)) (g (xs ! i))) [0..<i]"
    then show "i = 0 \<or> \<not> strict_eq (g (xs ! (i - 1))) (g (xs ! i))"
      using same [OF S [of "i - 1"] S [OF i]] i by (cases i) (auto simp: list_all_iff)
  qed
  then have "filter (\<lambda>i. i = 0 \<or> \<not> strict_eq (g (xs ! (i - 1))) (g (xs ! i))) [0..<length xs] =
      filter (\<lambda>i. list_all (\<lambda>j. \<not> same (g (xs ! j)) (g (xs ! i))) [0..<i]) [0..<length xs]"
    by (intro filter_cong) auto
  then have "us_uniq (JArr a xs) True (Some (\<lambda>v _ _. g v)) = firsts (\<lambda>x y. same (g x) (g y)) xs"
    by (simp add: us_uniq_def uniq_sorted_steps firsts_def)
  then show ?thesis by (simp only: uniq_firsts)
qed

lemma uniq_sorted_agrees_witness:
  "us_uniq (JArr 0 [jint 1, jint 1, jint 2]) True (Some (\<lambda>v _ _. v)) =
   us_uniq (JArr 0 [jint 1, jint 1, jint 2]) False (Some (\<lambda>v _ _. v))"
  by (rule uniq_sorted_agrees [where g = "\<lambda>v. v", OF value_less_weak_order, THEN conjunct1])
    (auto simp: sorted_by_def jint_def)

section \<open>Properties of the set operations\<close>

lemma elems_flatten:
  assumes "list_all (\<lambda>v. us_is_array v \<and> is_array_like v) args"
  shows "flatten_loop True True args = concat (map elems args)"
  using assms
proof (induction args)
  case (Cons v args)
  then show ?case by (cases v) auto
qed simp

lemma same_right: "same x y \<Longrightarrow> same z x = same z y"
  by (meson same_sym same_trans)

lemma kept_contains:
  "list_ex (\<lambda>x. same x v) (uniq_kept same xs (length xs)) = list_ex (\<lambda>x. same x v) xs"
proof -
  have "list_ex (\<lambda>x. same x v) (uniq_kept same xs (length xs)) \<longleftrightarrow> \<not> list_all (\<lambda>j. \<not> same (xs ! j) v) [0..<length xs]"
    by (rule uniq_kept_related [where R = same]) (erule (1) same_trans)
  also have "\<dots> \<longleftrightarrow> list_ex (\<lambda>x. same x v) (map (nth xs) [0..<length xs])"
    by (simp add: list_all_iff list_ex_iff)
  finally show ?thesis by (simp only: map_nth)
qed

lemma filter_contains:
  assumes "\<And>w. same w v \<Longrightarrow> P w = P v"
  shows "list_ex (\<lambda>x. same x v) (filter P xs) = (list_ex (\<lambda>x. same x v) xs \<and> P v)"
proof (induction xs)
  case (Cons x xs)
  then show ?case using assms [of x] by (cases "P x"; cases "same x v"; simp)
qed simp

lemma contains_array: "us_is_array v \<Longrightarrow> us_contains v item None False = list_ex (\<lambda>x. same x item) (elems v)"
  by (cases v) auto

lemma intersection_fold:
  assumes others: "list_all us_is_array others"
  shows "list_ex (\<lambda>x. same x v) (foldl (\<lambda>result item.
         if us_contains (fresh_array result) item None False then result
         else if list_all (\<lambda>arg. us_contains arg item None False) others then result @ [item] else result) acc xs)
    \<longleftrightarrow> list_ex (\<lambda>x. same x v) acc
      \<or> list_ex (\<lambda>x. same x v) xs \<and> list_all (\<lambda>arg. us_contains arg v None False) others"
proof (induction xs arbitrary: acc)
  case (Cons x xs)
  have others_same: "list_all (\<lambda>arg. us_contains arg x None False) others
      \<longleftrightarrow> list_all (\<lambda>arg. us_contains arg v None False) others" if "same x v"
    using others that by (auto simp: list_all_iff contains_array same_right [OF that])
  have acc_same: "list_ex (\<lambda>y. same y x) acc \<longleftrightarrow> list_ex (\<lambda>y. same y v) acc" if "same x v"
    by (simp add: same_right [OF that])
  show ?case unfolding foldl_Cons Cons.IH using others_same acc_same by auto
qed simp

text \<open>
  \<open>union\<close>, \<open>intersection\<close> and \<open>difference\<close> are the set operations on arrays: what each
  result contains is what the operation on the arguments says.
\<close>

theorem set_operations:
  assumes args: "list_all (\<lambda>v. us_is_array v \<and> is_array_like v) (array # others)"
  shows "us_contains (fresh_array (us_union (array # others))) v None False
      = list_ex (\<lambda>arg. us_contains arg v None False) (array # others)
    \<and> us_contains (fresh_array (us_intersection array others)) v None False
      = list_all (\<lambda>arg. us_contains arg v None False) (array # others)
    \<and> us_contains (fresh_array (us_difference array others)) v None False
      = (us_contains array v None False \<and> \<not> list_ex (\<lambda>arg. us_contains arg v None False) others)"
proof (intro conjI)
  have arr: "list_all us_is_array (array # others)" using args by (auto simp: list_all_iff)
  have flat: "list_ex (\<lambda>x. same x w) (concat (map elems as)) = list_ex (\<lambda>arg. us_contains arg w None False) as"
    if "list_all us_is_array as" for as w
    using that by (induction as) (auto simp: contains_array list_ex_iff)
  have "us_union (array # others) = us_uniq (fresh_array (concat (map elems (array # others)))) False None"
    using elems_flatten [OF args] by (simp add: us_union_def js_flatten_from_def fresh_array_def)
  then show "us_contains (fresh_array (us_union (array # others))) v None False
      = list_ex (\<lambda>arg. us_contains arg v None False) (array # others)"
    using flat [OF arr, of v] kept_contains [of v "concat (map elems (array # others))"]
    by (simp only: fresh_array_def uniq_plain us_contains_array)
  have "list_all us_is_array others" using arr by simp
  from intersection_fold [OF this, of v "[]" "elems array"] show "us_contains (fresh_array (us_intersection array others)) v None False
      = list_all (\<lambda>arg. us_contains arg v None False) (array # others)"
    using arr by (simp add: us_intersection_def contains_array [of array])
  obtain a xs where array: "array = JArr a xs" using arr by (cases array) auto
  have rest: "js_flatten_from (fresh_array (array # others)) True True 1 = concat (map elems others)"
    using elems_flatten [of others] args by (simp add: js_flatten_from_def fresh_array_def)
  let ?in = "\<lambda>w. list_ex (\<lambda>arg. us_contains arg w None False) others"
  have diff: "us_difference array others = filter (\<lambda>w. \<not> ?in w) xs"
    unfolding us_difference_def rest Let_def unfolding array us_filter_by_array us_contains_fresh
    using flat [of others] arr by simp
  have "?in w = ?in v" if "same w v" for w
  proof -
    have "us_contains arg w None False = us_contains arg v None False" if "arg \<in> set others" for arg
      using arr that by (simp add: list_all_iff contains_array same_right [OF \<open>same w v\<close>])
    then show ?thesis unfolding list_ex_iff by blast
  qed
  then have "list_ex (\<lambda>x. same x v) (filter (\<lambda>w. \<not> ?in w) xs) \<longleftrightarrow> list_ex (\<lambda>x. same x v) xs \<and> \<not> ?in v"
    by (intro filter_contains [where P = "\<lambda>w. \<not> ?in w"]) (simp only:)
  then show "us_contains (fresh_array (us_difference array others)) v None False
      = (us_contains array v None False \<and> \<not> ?in v)"
    unfolding diff us_contains_fresh unfolding array us_contains_array .
qed

lemma set_operations_witness:
  "us_contains (fresh_array (us_difference (JArr 1 [jint 1, jint 2]) [JArr 2 [jint 2]])) (jint 2) None False = False"
proof -
  have "list_all (\<lambda>v. us_is_array v \<and> is_array_like v) [JArr 1 [jint 1, jint 2], JArr 2 [jint 2]]"
    by (simp add: is_array_like_def get_length_def us_property_def nullish_def array_get_length jint_def
      max_array_index_def)
  from set_operations [OF this, of "jint 2"] show ?thesis by (simp add: same_refl)
qed

section \<open>Properties of zipping\<close>

lemma max_of_equal:
  assumes "list_all (\<lambda>v. get_length v = jint n) vs" and "vs \<noteq> []"
  shows "us_max value_less to_key (JArr a vs) (FunIteratee (\<lambda>v _ _. get_length v)) = hd vs"
proof -
  let ?step = "\<lambda>(result, last_computed) (v, k, l :: js_value).
    let computed = get_length v in
    if value_less last_computed computed
       \<or> strict_eq computed (JNum NegInf) \<and> strict_eq result (JNum NegInf)
    then (v, computed) else (result, last_computed)"
  have stay: "foldl ?step (r, jint n) (map (\<lambda>(v, k). (v, k, obj)) ps) = (r, jint n)"
    if "list_all (\<lambda>v. get_length v = jint n) (map fst ps)" for r obj and ps :: "(js_value \<times> js_value) list"
    using that by (induction ps) (auto simp: jint_def)
  obtain p ps where ps: "visits (JArr a vs) = p # ps" "fst p = hd vs" "map fst ps = tl vs"
    using visits_array [of a vs] assms(2) by (cases "visits (JArr a vs)") (auto simp del: visits_array)
  have first: "get_length (fst p) = jint n" and rest: "list_all (\<lambda>v. get_length v = jint n) (map fst ps)"
    using assms ps by (cases vs; simp)+
  have "foldl ?step (JNum NegInf, JNum NegInf) (map (\<lambda>(v, k). (v, k, JArr a vs)) (p # ps))
      = foldl ?step (fst p, jint n) (map (\<lambda>(v, k). (v, k, JArr a vs)) ps)"
    using first by (cases p) (simp add: jint_def)
  also have "\<dots> = (hd vs, jint n)" using stay [OF rest] ps(2) by simp
  finally show ?thesis
    by (simp add: us_max_def us_extreme_def no_iteratee_def us_cb_def us_each_def ps(1))
qed

lemma unzip_rectangle:
  assumes "rows \<noteq> []" "list_all (\<lambda>r. length r = n) rows"
  shows "us_unzip (fresh_array (map fresh_array rows)) = map (\<lambda>i. map (\<lambda>r. r ! i) rows) [0..<n]"
proof -
  let ?vs = "map fresh_array rows"
  have len: "get_length (fresh_array r) = jint (int (length r))" for r
    by (simp add: fresh_array_def get_length_def us_property_def nullish_def)
  have "list_all (\<lambda>v. get_length v = jint (int n)) ?vs" using assms(2) len by (auto simp: list_all_iff)
  then have max: "us_max value_less to_key (JArr 0 ?vs) (FunIteratee (\<lambda>v _ _. get_length v)) = hd ?vs" for to_key
    using assms(1) by (intro max_of_equal) auto
  have hd: "loop_length (hd ?vs) = n" using assms by (cases rows) (auto simp: fresh_array_def)
  have pluck: "us_pluck (index_key i) (JArr 0 ?vs) = map (\<lambda>r. r ! i) rows" if "i < n" for i
  proof -
    have "us_pluck (index_key i) (JArr 0 ?vs) = map (us_property (index_key i)) (map fst (visits (JArr 0 ?vs)))"
      by (simp only: us_pluck_def map_map comp_def split_def)
    then show ?thesis using assms(2) that
      by (auto simp: us_property_def fresh_array_def nullish_def list_all_iff)
  qed
  have "us_unzip (fresh_array ?vs) = map (\<lambda>i. us_pluck (index_key i) (JArr 0 ?vs)) [0..<n]"
    by (simp only: us_unzip_def fresh_array_def [of ?vs] max hd truthy.simps simp_thms if_False)
  with pluck show ?thesis by simp
qed

text \<open>
  Zipping equally long arrays is transposition, and undone by zipping again.
\<close>

theorem unzip_unzip:
  assumes "rows \<noteq> []" "0 < n" "list_all (\<lambda>r. length r = n) rows"
  shows "us_unzip (fresh_array (map fresh_array (us_zip (map fresh_array rows)))) = rows"
proof -
  let ?cols = "map (\<lambda>i. map (\<lambda>r. r ! i) rows) [0..<n]"
  have zip: "us_zip (map fresh_array rows) = ?cols"
    using unzip_rectangle [OF assms(1,3)] by (simp add: us_zip_def)
  have "us_unzip (fresh_array (map fresh_array ?cols)) = map (\<lambda>j. map (\<lambda>c. c ! j) ?cols) [0..<length rows]"
    using assms by (intro unzip_rectangle) (auto simp: list_all_iff)
  also have "\<dots> = map (nth rows) [0..<length rows]"
    using assms(3) by (intro map_cong) (auto simp: list_all_iff intro!: nth_equalityI)
  also have "\<dots> = rows" by (rule map_nth)
  finally show ?thesis unfolding zip .
qed

lemma unzip_unzip_witness:
  "us_unzip (fresh_array (map fresh_array (us_zip (map fresh_array [[jint 1, jint 2], [jint 3, jint 4]]))))
   = [[jint 1, jint 2], [jint 3, jint 4]]"
  by (rule unzip_unzip [where n = 2]) simp_all

section \<open>Properties of ranges\<close>

lemma range_loop_nth: "range_loop start step n = map (\<lambda>k. start + int k * step) [0..<n]"
proof (induction n arbitrary: start)
  case (Suc n)
  have "[0..<Suc n] = 0 # map Suc [0..<n]" by (simp add: upt_conv_Cons map_Suc_upt del: upt_Suc)
  then show ?case using Suc by (simp add: algebra_simps del: upt_Suc)
qed simp

lemma range_count:
  fixes d st :: int
  assumes "st \<noteq> 0"
  shows "k < nat (max \<lceil>(of_int d :: rat) / of_int st\<rceil> 0) \<longleftrightarrow> (if 0 < st then int k * st < d else d < int k * st)"
proof -
  have "k < nat (max \<lceil>(of_int d :: rat) / of_int st\<rceil> 0) \<longleftrightarrow> int k < \<lceil>(of_int d :: rat) / of_int st\<rceil>"
    by auto
  also have "\<dots> \<longleftrightarrow> (of_int (int k) :: rat) < of_int d / of_int st" by (simp only: less_ceiling_iff)
  also have "\<dots> \<longleftrightarrow> (if 0 < st then int k * st < d else d < int k * st)"
  proof (cases "0 < st")
    case True
    then have "(of_int (int k) :: rat) < of_int d / of_int st \<longleftrightarrow> (of_int (int k) * of_int st :: rat) < of_int d"
      by (simp add: pos_less_divide_eq)
    also have "\<dots> \<longleftrightarrow> int k * st < d" by (metis of_int_less_iff of_int_mult)
    finally show ?thesis using True by simp
  next
    case False
    with assms have neg: "(of_int st :: rat) < 0" by simp
    then have "(of_int (int k) :: rat) < of_int d / of_int st \<longleftrightarrow> (of_int d :: rat) < of_int (int k) * of_int st"
      by (simp add: neg_less_divide_eq)
    also have "\<dots> \<longleftrightarrow> d < int k * st" by (metis of_int_less_iff of_int_mult)
    finally show ?thesis using False by simp
  qed
  finally show ?thesis .
qed

text \<open>
  \<open>range(start, stop, step)\<close> lists, from the start on, exactly the multiples of a step that
  is not zero that lie before the stop.
\<close>

theorem range_lists_steps:
  assumes "st \<noteq> 0"
  shows "\<exists>n. us_range (Some lo) (Some hi) (Some st) = Some (map (\<lambda>k. lo + int k * st) [0..<n])
    \<and> (\<forall>k. k < n \<longleftrightarrow> (if 0 < st then lo + int k * st < hi else hi < lo + int k * st))"
proof -
  let ?n = "nat (max \<lceil>(of_int (hi - lo) :: rat) / of_int st\<rceil> 0)"
  have "k < ?n \<longleftrightarrow> (if 0 < st then lo + int k * st < hi else hi < lo + int k * st)" for k
    using range_count [OF assms, of k "hi - lo"] by auto
  moreover have "us_range (Some lo) (Some hi) (Some st) = Some (map (\<lambda>k. lo + int k * st) [0..<?n])"
    using assms by (simp add: us_range_def range_loop_nth Let_def)
  ultimately show ?thesis by blast
qed

lemma range_lists_steps_witness:
  "\<exists>n. us_range (Some 10) (Some 0) (Some (-3)) = Some (map (\<lambda>k. 10 + int k * (-3)) [0..<n])"
  using range_lists_steps [of "-3" 10 0] by auto

end
