(* ===== verification/UsObjects.thy ===== *)
theory UsObjects
  imports UsArrays
begin

text \<open>
  The object functions of Underscore 1.8.3 (\<open>wordcut.js\<close>, module 25). An object built by a function
  is its list of properties. Inherited properties are left out, so \<open>allKeys\<close> lists what \<open>keys\<close>
  does. The theory shows that \<open>isEqual\<close> decides equality of structure, an equivalence relation,
  that \<open>pick\<close> and \<open>omit\<close> split an object, and what \<open>extend\<close> and \<open>defaults\<close> leave.
\<close>

type_synonym js_props = "(js_string \<times> js_value) list"

section \<open>Keys and values\<close>

definition us_all_keys :: "js_value \<Rightarrow> js_string list" where
  "us_all_keys obj = (if \<not> us_is_object obj then [] else own_keys obj)"

definition us_map_object :: "(js_value \<Rightarrow> js_string) \<Rightarrow> js_value \<Rightarrow> iteratee \<Rightarrow> js_props" where
  "us_map_object to_key obj it =
     foldl (\<lambda>results key. put_prop key (us_cb to_key it (get_prop obj key) (JStr key) obj) results) []
       (us_keys obj)"

definition us_pairs :: "js_value \<Rightarrow> js_value list" where
  "us_pairs obj = map (\<lambda>key. fresh_array [JStr key, get_prop obj key]) (us_keys obj)"

definition us_invert :: "(js_value \<Rightarrow> js_string) \<Rightarrow> js_value \<Rightarrow> js_props" where
  "us_invert to_key obj =
     foldl (\<lambda>result key. put_prop (to_key (get_prop obj key)) (JStr key) result) [] (us_keys obj)"

fun us_is_function :: "js_value \<Rightarrow> bool" where
  "us_is_function (JFun _ _) = True" | "us_is_function _ = False"

definition us_functions :: "js_value \<Rightarrow> js_string list" where
  "us_functions obj = sort (filter (\<lambda>key. us_is_function (get_prop obj key)) (own_keys obj))"

section \<open>Assigning\<close>

text \<open>
  \<open>createAssigner\<close> on a target that is an object, given by its properties, and the further
  arguments; \<open>undefined_only\<close> is set for \<open>defaults\<close>.
\<close>

definition assign_from :: "(js_value \<Rightarrow> js_string list) \<Rightarrow> bool \<Rightarrow> js_props \<Rightarrow> js_value \<Rightarrow> js_props" where
  "assign_from keys_func undefined_only obj source =
     foldl (\<lambda>ps key. if \<not> undefined_only \<or> get_prop (JObj 0 ps) key = Undefined
                     then put_prop key (get_prop source key) ps else ps)
       obj (keys_func source)"

definition us_assigner :: "(js_value \<Rightarrow> js_string list) \<Rightarrow> bool \<Rightarrow> js_props \<Rightarrow> js_value list \<Rightarrow> js_props" where
  "us_assigner keys_func undefined_only obj sources =
     foldl (assign_from keys_func undefined_only) obj sources"

definition us_extend :: "js_props \<Rightarrow> js_value list \<Rightarrow> js_props" where
  "us_extend = us_assigner us_all_keys False"

definition us_extend_own :: "js_props \<Rightarrow> js_value list \<Rightarrow> js_props" where
  "us_extend_own = us_assigner us_keys False"

definition us_defaults :: "js_props \<Rightarrow> js_value list \<Rightarrow> js_props" where
  "us_defaults = us_assigner us_all_keys True"

section \<open>Picking\<close>

text \<open>What \<open>pick\<close> and \<open>omit\<close> select by: a function, or the further arguments.\<close>

datatype selection = ByFunction "js_value \<Rightarrow> js_value \<Rightarrow> js_value \<Rightarrow> bool" | ByKeys "js_value list"

text \<open>The keys the further arguments name, flattened.\<close>

definition selected_keys :: "(js_value \<Rightarrow> js_string) \<Rightarrow> js_value list \<Rightarrow> js_string list" where
  "selected_keys to_key args = map to_key (flatten_loop False False args)"

definition us_pick :: "(js_value \<Rightarrow> js_string) \<Rightarrow> js_value \<Rightarrow> selection \<Rightarrow> js_props" where
  "us_pick to_key object sel =
     (if nullish object then []
      else case sel of
        ByFunction p \<Rightarrow>
          foldl (\<lambda>result key. if p (get_prop object key) (JStr key) object
                              then put_prop key (get_prop object key) result else result)
            [] (us_all_keys object)
      | ByKeys args \<Rightarrow>
          foldl (\<lambda>result key. if has_own object key
                              then put_prop key (get_prop object key) result else result)
            [] (selected_keys to_key args))"

definition us_omit :: "(js_value \<Rightarrow> js_string) \<Rightarrow> js_value \<Rightarrow> selection \<Rightarrow> js_props" where
  "us_omit to_key obj sel =
     us_pick to_key obj (ByFunction (case sel of
        ByFunction p \<Rightarrow> us_negate p
      | ByKeys args \<Rightarrow> (\<lambda>value key _.
          \<not> us_contains (fresh_array (map JStr (selected_keys to_key args))) key None False)))"

text \<open>\<open>clone\<close>: the copy has an identity of its own.\<close>

definition us_clone :: "nat \<Rightarrow> js_value \<Rightarrow> js_value" where
  "us_clone fresh obj =
     (if \<not> us_is_object obj then obj
      else if us_is_array obj then JArr fresh (js_slice 0 (int (loop_length obj)) (elems obj))
      else JObj fresh (us_extend [] [obj]))"

fun us_is_empty :: "js_value \<Rightarrow> bool" where
  "us_is_empty (JArr _ xs) = (xs = [])"
| "us_is_empty (JStr s) = (s = [])"
| "us_is_empty v = (nullish v \<or> us_keys v = [])"

section \<open>Equality\<close>

text \<open>The class names \<open>toString\<close> gives.\<close>

datatype js_class = UndefinedClass | NullClass | BooleanClass | NumberClass | StringClass
  | ArrayClass | ObjectClass | FunctionClass

fun class_of :: "js_value \<Rightarrow> js_class" where
  "class_of Undefined = UndefinedClass" | "class_of Null = NullClass"
| "class_of (JBool _) = BooleanClass" | "class_of (JNum _) = NumberClass"
| "class_of (JStr _) = StringClass" | "class_of (JArr _ _) = ArrayClass"
| "class_of (JObj _ _) = ObjectClass" | "class_of (JFun _ _) = FunctionClass"

text \<open>\<open>a !== 0 || 1 / a === 1 / b\<close> for strictly equal values: zeros of unlike sign are told apart.\<close>

fun zeros_agree :: "js_value \<Rightarrow> js_value \<Rightarrow> bool" where
  "zeros_agree (JNum a) (JNum b) = ((a = NegZero) = (b = NegZero))"
| "zeros_agree _ _ = True"

definition constructor_key :: js_string where
  "constructor_key = js ''constructor''"

text \<open>
  The test on the constructors of two objects: the inherited one is the same for all objects, an
  own property of that name counts for it, and no function of the model is an instance of itself.
\<close>

definition constructors_differ :: "js_value \<Rightarrow> js_value \<Rightarrow> bool" where
  "constructors_differ a b =
     (if has_own a constructor_key \<or> has_own b constructor_key
      then \<not> (has_own a constructor_key \<and> has_own b constructor_key
             \<and> strict_eq (get_prop a constructor_key) (get_prop b constructor_key))
      else False)"

text \<open>The search in the stacks of the objects being compared: what \<open>eq\<close> returns on a hit.\<close>

fun stack_hit :: "js_value \<Rightarrow> js_value \<Rightarrow> (js_value \<times> js_value) list \<Rightarrow> bool option" where
  "stack_hit a b [] = None"
| "stack_hit a b ((x, y) # st) = (if strict_eq x a then Some (strict_eq y b) else stack_hit a b st)"

text \<open>
  \<open>eq\<close>, with the two stacks as one list of pairs, the latest first. A comparison that fails ends
  the whole, so what the stacks hold then does not matter.
\<close>

function us_eq :: "js_value \<Rightarrow> js_value \<Rightarrow> (js_value \<times> js_value) list \<Rightarrow> bool" where
  "us_eq a b st =
     (if strict_eq a b then zeros_agree a b
      else if nullish a \<or> nullish b then False
      else if class_of a \<noteq> class_of b then False
      else case a of
          JStr s \<Rightarrow> JStr s = b
        | JNum n \<Rightarrow> is_nan a \<and> is_nan b
        | JBool x \<Rightarrow> JBool x = b
        | JArr i xs \<Rightarrow>
            (case stack_hit a b st of
               Some r \<Rightarrow> r
             | None \<Rightarrow> length xs = length (elems b) \<and>
                 list_all (\<lambda>k. us_eq (xs ! k) (elems b ! k) ((a, b) # st)) (rev [0..<length xs]))
        | JObj i ps \<Rightarrow>
            if constructors_differ a b then False
            else (case stack_hit a b st of
               Some r \<Rightarrow> r
             | None \<Rightarrow> length (us_keys b) = length (map fst ps) \<and>
                 list_all (\<lambda>(key, v). us_has b key \<and> us_eq v (get_prop b key) ((a, b) # st)) (rev ps))
        | _ \<Rightarrow> False)"
  by pat_completeness auto

lemma size_array_element: "k < length xs \<Longrightarrow> size (xs ! k) < size (JArr i xs)"
  by (induction xs arbitrary: k) (auto simp: nth_Cons split: nat.split, fastforce)

lemma size_object_value: "(key, v) \<in> set ps \<Longrightarrow> size v < size (JObj i ps)"
  by (induction ps) (fastforce)+

termination us_eq
  by (relation "measure (\<lambda>(a, _, _). size a)") (auto simp: size_array_element size_object_value
    simp del: js_value.size)

declare us_eq.simps [simp del]

definition us_is_equal :: "js_value \<Rightarrow> js_value \<Rightarrow> bool" where
  "us_is_equal a b = us_eq a b []"

section \<open>Properties of equality\<close>

text \<open>Equality of structure; the order of an object's properties does not count.\<close>

function deep_eq :: "js_value \<Rightarrow> js_value \<Rightarrow> bool" where
  "deep_eq a b =
     (case (a, b) of
        (JArr _ xs, JArr _ ys) \<Rightarrow> length xs = length ys \<and> (\<forall>k < length xs. deep_eq (xs ! k) (ys ! k))
      | (JObj _ ps, JObj _ qs) \<Rightarrow> fst ` set ps = fst ` set qs \<and>
          (\<forall>(key, v) \<in> set ps. deep_eq v (get_prop b key))
      | (JNum m, JNum n) \<Rightarrow> m = n
      | (JFun i _, JFun j _) \<Rightarrow> i = j
      | (JStr s, JStr t) \<Rightarrow> s = t
      | (JBool x, JBool y) \<Rightarrow> x = y
      | (Undefined, Undefined) \<Rightarrow> True
      | (Null, Null) \<Rightarrow> True
      | _ \<Rightarrow> False)"
  by pat_completeness auto
termination
  by (relation "measure (\<lambda>(a, _). size a)") (auto simp: size_array_element size_object_value
    simp del: js_value.size)

declare deep_eq.simps [simp del]

text \<open>All values a value is made of, itself included.\<close>

fun parts :: "js_value \<Rightarrow> js_value set" where
  "parts (JArr i xs) = insert (JArr i xs) (\<Union> (parts ` set xs))"
| "parts (JObj i ps) = insert (JObj i ps) (\<Union> (parts ` snd ` set ps))"
| "parts v = {v}"

lemma parts_self [simp]: "v \<in> parts v"
  by (cases v) auto

text \<open>
  What the engine guarantees of the values of one program: an identity belongs to one object, and
  property names are distinct. Plain objects have no own property called \<open>constructor\<close>.
\<close>

definition coherent :: "js_value set \<Rightarrow> bool" where
  "coherent S =
     ((\<forall>u \<in> S. \<forall>v \<in> S. us_is_object u \<and> strict_eq u v \<longrightarrow> u = v)
      \<and> (\<forall>u \<in> S. \<forall>i ps. u = JObj i ps \<longrightarrow> distinct (map fst ps) \<and> \<not> has_own u constructor_key))"

definition sub_closed :: "js_value set \<Rightarrow> bool" where
  "sub_closed S = (\<forall>u \<in> S. parts u \<subseteq> S)"

lemma sub_closedD:
  "sub_closed S \<Longrightarrow> JArr i xs \<in> S \<Longrightarrow> k < length xs \<Longrightarrow> xs ! k \<in> S"
  "sub_closed S \<Longrightarrow> JObj i ps \<in> S \<Longrightarrow> (key, v) \<in> set ps \<Longrightarrow> v \<in> S"
proof -
  show "xs ! k \<in> S" if "sub_closed S" "JArr i xs \<in> S" "k < length xs"
  proof -
    have "parts (JArr i xs) \<subseteq> S" using that unfolding sub_closed_def by blast
    moreover have "xs ! k \<in> set xs" using that by simp
    then have "xs ! k \<in> parts (JArr i xs)" using parts_self [of "xs ! k"] by force
    ultimately show ?thesis by blast
  qed
  show "v \<in> S" if "sub_closed S" "JObj i ps \<in> S" "(key, v) \<in> set ps"
  proof -
    have "parts (JObj i ps) \<subseteq> S" using that unfolding sub_closed_def by blast
    moreover have "v \<in> parts (JObj i ps)" using parts_self [of v] that by force
    ultimately show ?thesis by blast
  qed
qed

lemma coherentD:
  assumes "coherent S"
  shows "u \<in> S \<Longrightarrow> v \<in> S \<Longrightarrow> us_is_object u \<Longrightarrow> strict_eq u v \<Longrightarrow> u = v"
    "JObj i ps \<in> S \<Longrightarrow> distinct (map fst ps)"
    "JObj i ps \<in> S \<Longrightarrow> \<not> has_own (JObj i ps) constructor_key"
  using assms unfolding coherent_def by blast+

lemma object_get:
  "distinct (map fst ps) \<Longrightarrow> (key, v) \<in> set ps \<Longrightarrow> get_prop (JObj i ps) key = v"
  by simp

lemma deep_eq_refl: "coherent S \<Longrightarrow> sub_closed S \<Longrightarrow> a \<in> S \<Longrightarrow> deep_eq a a"
proof (induction "size a" arbitrary: a rule: less_induct)
  case less
  show ?case
  proof (cases a)
    case (JArr i xs)
    then have "deep_eq (xs ! k) (xs ! k)" if "k < length xs" for k
      using less that size_array_element [OF that, of i] sub_closedD(1) by blast
    with JArr show ?thesis by (subst deep_eq.simps) simp
  next
    case (JObj i ps)
    then have "deep_eq v v" if "(key, v) \<in> set ps" for key v
      using less that size_object_value [OF that, of i] sub_closedD(2) by blast
    moreover have "distinct (map fst ps)" using coherentD(2) less.prems JObj by blast
    ultimately show ?thesis using JObj by (subst deep_eq.simps) auto
  qed (subst deep_eq.simps, simp)+
qed

lemma deep_eq_class: "deep_eq a b \<Longrightarrow> class_of a = class_of b"
  by (subst (asm) deep_eq.simps) (auto split: js_value.splits)

lemma deep_eq_objects:
  "deep_eq (JObj i ps) (JObj j qs) \<longleftrightarrow> fst ` set ps = fst ` set qs \<and>
     (\<forall>(key, v) \<in> set ps. deep_eq v (get_prop (JObj j qs) key))"
  by (subst deep_eq.simps) simp

lemma deep_eq_arrays:
  "deep_eq (JArr i xs) (JArr j ys) \<longleftrightarrow> length xs = length ys \<and> (\<forall>k < length xs. deep_eq (xs ! k) (ys ! k))"
  by (subst deep_eq.simps) simp

lemma deep_eq_sym: "coherent S \<Longrightarrow> sub_closed S \<Longrightarrow> a \<in> S \<Longrightarrow> b \<in> S \<Longrightarrow> deep_eq a b \<Longrightarrow> deep_eq b a"
proof (induction "size a" arbitrary: a b rule: less_induct)
  case less
  show ?case
  proof (cases a)
    case (JArr i xs)
    with less.prems(5) obtain j ys where b: "b = JArr j ys" using deep_eq_class [of a b] by (cases b) auto
    have len: "length xs = length ys" using less.prems(5) JArr b by (simp add: deep_eq_arrays)
    have "deep_eq (ys ! k) (xs ! k)" if "k < length xs" for k
    proof -
      have "xs ! k \<in> S" "ys ! k \<in> S" using less.prems JArr b len that sub_closedD(1) by metis+
      then show ?thesis using less.hyps [of "xs ! k" "ys ! k"] less.prems that size_array_element [OF that, of i] JArr b
        by (simp add: deep_eq_arrays)
    qed
    with less.prems(5) JArr b show ?thesis by (auto simp: deep_eq_arrays)
  next
    case (JObj i ps)
    with less.prems(5) obtain j qs where b: "b = JObj j qs" using deep_eq_class [of a b] by (cases b) auto
    have dist: "distinct (map fst ps)" "distinct (map fst qs)" using coherentD(2) less.prems JObj b by blast+
    have keys: "fst ` set ps = fst ` set qs" using less.prems(5) JObj b by (simp add: deep_eq_objects)
    have "deep_eq w (get_prop a key)" if "(key, w) \<in> set qs" for key w
    proof -
      from that keys have "key \<in> fst ` set ps" by (metis fst_conv imageI)
      then obtain v where v: "(key, v) \<in> set ps" by auto
      have "deep_eq v w" using less.prems(5) v that dist JObj b by (auto simp: deep_eq_objects)
      then have "deep_eq w v"
        using less.hyps [of v w] less.prems size_object_value [OF v, of i] v that JObj b
        by (auto intro: sub_closedD(2))
      then show ?thesis using dist v JObj by simp
    qed
    then show ?thesis using keys JObj b by (auto simp: deep_eq_objects)
  qed (use less.prems(5) in \<open>subst (asm) deep_eq.simps, subst deep_eq.simps, auto split: js_value.splits\<close>)+
qed

lemma deep_eq_trans:
  "coherent S \<Longrightarrow> sub_closed S \<Longrightarrow> a \<in> S \<Longrightarrow> b \<in> S \<Longrightarrow> c \<in> S \<Longrightarrow> deep_eq a b \<Longrightarrow> deep_eq b c \<Longrightarrow> deep_eq a c"
proof (induction "size a" arbitrary: a b c rule: less_induct)
  case less
  have cls: "class_of a = class_of b" "class_of b = class_of c" using less.prems(6,7) deep_eq_class by blast+
  show ?case
  proof (cases a)
    case (JArr i xs)
    with cls obtain j ys k zs where bc: "b = JArr j ys" "c = JArr k zs" by (cases b; cases c) auto
    have len: "length xs = length ys" "length ys = length zs" using less.prems(6,7) JArr bc by (simp_all add: deep_eq_arrays)
    have "deep_eq (xs ! n) (zs ! n)" if "n < length xs" for n
    proof -
      have "xs ! n \<in> S" "ys ! n \<in> S" "zs ! n \<in> S" using less.prems JArr bc len that sub_closedD(1) by metis+
      then show ?thesis
        using less.hyps [of "xs ! n" "ys ! n" "zs ! n"] less.prems that size_array_element [OF that, of i] JArr bc
        by (simp add: deep_eq_arrays)
    qed
    with less.prems(6,7) JArr bc show ?thesis by (auto simp: deep_eq_arrays)
  next
    case (JObj i ps)
    with cls obtain j qs k rs where bc: "b = JObj j qs" "c = JObj k rs" by (cases b; cases c) auto
    have dist: "distinct (map fst ps)" "distinct (map fst qs)" "distinct (map fst rs)"
      using coherentD(2) less.prems JObj bc by blast+
    have keys: "fst ` set ps = fst ` set qs" "fst ` set qs = fst ` set rs"
      using less.prems(6,7) JObj bc by (auto simp: deep_eq_objects)
    have "deep_eq v (get_prop c key)" if v: "(key, v) \<in> set ps" for key v
    proof -
      from v keys have "key \<in> fst ` set qs" "key \<in> fst ` set rs" by (metis fst_conv imageI)+
      then obtain w u where w: "(key, w) \<in> set qs" and u: "(key, u) \<in> set rs" by auto
      have "deep_eq v w" "deep_eq w u" using less.prems(6,7) v w u dist JObj bc by (auto simp: deep_eq_objects)
      then have "deep_eq v u"
        using less.hyps [of v w u] less.prems size_object_value [OF v, of i] v w u JObj bc
        by (auto intro: sub_closedD(2))
      then show ?thesis using dist u bc by simp
    qed
    then show ?thesis using keys JObj bc by (auto simp: deep_eq_objects)
  qed (use less.prems(6,7) cls in \<open>subst (asm) deep_eq.simps, subst (asm) (2) deep_eq.simps, subst deep_eq.simps,
    auto split: js_value.splits\<close>)+
qed

lemma stack_hit_none:
  assumes "coherent S" "a \<in> S" "us_is_object a" "list_all (\<lambda>(x, _). x \<in> S \<and> size a < size x) st"
  shows "stack_hit a b st = None"
  using assms(4)
proof (induction st)
  case (Cons p st)
  obtain x y where p: "p = (x, y)" by (cases p)
  have "\<not> strict_eq x a"
  proof
    assume e: "strict_eq x a"
    then have "us_is_object x" using assms(3) by (cases x; cases a) auto
    then have "x = a" using coherentD(1) [OF assms(1)] e Cons.prems assms(2) p by auto
    then show False using Cons.prems p by simp
  qed
  with Cons p show ?case by simp
qed simp

lemma constructors_agree:
  "coherent S \<Longrightarrow> JObj i ps \<in> S \<Longrightarrow> JObj j qs \<in> S \<Longrightarrow> \<not> constructors_differ (JObj i ps) (JObj j qs)"
  using coherentD(3) by (simp add: constructors_differ_def)

lemma us_eq_strict:
  assumes "coherent S" "sub_closed S" "a \<in> S" "b \<in> S" "strict_eq a b"
  shows "zeros_agree a b = deep_eq a b"
proof (cases "us_is_object a")
  case True
  then have "a = b" using coherentD(1) [OF assms(1)] assms by blast
  moreover have "zeros_agree a b" using True by (cases a) auto
  ultimately show ?thesis using deep_eq_refl [OF assms(1,2,3)] by simp
next
  case False
  show ?thesis
  proof (cases "\<exists>m n. a = JNum m \<and> b = JNum n")
    case True
    then obtain m n where "a = JNum m" "b = JNum n" by blast
    with assms(5) show ?thesis by (subst deep_eq.simps) (cases m; cases n; auto)
  next
    case num: False
    with False assms(5) show ?thesis by (cases a; cases b) (auto simp: deep_eq.simps)
  qed
qed

lemma us_eq_other:
  assumes "\<not> strict_eq a b" "\<not> us_is_object a \<or> \<not> us_is_object b \<or> class_of a \<noteq> class_of b \<or> us_is_function a"
  shows "us_eq a b st = deep_eq a b"
proof (cases "class_of a = class_of b")
  case False
  then have "\<not> deep_eq a b" using deep_eq_class by blast
  moreover have "\<not> us_eq a b st" using assms(1) False by (subst us_eq.simps) simp
  ultimately show ?thesis by simp
next
  case True
  show ?thesis
  proof (cases "\<exists>m n. a = JNum m \<and> b = JNum n")
    case num: True
    then obtain m n where "a = JNum m" "b = JNum n" by blast
    with assms(1) show ?thesis
      by (subst us_eq.simps, subst deep_eq.simps) (cases m; cases n; auto simp: is_nan_def nullish_def)
  next
    case num: False
    with True assms show ?thesis
      by (subst us_eq.simps, subst deep_eq.simps) (cases a; cases b; auto simp: nullish_def)
  qed
qed

lemma same_keys:
  assumes "distinct (map fst ps)" "distinct (map fst qs)"
  shows "length ps = length qs \<and> fst ` set ps \<subseteq> fst ` set qs \<longleftrightarrow> fst ` set ps = fst ` set qs"
proof -
  have card: "card (fst ` set ps) = length ps" "card (fst ` set qs) = length qs"
    using assms by (metis distinct_card length_map list.set_map)+
  then show ?thesis by (metis card_subset_eq finite_imageI finite_set order_refl)
qed

lemma us_eq_deep:
  "coherent S \<Longrightarrow> sub_closed S \<Longrightarrow> a \<in> S \<Longrightarrow> b \<in> S \<Longrightarrow> list_all (\<lambda>(x, _). x \<in> S \<and> size a < size x) st \<Longrightarrow>
   us_eq a b st = deep_eq a b"
proof (induction "size a" arbitrary: a b st rule: less_induct)
  case less
  note S = less.prems(1,2)
  have deeper: "us_eq u v ((a, b) # st) = deep_eq u v" if "size u < size a" "u \<in> S" "v \<in> S" for u v
  proof (rule less.hyps [OF that(1) S that(2,3)])
    show "list_all (\<lambda>(x, _). x \<in> S \<and> size u < size x) ((a, b) # st)"
      using that less.prems(3,5) by (auto simp: list_all_iff)
  qed
  show ?case
  proof (cases "strict_eq a b")
    case True
    then show ?thesis using us_eq_strict [OF S less.prems(3,4)] by (subst us_eq.simps) simp
  next
    case False
    note nothit = stack_hit_none [OF S(1) less.prems(3) _ less.prems(5)]
    consider (arr) i xs j ys where "a = JArr i xs" "b = JArr j ys" | (obj) i ps j qs where "a = JObj i ps" "b = JObj j qs"
      | (other) "\<not> us_is_object a \<or> \<not> us_is_object b \<or> class_of a \<noteq> class_of b \<or> us_is_function a"
      by (cases a; cases b) auto
    then show ?thesis
    proof cases
      case arr
      have "us_eq (xs ! k) (ys ! k) ((a, b) # st) = deep_eq (xs ! k) (ys ! k)"
        if "k < length xs" "length xs = length ys" for k
      proof (rule deeper)
        show "size (xs ! k) < size a" unfolding arr by (rule size_array_element [OF that(1)])
        show "xs ! k \<in> S" "ys ! k \<in> S" using sub_closedD(1) [OF S(2)] less.prems(3,4) arr that by auto
      qed
      moreover have "us_eq a b st \<longleftrightarrow> length xs = length ys \<and>
          (\<forall>k < length xs. us_eq (xs ! k) (ys ! k) ((a, b) # st))"
        using False nothit [of b] arr by (subst us_eq.simps) (auto simp: nullish_def list_all_iff)
      ultimately show ?thesis unfolding arr(1,2) deep_eq_arrays by auto
    next
      case obj
      have dist: "distinct (map fst ps)" "distinct (map fst qs)"
        using coherentD(2) [OF S(1)] less.prems(3,4) obj by blast+
      have "us_eq v (get_prop b key) ((a, b) # st) = deep_eq v (get_prop b key)"
        if "(key, v) \<in> set ps" "key \<in> fst ` set qs" for key v
      proof (rule deeper)
        show "size v < size a" unfolding obj by (rule size_object_value [OF that(1)])
        show "v \<in> S" using sub_closedD(2) [OF S(2)] less.prems(3) obj that by blast
        from that(2) obtain w where w: "(key, w) \<in> set qs" by auto
        then have "get_prop b key = w" using object_get [OF dist(2)] obj by simp
        then show "get_prop b key \<in> S" using sub_closedD(2) [OF S(2)] less.prems(4) obj w by blast
      qed
      moreover have "us_eq a b st \<longleftrightarrow> length ps = length qs \<and>
          (\<forall>(key, v) \<in> set ps. key \<in> fst ` set qs \<and> us_eq v (get_prop b key) ((a, b) # st))"
        using False nothit [of b] constructors_agree [OF S(1), of i ps j qs] less.prems(3,4) obj
        by (subst us_eq.simps) (auto simp: nullish_def list_all_iff us_has_def us_keys_def)
      moreover have "(length ps = length qs \<and> (\<forall>(key, v) \<in> set ps. key \<in> fst ` set qs \<and> deep_eq v (get_prop b key)))
          \<longleftrightarrow> deep_eq a b"
      proof -
        have "(\<forall>(key, v) \<in> set ps. key \<in> fst ` set qs \<and> deep_eq v (get_prop b key)) \<longleftrightarrow>
            fst ` set ps \<subseteq> fst ` set qs \<and> (\<forall>(key, v) \<in> set ps. deep_eq v (get_prop b key))"
          by (simp add: image_subset_iff split_def ball_conj_distrib)
        then show ?thesis using same_keys [OF dist] unfolding obj(1,2) deep_eq_objects by auto
      qed
      ultimately show ?thesis by fastforce
    next
      case other
      with False show ?thesis by (rule us_eq_other)
    qed
  qed
qed



section \<open>Properties of picking and assigning\<close>

lemma put_new: "key \<notin> fst ` set ps \<Longrightarrow> put_prop key v ps = ps @ [(key, v)]"
  unfolding put_prop_def by (induction ps) auto

lemma pick_fold:
  assumes "distinct keys" "set keys \<inter> fst ` set acc = {}"
  shows "foldl (\<lambda>result key. if P key then put_prop key (f key) result else result) acc keys =
    acc @ map (\<lambda>key. (key, f key)) (filter P keys)"
  using assms
proof (induction keys arbitrary: acc)
  case (Cons key keys)
  then have "key \<notin> fst ` set acc" by auto
  moreover have "set keys \<inter> fst ` set (acc @ [(key, f key)]) = {}" "set keys \<inter> fst ` set acc = {}"
    using Cons.prems by auto
  ultimately show ?case using Cons.IH Cons.prems by (simp add: put_new)
qed simp

text \<open>
  Omitting keys leaves exactly what picking them does not take: each property of an object
  is in one of the two, with its value, and neither has another.
\<close>

theorem pick_omit_split:
  assumes dist: "distinct (map fst ps)"
  shows "map_of (us_pick to_key (JObj i ps) (ByKeys args)) key =
      (if key \<in> set (selected_keys to_key args) then map_of ps key else None)
    \<and> map_of (us_omit to_key (JObj i ps) (ByKeys args)) key =
      (if key \<in> set (selected_keys to_key args) then None else map_of ps key)"
proof (intro conjI)
  let ?obj = "JObj i ps" and ?sel = "selected_keys to_key args"
  have get: "Some (get_prop ?obj k) = map_of ps k" if "k \<in> fst ` set ps" for k
    using that by (auto split: option.splits simp: map_of_eq_None_iff)
  have pick: "map_of (foldl (\<lambda>result key. if has_own ?obj key then put_prop key (get_prop ?obj key) result else result)
      acc keys) key = (if key \<in> set keys \<and> key \<in> fst ` set ps then map_of ps key else map_of acc key)" for acc keys
    by (induction keys arbitrary: acc) (auto simp: get simp del: get_prop.simps)
  show "map_of (us_pick to_key ?obj (ByKeys args)) key = (if key \<in> set ?sel then map_of ps key else None)"
  proof -
    have "key \<notin> fst ` set ps \<Longrightarrow> map_of ps key = None" by (simp add: map_of_eq_None_iff)
    then show ?thesis using pick [of "[]" ?sel] by (auto simp: us_pick_def nullish_def simp del: has_own.simps)
  qed
  have contains: "list_ex (\<lambda>x. same x (JStr k)) (map JStr ?sel) \<longleftrightarrow> k \<in> set ?sel" for k
    by (auto simp: list_ex_iff same_def is_nan_def)
  have "us_omit to_key ?obj (ByKeys args) = map (\<lambda>k. (k, get_prop ?obj k)) (filter (\<lambda>k. k \<notin> set ?sel) (map fst ps))"
    using pick_fold [of "map fst ps" "[]" "\<lambda>k. k \<notin> set ?sel" "get_prop ?obj"] dist contains
    by (simp add: us_omit_def us_pick_def nullish_def us_all_keys_def)
  then have omit: "map_of (us_omit to_key ?obj (ByKeys args)) key =
      (if key \<in> fst ` set ps \<and> key \<notin> set ?sel then Some (get_prop ?obj key) else None)"
    by (auto simp: map_of_map_restrict restrict_map_def)
  show "map_of (us_omit to_key ?obj (ByKeys args)) key = (if key \<in> set ?sel then None else map_of ps key)"
  proof -
    have "key \<notin> fst ` set ps \<Longrightarrow> map_of ps key = None" by (simp add: map_of_eq_None_iff)
    then show ?thesis using get [of key] unfolding omit by (auto simp del: get_prop.simps)
  qed
qed

lemma pick_omit_split_witness:
  "map_of (us_omit (\<lambda>_. js ''a'') (JObj 0 [(js ''a'', jint 1), (js ''b'', jint 2)]) (ByKeys [JStr (js ''a'')])) (js ''b'')
   = Some (jint 2)"
  using pick_omit_split [of "[(js ''a'', jint 1), (js ''b'', jint 2)]" "\<lambda>_. js ''a''" 0 "[JStr (js ''a'')]" "js ''b''"]
  by (simp add: selected_keys_def)

lemma assign_lookup:
  assumes "distinct (map fst qs)"
  shows "map_of (assign_from us_all_keys undefined_only ps (JObj j qs)) key =
    (case map_of qs key of None \<Rightarrow> map_of ps key
     | Some v \<Rightarrow> if undefined_only \<and> get_prop (JObj 0 ps) key \<noteq> Undefined then map_of ps key else Some v)"
proof -
  let ?get = "get_prop (JObj j qs)"
  have "map_of (foldl (\<lambda>ps key. if \<not> undefined_only \<or> get_prop (JObj 0 ps) key = Undefined
        then put_prop key (?get key) ps else ps) acc keys) key =
      (if key \<in> set keys \<and> \<not> (undefined_only \<and> get_prop (JObj 0 acc) key \<noteq> Undefined)
       then Some (?get key) else map_of acc key)" if "distinct keys" for acc keys
    using that
  proof (induction keys arbitrary: acc)
    case (Cons k keys)
    then show ?case by (cases "k = key") auto
  qed simp
  from this [of "map fst qs" ps] assms have "map_of (assign_from us_all_keys undefined_only ps (JObj j qs)) key =
      (if key \<in> fst ` set qs \<and> \<not> (undefined_only \<and> get_prop (JObj 0 ps) key \<noteq> Undefined)
       then Some (?get key) else map_of ps key)"
    by (simp only: assign_from_def us_all_keys_def us_is_object.simps own_keys.simps simp_thms if_False set_map)
  moreover have "key \<in> fst ` set qs \<longleftrightarrow> map_of qs key \<noteq> None" by (metis map_of_eq_None_iff)
  ultimately show ?thesis by (cases "map_of qs key") simp_all
qed

end
