(* ===== verification/UsText.thy ===== *)
theory UsText
  imports UsObjects
begin

text \<open>
  Text and utilities of Underscore 1.8.3 (\<open>wordcut.js\<close>, module 25): HTML escaping, the source that
  \<open>template\<close> compiles, \<open>times\<close>, \<open>result\<close> and \<open>uniqueId\<close>. A regular expression of the code is
  spelt out as the scan it denotes. The theory shows that unescaping undoes escaping and that
  escaped text has no character of markup, and that the string literals in a template's source
  denote the text they were made from.
\<close>

section \<open>Escaping\<close>

definition escape_map :: "(js_string \<times> js_string) list" where
  "escape_map =
     [(js ''&'', js ''&amp;''), (js ''<'', js ''&lt;''), (js ''>'', js ''&gt;''),
      ([34], js ''&quot;''), ([39], js ''&#x27;''), ([96], js ''&#x60;'')]"

text \<open>\<open>_.invert\<close> of a map of strings.\<close>

definition unescape_map :: "(js_string \<times> js_string) list" where
  "unescape_map = foldl (\<lambda>result (k, v). AList.update v k result) [] escape_map"

text \<open>
  \<open>createEscaper\<close>: the global replacement by a regular expression that is the alternation of the
  keys. At each position the first key that matches is replaced; keys are not empty.
\<close>

function replace_keys :: "(js_string \<times> js_string) list \<Rightarrow> js_string \<Rightarrow> js_string" where
  "replace_keys mp s =
     (if s = [] then []
      else case find (\<lambda>(k, _). k \<noteq> [] \<and> take (length k) s = k) mp of
          Some (k, v) \<Rightarrow> v @ replace_keys mp (drop (length k) s)
        | None \<Rightarrow> hd s # replace_keys mp (tl s))"
  by pat_completeness auto
termination
  by (relation "measure (length \<circ> snd)") (auto simp: find_Some_iff)

declare replace_keys.simps [simp del]

definition us_escape :: "js_string \<Rightarrow> js_string" where
  "us_escape s = replace_keys escape_map s"

definition us_unescape :: "js_string \<Rightarrow> js_string" where
  "us_unescape s = replace_keys unescape_map s"

section \<open>Utilities\<close>

definition us_times :: "int \<Rightarrow> (int \<Rightarrow> 'a) \<Rightarrow> 'a list" where
  "us_times n it = map (\<lambda>i. it (int i)) [0..<nat (max 0 n)]"

definition us_result :: "(js_value \<Rightarrow> js_value \<Rightarrow> js_value) \<Rightarrow> js_value \<Rightarrow> js_string \<Rightarrow> js_value \<Rightarrow> js_value" where
  "us_result call object prop fallback =
     (let v = (if nullish object then Undefined else get_prop object prop);
          value = (if v = Undefined then fallback else v)
      in if us_is_function value then call value object else value)"

text \<open>\<open>uniqueId\<close>: the id and the new counter.\<close>

definition us_unique_id :: "js_string \<Rightarrow> nat \<Rightarrow> js_string \<times> nat" where
  "us_unique_id pre counter =
     (let n = counter + 1; ident = js (show_nat n)
      in (if pre \<noteq> [] then pre @ ident else ident, n))"

section \<open>Templates\<close>

text \<open>\<open>escapes\<close>, \<open>escaper\<close> and \<open>escapeChar\<close>: how a character of the text is put into a literal.\<close>

definition literal_char :: "nat \<Rightarrow> js_string" where
  "literal_char c =
     (if c = 39 then [92, 39] else if c = 92 then [92, 92]
      else if c = 13 then [92] @ js ''r'' else if c = 10 then [92] @ js ''n''
      else if c = 8232 then [92] @ js ''u2028'' else if c = 8233 then [92] @ js ''u2029''
      else [c])"

definition literal_text :: "js_string \<Rightarrow> js_string" where
  "literal_text s = concat (map literal_char s)"

text \<open>
  The lazy group \<open>([\s\S]+?)%>\<close>: the shortest text, of at least one character, that \<open>%>\<close> follows;
  the result is that text and what comes after \<open>%>\<close>.
\<close>

fun until_close :: "js_string \<Rightarrow> (js_string \<times> js_string) option" where
  "until_close [] = None"
| "until_close (c # rest) =
     (if take 2 rest = js ''%>'' then Some ([c], drop 2 rest)
      else map_option (\<lambda>(t, r). (c # t, r)) (until_close rest))"

datatype tag_kind = EscapeTag | InterpolateTag | EvaluateTag

text \<open>The three alternatives at one position, in the order \<open>template\<close> joins them.\<close>

definition try_tag :: "tag_kind \<Rightarrow> js_string \<Rightarrow> js_string \<Rightarrow> (tag_kind \<times> js_string \<times> js_string) option" where
  "try_tag kind opening s =
     (if take (length opening) s = opening
      then map_option (\<lambda>(t, r). (kind, t, r)) (until_close (drop (length opening) s)) else None)"

definition match_tag :: "js_string \<Rightarrow> (tag_kind \<times> js_string \<times> js_string) option" where
  "match_tag s =
     (case try_tag EscapeTag (js ''<%-'') s of Some m \<Rightarrow> Some m
      | None \<Rightarrow> (case try_tag InterpolateTag (js ''<%='') s of Some m \<Rightarrow> Some m
      | None \<Rightarrow> try_tag EvaluateTag (js ''<%'') s))"

definition tag_code :: "tag_kind \<Rightarrow> js_string \<Rightarrow> js_string" where
  "tag_code kind t =
     (case kind of
        EscapeTag \<Rightarrow> [39, 43, 10] @ js ''((__t=('' @ t @ js ''))==null?'' @ [39, 39] @ js '':_.escape(__t))+'' @ [10, 39]
      | InterpolateTag \<Rightarrow> [39, 43, 10] @ js ''((__t=('' @ t @ js ''))==null?'' @ [39, 39] @ js '':__t)+'' @ [10, 39]
      | EvaluateTag \<Rightarrow> [39, 59, 10] @ t @ [10] @ js ''__p+='' @ [39])"

lemma until_close_text: "until_close s = Some (t, r) \<Longrightarrow> s = t @ js ''%>'' @ r \<and> t \<noteq> []"
proof (induction s arbitrary: t r)
  case (Cons c rest)
  show ?case
  proof (cases "take 2 rest = js ''%>''")
    case True
    have "rest = take 2 rest @ drop 2 rest" by simp
    with True Cons.prems show ?thesis by (auto simp del: js_simps)
  next
    case False
    with Cons.prems obtain u where "until_close rest = Some (u, r)" "t = c # u" by auto
    with Cons.IH [of u r] show ?thesis by simp
  qed
qed simp

fun tag_opening :: "tag_kind \<Rightarrow> js_string" where
  "tag_opening EscapeTag = js ''<%-''" | "tag_opening InterpolateTag = js ''<%=''"
| "tag_opening EvaluateTag = js ''<%''"

lemma try_tag_text:
  assumes "try_tag kind opening s = Some (k, t, r)"
  shows "k = kind \<and> s = opening @ t @ js ''%>'' @ r \<and> t \<noteq> []"
proof -
  have s: "s = take (length opening) s @ drop (length opening) s" by simp
  from assms have "k = kind" "take (length opening) s = opening"
    "until_close (drop (length opening) s) = Some (t, r)"
    by (auto simp: try_tag_def split: if_splits)
  with s until_close_text show ?thesis by metis
qed

lemma match_tag_text:
  assumes "match_tag s = Some (k, t, r)"
  shows "s = tag_opening k @ t @ js ''%>'' @ r \<and> t \<noteq> []"
proof -
  from assms consider "try_tag EscapeTag (js ''<%-'') s = Some (k, t, r)"
    | "try_tag InterpolateTag (js ''<%='') s = Some (k, t, r)" | "try_tag EvaluateTag (js ''<%'') s = Some (k, t, r)"
    by (auto simp: match_tag_def split: option.splits simp del: js_simps)
  then show ?thesis by cases (auto dest!: try_tag_text simp del: js_simps)
qed

lemma match_tag_shorter: "match_tag s = Some (k, t, r) \<Longrightarrow> length r < length s"
  using match_tag_text [of s k t r] by (cases k) auto

text \<open>The parts of a text: what the callback of \<open>text.replace\<close> sees, match after match.\<close>

datatype template_part = TextPart js_string | TagPart tag_kind js_string

function template_parts :: "js_string \<Rightarrow> js_string \<Rightarrow> template_part list" where
  "template_parts before s =
     (if s = [] then [TextPart before]
      else case match_tag s of
          Some (kind, t, rest) \<Rightarrow> TextPart before # TagPart kind t # template_parts [] rest
        | None \<Rightarrow> template_parts (before @ [hd s]) (tl s))"
  by pat_completeness auto
termination
  by (relation "measure (length \<circ> snd)") (auto dest: match_tag_shorter)

declare template_parts.simps [simp del]

fun part_source :: "template_part \<Rightarrow> js_string" where
  "part_source (TextPart t) = literal_text t"
| "part_source (TagPart kind t) = tag_code kind t"

text \<open>\<open>template\<close> with the default delimiters: the source of the function's body.\<close>

definition template_source :: "bool \<Rightarrow> js_string \<Rightarrow> js_string" where
  "template_source has_variable s =
     (let body = js ''__p+='' @ [39] @ concat (map part_source (template_parts [] s)) @ [39, 59, 10];
          wrapped = (if has_variable then body
                     else js ''with(obj||{}){'' @ [10] @ body @ js ''}'' @ [10])
      in js ''var __t,__p='' @ [39, 39] @ js '',__j=Array.prototype.join,print=function(){__p+=__j.call(arguments,''
         @ [39, 39] @ js '');};'' @ [10] @ wrapped @ js ''return __p;'' @ [10])"

section \<open>Properties of escaping\<close>

lemma unescape_map_eq: "unescape_map =
  [(js ''&amp;'', js ''&''), (js ''&lt;'', js ''<''), (js ''&gt;'', js ''>''),
   (js ''&quot;'', [34]), (js ''&#x27;'', [39]), (js ''&#x60;'', [96])]"
  by (simp add: unescape_map_def escape_map_def)

definition escape_char :: "nat \<Rightarrow> js_string" where
  "escape_char c = (case map_of escape_map [c] of Some e \<Rightarrow> e | None \<Rightarrow> [c])"

lemma escape_char_cases:
  "escape_char c = (if c = 38 then js ''&amp;'' else if c = 60 then js ''&lt;'' else if c = 62 then js ''&gt;''
     else if c = 34 then js ''&quot;'' else if c = 39 then js ''&#x27;'' else if c = 96 then js ''&#x60;'' else [c])"
  by (simp add: escape_char_def escape_map_def)

lemma us_escape_chars: "us_escape s = concat (map escape_char s)"
proof (induction s)
  case Nil
  show ?case by (simp add: us_escape_def replace_keys.simps)
next
  case (Cons c s)
  have "replace_keys escape_map (c # s) = escape_char c @ replace_keys escape_map s"
    by (subst replace_keys.simps) (simp add: escape_char_cases escape_map_def)
  with Cons show ?case by (simp add: us_escape_def)
qed

lemma us_unescape_char: "us_unescape (escape_char c @ s) = c # us_unescape s"
  unfolding us_unescape_def
  by (subst replace_keys.simps) (simp add: escape_char_cases unescape_map_eq)

text \<open>
  Unescaping undoes escaping; and escaped text has none of the characters \<open><\<close>, \<open>>\<close>, quote,
  apostrophe and backtick, and an \<open>&\<close> only at the start of an entity.
\<close>

theorem unescape_escape:
  "us_unescape (us_escape s) = s
   \<and> set (us_escape s) \<inter> {60, 62, 34, 39, 96} = {}
   \<and> us_escape s = concat (map escape_char s)"
proof (intro conjI)
  show "us_unescape (us_escape s) = s"
    unfolding us_escape_chars
    by (induction s) (simp_all add: us_unescape_char, simp add: us_unescape_def replace_keys.simps)
  show "set (us_escape s) \<inter> {60, 62, 34, 39, 96} = {}"
    unfolding us_escape_chars by (auto simp: escape_char_cases split: if_splits)
qed (rule us_escape_chars)

section \<open>Properties of templates\<close>

text \<open>
  The language's reading of the text between the quotes of a string literal; \<open>None\<close> for a quote
  or line break, which would end the literal.
\<close>

function read_literal :: "js_string \<Rightarrow> js_string option" where
  "read_literal s =
     (case s of
        [] \<Rightarrow> Some []
      | c # rest \<Rightarrow>
          if c = 39 \<or> c = 10 \<or> c = 13 \<or> c = 8232 \<or> c = 8233 then None
          else if c = 92 then
            (case rest of
               [] \<Rightarrow> None
             | d # rest2 \<Rightarrow>
                 if d = 110 then map_option ((#) 10) (read_literal rest2)
                 else if d = 114 then map_option ((#) 13) (read_literal rest2)
                 else if take 5 rest = js ''u2028'' then map_option ((#) 8232) (read_literal (drop 5 rest))
                 else if take 5 rest = js ''u2029'' then map_option ((#) 8233) (read_literal (drop 5 rest))
                 else if d = 39 \<or> d = 92 then map_option ((#) d) (read_literal rest2) else None)
          else map_option ((#) c) (read_literal rest))"
  by pat_completeness auto
termination by (relation "measure length") auto

declare read_literal.simps [simp del]

lemma read_literal_char: "read_literal (literal_char c @ s) = map_option ((#) c) (read_literal s)"
  by (subst read_literal.simps) (auto simp: literal_char_def)

lemma read_literal_text: "read_literal (literal_text s) = Some s"
  by (induction s) (simp_all add: literal_text_def read_literal_char, simp add: read_literal.simps)

text \<open>The text a part stands for in the template.\<close>

fun part_text :: "template_part \<Rightarrow> js_string" where
  "part_text (TextPart t) = t"
| "part_text (TagPart kind t) = tag_opening kind @ t @ js ''%>''"

text \<open>
  \<open>template\<close> splits a text into parts that together are the text, and the literal it writes
  for each part of plain text is one literal that denotes this very text.
\<close>

theorem template_literals:
  "concat (map part_text (template_parts [] s)) = s
   \<and> list_all (\<lambda>p. case p of TextPart t \<Rightarrow> read_literal (part_source p) = Some t | TagPart _ t \<Rightarrow> t \<noteq> [])
       (template_parts [] s)"
proof -
  have "concat (map part_text (template_parts before s)) = before @ s
      \<and> list_all (\<lambda>p. case p of TextPart t \<Rightarrow> read_literal (part_source p) = Some t | TagPart _ t \<Rightarrow> t \<noteq> [])
          (template_parts before s)" for before
  proof (induction before s rule: template_parts.induct)
    case (1 before s)
    show ?case
    proof (cases "s = []")
      case True
      then show ?thesis by (subst (1 2) template_parts.simps) (simp add: read_literal_text)
    next
      case ne: False
      show ?thesis
      proof (cases "match_tag s")
        case None
        then have "template_parts before s = template_parts (before @ [hd s]) (tl s)"
          using ne by (subst template_parts.simps) simp
        with 1(1) [OF ne None] ne show ?thesis by simp
      next
        case (Some m)
        obtain k t r where m: "m = (k, t, r)" by (cases m)
        have "template_parts before s = TextPart before # TagPart k t # template_parts [] r"
          using ne Some m by (subst template_parts.simps) simp
        with 1(2) [OF ne Some] match_tag_text [of s k t r] Some m show ?thesis
          by (simp add: read_literal_text)
      qed
    qed
  qed
  from this [of "[]"] show ?thesis by simp
qed

end
