(* ===== verification/UsFunctions.thy ===== *)
theory UsFunctions
  imports JsValue
begin

text \<open>
  The function functions of Underscore 1.8.3 (\<open>wordcut.js\<close>, module 25): memoising, counting
  calls, composing, and the two that use timers, \<open>throttle\<close> and \<open>debounce\<close>. Each wrapper is its
  closure's state and the step of one call; a wrapped function is a HOL function of its
  arguments, so it cannot call its own wrapper. A timer fires at some moment at or after the
  one it is due at, and time does not run backwards. The theory shows that a throttled function
  never runs twice within its window, that a debounced one runs only after a quiet period, and
  that a memoised one computes each address once.
\<close>

section \<open>Memoising\<close>

record ('k, 'a, 'r) memo_state =
  mo_cache :: "('k \<times> 'r) list"
  mo_ran :: "'a list"

text \<open>\<open>memoize\<close>, with the list of the arguments the function was run on.\<close>

definition memo_init :: "('k, 'a, 'r) memo_state" where
  "memo_init = \<lparr>mo_cache = [], mo_ran = []\<rparr>"

definition memo_call :: "('a \<Rightarrow> 'k) \<Rightarrow> ('a \<Rightarrow> 'r) \<Rightarrow> 'a \<Rightarrow> ('k, 'a, 'r) memo_state \<Rightarrow> 'r option \<times> ('k, 'a, 'r) memo_state" where
  "memo_call address func args st =
     (let st' = (if map_of (mo_cache st) (address args) = None
                 then st\<lparr>mo_cache := AList.update (address args) (func args) (mo_cache st),
                         mo_ran := mo_ran st @ [args]\<rparr>
                 else st)
      in (map_of (mo_cache st') (address args), st'))"

fun memo_calls :: "('a \<Rightarrow> 'k) \<Rightarrow> ('a \<Rightarrow> 'r) \<Rightarrow> 'a list \<Rightarrow> ('k, 'a, 'r) memo_state \<Rightarrow> 'r option list \<times> ('k, 'a, 'r) memo_state" where
  "memo_calls address func [] st = ([], st)"
| "memo_calls address func (a # as) st =
     (let (r, st1) = memo_call address func a st; (rs, st2) = memo_calls address func as st1 in (r # rs, st2))"

section \<open>Counting calls\<close>

text \<open>\<open>after\<close>: the counter, and what a call gives; \<open>None\<close> is \<open>undefined\<close>.\<close>

definition after_call :: "('a \<Rightarrow> 'r) \<Rightarrow> 'a \<Rightarrow> int \<Rightarrow> 'r option \<times> int" where
  "after_call func args count = (let t = count - 1 in (if t < 1 then Some (func args) else None, t))"

record ('a, 'r) before_state =
  bf_times :: int
  bf_memo :: "'r option"
  bf_func :: "('a \<Rightarrow> 'r) option"

definition us_before :: "int \<Rightarrow> ('a \<Rightarrow> 'r) \<Rightarrow> ('a, 'r) before_state" where
  "us_before count func = \<lparr>bf_times = count, bf_memo = None, bf_func = Some func\<rparr>"

text \<open>The outer \<open>None\<close> is the TypeError of calling the function when it is \<open>null\<close>.\<close>

definition before_call :: "'a \<Rightarrow> ('a, 'r) before_state \<Rightarrow> ('r option \<times> ('a, 'r) before_state) option" where
  "before_call args st =
     (let t = bf_times st - 1 in
      case (if t > 0 then (case bf_func st of Some f \<Rightarrow> Some (Some (f args)) | None \<Rightarrow> None)
            else Some (bf_memo st)) of
        None \<Rightarrow> None
      | Some memo \<Rightarrow> Some (memo, \<lparr>bf_times = t, bf_memo = memo,
                                 bf_func = (if t \<le> 1 then None else bf_func st)\<rparr>))"

fun before_calls :: "'a list \<Rightarrow> ('a, 'r) before_state \<Rightarrow> ('r option list \<times> ('a, 'r) before_state) option" where
  "before_calls [] st = Some ([], st)"
| "before_calls (a # as) st =
     (case before_call a st of
        None \<Rightarrow> None
      | Some (r, st1) \<Rightarrow> map_option (\<lambda>(rs, st2). (r # rs, st2)) (before_calls as st1))"

definition us_once :: "('a \<Rightarrow> 'r) \<Rightarrow> ('a, 'r) before_state" where
  "us_once func = us_before 2 func"

section \<open>Composing\<close>

text \<open>\<open>compose\<close> of a list of functions; \<open>None\<close> is the TypeError when there is none.\<close>

definition us_compose :: "('a \<Rightarrow> 'a) list \<Rightarrow> 'a \<Rightarrow> 'a option" where
  "us_compose fs x =
     (if fs = [] then None else Some (foldl (\<lambda>result i. (fs ! i) result) (last fs x) (rev [0..<length fs - 1])))"

text \<open>
  The arguments \<open>partial\<close> passes on; \<open>None\<close> among the bound ones is the placeholder, and an
  argument that is not there is \<open>undefined\<close>.
\<close>

fun fill_args :: "js_value option list \<Rightarrow> js_value list \<Rightarrow> js_value list" where
  "fill_args [] given = given"
| "fill_args (Some b # bound) given = b # fill_args bound given"
| "fill_args (None # bound) [] = Undefined # fill_args bound []"
| "fill_args (None # bound) (g # given) = g # fill_args bound given"

definition us_partial :: "(js_value list \<Rightarrow> 'r) \<Rightarrow> js_value option list \<Rightarrow> js_value list \<Rightarrow> 'r" where
  "us_partial func bound given = func (fill_args bound given)"

definition us_wrap :: "js_value \<Rightarrow> (js_value list \<Rightarrow> 'r) \<Rightarrow> js_value list \<Rightarrow> 'r" where
  "us_wrap func wrapper given = us_partial wrapper [Some func] given"

section \<open>Throttling\<close>

record ('a, 'r) throttle =
  th_timeout :: "int option"
  th_previous :: int
  th_args :: "'a option"
  th_result :: "'r option"

record throttle_options =
  op_leading :: bool
  op_trailing :: bool

definition throttle_init :: "('a, 'r) throttle" where
  "throttle_init = \<lparr>th_timeout = None, th_previous = 0, th_args = None, th_result = None\<rparr>"

text \<open>
  Applying the function to the saved arguments; the second component is what it was applied to.
  The arguments are dropped unless a timer is pending.
\<close>

definition throttle_apply :: "('a \<Rightarrow> 'r) \<Rightarrow> ('a, 'r) throttle \<Rightarrow> ('a, 'r) throttle \<times> 'a option" where
  "throttle_apply func st =
     (st\<lparr>th_result := map_option func (th_args st),
         th_args := (if th_timeout st = None then None else th_args st)\<rparr>, th_args st)"

text \<open>\<open>later\<close>, the callback of the timer.\<close>

definition throttle_later :: "('a \<Rightarrow> 'r) \<Rightarrow> throttle_options \<Rightarrow> int \<Rightarrow> ('a, 'r) throttle \<Rightarrow> ('a, 'r) throttle \<times> 'a option" where
  "throttle_later func op now st =
     throttle_apply func (st\<lparr>th_previous := (if op_leading op then now else 0), th_timeout := None\<rparr>)"

definition throttle_call ::
  "('a \<Rightarrow> 'r) \<Rightarrow> int \<Rightarrow> throttle_options \<Rightarrow> int \<Rightarrow> 'a \<Rightarrow> ('a, 'r) throttle \<Rightarrow> ('a, 'r) throttle \<times> 'a option" where
  "throttle_call func wait op now args st =
     (let previous = (if th_previous st = 0 \<and> \<not> op_leading op then now else th_previous st);
          remaining = wait - (now - previous);
          st1 = st\<lparr>th_previous := previous, th_args := Some args\<rparr>
      in if remaining \<le> 0 \<or> remaining > wait
         then throttle_apply func (st1\<lparr>th_timeout := None, th_previous := now\<rparr>)
         else if th_timeout st1 = None \<and> op_trailing op
         then (st1\<lparr>th_timeout := Some (now + remaining)\<rparr>, None)
         else (st1, None))"

text \<open>
  A history: the clock, the wrapper, and the calls and the runs of the function, each with their
  moments and arguments.
\<close>

record ('a, 'r) throttle_world =
  tw_clock :: int
  tw_state :: "('a, 'r) throttle"
  tw_calls :: "(int \<times> 'a) list"
  tw_runs :: "(int \<times> 'a) list"

definition log_run :: "int \<Rightarrow> 'a option \<Rightarrow> (int \<times> 'a) list \<Rightarrow> (int \<times> 'a) list" where
  "log_run now hit runs = (case hit of Some a \<Rightarrow> runs @ [(now, a)] | None \<Rightarrow> runs)"

inductive throttle_run ::
  "('a \<Rightarrow> 'r) \<Rightarrow> int \<Rightarrow> throttle_options \<Rightarrow> ('a, 'r) throttle_world \<Rightarrow> bool"
  for func wait op where
  start: "0 < now \<Longrightarrow> throttle_run func wait op
    \<lparr>tw_clock = now, tw_state = throttle_init, tw_calls = [], tw_runs = []\<rparr>"
| called: "throttle_run func wait op w \<Longrightarrow> tw_clock w \<le> now \<Longrightarrow>
    throttle_call func wait op now args (tw_state w) = (st, hit) \<Longrightarrow>
    throttle_run func wait op
      \<lparr>tw_clock = now, tw_state = st, tw_calls = tw_calls w @ [(now, args)],
       tw_runs = log_run now hit (tw_runs w)\<rparr>"
| fired: "throttle_run func wait op w \<Longrightarrow> tw_clock w \<le> now \<Longrightarrow>
    th_timeout (tw_state w) = Some due \<Longrightarrow> due \<le> now \<Longrightarrow>
    throttle_later func op now (tw_state w) = (st, hit) \<Longrightarrow>
    throttle_run func wait op
      \<lparr>tw_clock = now, tw_state = st, tw_calls = tw_calls w, tw_runs = log_run now hit (tw_runs w)\<rparr>"

section \<open>Debouncing\<close>

record ('a, 'r) debounce =
  db_timeout :: "int option"
  db_args :: "'a option"
  db_timestamp :: int
  db_result :: "'r option"

definition debounce_init :: "('a, 'r) debounce" where
  "debounce_init = \<lparr>db_timeout = None, db_args = None, db_timestamp = 0, db_result = None\<rparr>"

definition debounce_later ::
  "('a \<Rightarrow> 'r) \<Rightarrow> int \<Rightarrow> bool \<Rightarrow> int \<Rightarrow> ('a, 'r) debounce \<Rightarrow> ('a, 'r) debounce \<times> 'a option" where
  "debounce_later func wait immediate now st =
     (let last = now - db_timestamp st in
      if last < wait \<and> 0 \<le> last then (st\<lparr>db_timeout := Some (now + (wait - last))\<rparr>, None)
      else if immediate then (st\<lparr>db_timeout := None\<rparr>, None)
      else (st\<lparr>db_timeout := None, db_result := map_option func (db_args st), db_args := None\<rparr>, db_args st))"

definition debounce_call ::
  "('a \<Rightarrow> 'r) \<Rightarrow> int \<Rightarrow> bool \<Rightarrow> int \<Rightarrow> 'a \<Rightarrow> ('a, 'r) debounce \<Rightarrow> ('a, 'r) debounce \<times> 'a option" where
  "debounce_call func wait immediate now args st =
     (let call_now = (immediate \<and> db_timeout st = None);
          st1 = st\<lparr>db_args := Some args, db_timestamp := now,
                  db_timeout := (case db_timeout st of None \<Rightarrow> Some (now + wait) | Some due \<Rightarrow> Some due)\<rparr>
      in if call_now then (st1\<lparr>db_result := Some (func args), db_args := None\<rparr>, Some args)
         else (st1, None))"

text \<open>A history: the calls with their moments and arguments, and the runs.\<close>

record ('a, 'r) debounce_world =
  dw_clock :: int
  dw_state :: "('a, 'r) debounce"
  dw_calls :: "(int \<times> 'a) list"
  dw_runs :: "(int \<times> 'a) list"

inductive debounce_run :: "('a \<Rightarrow> 'r) \<Rightarrow> int \<Rightarrow> bool \<Rightarrow> ('a, 'r) debounce_world \<Rightarrow> bool"
  for func wait immediate where
  start: "debounce_run func wait immediate
    \<lparr>dw_clock = now, dw_state = debounce_init, dw_calls = [], dw_runs = []\<rparr>"
| called: "debounce_run func wait immediate w \<Longrightarrow> dw_clock w \<le> now \<Longrightarrow>
    debounce_call func wait immediate now args (dw_state w) = (st, hit) \<Longrightarrow>
    debounce_run func wait immediate
      \<lparr>dw_clock = now, dw_state = st, dw_calls = dw_calls w @ [(now, args)],
       dw_runs = log_run now hit (dw_runs w)\<rparr>"
| fired: "debounce_run func wait immediate w \<Longrightarrow> dw_clock w \<le> now \<Longrightarrow>
    db_timeout (dw_state w) = Some due \<Longrightarrow> due \<le> now \<Longrightarrow>
    debounce_later func wait immediate now (dw_state w) = (st, hit) \<Longrightarrow>
    debounce_run func wait immediate
      \<lparr>dw_clock = now, dw_state = st, dw_calls = dw_calls w, dw_runs = log_run now hit (dw_runs w)\<rparr>"

section \<open>Properties of counting and memoising\<close>

lemma before_calls_from:
  assumes "1 < bf_times st \<Longrightarrow> bf_func st = Some func"
  shows "\<exists>st'. before_calls as st = Some (map (\<lambda>i. if bf_times st \<le> 1 then bf_memo st
    else Some (func (as ! min i (nat (bf_times st) - 2)))) [0..<length as], st')"
  using assms
proof (induction as arbitrary: st)
  case (Cons a as)
  have upt: "[0..<length (a # as)] = 0 # map Suc [0..<length as]"
    by (simp add: upt_conv_Cons map_Suc_upt del: upt_Suc)
  show ?case
  proof (cases "1 < bf_times st")
    case True
    define st1 where "st1 = \<lparr>bf_times = bf_times st - 1, bf_memo = Some (func a),
      bf_func = (if bf_times st - 1 \<le> 1 then None else bf_func st)\<rparr>"
    have first: "before_call a st = Some (Some (func a), st1)"
      using True Cons.prems by (simp add: before_call_def Let_def st1_def)
    have min: "min (Suc i) (nat (bf_times st) - 2) = (if bf_times st = 2 then 0 else Suc (min i (nat (bf_times st - 1) - 2)))"
      for i using True by auto
    obtain st2 where rest: "before_calls as st1 = Some (map (\<lambda>i. if bf_times st1 \<le> 1 then bf_memo st1
        else Some (func (as ! min i (nat (bf_times st1) - 2)))) [0..<length as], st2)"
      using Cons.IH [of st1] Cons.prems by (auto simp: st1_def split: if_splits)
    have "map (\<lambda>i. Some (func ((a # as) ! min i (nat (bf_times st) - 2)))) [0..<length (a # as)] =
        Some (func a) # map (\<lambda>i. if bf_times st1 \<le> 1 then bf_memo st1
          else Some (func (as ! min i (nat (bf_times st1) - 2)))) [0..<length as]"
      unfolding upt using True by (simp add: min st1_def comp_def del: upt_Suc)
    with first rest True show ?thesis by (simp del: upt_Suc)
  next
    case False
    define st1 where "st1 = \<lparr>bf_times = bf_times st - 1, bf_memo = bf_memo st, bf_func = (None :: ('a \<Rightarrow> 'b) option)\<rparr>"
    have "before_call a st = Some (bf_memo st, st1)" using False by (simp add: before_call_def Let_def st1_def)
    moreover obtain st2 where "before_calls as st1 = Some (map (\<lambda>i. bf_memo st) [0..<length as], st2)"
      using Cons.IH [of st1] False by (auto simp: st1_def)
    ultimately show ?thesis unfolding upt using False by (simp add: comp_def del: upt_Suc)
  qed
qed simp

text \<open>
  The wrapper of \<open>before\<close> never calls its function once it has dropped it: it runs it on the
  first calls, fewer than the given number, and then repeats the last result; \<open>once\<close> gives the
  result of the first call ever after.
\<close>

theorem before_calls_runs:
  "\<exists>st. before_calls as (us_before n func) =
    Some (map (\<lambda>i. if n \<le> 1 then None else Some (func (as ! min i (nat n - 2)))) [0..<length as], st)
   \<and> map_option fst (before_calls as (us_once func)) = Some (map (\<lambda>_. Some (func (hd as))) as)"
proof -
  have "\<exists>st. before_calls as (us_before k func) =
      Some (map (\<lambda>i. if k \<le> 1 then None else Some (func (as ! min i (nat k - 2)))) [0..<length as], st)" for k
    using before_calls_from [of "us_before k func" func as] by (simp add: us_before_def cong: if_cong)
  note runs = this
  from runs [of 2] obtain st where "before_calls as (us_once func) =
      Some (map (\<lambda>i. Some (func (as ! 0))) [0..<length as], st)" by (auto simp: us_once_def)
  moreover have "map (\<lambda>i. Some (func (as ! 0))) [0..<length as] = map (\<lambda>_. Some (func (hd as))) as"
    by (cases as) (simp_all add: map_replicate_const del: upt_Suc)
  ultimately show ?thesis using runs [of n] by auto
qed

text \<open>
  A memoised function computes each address once, on the first arguments that have it; when
  arguments with the same address have the same result, every call gives the function's result.
\<close>

theorem memoize_correct:
  assumes hash: "\<And>a b. address a = address b \<Longrightarrow> func a = func b"
  shows "fst (memo_calls address func as memo_init) = map (\<lambda>a. Some (func a)) as
    \<and> distinct (map address (mo_ran (snd (memo_calls address func as memo_init))))"
proof -
  have "fst (memo_calls address func as st) = map (\<lambda>a. Some (func a)) as
      \<and> distinct (map address (mo_ran (snd (memo_calls address func as st))))"
    if "\<And>k r. map_of (mo_cache st) k = Some r \<Longrightarrow> \<exists>a \<in> set (mo_ran st). address a = k \<and> func a = r"
      "\<And>a. a \<in> set (mo_ran st) \<Longrightarrow> map_of (mo_cache st) (address a) \<noteq> None"
      "distinct (map address (mo_ran st))" for st
    using that
  proof (induction as arbitrary: st)
    case (Cons a as)
    show ?case
    proof (cases "map_of (mo_cache st) (address a)")
      case None
      let ?st = "st\<lparr>mo_cache := AList.update (address a) (func a) (mo_cache st), mo_ran := mo_ran st @ [a]\<rparr>"
      have new: "address a \<notin> address ` set (mo_ran st)" using Cons.prems(2) None by force
      have "fst (memo_calls address func as ?st) = map (\<lambda>a. Some (func a)) as
          \<and> distinct (map address (mo_ran (snd (memo_calls address func as ?st))))"
      proof (rule Cons.IH)
        show "\<exists>b \<in> set (mo_ran ?st). address b = k \<and> func b = r" if "map_of (mo_cache ?st) k = Some r" for k r
          using that Cons.prems(1) [of k r] by (auto simp: update_conv' split: if_splits)
        show "map_of (mo_cache ?st) (address b) \<noteq> None" if "b \<in> set (mo_ran ?st)" for b
          using that Cons.prems(2) [of b] by (auto simp: update_conv')
        show "distinct (map address (mo_ran ?st))" using Cons.prems(3) new by simp
      qed
      moreover have "memo_call address func a st = (Some (func a), ?st)"
        using None by (simp add: memo_call_def Let_def update_conv')
      ultimately show ?thesis by (simp add: split_def)
    next
      case (Some r)
      then have "r = func a" using Cons.prems(1) hash by blast
      with Some have "memo_call address func a st = (Some (func a), st)" by (simp add: memo_call_def Let_def)
      moreover have "fst (memo_calls address func as st) = map (\<lambda>a. Some (func a)) as
          \<and> distinct (map address (mo_ran (snd (memo_calls address func as st))))"
        by (rule Cons.IH) (use Cons.prems in auto)
      ultimately show ?thesis by (simp add: split_def)
    qed
  qed simp
  from this [of memo_init] show ?thesis by (simp add: memo_init_def)
qed

lemma memoize_correct_witness:
  "fst (memo_calls (\<lambda>n :: nat. n mod 2) (\<lambda>n. n mod 2 + 5) [1, 2, 3] memo_init) = [Some 6, Some 5, Some 6]"
  using memoize_correct [of "\<lambda>n :: nat. n mod 2" "\<lambda>n. n mod 2 + 5" "[1, 2, 3]"] by simp

section \<open>Properties of throttling\<close>

text \<open>The last call, when there is one.\<close>

definition last_call :: "(int \<times> 'a) list \<Rightarrow> (int \<times> 'a) option" where
  "last_call calls = (if calls = [] then None else Some (last calls))"

lemma last_call_simps [simp]: "last_call [] = None" "last_call (cs @ [c]) = Some c"
  by (simp_all add: last_call_def)

text \<open>A run at \<open>t\<close> on \<open>a\<close> serves the latest call made before it.\<close>

definition serves_latest :: "(int \<times> 'a) list \<Rightarrow> int \<times> 'a \<Rightarrow> bool" where
  "serves_latest calls run =
     list_ex (\<lambda>(s, b). b = snd run \<and> s \<le> fst run \<and> list_all (\<lambda>(c, _). c \<le> s \<or> fst run \<le> c) calls) calls"

lemma serves_latest_later:
  assumes "serves_latest calls run" "fst run \<le> now"
  shows "serves_latest (calls @ [(now, a)]) run"
  using assms by (fastforce simp: serves_latest_def list_ex_iff list_all_iff)

lemma serves_latest_last:
  assumes "sorted (map fst (calls @ [(s, a)]))" "s \<le> t"
  shows "serves_latest (calls @ [(s, a)]) (t, a)"
  using assms by (fastforce simp: serves_latest_def list_ex_iff list_all_iff sorted_append)

definition throttle_inv :: "int \<Rightarrow> throttle_options \<Rightarrow> ('a, 'r) throttle_world \<Rightarrow> bool" where
  "throttle_inv wait op w =
     (let st = tw_state w; calls = tw_calls w; runs = tw_runs w in
      0 < tw_clock w \<and> 0 \<le> th_previous st \<and> th_previous st \<le> tw_clock w
      \<and> sorted (map fst calls) \<and> list_all (\<lambda>(t, _). t \<le> tw_clock w) calls
      \<and> list_all (\<lambda>(t, _). t \<le> tw_clock w \<and> (th_previous st = 0 \<and> \<not> op_leading op \<or> t \<le> th_previous st)) runs
      \<and> (\<forall>due. th_timeout st = Some due \<longrightarrow> (th_previous st = 0 \<longrightarrow> op_leading op) \<and> th_previous st + wait \<le> due
           \<and> calls \<noteq> [] \<and> th_args st = Some (snd (last calls)))
      \<and> (op_trailing op \<and> calls \<noteq> [] \<and> th_timeout st = None \<longrightarrow>
           runs \<noteq> [] \<and> snd (last runs) = snd (last calls) \<and> fst (last calls) \<le> fst (last runs))
      \<and> sorted_wrt (\<lambda>r r'. fst r + wait \<le> fst r') runs
      \<and> list_all (serves_latest calls) runs)"

lemma throttle_inv_start:
  "0 < now \<Longrightarrow> throttle_inv wait op \<lparr>tw_clock = now, tw_state = throttle_init, tw_calls = [], tw_runs = []\<rparr>"
  by (simp add: throttle_inv_def throttle_init_def)

lemma list_all_serves_later:
  assumes "list_all (\<lambda>(t, _). t \<le> now \<and> P t) runs" "list_all (serves_latest calls) runs"
  shows "list_all (serves_latest (calls @ [(now, a)])) runs"
  unfolding list_all_iff
proof
  fix run assume "run \<in> set runs"
  with assms have "serves_latest calls run" "fst run \<le> now" by (auto simp: list_all_iff)
  then show "serves_latest (calls @ [(now, a)]) run" by (rule serves_latest_later)
qed

lemma throttle_inv_called:
  assumes inv: "throttle_inv wait op w" and now: "tw_clock w \<le> now"
    and step: "throttle_call func wait op now args (tw_state w) = (st, hit)"
  shows "throttle_inv wait op \<lparr>tw_clock = now, tw_state = st, tw_calls = tw_calls w @ [(now, args)],
    tw_runs = log_run now hit (tw_runs w)\<rparr>"
proof -
  let ?old = "tw_state w"
  define prev where "prev = (if th_previous ?old = 0 \<and> \<not> op_leading op then now else th_previous ?old)"
  have base: "0 < now" "0 \<le> prev" "prev \<le> now" "prev = 0 \<Longrightarrow> op_leading op"
    "sorted (map fst (tw_calls w @ [(now, args)]))"
    "list_all (\<lambda>(t, _). t \<le> now) (tw_calls w @ [(now, args)])"
    "list_all (\<lambda>(t, _). t \<le> now \<and> t \<le> prev) (tw_runs w)"
    "sorted_wrt (\<lambda>r r'. fst r + wait \<le> fst r') (tw_runs w)"
    "th_timeout ?old = Some due \<Longrightarrow> prev + wait \<le> due" for due
    using inv now unfolding throttle_inv_def Let_def prev_def
    by (force simp: sorted_append list_all_iff split: if_splits)+
  have served: "list_all (serves_latest (tw_calls w @ [(now, args)])) (tw_runs w)"
  proof (rule list_all_serves_later)
    show "list_all (\<lambda>(t, _). t \<le> now \<and> t \<le> prev) (tw_runs w)" by (rule base(7))
    show "list_all (serves_latest (tw_calls w)) (tw_runs w)" using inv by (simp add: throttle_inv_def Let_def)
  qed
  have runs: "list_all (\<lambda>(t, _). t \<le> now \<and> (prev = 0 \<and> \<not> op_leading op \<or> t \<le> prev)) (tw_runs w)"
    using base(7) by (auto simp: list_all_iff)
  have new: "serves_latest (tw_calls w @ [(now, args)]) (now, args)" using base(5) by (intro serves_latest_last) auto
  consider (run) "wait - (now - prev) \<le> 0" | (timer) "0 < wait - (now - prev)" "th_timeout ?old = None" "op_trailing op"
    | (skip) "0 < wait - (now - prev)" "\<not> (th_timeout ?old = None \<and> op_trailing op)"
    by linarith
  then show ?thesis
  proof cases
    case run
    have "hit = Some args" "th_timeout st = None" "th_previous st = now"
      using step run by (auto simp: throttle_call_def Let_def throttle_apply_def simp flip: prev_def)
    moreover have "list_all (\<lambda>r. fst r + wait \<le> now) (tw_runs w)"
      using base(7) run by (fastforce simp: list_all_iff)
    moreover have "list_all (\<lambda>(t, _). t \<le> now) (tw_runs w)" using base(7) by (auto simp: list_all_iff)
    ultimately show ?thesis using base served new
      by (auto simp: throttle_inv_def Let_def log_run_def sorted_wrt_append list_all_iff)
  next
    case timer
    then have "hit = None" "th_timeout st = Some (prev + wait)" "th_previous st = prev" "th_args st = Some args"
      using step base(3) by (auto simp: throttle_call_def Let_def simp flip: prev_def)
    then show ?thesis using base runs served timer
      by (auto simp: throttle_inv_def Let_def log_run_def)
  next
    case skip
    then have "hit = None" "th_timeout st = th_timeout ?old" "th_previous st = prev" "th_args st = Some args"
      using step base(3) by (auto simp: throttle_call_def Let_def simp flip: prev_def)
    then show ?thesis using base runs served skip
      by (auto simp: throttle_inv_def Let_def log_run_def)
  qed
qed

lemma throttle_inv_fired:
  assumes inv: "throttle_inv wait op w" and now: "tw_clock w \<le> now"
    and due: "th_timeout (tw_state w) = Some due" "due \<le> now"
    and step: "throttle_later func op now (tw_state w) = (st, hit)"
  shows "throttle_inv wait op \<lparr>tw_clock = now, tw_state = st, tw_calls = tw_calls w,
    tw_runs = log_run now hit (tw_runs w)\<rparr>"
proof -
  let ?old = "tw_state w"
  have base: "0 < now" "th_previous ?old + wait \<le> now" "tw_calls w \<noteq> []" "th_args ?old = Some (snd (last (tw_calls w)))"
    "sorted (map fst (tw_calls w))" "list_all (\<lambda>(t, _). t \<le> now) (tw_calls w)"
    "list_all (\<lambda>(t, _). t \<le> now \<and> t \<le> th_previous ?old) (tw_runs w)"
    "sorted_wrt (\<lambda>r r'. fst r + wait \<le> fst r') (tw_runs w)" "list_all (serves_latest (tw_calls w)) (tw_runs w)"
    using inv now due unfolding throttle_inv_def Let_def by (force simp: list_all_iff)+
  obtain s a cs where calls: "tw_calls w = cs @ [(s, a)]" using base(3) by (metis rev_exhaust surj_pair)
  have "s \<le> now" using base(6) calls by simp
  then have new: "serves_latest (tw_calls w) (now, a)" unfolding calls using base(5) calls
    by (intro serves_latest_last) simp_all
  have "hit = Some a" "th_timeout st = None" "th_previous st = (if op_leading op then now else 0)"
    using step base(4) calls by (auto simp: throttle_later_def throttle_apply_def)
  moreover have "list_all (\<lambda>r. fst r + wait \<le> now) (tw_runs w)"
    using base(2,7) by (fastforce simp: list_all_iff)
  ultimately show ?thesis using base new calls \<open>s \<le> now\<close>
    by (auto simp: throttle_inv_def Let_def log_run_def sorted_wrt_append list_all_iff)
qed


lemma throttle_called_to:
  assumes "throttle_run func wait op w" "tw_clock w \<le> now"
    and "throttle_call func wait op now args (tw_state w) = (st, hit)"
    and "w' = \<lparr>tw_clock = now, tw_state = st, tw_calls = tw_calls w @ [(now, args)],
      tw_runs = log_run now hit (tw_runs w)\<rparr>"
  shows "throttle_run func wait op w'"
  unfolding assms(4) using assms(1-3) by (rule throttle_run.called)

lemma throttle_fired_to:
  assumes "throttle_run func wait op w" "tw_clock w \<le> now" "th_timeout (tw_state w) = Some due" "due \<le> now"
    and "throttle_later func op now (tw_state w) = (st, hit)"
    and "w' = \<lparr>tw_clock = now, tw_state = st, tw_calls = tw_calls w, tw_runs = log_run now hit (tw_runs w)\<rparr>"
  shows "throttle_run func wait op w'"
  unfolding assms(6) using assms(1-5) by (rule throttle_run.fired)


section \<open>Properties of debouncing\<close>

text \<open>
  What holds of a run on the trailing edge: it is on the arguments of the latest call, and no
  call was made in the \<open>wait\<close> before it. On the leading edge: it is a call's own run, and the
  calls before it were at least \<open>wait\<close> earlier.
\<close>

definition after_quiet :: "int \<Rightarrow> (int \<times> 'a) list \<Rightarrow> int \<times> 'a \<Rightarrow> bool" where
  "after_quiet wait calls run =
     list_ex (\<lambda>(s, b). b = snd run \<and> s + wait \<le> fst run
       \<and> list_all (\<lambda>(c, _). c \<le> s \<or> fst run \<le> c) calls) calls"

definition leads_burst :: "int \<Rightarrow> (int \<times> 'a) list \<Rightarrow> int \<times> 'a \<Rightarrow> bool" where
  "leads_burst wait calls run =
     (run \<in> set calls \<and> list_all (\<lambda>(c, _). c + wait \<le> fst run \<or> fst run \<le> c) calls)"

definition debounce_inv :: "int \<Rightarrow> bool \<Rightarrow> ('a, 'r) debounce_world \<Rightarrow> bool" where
  "debounce_inv wait immediate w =
     (let st = dw_state w; calls = dw_calls w in
      sorted (map fst calls) \<and> list_all (\<lambda>(t, _). t \<le> dw_clock w) calls
      \<and> list_all (\<lambda>(t, _). t \<le> dw_clock w) (dw_runs w)
      \<and> (calls \<noteq> [] \<longrightarrow> db_timestamp st = fst (last calls))
      \<and> (db_timeout st \<noteq> None \<longrightarrow> calls \<noteq> [] \<and> (\<not> immediate \<longrightarrow> db_args st = Some (snd (last calls))))
      \<and> (db_timeout st = None \<and> calls \<noteq> [] \<longrightarrow> fst (last calls) + wait \<le> dw_clock w)
      \<and> list_all (if immediate then leads_burst wait calls else after_quiet wait calls) (dw_runs w))"

lemma debounce_later_call:
  assumes "list_all (\<lambda>(t, _). t \<le> now) runs"
    and "list_all (if immediate then leads_burst wait calls else after_quiet wait calls) runs"
  shows "list_all (if immediate then leads_burst wait (calls @ [(now, a)]) else after_quiet wait (calls @ [(now, a)])) runs"
  unfolding list_all_iff
proof
  fix run assume "run \<in> set runs"
  with assms have "if immediate then leads_burst wait calls run else after_quiet wait calls run" "fst run \<le> now"
    by (auto simp: list_all_iff)
  then show "(if immediate then leads_burst wait (calls @ [(now, a)]) else after_quiet wait (calls @ [(now, a)])) run"
    by (fastforce simp: leads_burst_def after_quiet_def list_ex_iff list_all_iff split: if_splits)
qed

lemma sorted_last_greatest:
  assumes "sorted (map fst calls)" "(c, b) \<in> set calls"
  shows "c \<le> fst (last calls)"
  using assms by (induction calls rule: rev_induct) (auto simp: sorted_append)

lemma debounce_inv_start:
  "debounce_inv wait immediate \<lparr>dw_clock = now, dw_state = debounce_init, dw_calls = [], dw_runs = []\<rparr>"
  by (simp add: debounce_inv_def debounce_init_def)

lemma debounce_inv_called:
  assumes inv: "debounce_inv wait immediate w" and now: "dw_clock w \<le> now"
    and step: "debounce_call func wait immediate now args (dw_state w) = (st, hit)"
  shows "debounce_inv wait immediate \<lparr>dw_clock = now, dw_state = st, dw_calls = dw_calls w @ [(now, args)],
    dw_runs = log_run now hit (dw_runs w)\<rparr>"
proof -
  let ?old = "dw_state w" and ?calls = "dw_calls w @ [(now, args)]"
  have base: "sorted (map fst ?calls)" "list_all (\<lambda>(t, _). t \<le> now) ?calls"
    "list_all (\<lambda>(t, _). t \<le> now) (dw_runs w)"
    using inv now by (force simp: debounce_inv_def Let_def sorted_append list_all_iff)+
  have kept: "list_all (if immediate then leads_burst wait ?calls else after_quiet wait ?calls) (dw_runs w)"
    using inv base(3) by (intro debounce_later_call) (simp_all add: debounce_inv_def Let_def)
  have st: "db_timestamp st = now" "db_timeout st \<noteq> None" "\<not> immediate \<Longrightarrow> db_args st = Some args \<and> hit = None"
    "immediate \<Longrightarrow> hit = (if db_timeout ?old = None then Some args else None)"
    using step by (auto simp: debounce_call_def Let_def split: if_splits option.splits)
  have lead: "leads_burst wait ?calls (now, args)" if "db_timeout ?old = None"
  proof -
    have "c + wait \<le> now" if "(c, b) \<in> set (dw_calls w)" for c b
    proof -
      have "c \<le> fst (last (dw_calls w))"
        using inv that by (intro sorted_last_greatest [of _ c b]) (simp_all add: debounce_inv_def Let_def)
      moreover have "dw_calls w \<noteq> []" using that by auto
      ultimately show ?thesis using inv now \<open>db_timeout ?old = None\<close> by (simp add: debounce_inv_def Let_def)
    qed
    then show ?thesis by (auto simp: leads_burst_def list_all_iff)
  qed
  show ?thesis
  proof (cases immediate)
    case True
    then show ?thesis using base kept st lead
      by (auto simp: debounce_inv_def Let_def log_run_def)
  next
    case False
    then show ?thesis using base kept st by (auto simp: debounce_inv_def Let_def log_run_def)
  qed
qed

lemma debounce_inv_fired:
  assumes inv: "debounce_inv wait immediate w" and now: "dw_clock w \<le> now"
    and due: "db_timeout (dw_state w) = Some due"
    and step: "debounce_later func wait immediate now (dw_state w) = (st, hit)"
  shows "debounce_inv wait immediate \<lparr>dw_clock = now, dw_state = st, dw_calls = dw_calls w,
    dw_runs = log_run now hit (dw_runs w)\<rparr>"
proof -
  let ?old = "dw_state w" and ?calls = "dw_calls w"
  have base: "sorted (map fst ?calls)" "list_all (\<lambda>(t, _). t \<le> now) ?calls"
    "list_all (\<lambda>(t, _). t \<le> now) (dw_runs w)" "?calls \<noteq> []" "db_timestamp ?old = fst (last ?calls)"
    "\<not> immediate \<Longrightarrow> db_args ?old = Some (snd (last ?calls))" "fst (last ?calls) \<le> now"
    "list_all (if immediate then leads_burst wait ?calls else after_quiet wait ?calls) (dw_runs w)"
    using inv now due unfolding debounce_inv_def Let_def
    by (simp_all add: list_all_iff) (fastforce dest: last_in_set)+
  show ?thesis
  proof (cases "now - db_timestamp ?old < wait")
    case True
    then have "hit = None" "db_timestamp st = db_timestamp ?old" "db_timeout st \<noteq> None" "db_args st = db_args ?old"
      using step base(5,7) by (auto simp: debounce_later_def Let_def)
    then show ?thesis using base by (auto simp: debounce_inv_def Let_def log_run_def)
  next
    case False
    then have quiet: "fst (last ?calls) + wait \<le> now" using base(5) by simp
    have st: "db_timestamp st = db_timestamp ?old" "db_timeout st = None"
      "hit = (if immediate then None else db_args ?old)"
      using step False by (auto simp: debounce_later_def Let_def split: if_splits)
    have "after_quiet wait ?calls (now, snd (last ?calls))"
      unfolding after_quiet_def list_ex_iff
    proof (rule bexI)
      show "case last ?calls of (s, b) \<Rightarrow> b = snd (now, snd (last ?calls)) \<and> s + wait \<le> fst (now, snd (last ?calls))
          \<and> list_all (\<lambda>(c, _). c \<le> s \<or> fst (now, snd (last ?calls)) \<le> c) ?calls"
        using quiet sorted_last_greatest [OF base(1)] by (auto simp: split_def list_all_iff)
    qed (use base(4) in simp)
    then show ?thesis using base st quiet
      by (auto simp: debounce_inv_def Let_def log_run_def)
  qed
qed

text \<open>
  C22. A debounced function runs on the trailing edge only after \<open>wait\<close> without a call, on the
  arguments of the latest call; on the leading edge only for a call that \<open>wait\<close> without calls
  preceded.
\<close>

theorem debounce_waits_for_quiet:
  assumes "debounce_run func wait immediate w"
  shows "list_all (if immediate then leads_burst wait (dw_calls w) else after_quiet wait (dw_calls w)) (dw_runs w)"
proof -
  from assms have "debounce_inv wait immediate w"
    by induction (auto intro: debounce_inv_start debounce_inv_called debounce_inv_fired)
  then show ?thesis by (simp add: debounce_inv_def Let_def)
qed

lemma debounce_waits_for_quiet_witness:
  "\<exists>w. debounce_run (\<lambda>x :: int. x) 10 True w \<and> dw_runs w = [(25, 1)]
    \<and> list_all (leads_burst 10 (dw_calls w)) (dw_runs w)"
proof -
  let ?f = "\<lambda>x :: int. x" and ?s = "\<lparr>db_timeout = Some 35, db_args = None, db_timestamp = 25, db_result = Some (1::int)\<rparr>"
  have "debounce_run ?f 10 True \<lparr>dw_clock = 20, dw_state = debounce_init, dw_calls = [], dw_runs = []\<rparr>"
    by (rule debounce_run.start)
  from debounce_run.called [OF this, of 25 1 ?s "Some 1"]
  have last: "debounce_run ?f 10 True \<lparr>dw_clock = 25, dw_state = ?s, dw_calls = [(25, 1)], dw_runs = [(25, 1)]\<rparr>"
    by (simp add: debounce_call_def debounce_init_def log_run_def)
  from debounce_waits_for_quiet [OF last] last show ?thesis by force
qed

end
