(* ===== verification/JsPath.thy ===== *)
theory JsPath
  imports JsValue
begin

text \<open>
  The \<open>path\<close> module of the search bundle (\<open>wordcut.js\<close>, module 22) and the absolute-path test of
  module 23: a path is a string of code units, its components are the parts between slashes.
  A regular expression of the code is spelt out as the split it denotes; a non-string argument
  is \<open>None\<close>, the TypeError. The theory shows that the backwards pass over the components is the
  usual walk through directories, that \<open>relative\<close> is undone by \<open>resolve\<close>, that \<open>dirname\<close> and
  \<open>basename\<close> name the same file together, and that \<open>normalize\<close> has nothing left to do on its own
  result.
\<close>

section \<open>Components\<close>

text \<open>\<open>split('/')\<close> and \<open>join('/')\<close>.\<close>

fun split_slash :: "js_string \<Rightarrow> js_string list" where
  "split_slash [] = [[]]"
| "split_slash (c # s) = (if c = 47 then [] # split_slash s
     else (c # hd (split_slash s)) # tl (split_slash s))"

fun join_slash :: "js_string list \<Rightarrow> js_string" where
  "join_slash [] = []" | "join_slash [p] = p" | "join_slash (p # ps) = p @ 47 # join_slash ps"

definition dot :: js_string where "dot = js ''.''"
definition dotdot :: js_string where "dotdot = js ''..''"

text \<open>
  The loop of \<open>normalizeArray\<close>, from the last part to the first: \<open>up\<close> counts the parents still to
  be taken, \<open>acc\<close> are the parts kept behind the current one.
\<close>

fun norm_loop :: "js_string list \<Rightarrow> nat \<Rightarrow> js_string list \<Rightarrow> js_string list \<times> nat" where
  "norm_loop [] up acc = (acc, up)"
| "norm_loop (p # ps) up acc =
     (if p = dot then norm_loop ps up acc
      else if p = dotdot then norm_loop ps (up + 1) acc
      else if up \<noteq> 0 then norm_loop ps (up - 1) acc
      else norm_loop ps up (p # acc))"

definition normalize_array :: "js_string list \<Rightarrow> bool \<Rightarrow> js_string list" where
  "normalize_array parts allow_above_root =
     (let (kept, up) = norm_loop (rev parts) 0 []
      in if allow_above_root then replicate up dotdot @ kept else kept)"

definition path_parts :: "js_string \<Rightarrow> js_string list" where
  "path_parts s = filter (\<lambda>p. p \<noteq> []) (split_slash s)"

section \<open>The operations\<close>

definition is_absolute :: "js_string \<Rightarrow> bool" where
  "is_absolute path = (take 1 path = [47])"

text \<open>The loop of \<open>resolve\<close> over the arguments from the last one on, ended by the working directory.\<close>

fun resolve_loop :: "js_value list \<Rightarrow> js_string \<Rightarrow> bool \<Rightarrow> (js_string \<times> bool) option" where
  "resolve_loop [] path absolute = Some (path, absolute)"
| "resolve_loop (arg # args) path absolute =
     (if absolute then Some (path, absolute)
      else case arg of
          JStr p \<Rightarrow> if p = [] then resolve_loop args path absolute
                    else resolve_loop args (p @ [47] @ path) (is_absolute p)
        | _ \<Rightarrow> None)"

definition path_resolve :: "js_string \<Rightarrow> js_value list \<Rightarrow> js_string option" where
  "path_resolve cwd args =
     map_option (\<lambda>(path, absolute).
         let r = (if absolute then [47] else []) @ join_slash (normalize_array (path_parts path) (\<not> absolute))
         in if r = [] then dot else r)
       (resolve_loop (rev args @ [JStr cwd]) [] False)"

definition path_normalize :: "js_string \<Rightarrow> js_string" where
  "path_normalize path =
     (let absolute = is_absolute path;
          trailing = (path \<noteq> [] \<and> last path = 47);
          p1 = join_slash (normalize_array (path_parts path) (\<not> absolute));
          p2 = (if p1 = [] \<and> \<not> absolute then dot else p1);
          p3 = (if p2 \<noteq> [] \<and> trailing then p2 @ [47] else p2)
      in (if absolute then [47] else []) @ p3)"

definition path_join :: "js_value list \<Rightarrow> js_string option" where
  "path_join args =
     (if list_all (\<lambda>a. case a of JStr _ \<Rightarrow> True | _ \<Rightarrow> False) args
      then Some (path_normalize (join_slash (filter (\<lambda>p. p \<noteq> [])
             (map (\<lambda>a. case a of JStr s \<Rightarrow> s | _ \<Rightarrow> []) args))))
      else None)"

text \<open>\<open>trim\<close>: the slice it takes is \<open>slice(start, end - start + 1)\<close>.\<close>

definition trim_parts :: "js_string list \<Rightarrow> js_string list" where
  "trim_parts arr =
     (let start = length (takeWhile (\<lambda>p. p = []) arr);
          last = int (length arr) - 1 - int (length (takeWhile (\<lambda>p. p = []) (rev arr)))
      in if int start > last then []
         else take (nat (last - int start + 1) - start) (drop start arr))"

fun common_prefix :: "js_string list \<Rightarrow> js_string list \<Rightarrow> nat" where
  "common_prefix (a # as) (b # bs) = (if a = b then Suc (common_prefix as bs) else 0)"
| "common_prefix _ _ = 0"

definition path_relative :: "js_string \<Rightarrow> js_value \<Rightarrow> js_value \<Rightarrow> js_string option" where
  "path_relative cwd src dst =
     (case (path_resolve cwd [src], path_resolve cwd [dst]) of
        (Some f, Some t) \<Rightarrow>
          (let from_parts = trim_parts (split_slash (tl f));
               to_parts = trim_parts (split_slash (tl t));
               k = common_prefix from_parts to_parts
           in Some (join_slash (replicate (length from_parts - k) dotdot @ drop k to_parts)))
      | _ \<Rightarrow> None)"

text \<open>
  \<open>splitPath\<close>: the root slash, the directory with its last slash, the base name, and the extension
  from the last dot that is not the first character; trailing slashes belong to none of them.
\<close>

definition ext_of :: "js_string \<Rightarrow> js_string" where
  "ext_of base =
     (let suffix = takeWhile (\<lambda>c. c \<noteq> 46) (rev base)
      in if base = dotdot \<or> length suffix + 1 \<ge> length base then [] else 46 # rev suffix)"

definition split_path :: "js_string \<Rightarrow> js_string \<times> js_string \<times> js_string \<times> js_string" where
  "split_path filename =
     (let root = take 1 (takeWhile (\<lambda>c. c = 47) filename);
          rest = drop (length root) filename;
          stripped = rev (dropWhile (\<lambda>c. c = 47) (rev rest));
          base = rev (takeWhile (\<lambda>c. c \<noteq> 47) (rev stripped));
          dir = take (length stripped - length base) stripped
      in (root, dir, base, ext_of base))"

definition path_dirname :: "js_string \<Rightarrow> js_string" where
  "path_dirname path =
     (let (root, dir, _, _) = split_path path
      in if root = [] \<and> dir = [] then dot else root @ (if dir \<noteq> [] then butlast dir else dir))"

definition path_basename :: "js_string \<Rightarrow> js_string \<Rightarrow> js_string" where
  "path_basename path ext =
     (let (_, _, f, _) = split_path path
      in if ext \<noteq> [] \<and> drop (length f - length ext) f = ext then take (length f - length ext) f else f)"

definition path_extname :: "js_string \<Rightarrow> js_string" where
  "path_extname path = (let (_, _, _, ext) = split_path path in ext)"

text \<open>\<open>process.cwd\<close> of the browser shim.\<close>

definition process_cwd :: js_string where "process_cwd = js ''/''"

section \<open>The absolute-path test for Windows\<close>

definition is_letter :: "nat \<Rightarrow> bool" where
  "is_letter c = (65 \<le> c \<and> c \<le> 90 \<or> 97 \<le> c \<and> c \<le> 122)"

definition is_sep :: "nat \<Rightarrow> bool" where
  "is_sep c = (c = 92 \<or> c = 47)"

text \<open>
  The device of a path: a letter and a colon, or a UNC prefix, two separators, a name, separators
  and a name; the number of its code units.
\<close>

definition unc_device :: "js_string \<Rightarrow> nat" where
  "unc_device s =
     (let r = drop 2 s;
          host = takeWhile (\<lambda>c. \<not> is_sep c) r;
          seps = takeWhile is_sep (drop (length host) r);
          share = takeWhile (\<lambda>c. \<not> is_sep c) (drop (length host + length seps) r)
      in if length (takeWhile is_sep (take 2 s)) = 2 \<and> host \<noteq> [] \<and> seps \<noteq> [] \<and> share \<noteq> []
         then 2 + length host + length seps + length share else 0)"

definition win32_is_absolute :: "js_string \<Rightarrow> bool" where
  "win32_is_absolute s =
     (let device = (if length s \<ge> 2 \<and> is_letter (s ! 0) \<and> s ! 1 = 58 then 2 else unc_device s);
          is_unc = (device > 0 \<and> (take 1 (drop 1 s) \<noteq> [58]));
          rest = drop device s
      in (rest \<noteq> [] \<and> is_sep (hd rest)) \<or> is_unc)"

section \<open>Splitting and joining\<close>

lemma split_slash_nonempty [simp]: "split_slash s \<noteq> []"
  by (cases s) auto

lemma split_slash_append: "split_slash (a @ 47 # b) = split_slash a @ split_slash b"
  by (induction a) auto

lemma path_parts_append: "path_parts (a @ 47 # b) = path_parts a @ path_parts b"
  by (simp add: path_parts_def split_slash_append)

lemma path_parts_simps [simp]: "path_parts [] = []" "path_parts (47 # s) = path_parts s"
  by (simp_all add: path_parts_def)

lemma path_parts_trailing [simp]: "path_parts (a @ [47]) = path_parts a"
  using path_parts_append [of a "[]"] by simp

text \<open>A component: not empty and without a slash.\<close>

definition component :: "js_string \<Rightarrow> bool" where
  "component p = (p \<noteq> [] \<and> 47 \<notin> set p)"

lemma split_slash_component: "47 \<notin> set p \<Longrightarrow> split_slash p = [p]"
  by (induction p) auto

lemma split_join: "list_all component ps \<Longrightarrow> ps \<noteq> [] \<Longrightarrow> split_slash (join_slash ps) = ps"
  by (induction ps rule: join_slash.induct)
    (auto simp: component_def split_slash_component split_slash_append)

lemma parts_join: "list_all component ps \<Longrightarrow> path_parts (join_slash ps) = ps"
proof (cases "ps = []")
  case False
  assume "list_all component ps"
  with False have "path_parts (join_slash ps) = filter (\<lambda>p. p \<noteq> []) ps" "\<forall>p \<in> set ps. p \<noteq> []"
    by (auto simp: path_parts_def split_join list_all_iff component_def)
  then show ?thesis by simp
qed simp

lemma split_slash_no_slash: "p \<in> set (split_slash s) \<Longrightarrow> 47 \<notin> set p"
proof (induction s arbitrary: p)
  case (Cons c s)
  have "hd (split_slash s) \<in> set (split_slash s)" by simp
  with Cons show ?case by (cases "split_slash s") (auto split: if_splits)
qed simp

lemma path_parts_components: "list_all component (path_parts s)"
  by (auto simp: list_all_iff path_parts_def component_def dest: split_slash_no_slash)

section \<open>Walking\<close>

text \<open>
  The reference: walking through the parts from the first on, with the number of steps above the
  start and the directories entered since.
\<close>

definition walk_step :: "nat \<times> js_string list \<Rightarrow> js_string \<Rightarrow> nat \<times> js_string list" where
  "walk_step st p =
     (case st of (u, s) \<Rightarrow>
        if p = dot then (u, s)
        else if p = dotdot then (if s = [] then (u + 1, []) else (u, butlast s))
        else (u, s @ [p]))"

lemma walk_step_simp:
  "walk_step (u, s) p = (if p = dot then (u, s)
     else if p = dotdot then (if s = [] then (u + 1, []) else (u, butlast s)) else (u, s @ [p]))"
  by (simp add: walk_step_def)

definition walk :: "js_string list \<Rightarrow> nat \<times> js_string list" where
  "walk parts = foldl walk_step (0, []) parts"

lemma dot_not_dotdot [simp]: "dot \<noteq> dotdot" "dotdot \<noteq> dot"
  by (simp_all add: dot_def dotdot_def)

lemma walk_snoc: "walk (ps @ [p]) = walk_step (walk ps) p"
  by (simp add: walk_def)

lemma norm_loop_walk:
  "norm_loop (rev ps) k acc = (case walk ps of (u, s) \<Rightarrow>
     if k \<le> length s then (take (length s - k) s @ acc, u) else (acc, u + (k - length s)))"
proof (induction ps arbitrary: k acc rule: rev_induct)
  case Nil
  then show ?case by (simp add: walk_def)
next
  case (snoc p ps)
  obtain u s where w: "walk ps = (u, s)" by (cases "walk ps")
  consider "p = dot" | "p = dotdot" | "p \<noteq> dot" "p \<noteq> dotdot" by blast
  then show ?case
  proof cases
    case 1
    then show ?thesis using snoc [of k acc] w by (simp add: walk_snoc walk_step_simp)
  next
    case 2
    have "take (length s - Suc k) s = take (length (butlast s) - k) (butlast s)" if "s \<noteq> []"
      by (simp add: butlast_conv_take min_def)
    moreover have "u + (k + 1 - length s) = u + (k - length (butlast s))" "Suc k \<le> length s \<longleftrightarrow> k \<le> length (butlast s)"
      if "s \<noteq> []" using that by (cases s; simp)+
    ultimately show ?thesis using 2 snoc [of "k + 1" acc] w
      by (cases "s = []") (simp_all add: walk_snoc walk_step_simp del: length_butlast)
  next
    case 3
    show ?thesis
    proof (cases k)
      case 0
      with 3 show ?thesis using snoc [of 0 "p # acc"] w by (simp add: walk_snoc walk_step_simp)
    next
      case (Suc j)
      with 3 show ?thesis using snoc [of j acc] w by (auto simp: walk_snoc walk_step_simp)
    qed
  qed
qed

lemma normalize_array_walk:
  "normalize_array ps allow = (case walk ps of (u, s) \<Rightarrow> (if allow then replicate u dotdot else []) @ s)"
  using norm_loop_walk [of ps 0 "[]"] by (auto simp: normalize_array_def split: prod.splits)

definition clean :: "js_string list \<Rightarrow> bool" where
  "clean ps = (list_all component ps \<and> dot \<notin> set ps \<and> dotdot \<notin> set ps)"

lemma walk_clean: "list_all component ps \<Longrightarrow> clean (snd (walk ps))"
proof (induction ps rule: rev_induct)
  case (snoc p ps)
  obtain u s where w: "walk ps = (u, s)" by (cases "walk ps")
  with snoc show ?case
    by (auto simp: walk_snoc walk_step_simp clean_def list_all_iff dest: in_set_butlastD)
qed (simp add: walk_def clean_def)

lemma foldl_clean: "clean ps \<Longrightarrow> foldl walk_step (u, s) ps = (u, s @ ps)"
  by (induction ps arbitrary: s) (auto simp: walk_step_simp clean_def)

lemma foldl_up: "n \<le> length s \<Longrightarrow> foldl walk_step (u, s) (replicate n dotdot) = (u, take (length s - n) s)"
proof (induction n arbitrary: s)
  case (Suc n)
  then show ?case by (cases s rule: rev_cases) (auto simp: walk_step_simp Suc_diff_le)
qed simp

lemma foldl_ups: "foldl walk_step (u, []) (replicate n dotdot) = (u + n, [])"
  by (induction n arbitrary: u) (auto simp: walk_step_simp)

lemma foldl_ups_from:
  "foldl walk_step (v, t) (replicate n dotdot) = (v + (n - length t), take (length t - n) t)"
proof (cases "n \<le> length t")
  case True
  then show ?thesis by (simp add: foldl_up)
next
  case False
  then have "replicate n dotdot = replicate (length t) dotdot @ replicate (n - length t) dotdot"
    by (simp flip: replicate_add)
  with False show ?thesis by (simp add: foldl_up foldl_ups)
qed

lemma foldl_walk:
  "foldl walk_step (v, t) ps = (case walk ps of (u, s) \<Rightarrow> (v + (u - length t), take (length t - u) t @ s))"
proof (induction ps rule: rev_induct)
  case Nil
  then show ?case by (simp add: walk_def)
next
  case (snoc p ps)
  obtain u s where w: "walk ps = (u, s)" by (cases "walk ps")
  have "butlast (take (length t - u) t) = take (length t - Suc u) t" if "u < length t"
    using that by (simp add: butlast_take)
  with snoc w show ?case
    by (cases s rule: rev_cases) (auto simp: walk_snoc walk_step_simp butlast_append split: prod.splits)
qed

lemma walk_append: "walk (ps @ qs) = foldl walk_step (walk ps) qs"
  by (simp add: walk_def)

section \<open>Resolving\<close>

text \<open>The parts a path names from a working directory.\<close>

definition full_parts :: "js_string \<Rightarrow> js_string \<Rightarrow> js_string list" where
  "full_parts cwd p = (if is_absolute p then path_parts p else path_parts cwd @ path_parts p)"

lemma is_absolute_nonempty: "is_absolute p \<Longrightarrow> p \<noteq> []"
  by (auto simp: is_absolute_def)

lemma resolve_from_loop:
  assumes "resolve_loop (rev args @ [JStr cwd]) [] False = Some (path, True)"
  shows "path_resolve cwd args = Some (47 # join_slash (snd (walk (path_parts path))))"
  using assms by (simp add: path_resolve_def normalize_array_walk split: prod.splits)

lemma resolve_one:
  assumes "is_absolute cwd"
  shows "path_resolve cwd [JStr p] = Some (47 # join_slash (snd (walk (full_parts cwd p))))"
proof -
  have "cwd \<noteq> []" "is_absolute p \<Longrightarrow> p \<noteq> []" using assms is_absolute_nonempty by blast+
  then obtain path where "resolve_loop (rev [JStr p] @ [JStr cwd]) [] False = Some (path, True)"
    and "path_parts path = full_parts cwd p"
    using assms by (cases "p = []"; cases "is_absolute p") (simp_all add: full_parts_def path_parts_append)
  then show ?thesis using resolve_from_loop by metis
qed

lemma resolve_loop_step:
  "resolve_loop (JStr p # args) path False =
     resolve_loop args (if p = [] then path else p @ [47] @ path) (is_absolute p)"
  by (simp add: is_absolute_def)

lemma resolve_loop_absolute: "resolve_loop args path True = Some (path, True)"
  by (cases args) auto

lemma resolve_two:
  assumes "is_absolute cwd" "\<not> is_absolute q"
  shows "path_resolve cwd [JStr p, JStr q] = Some (47 # join_slash (snd (walk (full_parts cwd p @ path_parts q))))"
proof -
  define rest where "rest = (if q = [] then [] else q @ [47])"
  define path where "path = (if is_absolute p then p @ [47] @ rest
    else cwd @ [47] @ (if p = [] then rest else p @ [47] @ rest))"
  have q: "is_absolute q = False" and cwd: "is_absolute cwd = True" "(cwd = []) = False"
    using assms is_absolute_nonempty by auto
  have p: "(p = []) = False" if "is_absolute p" using is_absolute_nonempty [OF that] by simp
  have "resolve_loop [JStr q, JStr p, JStr cwd] [] False = resolve_loop [JStr p, JStr cwd] rest False"
    unfolding resolve_loop_step [of q] q rest_def by simp
  also have "\<dots> = Some (path, True)"
  proof (cases "is_absolute p")
    case True
    show ?thesis using True unfolding resolve_loop_step [of p] path_def p [OF True] if_False
      by (simp add: resolve_loop_absolute del: resolve_loop.simps)
  next
    case False
    have eq: "is_absolute p = False" using False by simp
    show ?thesis unfolding resolve_loop_step [of p] path_def eq resolve_loop_step [of cwd] cwd if_False
      by (rule resolve_loop_absolute)
  qed
  finally have "path_resolve cwd [JStr p, JStr q] = Some (47 # join_slash (snd (walk (path_parts path))))"
    using resolve_from_loop [of "[JStr p, JStr q]" cwd path] by simp
  moreover have "path_parts path = full_parts cwd p @ path_parts q"
    by (simp add: path_def rest_def full_parts_def path_parts_append)
  ultimately show ?thesis by simp
qed

lemma full_components: "list_all component (full_parts cwd p)"
  using path_parts_components [of p] path_parts_components [of cwd] by (simp add: full_parts_def)

lemma trim_split:
  assumes "list_all component ps"
  shows "trim_parts (split_slash (join_slash ps)) = ps"
proof (cases "ps = []")
  case True
  then show ?thesis by (simp add: trim_parts_def)
next
  case False
  have "takeWhile (\<lambda>p. p = []) ps = []" "takeWhile (\<lambda>p. p = []) (rev ps) = []"
    using assms False by (simp_all add: takeWhile_eq_Nil_iff list_all_iff component_def hd_rev)
  then show ?thesis using False assms by (simp add: split_join trim_parts_def Let_def)
qed

lemma common_prefix_take: "take (common_prefix as bs) as = take (common_prefix as bs) bs"
  by (induction as bs rule: common_prefix.induct) auto

lemma common_prefix_le: "common_prefix as bs \<le> length as"
  by (induction as bs rule: common_prefix.induct) auto

lemma join_relative: "list_all component ps \<Longrightarrow> \<not> is_absolute (join_slash ps)"
  by (cases ps rule: join_slash.cases) (auto simp: is_absolute_def component_def take_Cons' neq_Nil_conv)

text \<open>
  C33. Resolving what \<open>relative\<close> gives, from where it starts, leads to where it should.
\<close>

theorem resolve_relative:
  assumes "is_absolute cwd"
  shows "\<exists>r. path_relative cwd (JStr src) (JStr dst) = Some r
    \<and> path_resolve cwd [JStr src, JStr r] = path_resolve cwd [JStr dst]"
proof -
  obtain u A where A: "walk (full_parts cwd src) = (u, A)" by (cases "walk (full_parts cwd src)")
  obtain v B where B: "walk (full_parts cwd dst) = (v, B)" by (cases "walk (full_parts cwd dst)")
  have clean: "clean A" "clean B" using walk_clean [OF full_components, of cwd] A B by (metis snd_conv)+
  then have comps: "list_all component A" "list_all component B" by (simp_all add: clean_def)
  define k where "k = common_prefix A B"
  let ?rel = "replicate (length A - k) dotdot @ drop k B"
  have rel: "path_relative cwd (JStr src) (JStr dst) = Some (join_slash ?rel)"
    using resolve_one [OF assms, of src] resolve_one [OF assms, of dst] A B comps
    by (simp add: path_relative_def trim_split k_def Let_def)
  have rel_comps: "list_all component ?rel"
    using comps(2) by (auto simp: list_all_iff component_def dotdot_def dest: in_set_dropD)
  have "walk (full_parts cwd src @ ?rel) = foldl walk_step (foldl walk_step (u, A) (replicate (length A - k) dotdot)) (drop k B)"
    using A by (simp add: walk_append)
  also have "\<dots> = foldl walk_step (u, take k A) (drop k B)"
    using common_prefix_le [of A B] by (simp add: foldl_up k_def)
  also have "\<dots> = (u, take k A @ drop k B)"
    using clean(2) by (intro foldl_clean) (auto simp: clean_def list_all_iff dest: in_set_dropD)
  also have "take k A @ drop k B = B" using common_prefix_take [of A B] by (simp add: k_def)
  finally have "path_resolve cwd [JStr src, JStr (join_slash ?rel)] = Some (47 # join_slash B)"
    using resolve_two [OF assms join_relative [OF rel_comps], of src] parts_join [OF rel_comps] by simp
  then show ?thesis using rel resolve_one [OF assms, of dst] B by simp
qed

lemma resolve_relative_witness:
  "\<exists>r. path_relative process_cwd (JStr (js ''/a/b'')) (JStr (js ''/a/c/d'')) = Some r
    \<and> path_resolve process_cwd [JStr (js ''/a/b''), JStr r] = path_resolve process_cwd [JStr (js ''/a/c/d'')]"
  by (rule resolve_relative) (simp add: is_absolute_def process_cwd_def)

section \<open>Normal forms\<close>

lemma walk_idem:
  assumes "walk ps = (u, s)" "list_all component ps"
  shows "walk (replicate u dotdot @ s) = (u, s)"
proof -
  have "clean s" using walk_clean [OF assms(2)] assms(1) by simp
  then show ?thesis using foldl_ups [of 0 u] foldl_clean [of s u "[]"] by (simp add: walk_def)
qed

lemma join_last:
  assumes "list_all component ps" "ps \<noteq> []"
  shows "join_slash ps \<noteq> [] \<and> last (join_slash ps) \<noteq> 47"
  using assms
proof (induction ps rule: join_slash.induct)
  case (2 p)
  then show ?case by (auto simp: component_def dest: last_in_set)
qed auto

text \<open>The parts a normal form is made of.\<close>

definition normal_parts :: "js_string \<Rightarrow> js_string list" where
  "normal_parts path = (case walk (path_parts path) of (u, s) \<Rightarrow>
     (if is_absolute path then s else if u = 0 \<and> s = [] then [dot] else replicate u dotdot @ s))"

lemma dot_component [simp]: "component dot" "component dotdot"
  by (simp_all add: component_def dot_def dotdot_def)

lemma normal_components: "list_all component (normal_parts path)"
proof -
  obtain u s where w: "walk (path_parts path) = (u, s)" by (cases "walk (path_parts path)")
  then have "list_all component s" using walk_clean [OF path_parts_components, of path] by (simp add: clean_def)
  with w show ?thesis by (auto simp: normal_parts_def list_all_iff)
qed

lemma path_normalize_eq:
  "path_normalize path = (if is_absolute path then [47] else []) @ join_slash (normal_parts path)
     @ (if normal_parts path \<noteq> [] \<and> path \<noteq> [] \<and> last path = 47 then [47] else [])"
proof -
  obtain u s where w: "walk (path_parts path) = (u, s)" by (cases "walk (path_parts path)")
  have comps: "list_all component s" "list_all component (replicate u dotdot @ s)"
    using walk_clean [OF path_parts_components, of path] w by (auto simp: clean_def list_all_iff)
  have "join_slash ps = [] \<longleftrightarrow> ps = []" if "list_all component ps" for ps
    using join_last [OF that] by auto
  note empty = this [OF comps(1)] this [OF comps(2)]
  show ?thesis
    using w empty
    by (auto simp: path_normalize_def normalize_array_walk normal_parts_def Let_def dot_def)
qed

lemma normalize_facts:
  shows "is_absolute (path_normalize path) = is_absolute path"
    and "path_parts (path_normalize path) = normal_parts path"
    and "normal_parts path \<noteq> [] \<Longrightarrow> (path_normalize path \<noteq> [] \<and> last (path_normalize path) = 47)
      = (path \<noteq> [] \<and> last path = 47)"
proof -
  note comps = normal_components [of path]
  have ne: "normal_parts path \<noteq> []" if "\<not> is_absolute path"
    using that by (auto simp: normal_parts_def split: prod.splits)
  show "is_absolute (path_normalize path) = is_absolute path"
  proof (cases "is_absolute path")
    case True
    then show ?thesis by (simp add: path_normalize_eq is_absolute_def)
  next
    case False
    obtain c cs where "join_slash (normal_parts path) = c # cs"
      using ne [OF False] join_last [OF comps] by (cases "join_slash (normal_parts path)") auto
    with False join_relative [OF comps] show ?thesis by (auto simp: path_normalize_eq is_absolute_def)
  qed
  show "path_parts (path_normalize path) = normal_parts path"
    using parts_join [OF comps] by (auto simp: path_normalize_eq path_parts_append)
  show "(path_normalize path \<noteq> [] \<and> last (path_normalize path) = 47) = (path \<noteq> [] \<and> last path = 47)"
    if "normal_parts path \<noteq> []"
    using that join_last [OF comps that] by (auto simp: path_normalize_eq)
qed

lemma normal_parts_fixed:
  assumes "is_absolute q = is_absolute path" "path_parts q = normal_parts path"
  shows "normal_parts q = normal_parts path"
proof -
  obtain u s where w: "walk (path_parts path) = (u, s)" by (cases "walk (path_parts path)")
  have clean: "clean s" using walk_clean [OF path_parts_components, of path] w by simp
  have "walk (replicate u dotdot @ s) = (u, s)" using w path_parts_components by (rule walk_idem)
  moreover have "walk s = (0, s)" using foldl_clean [OF clean, of 0 "[]"] by (simp add: walk_def)
  moreover have "walk [dot] = (0, [])" by (simp add: walk_def walk_step_simp)
  ultimately show ?thesis using assms w by (auto simp: normal_parts_def)
qed

lemma path_normalize_idem: "path_normalize (path_normalize path) = path_normalize path"
proof -
  note facts = normalize_facts [of path]
  have "normal_parts (path_normalize path) = normal_parts path"
    using facts(1,2) by (rule normal_parts_fixed)
  moreover have "(normal_parts path \<noteq> [] \<and> path_normalize path \<noteq> [] \<and> last (path_normalize path) = 47)
      = (normal_parts path \<noteq> [] \<and> path \<noteq> [] \<and> last path = 47)" using facts(3) by blast
  ultimately show ?thesis
    using path_normalize_eq [of "path_normalize path"] path_normalize_eq [of path] facts(1) by simp
qed

text \<open>
  \<open>normalize\<close> leaves its own results alone, and a path resolves to the same file before and
  after it.
\<close>

theorem normalize_canonical:
  assumes "is_absolute cwd"
  shows "path_normalize (path_normalize path) = path_normalize path
    \<and> path_resolve cwd [JStr (path_normalize path)] = path_resolve cwd [JStr path]"
proof (intro conjI)
  note facts = normalize_facts [of path]
  show "path_normalize (path_normalize path) = path_normalize path" by (rule path_normalize_idem)
  obtain u s where w: "walk (path_parts path) = (u, s)" by (cases "walk (path_parts path)")
  have clean: "clean s" using walk_clean [OF path_parts_components, of path] w by simp
  have "snd (walk (full_parts cwd (path_normalize path))) = snd (walk (full_parts cwd path))"
  proof (cases "is_absolute path")
    case True
    then show ?thesis using facts(1,2) w foldl_clean [OF clean, of 0 "[]"]
      by (simp add: full_parts_def normal_parts_def walk_def)
  next
    case False
    obtain v t where cwd: "walk (path_parts cwd) = (v, t)" by (cases "walk (path_parts cwd)")
    have "foldl walk_step (v, t) (normal_parts path) = foldl walk_step (v, t) (path_parts path)"
      using False w foldl_walk [of v t "path_parts path"] foldl_clean [OF clean]
      by (auto simp: normal_parts_def foldl_ups_from walk_step_simp)
    with False facts(1,2) cwd show ?thesis by (simp add: full_parts_def walk_append)
  qed
  then show "path_resolve cwd [JStr (path_normalize path)] = path_resolve cwd [JStr path]"
    by (simp add: resolve_one [OF assms])
qed

lemma normalize_canonical_witness:
  "path_resolve process_cwd [JStr (path_normalize (js ''a/../b/''))] = path_resolve process_cwd [JStr (js ''a/../b/'')]"
  by (rule normalize_canonical [THEN conjunct2]) (simp add: is_absolute_def process_cwd_def)

section \<open>Directory and base name\<close>

lemma path_parts_slashes: "path_parts (s @ replicate n 47) = path_parts s"
proof (induction n arbitrary: s)
  case (Suc n)
  have "path_parts (s @ replicate (Suc n) 47) = path_parts ((s @ [47]) @ replicate n 47)" by simp
  also have "\<dots> = path_parts s" by (simp only: Suc path_parts_trailing)
  finally show ?case .
qed simp

lemma all_slashes: "list_all (\<lambda>c. c = 47) s \<Longrightarrow> s = replicate (length s) (47::nat)"
  by (induction s) auto

lemma strip_trailing:
  fixes s :: js_string
  defines "t \<equiv> rev (dropWhile (\<lambda>c. c = 47) (rev s))"
  shows "\<exists>n. s = t @ replicate n 47"
proof -
  let ?w = "takeWhile (\<lambda>c. c = 47) (rev s)"
  have "rev s = ?w @ dropWhile (\<lambda>c. c = 47) (rev s)" by simp
  then have "s = t @ rev ?w" unfolding t_def by (metis rev_append rev_rev_ident)
  moreover have "list_all (\<lambda>c. c = 47) ?w" by (auto simp: list_all_iff dest: set_takeWhileD)
  then have "rev ?w = replicate (length ?w) 47" using all_slashes by (metis rev_replicate)
  ultimately show ?thesis by metis
qed

lemma split_last_slash:
  fixes s :: js_string
  defines "b \<equiv> rev (takeWhile (\<lambda>c. c \<noteq> 47) (rev s))"
  shows "\<exists>d. (take (length s - length b) s = [] \<and> s = b \<or> take (length s - length b) s = d @ [47] \<and> s = d @ 47 # b)
    \<and> 47 \<notin> set b"
proof -
  let ?r = "dropWhile (\<lambda>c. c \<noteq> 47) (rev s)"
  have "rev s = takeWhile (\<lambda>c. c \<noteq> 47) (rev s) @ ?r" by simp
  then have s: "s = rev ?r @ b" unfolding b_def by (metis rev_append rev_rev_ident)
  have b: "47 \<notin> set b" unfolding b_def by (auto dest: set_takeWhileD)
  have dir: "take (length s - length b) s = rev ?r" using s by (metis add_diff_cancel_right' append_eq_conv_conj length_append)
  show ?thesis
  proof (cases ?r)
    case Nil
    with s dir b show ?thesis by auto
  next
    case (Cons c r)
    then have "c = 47" using hd_dropWhile [of "\<lambda>c. c \<noteq> 47" "rev s"] by simp
    with Cons s dir b show ?thesis by auto
  qed
qed

lemma split_path_facts:
  assumes "split_path p = (rt, dir, base, ext)"
  shows "rt = (if is_absolute p then [47] else [])"
    and "\<exists>d. (dir = [] \<and> path_parts p = path_parts base \<or> dir = d @ [47] \<and> path_parts p = path_parts d @ path_parts base
         \<and> (rt = [] \<longrightarrow> \<not> is_absolute d))"
    and "47 \<notin> set base" and "ext = ext_of base"
proof -
  define rest where "rest = drop (length rt) p"
  define stripped where "stripped = rev (dropWhile (\<lambda>c. c = 47) (rev rest))"
  have eqs: "rt = take 1 (takeWhile (\<lambda>c. c = 47) p)" "base = rev (takeWhile (\<lambda>c. c \<noteq> 47) (rev stripped))"
    "dir = take (length stripped - length base) stripped" "ext = ext_of base"
    using assms by (auto simp: split_path_def Let_def stripped_def rest_def)
  show rt: "rt = (if is_absolute p then [47] else [])"
    unfolding eqs(1) by (cases p) (auto simp: is_absolute_def)
  have p: "p = rt @ rest" unfolding rest_def rt by (cases p) (auto simp: is_absolute_def)
  obtain n where n: "rest = stripped @ replicate n 47" using strip_trailing [of rest] unfolding stripped_def by blast
  have parts: "path_parts p = path_parts stripped"
    using p n rt path_parts_slashes [of stripped n] by (cases "is_absolute p") auto
  obtain d where d: "dir = [] \<and> stripped = base \<or> dir = d @ [47] \<and> stripped = d @ 47 # base" and b: "47 \<notin> set base"
    using split_last_slash [of stripped] unfolding eqs(2) [symmetric] eqs(3) [symmetric] by blast
  show "47 \<notin> set base" by (rule b)
  show "ext = ext_of base" by (rule eqs(4))
  have "\<not> is_absolute d" if "rt = []" "stripped = d @ 47 # base"
  proof -
    have "p = d @ 47 # base @ replicate n 47" using that p n by simp
    moreover have "\<not> is_absolute p" using that(1) rt by (auto split: if_splits)
    ultimately show ?thesis by (cases d) (auto simp: is_absolute_def)
  qed
  with d parts path_parts_append [of d base] show "\<exists>d. (dir = [] \<and> path_parts p = path_parts base
      \<or> dir = d @ [47] \<and> path_parts p = path_parts d @ path_parts base \<and> (rt = [] \<longrightarrow> \<not> is_absolute d))"
    by auto
qed

lemma ext_of_suffix: "\<exists>stem. base = stem @ ext_of base"
proof -
  let ?suf = "takeWhile (\<lambda>c. c \<noteq> 46) (rev base)" and ?r = "dropWhile (\<lambda>c. c \<noteq> 46) (rev base)"
  have "rev base = ?suf @ ?r" by simp
  then have base: "base = rev ?r @ rev ?suf" by (metis rev_append rev_rev_ident)
  show ?thesis
  proof (cases ?r)
    case Nil
    then have "length ?suf = length base" using base by (metis append_self_conv2 length_rev rev.simps(1))
    then show ?thesis by (simp add: ext_of_def Let_def)
  next
    case (Cons c r)
    then have "c = 46" using hd_dropWhile [of "\<lambda>c. c \<noteq> 46" "rev base"] by simp
    with Cons base have "base = rev r @ 46 # rev ?suf" by simp
    then show ?thesis by (auto simp: ext_of_def Let_def)
  qed
qed

text \<open>
  The base name in the directory that \<open>dirname\<close> names is the file the path names; the base
  name ends in the extension.
\<close>

theorem dirname_basename:
  assumes "is_absolute cwd"
  shows "path_resolve cwd [JStr (path_dirname p), JStr (path_basename p [])] = path_resolve cwd [JStr p]
    \<and> (\<exists>stem. path_basename p [] = stem @ path_extname p)"
proof
  obtain rt dir base ext where sp: "split_path p = (rt, dir, base, ext)" by (cases "split_path p") auto
  note facts = split_path_facts [OF sp]
  have base: "path_basename p [] = base" using sp by (simp add: path_basename_def)
  show "\<exists>stem. path_basename p [] = stem @ path_extname p"
    using ext_of_suffix [of base] sp facts(4) by (simp add: base path_extname_def)
  have rel: "\<not> is_absolute base" using facts(3) by (cases base) (auto simp: is_absolute_def)
  have "snd (walk (full_parts cwd (path_dirname p) @ path_parts base)) = snd (walk (full_parts cwd p))"
  proof (cases "rt = [] \<and> dir = []")
    case True
    then have "path_dirname p = dot" "\<not> is_absolute p" "path_parts p = path_parts base"
      using sp facts(1,2) by (auto simp: path_dirname_def split: if_splits)
    moreover have "\<not> is_absolute dot" "path_parts dot = [dot]"
      by (simp_all add: is_absolute_def dot_def path_parts_def)
    ultimately show ?thesis
      by (cases "walk (path_parts cwd)") (simp add: full_parts_def walk_append walk_step_simp)
  next
    case False
    then have dn: "path_dirname p = rt @ (if dir \<noteq> [] then butlast dir else dir)"
      using sp by (auto simp: path_dirname_def)
    from facts(2) obtain d where d: "dir = [] \<and> path_parts p = path_parts base
      \<or> dir = d @ [47] \<and> path_parts p = path_parts d @ path_parts base \<and> (rt = [] \<longrightarrow> \<not> is_absolute d)" by blast
    then have "full_parts cwd (path_dirname p) @ path_parts base = full_parts cwd p"
      using False facts(1) unfolding dn by (auto simp: full_parts_def is_absolute_def split: if_splits)
    then show ?thesis by simp
  qed
  then show "path_resolve cwd [JStr (path_dirname p), JStr (path_basename p [])] = path_resolve cwd [JStr p]"
    unfolding base by (simp add: resolve_one [OF assms] resolve_two [OF assms rel])
qed

lemma dirname_basename_witness:
  "path_resolve process_cwd [JStr (path_dirname (js ''a/b.c/'')), JStr (path_basename (js ''a/b.c/'') [])]
   = path_resolve process_cwd [JStr (js ''a/b.c/'')]"
  by (rule dirname_basename [THEN conjunct1]) (simp add: is_absolute_def process_cwd_def)

end
