(* ===== verification/JsTick.thy ===== *)
theory JsTick
  imports JsValue
begin

text \<open>
  The queue of \<open>process.nextTick\<close> in the browser shim of the search bundle (\<open>wordcut.js\<close>,
  module 24). The module's variables are a record, together with the timers it has set and
  whether its loop is on the call stack; a task is run by a step of its own, which may push more
  tasks and may throw. The theory shows that every task is run once, in the order it was pushed,
  tasks that throw included, and that no task is left without something to run it.
\<close>

section \<open>The queue\<close>

record 't tick =
  tk_queue :: "'t list"
  tk_draining :: bool
  tk_current :: "'t list option"
  tk_index :: int
  tk_len :: "nat option"
  tk_drain_timers :: nat
  tk_clean_timers :: nat
  tk_pushed :: "'t list"
  tk_ran :: "'t list"

text \<open>
  \<open>tk_len\<close> is the loop's own variable while \<open>drainQueue\<close> runs, and \<open>None\<close> when it does not;
  the last two fields record what was pushed and what was run.
\<close>

definition tick_init :: "'t tick" where
  "tick_init = \<lparr>tk_queue = [], tk_draining = False, tk_current = None, tk_index = -1, tk_len = None,
     tk_drain_timers = 0, tk_clean_timers = 0, tk_pushed = [], tk_ran = []\<rparr>"

definition next_tick :: "'t \<Rightarrow> 't tick \<Rightarrow> 't tick" where
  "next_tick task st =
     (let st1 = st\<lparr>tk_queue := tk_queue st @ [task], tk_pushed := tk_pushed st @ [task]\<rparr>
      in if length (tk_queue st1) = 1 \<and> \<not> tk_draining st1
         then st1\<lparr>tk_drain_timers := tk_drain_timers st1 + 1\<rparr> else st1)"

text \<open>The head of the outer loop of \<open>drainQueue\<close>, and what follows the loop.\<close>

definition drain_pass :: "'t tick \<Rightarrow> 't tick" where
  "drain_pass st =
     (let len = length (tk_queue st)
      in if len \<noteq> 0
         then st\<lparr>tk_len := Some len, tk_current := Some (tk_queue st), tk_queue := []\<rparr>
         else st\<lparr>tk_len := None, tk_current := None, tk_draining := False,
                 tk_clean_timers := tk_clean_timers st - 1\<rparr>)"

definition drain_queue :: "'t tick \<Rightarrow> 't tick" where
  "drain_queue st =
     (if tk_draining st then st
      else drain_pass (st\<lparr>tk_clean_timers := tk_clean_timers st + 1, tk_draining := True\<rparr>))"

text \<open>
  One turn of the inner loop: it runs the next task, whose effect is the tasks it pushes and
  whether it throws, or ends the pass.
\<close>

definition drain_turn :: "('t \<Rightarrow> 't list \<times> bool) \<Rightarrow> 't tick \<Rightarrow> 't tick" where
  "drain_turn effect st =
     (case (tk_len st, tk_current st) of
        (Some len, Some current) \<Rightarrow>
          (let i = tk_index st + 1; st1 = st\<lparr>tk_index := i\<rparr> in
           if i < int len
           then (let task = current ! nat i;
                     st2 = fold next_tick (fst (effect task)) (st1\<lparr>tk_ran := tk_ran st1 @ [task]\<rparr>)
                 in if snd (effect task) then st2\<lparr>tk_len := None\<rparr> else st2)
           else drain_pass (st1\<lparr>tk_index := -1\<rparr>))
      | _ \<Rightarrow> st)"

definition clean_up :: "'t tick \<Rightarrow> 't tick" where
  "clean_up st =
     (case tk_current st of
        None \<Rightarrow> st
      | Some current \<Rightarrow>
          if \<not> tk_draining st then st
          else (let st1 = st\<lparr>tk_draining := False\<rparr>;
                    st2 = (if current \<noteq> [] then st1\<lparr>tk_queue := current @ tk_queue st1\<rparr>
                           else st1\<lparr>tk_index := -1\<rparr>)
                in if tk_queue st2 \<noteq> [] then drain_queue st2 else st2))"

text \<open>The histories: a push from outside, a turn of the running loop, a timer when nothing runs.\<close>

inductive tick_run :: "('t \<Rightarrow> 't list \<times> bool) \<Rightarrow> 't tick \<Rightarrow> bool" for effect where
  start: "tick_run effect tick_init"
| push: "tick_run effect st \<Longrightarrow> tk_len st = None \<Longrightarrow> tick_run effect (next_tick task st)"
| turn: "tick_run effect st \<Longrightarrow> tk_len st \<noteq> None \<Longrightarrow> tick_run effect (drain_turn effect st)"
| drain_timer: "tick_run effect st \<Longrightarrow> tk_len st = None \<Longrightarrow> tk_drain_timers st \<noteq> 0 \<Longrightarrow>
    tick_run effect (drain_queue (st\<lparr>tk_drain_timers := tk_drain_timers st - 1\<rparr>))"
| clean_timer: "tick_run effect st \<Longrightarrow> tk_len st = None \<Longrightarrow> tk_clean_timers st \<noteq> 0 \<Longrightarrow>
    tick_run effect (clean_up (st\<lparr>tk_clean_timers := tk_clean_timers st - 1\<rparr>))"

section \<open>The invariant\<close>

text \<open>The tasks still to be run.\<close>

definition tick_waiting :: "'t tick \<Rightarrow> 't list" where
  "tick_waiting st =
     (case tk_current st of None \<Rightarrow> [] | Some current \<Rightarrow> drop (nat (tk_index st + 1)) current) @ tk_queue st"

definition tick_inv :: "'t tick \<Rightarrow> bool" where
  "tick_inv st =
     (tk_ran st @ tick_waiting st = tk_pushed st
      \<and> -1 \<le> tk_index st
      \<and> (case tk_current st of
           None \<Rightarrow> \<not> tk_draining st \<and> tk_index st = -1 \<and> tk_len st = None \<and> tk_clean_timers st = 0
             \<and> (tk_queue st \<noteq> [] \<longrightarrow> tk_drain_timers st \<noteq> 0)
         | Some current \<Rightarrow> tk_draining st \<and> current \<noteq> [] \<and> tk_index st < int (length current)
             \<and> tk_clean_timers st = 1
             \<and> (tk_len st = Some (length current) \<or> tk_len st = None)))"

lemma next_tick_inv: "tick_inv st \<Longrightarrow> tick_inv (next_tick task st)"
  by (auto simp: tick_inv_def tick_waiting_def next_tick_def Let_def split: option.splits)

lemma next_tick_keeps [simp]:
  "tk_len (next_tick task st) = tk_len st" "tk_current (next_tick task st) = tk_current st"
  by (simp_all add: next_tick_def Let_def)

lemma fold_next_tick:
  "tick_inv st \<Longrightarrow> tick_inv (fold next_tick tasks st)"
  "tk_current (fold next_tick tasks st) = tk_current st"
  by (induction tasks arbitrary: st) (auto simp: next_tick_inv)

lemma drain_pass_inv:
  assumes "tk_ran st @ tk_queue st = tk_pushed st" "tk_index st = -1" "tk_draining st" "tk_clean_timers st = 1"
  shows "tick_inv (drain_pass st)"
  using assms by (auto simp: tick_inv_def tick_waiting_def drain_pass_def Let_def)

lemma drain_turn_inv: "tick_inv st \<Longrightarrow> tk_len st \<noteq> None \<Longrightarrow> tick_inv (drain_turn effect st)"
proof -
  assume inv: "tick_inv st" and running: "tk_len st \<noteq> None"
  then obtain current where cur: "tk_current st = Some current" "tk_len st = Some (length current)"
    by (auto simp: tick_inv_def split: option.splits)
  let ?i = "tk_index st + 1"
  show ?thesis
  proof (cases "?i < int (length current)")
    case True
    let ?task = "current ! nat ?i"
    let ?st = "st\<lparr>tk_index := ?i, tk_ran := tk_ran st @ [?task]\<rparr>"
    obtain n where n: "?i = int n" using inv cur(1) by (auto simp: tick_inv_def intro: nonneg_int_cases [of ?i])
    have "drop (nat ?i) current = ?task # drop (nat (?i + 1)) current"
      using True Cons_nth_drop_Suc [of n current] unfolding n by (simp add: nat_add_distrib)
    then have "tick_inv ?st" using inv cur True by (simp add: tick_inv_def tick_waiting_def add.assoc)
    then have "tick_inv (fold next_tick (fst (effect ?task)) ?st)" by (rule fold_next_tick)
    then show ?thesis using cur True fold_next_tick(2) [of "fst (effect ?task)" ?st]
      by (auto simp: drain_turn_def Let_def tick_inv_def tick_waiting_def)
  next
    case False
    then have "tick_inv (drain_pass (st\<lparr>tk_index := -1\<rparr>))"
      using inv cur by (intro drain_pass_inv) (auto simp: tick_inv_def tick_waiting_def)
    then show ?thesis using cur False by (simp add: drain_turn_def Let_def)
  qed
qed

lemma drain_timer_inv:
  assumes "tick_inv st" "tk_drain_timers st \<noteq> 0"
  shows "tick_inv (drain_queue (st\<lparr>tk_drain_timers := tk_drain_timers st - 1\<rparr>))"
proof (cases "tk_current st")
  case None
  let ?st = "st\<lparr>tk_drain_timers := tk_drain_timers st - 1, tk_clean_timers := 1, tk_draining := True\<rparr>"
  have "tick_inv (drain_pass ?st)"
    using assms None by (intro drain_pass_inv) (auto simp: tick_inv_def tick_waiting_def)
  then show ?thesis using assms None by (simp add: drain_queue_def tick_inv_def)
next
  case (Some current)
  with assms show ?thesis by (auto simp: drain_queue_def tick_inv_def tick_waiting_def)
qed

lemma clean_timer_inv:
  assumes inv: "tick_inv st" and idle: "tk_len st = None" "tk_clean_timers st \<noteq> 0"
  shows "tick_inv (clean_up (st\<lparr>tk_clean_timers := tk_clean_timers st - 1\<rparr>))"
proof -
  from inv idle obtain current where cur: "tk_current st = Some current"
    by (auto simp: tick_inv_def split: option.splits)
  with inv show ?thesis
    by (auto simp: clean_up_def drain_queue_def drain_pass_def tick_inv_def tick_waiting_def Let_def nat_add_distrib)
qed

section \<open>Properties\<close>

text \<open>
  C14. Whatever the tasks push and whether they throw, the tasks are run once each in the order they
  were pushed; and while a task waits the loop is running or a timer is set that will go on with it.
\<close>

theorem ticks_run_in_order:
  assumes "tick_run effect st"
  shows "tk_ran st @ tick_waiting st = tk_pushed st
    \<and> (tick_waiting st \<noteq> [] \<longrightarrow> tk_len st \<noteq> None \<or> tk_drain_timers st \<noteq> 0 \<or> tk_clean_timers st \<noteq> 0)"
proof -
  from assms have "tick_inv st"
  proof induction
    case start
    then show ?case by (simp add: tick_inv_def tick_init_def tick_waiting_def)
  next
    case (push st task)
    then show ?case by (intro next_tick_inv)
  next
    case (turn st)
    then show ?case by (intro drain_turn_inv)
  next
    case (drain_timer st)
    then show ?case by (intro drain_timer_inv)
  next
    case (clean_timer st)
    then show ?case by (intro clean_timer_inv)
  qed
  then show ?thesis by (auto simp: tick_inv_def tick_waiting_def split: option.splits)
qed

lemma ticks_run_in_order_witness:
  "\<exists>st. tick_run (\<lambda>t :: nat. if t = 1 then ([2], True) else ([], False)) st
    \<and> tk_ran st = [1, 2] \<and> tk_ran st @ tick_waiting st = tk_pushed st"
proof -
  let ?e = "\<lambda>t :: nat. if t = 1 then ([2], True) else ([], False)"
  let ?s1 = "next_tick 1 tick_init :: nat tick"
  let ?s2 = "drain_queue (?s1\<lparr>tk_drain_timers := tk_drain_timers ?s1 - 1\<rparr>)"
  let ?s3 = "drain_turn ?e ?s2"
  let ?s4 = "clean_up (?s3\<lparr>tk_clean_timers := tk_clean_timers ?s3 - 1\<rparr>)"
  let ?s5 = "drain_turn ?e ?s4"
  note defs = next_tick_def tick_init_def drain_queue_def drain_pass_def drain_turn_def clean_up_def Let_def
  have "tick_run ?e ?s1" by (intro tick_run.start tick_run.push) (simp add: tick_init_def)
  moreover have "tk_len ?s1 = None" "tk_drain_timers ?s1 \<noteq> 0" by (simp_all add: defs)
  ultimately have "tick_run ?e ?s2" by (intro tick_run.drain_timer)
  moreover have "tk_len ?s2 \<noteq> None" by (simp add: defs)
  ultimately have "tick_run ?e ?s3" by (rule tick_run.turn)
  moreover have "tk_len ?s3 = None" "tk_clean_timers ?s3 \<noteq> 0" by (simp_all add: defs)
  ultimately have "tick_run ?e ?s4" by (intro tick_run.clean_timer)
  moreover have "tk_len ?s4 \<noteq> None" by (simp add: defs)
  ultimately have last: "tick_run ?e ?s5" by (rule tick_run.turn)
  moreover have "tk_ran ?s5 = [1, 2]" by (simp add: defs)
  ultimately show ?thesis using ticks_run_in_order [OF last] by blast
qed

end
