(* ===== verification/JsEvents.thy ===== *)
theory JsEvents
  imports JsValue
begin

text \<open>
  The event emitter of the search bundle (\<open>wordcut.js\<close>, module 14). An emitter is the table of its
  slots, each a single listener or an array of them; the wrapper that \<open>once\<close> puts around a listener
  removes itself when it is called and runs the listener the first time only. A listener of the
  caller is a number, and does not touch the emitter. Event names that are names of inherited
  properties are left out. A history of calls is kept in the record. The depth of nested emissions
  is bounded by the number of listeners, since each but the first follows a removal; the theory
  shows that this bound is enough, so that every emission returns, that it calls the listeners in
  the order they were added, and that removing a listener just added restores what was there.
\<close>

section \<open>State\<close>

datatype listener = Plain nat | OnceOf nat nat

text \<open>\<open>OnceOf w f\<close> is the wrapper \<open>w\<close> around the function \<open>f\<close>, its property \<open>listener\<close>.\<close>

datatype slot = One listener | Many bool "listener list"

text \<open>The flag of an array is its property \<open>warned\<close>.\<close>

datatype emit_arg = ArgValue js_value | ArgListener listener

record emitter =
  em_events :: "(js_string \<times> slot) list"
  em_max :: "js_num option"
  em_fired :: "nat list"
  em_log :: "(listener \<times> js_string \<times> emit_arg list) list"

definition emitter_init :: emitter where
  "emitter_init = \<lparr>em_events = [], em_max = None, em_fired = [], em_log = []\<rparr>"

definition default_max_listeners :: js_num where
  "default_max_listeners = Fin 10"

definition new_listener :: js_string where "new_listener = js ''newListener''"
definition remove_listener_key :: js_string where "remove_listener_key = js ''removeListener''"

fun slot_list :: "slot option \<Rightarrow> listener list" where
  "slot_list None = []" | "slot_list (Some (One l)) = [l]" | "slot_list (Some (Many _ ls)) = ls"

text \<open>\<open>listeners\<close> and \<open>listenerCount\<close>.\<close>

definition em_listeners :: "js_string \<Rightarrow> emitter \<Rightarrow> listener list" where
  "em_listeners type st = slot_list (map_of (em_events st) type)"

definition em_listener_count :: "emitter \<Rightarrow> js_string \<Rightarrow> nat" where
  "em_listener_count st type =
     (case map_of (em_events st) type of None \<Rightarrow> 0 | Some (One _) \<Rightarrow> 1 | Some (Many _ ls) \<Rightarrow> length ls)"

text \<open>\<open>setMaxListeners\<close>; \<open>None\<close> is the TypeError.\<close>

definition set_max_listeners :: "js_value \<Rightarrow> emitter \<Rightarrow> emitter option" where
  "set_max_listeners n st =
     (case n of
        JNum m \<Rightarrow> if num_less m (Fin 0) \<or> m = NaN then None else Some (st\<lparr>em_max := Some m\<rparr>)
      | _ \<Rightarrow> None)"

section \<open>Removing and emitting\<close>

text \<open>What \<open>removeListener\<close> compares: the listener itself, or what it wraps.\<close>

fun is_listener :: "listener \<Rightarrow> listener \<Rightarrow> bool" where
  "is_listener (OnceOf w f) l = (l = OnceOf w f \<or> l = Plain f)"
| "is_listener (Plain f) l = (l = Plain f)"

text \<open>The last position of a match, taken out.\<close>

definition remove_last_match :: "listener \<Rightarrow> listener list \<Rightarrow> listener list option" where
  "remove_last_match l ls =
     (case filter (\<lambda>i. is_listener (ls ! i) l) [0..<length ls] of
        [] \<Rightarrow> None
      | is \<Rightarrow> Some (take (last is) ls @ drop (Suc (last is)) ls))"

text \<open>The table after \<open>removeListener\<close>, when it removes something.\<close>

definition removed_slot :: "js_string \<Rightarrow> listener \<Rightarrow> (js_string \<times> slot) list \<Rightarrow> (js_string \<times> slot) list option" where
  "removed_slot type l events =
     (case map_of events type of
        None \<Rightarrow> None
      | Some (One k) \<Rightarrow> if is_listener k l then Some (AList.delete type events) else None
      | Some (Many w ls) \<Rightarrow>
          (case remove_last_match l ls of
             None \<Rightarrow> None
           | Some ls' \<Rightarrow> Some (if ls' = [] then AList.delete type events
                              else AList.update type (Many w ls') events)))"

text \<open>
  \<open>removeListener\<close>, a wrapper's or listener's call, and \<open>emit\<close>, each over the emission that a
  removal may start; \<open>None\<close> is that emission not returning.
\<close>

definition remove_with ::
  "(js_string \<Rightarrow> emit_arg list \<Rightarrow> emitter \<Rightarrow> emitter option) \<Rightarrow> js_string \<Rightarrow> listener \<Rightarrow> emitter \<Rightarrow> emitter option" where
  "remove_with emit type l st =
     (case removed_slot type l (em_events st) of
        None \<Rightarrow> Some st
      | Some events \<Rightarrow>
          (let st1 = st\<lparr>em_events := events\<rparr>
           in if map_of events remove_listener_key \<noteq> None
              then emit remove_listener_key [ArgValue (JStr type), ArgListener l] st1 else Some st1))"

definition call_with ::
  "(js_string \<Rightarrow> emit_arg list \<Rightarrow> emitter \<Rightarrow> emitter option) \<Rightarrow> js_string \<Rightarrow> emit_arg list \<Rightarrow> listener \<Rightarrow> emitter \<Rightarrow> emitter option" where
  "call_with emit type args l st =
     (case l of
        Plain f \<Rightarrow> Some (st\<lparr>em_log := em_log st @ [(l, type, args)]\<rparr>)
      | OnceOf w f \<Rightarrow>
          map_option (\<lambda>st1. if w \<in> set (em_fired st1) then st1
              else st1\<lparr>em_fired := w # em_fired st1, em_log := em_log st1 @ [(l, type, args)]\<rparr>)
            (remove_with emit type l st))"

fun call_all ::
  "(js_string \<Rightarrow> emit_arg list \<Rightarrow> emitter \<Rightarrow> emitter option) \<Rightarrow> js_string \<Rightarrow> emit_arg list \<Rightarrow> listener list \<Rightarrow> emitter \<Rightarrow> emitter option" where
  "call_all emit type args [] st = Some st"
| "call_all emit type args (l # ls) st =
     (case call_with emit type args l st of None \<Rightarrow> None | Some st1 \<Rightarrow> call_all emit type args ls st1)"

text \<open>Emissions nested at most \<open>n\<close> deep; the listeners are those there when it starts.\<close>

primrec emit_n :: "nat \<Rightarrow> js_string \<Rightarrow> emit_arg list \<Rightarrow> emitter \<Rightarrow> emitter option" where
  "emit_n 0 type args st = None"
| "emit_n (Suc n) type args st = call_all (emit_n n) type args (em_listeners type st) st"

definition total_listeners :: "emitter \<Rightarrow> nat" where
  "total_listeners st = sum_list (map (\<lambda>(_, s). length (slot_list (Some s))) (em_events st))"

definition emit_effect :: "js_string \<Rightarrow> emit_arg list \<Rightarrow> emitter \<Rightarrow> emitter option" where
  "emit_effect type args st = emit_n (Suc (total_listeners st)) type args st"

datatype emit_result = Uncaught | Emitted bool emitter

text \<open>\<open>emit\<close>: the error event without a listener throws; the result is whether there was a slot.\<close>

definition em_emit :: "js_string \<Rightarrow> emit_arg list \<Rightarrow> emitter \<Rightarrow> emit_result option" where
  "em_emit type args st =
     (if type = js ''error'' \<and> em_listeners type st = [] then Some Uncaught
      else if map_of (em_events st) type = None then Some (Emitted False st)
      else map_option (Emitted True) (emit_effect type args st))"

definition em_remove_listener :: "js_string \<Rightarrow> listener \<Rightarrow> emitter \<Rightarrow> emitter option" where
  "em_remove_listener type l st = remove_with emit_effect type l st"

section \<open>Adding\<close>

definition add_to_slot :: "listener \<Rightarrow> slot option \<Rightarrow> slot" where
  "add_to_slot l s =
     (case s of None \<Rightarrow> One l | Some (Many w ls) \<Rightarrow> Many w (ls @ [l]) | Some (One k) \<Rightarrow> Many False [k, l])"

text \<open>The check for a leak: whether the warning is printed, after which the array is marked.\<close>

definition leak_check :: "js_num option \<Rightarrow> slot \<Rightarrow> slot" where
  "leak_check mx s =
     (case s of
        Many False ls \<Rightarrow>
          (let m = (case mx of Some m \<Rightarrow> m | None \<Rightarrow> default_max_listeners)
           in Many (truthy (JNum m) \<and> num_less (Fin 0) m \<and> num_less m (Fin (of_nat (length ls)))) ls)
      | _ \<Rightarrow> s)"

definition em_add_listener :: "js_string \<Rightarrow> listener \<Rightarrow> emitter \<Rightarrow> emitter option" where
  "em_add_listener type l st =
     (let inner = (case l of OnceOf _ f \<Rightarrow> Plain f | Plain _ \<Rightarrow> l)
      in map_option (\<lambda>st1.
           st1\<lparr>em_events := AList.update type
                 (leak_check (em_max st1) (add_to_slot l (map_of (em_events st1) type))) (em_events st1)\<rparr>)
         (if map_of (em_events st) new_listener \<noteq> None
          then emit_effect new_listener [ArgValue (JStr type), ArgListener inner] st else Some st))"

text \<open>\<open>once\<close>, with a number for the new wrapper.\<close>

definition em_once :: "nat \<Rightarrow> js_string \<Rightarrow> nat \<Rightarrow> emitter \<Rightarrow> emitter option" where
  "em_once w type f st = em_add_listener type (OnceOf w f) st"

section \<open>Removing all\<close>

text \<open>The loop that removes the last listener of an array until there is none.\<close>

fun remove_all_loop :: "nat \<Rightarrow> js_string \<Rightarrow> emitter \<Rightarrow> emitter option" where
  "remove_all_loop 0 type st = (if em_listeners type st = [] then Some st else None)"
| "remove_all_loop (Suc n) type st =
     (if em_listeners type st = [] then Some st
      else case em_remove_listener type (last (em_listeners type st)) st of
          None \<Rightarrow> None | Some st1 \<Rightarrow> remove_all_loop n type st1)"

text \<open>
  \<open>removeAllListeners(type)\<close>: the outer \<open>None\<close> is the TypeError of reading the \<open>length\<close> of an absent
  slot when there is a listener for removals.
\<close>

definition em_remove_all :: "js_string \<Rightarrow> emitter \<Rightarrow> emitter option" where
  "em_remove_all type st =
     (if map_of (em_events st) remove_listener_key = None
      then Some (st\<lparr>em_events := AList.delete type (em_events st)\<rparr>)
      else case map_of (em_events st) type of
          None \<Rightarrow> None
        | Some (One l) \<Rightarrow>
            map_option (\<lambda>st1. st1\<lparr>em_events := AList.delete type (em_events st1)\<rparr>) (em_remove_listener type l st)
        | Some (Many _ _) \<Rightarrow>
            map_option (\<lambda>st1. st1\<lparr>em_events := AList.delete type (em_events st1)\<rparr>)
              (remove_all_loop (length (em_listeners type st)) type st))"

fun remove_all_keys :: "js_string list \<Rightarrow> emitter \<Rightarrow> emitter option" where
  "remove_all_keys [] st = Some st"
| "remove_all_keys (key # keys) st =
     (if key = remove_listener_key \<or> map_of (em_events st) key = None then remove_all_keys keys st
      else case em_remove_all key st of None \<Rightarrow> None | Some st1 \<Rightarrow> remove_all_keys keys st1)"

text \<open>\<open>removeAllListeners()\<close>.\<close>

definition em_remove_everything :: "emitter \<Rightarrow> emitter option" where
  "em_remove_everything st =
     (if map_of (em_events st) remove_listener_key = None then Some (st\<lparr>em_events := []\<rparr>)
      else case remove_all_keys (map fst (em_events st)) st of
          None \<Rightarrow> None
        | Some st1 \<Rightarrow> map_option (\<lambda>st2. st2\<lparr>em_events := []\<rparr>) (em_remove_all remove_listener_key st1))"

section \<open>Emissions return\<close>

abbreviation slot_size :: "(js_string \<times> slot) list \<Rightarrow> nat" where
  "slot_size events \<equiv> sum_list (map (\<lambda>(_, s). length (slot_list (Some s))) events)"

lemma slot_size_delete:
  "map_of events type = Some s \<Longrightarrow> slot_size (AList.delete type events) + length (slot_list (Some s)) \<le> slot_size events"
proof (induction events)
  case (Cons e events)
  have "slot_size (AList.delete type evs) \<le> slot_size evs" for evs
    by (induction evs) auto
  from this [of events] Cons show ?case by (cases e) (auto split: if_splits)
qed simp

lemma slot_size_update:
  "map_of events type = Some s \<Longrightarrow>
   slot_size (AList.update type s' events) + length (slot_list (Some s)) = slot_size events + length (slot_list (Some s'))"
  by (induction events) (auto split: if_splits)

lemma remove_last_match_length: "remove_last_match l ls = Some ls' \<Longrightarrow> Suc (length ls') = length ls"
proof -
  assume r: "remove_last_match l ls = Some ls'"
  let ?is = "filter (\<lambda>i. is_listener (ls ! i) l) [0..<length ls]"
  have ne: "?is \<noteq> []" using r by (auto simp: remove_last_match_def split: list.splits)
  then have "last ?is \<in> set ?is" by (rule last_in_set)
  then have "last ?is < length ls" by simp
  moreover have "ls' = take (last ?is) ls @ drop (Suc (last ?is)) ls"
    using r ne by (auto simp: remove_last_match_def split: list.splits)
  ultimately show ?thesis by simp
qed

lemma removed_slot_size: "removed_slot type l events = Some events' \<Longrightarrow> slot_size events' < slot_size events"
proof -
  assume r: "removed_slot type l events = Some events'"
  then obtain s where s: "map_of events type = Some s" by (auto simp: removed_slot_def split: option.splits)
  show ?thesis
  proof (cases s)
    case (One k)
    with r s slot_size_delete [OF s] show ?thesis by (auto simp: removed_slot_def split: if_splits)
  next
    case (Many w ls)
    with r s obtain ls' where ls': "remove_last_match l ls = Some ls'"
      and e: "events' = (if ls' = [] then AList.delete type events else AList.update type (Many w ls') events)"
      by (auto simp: removed_slot_def split: option.splits)
    from slot_size_delete [OF s] slot_size_update [OF s, of "Many w ls'"] remove_last_match_length [OF ls'] Many e
    show ?thesis by auto
  qed
qed

text \<open>An emission that returns from every state with fewer than \<open>n\<close> listeners, and adds none.\<close>

definition returns_below :: "nat \<Rightarrow> (js_string \<Rightarrow> emit_arg list \<Rightarrow> emitter \<Rightarrow> emitter option) \<Rightarrow> bool" where
  "returns_below n emit = (\<forall>type args st. total_listeners st < n \<longrightarrow>
     (\<exists>st'. emit type args st = Some st' \<and> total_listeners st' \<le> total_listeners st))"

lemma remove_with_returns:
  assumes "returns_below n emit" "total_listeners st \<le> n"
  shows "\<exists>st'. remove_with emit type l st = Some st' \<and> total_listeners st' \<le> total_listeners st"
proof (cases "removed_slot type l (em_events st)")
  case None
  then show ?thesis by (simp add: remove_with_def)
next
  case (Some events)
  let ?st = "st\<lparr>em_events := events\<rparr>"
  have less: "total_listeners ?st < total_listeners st"
    using removed_slot_size [OF Some] by (simp add: total_listeners_def)
  with assms obtain st' where "emit remove_listener_key [ArgValue (JStr type), ArgListener l] ?st = Some st'"
    "total_listeners st' \<le> total_listeners ?st" unfolding returns_below_def by (meson order.strict_trans2)
  with Some less show ?thesis by (auto simp: remove_with_def Let_def)
qed

lemma call_all_returns:
  assumes emit: "returns_below n emit" and "total_listeners st \<le> n"
  shows "\<exists>st'. call_all emit type args ls st = Some st' \<and> total_listeners st' \<le> total_listeners st"
  using assms(2)
proof (induction ls arbitrary: st)
  case (Cons l ls)
  have "\<exists>st1. call_with emit type args l st = Some st1 \<and> total_listeners st1 \<le> total_listeners st"
  proof (cases l)
    case (Plain f)
    then show ?thesis by (simp add: call_with_def total_listeners_def)
  next
    case (OnceOf w f)
    with remove_with_returns [OF emit Cons.prems, of type l] show ?thesis
      by (fastforce simp: call_with_def total_listeners_def)
  qed
  then obtain st1 where "call_with emit type args l st = Some st1" "total_listeners st1 \<le> total_listeners st"
    by blast
  with Cons.IH [of st1] Cons.prems show ?case by fastforce
qed simp

lemma emit_n_returns: "returns_below n (emit_n n)"
proof (induction n)
  case (Suc n)
  show ?case unfolding returns_below_def
    using call_all_returns [OF Suc] by (simp add: less_Suc_eq_le)
qed (simp add: returns_below_def)

text \<open>
  Every emission returns, whatever wrappers of \<open>once\<close> are registered for whatever events, the
  events of adding and removing listeners included; so does every removal.
\<close>

theorem emit_returns:
  "em_emit type args st \<noteq> None \<and> em_remove_listener type l st \<noteq> None"
proof -
  have all: "\<exists>st'. emit_effect type args st = Some st' \<and> total_listeners st' \<le> total_listeners st" for type args st
    using emit_n_returns [of "Suc (total_listeners st)"] by (simp add: emit_effect_def returns_below_def)
  then have "returns_below n emit_effect" for n by (simp add: returns_below_def)
  from remove_with_returns [OF this order_refl, of type l st] all [of type args st]
  show ?thesis by (auto simp: em_emit_def em_remove_listener_def)
qed

section \<open>What an emission calls\<close>

fun is_plain :: "listener \<Rightarrow> bool" where
  "is_plain (Plain _) = True" | "is_plain (OnceOf _ _) = False"

text \<open>The wrappers of \<open>once\<close> in a list of listeners.\<close>

fun wrappers :: "listener list \<Rightarrow> nat list" where
  "wrappers [] = []" | "wrappers (Plain _ # ls) = wrappers ls" | "wrappers (OnceOf w _ # ls) = w # wrappers ls"

lemma wrappers_member: "OnceOf w f \<in> set ls \<Longrightarrow> w \<in> set (wrappers ls)"
  by (induction ls rule: wrappers.induct) auto

lemma is_listener_self [simp]: "is_listener l l"
  by (cases l) auto

lemma remove_last_match_at:
  assumes "is_listener k l" "list_all (\<lambda>m. \<not> is_listener m l) ys"
  shows "remove_last_match l (xs @ k # ys) = Some (xs @ ys)"
proof -
  let ?ls = "xs @ k # ys"
  have upt: "[0..<length ?ls] = [0..<length xs] @ length xs # [Suc (length xs)..<length ?ls]"
    by (metis le_add1 length_append length_Cons less_add_Suc1 upt_add_eq_append upt_conv_Cons zero_le add_Suc_right
        le_add_same_cancel1 add_0)
  have "filter (\<lambda>i. is_listener (?ls ! i) l) [Suc (length xs)..<length ?ls] = []"
  proof (rule filter_False)
    show "\<forall>i \<in> set [Suc (length xs)..<length ?ls]. \<not> is_listener (?ls ! i) l"
      using assms(2) by (auto simp: list_all_length nth_append nth_Cons')
  qed
  moreover have "is_listener (?ls ! length xs) l" using assms(1) by simp
  ultimately have "\<exists>is. filter (\<lambda>i. is_listener (?ls ! i) l) [0..<length ?ls] = is @ [length xs]"
    unfolding upt by simp
  then obtain "is" where "filter (\<lambda>i. is_listener (?ls ! i) l) [0..<length ?ls] = is @ [length xs]" by blast
  then show ?thesis by (cases "is") (simp_all add: remove_last_match_def)
qed

lemma remove_quietly:
  assumes "map_of (em_events st) remove_listener_key = None"
    and ls: "em_listeners type st = xs @ k # ys" and k: "is_listener k l" "list_all (\<lambda>m. \<not> is_listener m l) ys"
  shows "\<exists>events. remove_with emit type l st = Some (st\<lparr>em_events := events\<rparr>)
    \<and> map_of events remove_listener_key = None
    \<and> slot_list (map_of events type) = xs @ ys
    \<and> (\<forall>t. t \<noteq> type \<longrightarrow> map_of events t = map_of (em_events st) t)"
proof -
  have key: "type \<noteq> remove_listener_key" using assms(1) ls by (auto simp: em_listeners_def)
  obtain s where s: "map_of (em_events st) type = Some s" using ls by (cases "map_of (em_events st) type") (auto simp: em_listeners_def)
  show ?thesis
  proof (cases s)
    case (One m)
    then have "m = k" "xs = []" "ys = []" using ls s by (auto simp: em_listeners_def Cons_eq_append_conv)
    then show ?thesis using One s k(1) key assms(1)
      by (auto simp: remove_with_def removed_slot_def Let_def delete_conv')
  next
    case (Many w ms)
    then have ms: "ms = xs @ k # ys" using ls s by (simp add: em_listeners_def)
    show ?thesis using Many s key assms(1) remove_last_match_at [OF k, of xs] ms
      by (auto simp: remove_with_def removed_slot_def Let_def delete_conv' update_conv')
  qed
qed

lemma call_all_in_order:
  assumes "map_of (em_events st) remove_listener_key = None"
    and "em_listeners type st = kept @ ls"
    and "list_all is_plain kept"
    and "distinct (wrappers ls)"
    and "set (wrappers ls) \<inter> set (em_fired st) = {}"
  shows "\<exists>st'. call_all emit type args ls st = Some st'
    \<and> em_log st' = em_log st @ map (\<lambda>l. (l, type, args)) ls
    \<and> em_listeners type st' = kept @ filter is_plain ls
    \<and> (\<forall>t. t \<noteq> type \<longrightarrow> em_listeners t st' = em_listeners t st)"
  using assms
proof (induction ls arbitrary: st kept)
  case (Cons l ls)
  show ?case
  proof (cases l)
    case (Plain f)
    let ?st = "st\<lparr>em_log := em_log st @ [(l, type, args)]\<rparr>"
    have "\<exists>st'. call_all emit type args ls ?st = Some st'
        \<and> em_log st' = em_log ?st @ map (\<lambda>l. (l, type, args)) ls
        \<and> em_listeners type st' = (kept @ [l]) @ filter is_plain ls
        \<and> (\<forall>t. t \<noteq> type \<longrightarrow> em_listeners t st' = em_listeners t ?st)"
      using Cons.prems Plain by (intro Cons.IH) (auto simp: em_listeners_def)
    then show ?thesis using Plain by (auto simp: call_with_def em_listeners_def)
  next
    case (OnceOf w f)
    have "\<not> is_listener m l" if "m \<in> set ls" for m
    proof
      assume "is_listener m l"
      then have "m = l" using OnceOf by (cases m) auto
      then show False using that Cons.prems(4) OnceOf wrappers_member [of w f ls] by simp
    qed
    then have "list_all (\<lambda>m. \<not> is_listener m l) ls" by (simp add: list_all_iff)
    from remove_quietly [OF Cons.prems(1,2) is_listener_self this, of emit]
    obtain events where ev: "remove_with emit type l st = Some (st\<lparr>em_events := events\<rparr>)"
      "map_of events remove_listener_key = None" "slot_list (map_of events type) = kept @ ls"
      "\<And>t. t \<noteq> type \<Longrightarrow> map_of events t = map_of (em_events st) t" by blast
    let ?st = "st\<lparr>em_events := events, em_fired := w # em_fired st, em_log := em_log st @ [(l, type, args)]\<rparr>"
    have fresh: "w \<notin> set (em_fired st)" "w \<notin> set (wrappers ls)"
      using Cons.prems(4,5) OnceOf by auto
    have call: "call_with emit type args l st = Some ?st"
      using ev(1) fresh(1) OnceOf by (simp add: call_with_def)
    have "\<exists>st'. call_all emit type args ls ?st = Some st'
        \<and> em_log st' = em_log ?st @ map (\<lambda>l. (l, type, args)) ls
        \<and> em_listeners type st' = kept @ filter is_plain ls
        \<and> (\<forall>t. t \<noteq> type \<longrightarrow> em_listeners t st' = em_listeners t ?st)"
      using Cons.prems OnceOf ev fresh by (intro Cons.IH) (auto simp: em_listeners_def)
    then show ?thesis using call OnceOf ev(4) by (auto simp: em_listeners_def)
  qed
qed simp

text \<open>
  C15. An emission calls the listeners of its event once each, in the order they were added; the
  ones added by \<open>once\<close> are gone afterwards, the others and all other events are as before.
\<close>

theorem emit_in_order:
  assumes "map_of (em_events st) remove_listener_key = None" and ne: "em_listeners type st \<noteq> []"
    and "distinct (wrappers (em_listeners type st))"
    and "set (wrappers (em_listeners type st)) \<inter> set (em_fired st) = {}"
  shows "\<exists>st'. em_emit type args st = Some (Emitted True st')
    \<and> em_log st' = em_log st @ map (\<lambda>l. (l, type, args)) (em_listeners type st)
    \<and> em_listeners type st' = filter is_plain (em_listeners type st)
    \<and> (\<forall>t. t \<noteq> type \<longrightarrow> em_listeners t st' = em_listeners t st)"
proof -
  from assms have "\<exists>st'. call_all (emit_n (total_listeners st)) type args (em_listeners type st) st = Some st'
      \<and> em_log st' = em_log st @ map (\<lambda>l. (l, type, args)) (em_listeners type st)
      \<and> em_listeners type st' = [] @ filter is_plain (em_listeners type st)
      \<and> (\<forall>t. t \<noteq> type \<longrightarrow> em_listeners t st' = em_listeners t st)"
    by (intro call_all_in_order) simp_all
  moreover have "map_of (em_events st) type \<noteq> None"
    using ne by (cases "map_of (em_events st) type") (simp_all add: em_listeners_def)
  ultimately show ?thesis using ne by (auto simp: em_emit_def emit_effect_def)
qed

lemma emit_in_order_witness:
  "\<exists>st'. em_emit (js ''data'') [] \<lparr>em_events = [(js ''data'', Many False [Plain 1, OnceOf 0 2])], em_max = None,
      em_fired = [], em_log = []\<rparr> = Some (Emitted True st')
    \<and> em_log st' = [(Plain 1, js ''data'', []), (OnceOf 0 2, js ''data'', [])]"
proof -
  let ?st = "\<lparr>em_events = [(js ''data'', Many False [Plain 1, OnceOf 0 2])], em_max = None, em_fired = [], em_log = []\<rparr>"
  have "em_listeners (js ''data'') ?st = [Plain 1, OnceOf 0 2]" by (simp add: em_listeners_def)
  moreover have "map_of (em_events ?st) remove_listener_key = None" by (simp add: remove_listener_key_def)
  ultimately show ?thesis using emit_in_order [of ?st "js ''data''" "[]"] by auto
qed

text \<open>
  Removing a listener that was just added leaves the listeners of every event as they were.
\<close>

theorem add_remove_restores:
  assumes "map_of (em_events st) remove_listener_key = None" "map_of (em_events st) new_listener = None"
    and "type \<noteq> remove_listener_key"
  shows "\<exists>st1 st2. em_add_listener type l st = Some st1 \<and> em_listeners type st1 = em_listeners type st @ [l]
    \<and> em_remove_listener type l st1 = Some st2 \<and> (\<forall>t. em_listeners t st2 = em_listeners t st)"
proof -
  let ?st = "st\<lparr>em_events := AList.update type
    (leak_check (em_max st) (add_to_slot l (map_of (em_events st) type))) (em_events st)\<rparr>"
  have add: "em_add_listener type l st = Some ?st" using assms(2) by (simp add: em_add_listener_def)
  have "slot_list (Some (leak_check mx s)) = slot_list (Some s)" for mx s
    by (cases s) (auto simp: leak_check_def Let_def split: bool.split)
  moreover have "slot_list (Some (add_to_slot l s)) = slot_list s @ [l]" for s
    by (auto simp: add_to_slot_def split: option.splits slot.splits)
  ultimately have listed: "em_listeners type ?st = em_listeners type st @ l # []"
    by (simp add: em_listeners_def update_conv')
  have others: "em_listeners t ?st = em_listeners t st" if "t \<noteq> type" for t
    using that by (simp add: em_listeners_def update_conv')
  have "map_of (em_events ?st) remove_listener_key = None" using assms(1,3) by (simp add: update_conv')
  from remove_quietly [OF this listed is_listener_self, of emit_effect]
  obtain events where "em_remove_listener type l ?st = Some (?st\<lparr>em_events := events\<rparr>)"
    "slot_list (map_of events type) = em_listeners type st"
    "\<And>t. t \<noteq> type \<Longrightarrow> map_of events t = map_of (em_events ?st) t"
    by (auto simp: em_remove_listener_def)
  moreover from this others have "em_listeners t (?st\<lparr>em_events := events\<rparr>) = em_listeners t st" for t
    by (cases "t = type") (simp_all add: em_listeners_def)
  ultimately show ?thesis using add listed by blast
qed

lemma add_remove_restores_witness:
  "\<exists>st1 st2. em_add_listener (js ''data'') (Plain 1) emitter_init = Some st1
    \<and> em_remove_listener (js ''data'') (Plain 1) st1 = Some st2 \<and> em_listeners (js ''data'') st2 = []"
proof -
  have "map_of (em_events emitter_init) remove_listener_key = None" "map_of (em_events emitter_init) new_listener = None"
    "js ''data'' \<noteq> remove_listener_key"
    by (simp_all add: emitter_init_def remove_listener_key_def)
  from add_remove_restores [OF this, of "Plain 1"] show ?thesis by (auto simp: em_listeners_def emitter_init_def)
qed

end
