(* ===== verification/JsBrace.thy ===== *)
theory JsBrace
  imports JsValue "HOL-Library.While_Combinator"
begin

text \<open>
  Brace expansion in the search bundle (\<open>wordcut.js\<close>, modules 10, 11 and 13): matching braces, and
  expanding a pattern like \<open>a{b,c{1..3}}d\<close>. The text is a list of code units and of the five markers
  that stand for escaped characters, which the code builds from a random number and which occur in
  no text. Numbers are integers; the code's are doubles, exact below \<open>2 ^ 53\<close>. The nesting of
  \<open>expand\<close> is bounded by fuel, and the loop over a sequence may not end: both give \<open>None\<close>. The
  theory shows that matching finds a pair of braces whenever there is an opening one with a closing
  one after it, that a list of plain alternatives and a sequence of numbers expand as they should,
  and that a sequence with increment zero never returns.
\<close>

section \<open>Text with markers\<close>

datatype btok = Ch nat | EscSlash | EscOpen | EscClose | EscComma | EscPeriod

fun replace_pair :: "nat \<Rightarrow> btok \<Rightarrow> btok list \<Rightarrow> btok list" where
  "replace_pair c tok (a # b # s) =
     (if a = Ch 92 \<and> b = Ch c then tok # replace_pair c tok s else a # replace_pair c tok (b # s))"
| "replace_pair c tok s = s"

definition escape_braces :: "js_string \<Rightarrow> btok list" where
  "escape_braces s =
     replace_pair 46 EscPeriod (replace_pair 44 EscComma (replace_pair 125 EscClose
       (replace_pair 123 EscOpen (replace_pair 92 EscSlash (map Ch s)))))"

fun unescape_tok :: "btok \<Rightarrow> nat" where
  "unescape_tok (Ch c) = c" | "unescape_tok EscSlash = 92" | "unescape_tok EscOpen = 123"
| "unescape_tok EscClose = 125" | "unescape_tok EscComma = 44" | "unescape_tok EscPeriod = 46"

definition unescape_braces :: "btok list \<Rightarrow> js_string" where
  "unescape_braces s = map unescape_tok s"

section \<open>Matching\<close>

definition index_from :: "'a \<Rightarrow> 'a list \<Rightarrow> int \<Rightarrow> int" where
  "index_from c s i =
     (case find (\<lambda>k. i \<le> int k \<and> s ! k = c) [0..<length s] of Some k \<Rightarrow> int k | None \<Rightarrow> -1)"

text \<open>The variables of the loop in \<open>range\<close>; the top of the stack is the head of the list.\<close>

record match_state =
  ms_i :: int
  ms_ai :: int
  ms_bi :: int
  ms_begs :: "int list"
  ms_left :: int
  ms_right :: int
  ms_result :: "(int \<times> int) option"

definition match_step :: "'a \<Rightarrow> 'a \<Rightarrow> 'a list \<Rightarrow> match_state \<Rightarrow> match_state" where
  "match_step a b s st =
     (let st1 =
        (if ms_i st = ms_ai st
         then st\<lparr>ms_begs := ms_i st # ms_begs st, ms_ai := index_from a s (ms_i st + 1)\<rparr>
         else if length (ms_begs st) = 1
         then st\<lparr>ms_begs := [], ms_result := Some (hd (ms_begs st), ms_bi st)\<rparr>
         else (let beg = hd (ms_begs st);
                   st2 = st\<lparr>ms_begs := tl (ms_begs st)\<rparr>;
                   st3 = (if beg < ms_left st then st2\<lparr>ms_left := beg, ms_right := ms_bi st\<rparr> else st2)
               in st3\<lparr>ms_bi := index_from b s (ms_i st + 1)\<rparr>))
      in st1\<lparr>ms_i := (if ms_ai st1 < ms_bi st1 \<and> 0 \<le> ms_ai st1 then ms_ai st1 else ms_bi st1)\<rparr>)"

definition match_start :: "'a \<Rightarrow> 'a \<Rightarrow> 'a list \<Rightarrow> match_state" where
  "match_start a b s =
     (let ai = index_from a s 0; bi = index_from b s (ai + 1)
      in \<lparr>ms_i = ai, ms_ai = ai, ms_bi = bi, ms_begs = [], ms_left = int (length s), ms_right = -1,
          ms_result = None\<rparr>)"

definition match_range :: "'a \<Rightarrow> 'a \<Rightarrow> 'a list \<Rightarrow> (int \<times> int) option" where
  "match_range a b s =
     (let st = match_start a b s in
      if 0 \<le> ms_ai st \<and> 0 < ms_bi st
      then (case while_option (\<lambda>st. 0 \<le> ms_i st \<and> ms_result st = None) (match_step a b s) st of
              None \<Rightarrow> None
            | Some st' \<Rightarrow> if ms_begs st' \<noteq> [] then Some (ms_left st', ms_right st') else ms_result st')
      else None)"

text \<open>\<open>balanced\<close>: what is before, between and after the pair.\<close>

definition balanced :: "'a \<Rightarrow> 'a \<Rightarrow> 'a list \<Rightarrow> ('a list \<times> 'a list \<times> 'a list) option" where
  "balanced a b s =
     map_option (\<lambda>(l, r). (take (nat l) s, take (nat r - (nat l + 1)) (drop (nat l + 1) s), drop (nat r + 1) s))
       (match_range a b s)"

section \<open>The invariant of matching\<close>

lemma index_from_spec:
  "index_from c s i = -1 \<and> (\<forall>k < length s. i \<le> int k \<longrightarrow> s ! k \<noteq> c)
   \<or> (\<exists>k < length s. index_from c s i = int k \<and> i \<le> int k \<and> s ! k = c \<and> (\<forall>j < k. i \<le> int j \<longrightarrow> s ! j \<noteq> c))"
proof (cases "find (\<lambda>k. i \<le> int k \<and> s ! k = c) [0..<length s]")
  case None
  then have "index_from c s i = -1" by (simp add: index_from_def)
  moreover have "\<forall>k < length s. i \<le> int k \<longrightarrow> s ! k \<noteq> c" using None unfolding find_None_iff by auto
  ultimately show ?thesis by blast
next
  case (Some k)
  then have "index_from c s i = int k" by (simp add: index_from_def)
  moreover have "k < length s \<and> i \<le> int k \<and> s ! k = c \<and> (\<forall>j < k. i \<le> int j \<longrightarrow> s ! j \<noteq> c)"
    using Some unfolding find_Some_iff by auto
  ultimately show ?thesis by blast
qed

lemma index_from_cases:
  obtains "index_from c s i = -1" | k where "index_from c s i = int k" "k < length s" "i \<le> int k" "s ! k = c"
  using index_from_spec [of c s i] by blast

text \<open>A position holding the character.\<close>

definition holds_at :: "'a \<Rightarrow> 'a list \<Rightarrow> int \<Rightarrow> bool" where
  "holds_at c s i = (0 \<le> i \<and> i < int (length s) \<and> s ! nat i = c)"

definition match_inv :: "'a \<Rightarrow> 'a \<Rightarrow> 'a list \<Rightarrow> match_state \<Rightarrow> bool" where
  "match_inv a b s st =
     (let i = ms_i st; ai = ms_ai st; bi = ms_bi st in
      (case ms_result st of
         Some (l, r) \<Rightarrow> ms_begs st = [] \<and> holds_at a s l \<and> holds_at b s r \<and> l < r
       | None \<Rightarrow>
           (ai = -1 \<or> holds_at a s ai \<and> i \<le> ai) \<and> (bi = -1 \<or> holds_at b s bi \<and> i \<le> bi)
           \<and> (i = ai \<and> 0 \<le> i \<and> i < bi \<or> i = bi \<and> ms_begs st \<noteq> [] \<and> (0 \<le> bi \<longrightarrow> ai < 0 \<or> bi < ai))
           \<and> list_all (\<lambda>p. holds_at a s p \<and> (0 \<le> i \<longrightarrow> p < i)) (ms_begs st)
           \<and> (holds_at a s (ms_left st) \<and> holds_at b s (ms_right st) \<and> ms_left st < ms_right st
              \<or> ms_left st = int (length s) \<and> 0 \<le> bi)))"

lemma index_from_holds: "index_from c s i = -1 \<or> holds_at c s (index_from c s i) \<and> i \<le> index_from c s i"
  using index_from_spec [of c s i] by (auto simp: holds_at_def)

lemma holds_at_differ: "a \<noteq> b \<Longrightarrow> holds_at a s i \<Longrightarrow> holds_at b s j \<Longrightarrow> i \<noteq> j"
  by (auto simp: holds_at_def)

lemma holds_at_range: "holds_at c s i \<Longrightarrow> 0 \<le> i \<and> i < int (length s)"
  by (simp add: holds_at_def)

definition match_measure :: "'a list \<Rightarrow> match_state \<Rightarrow> nat" where
  "match_measure s st = (if ms_i st < 0 \<or> ms_result st \<noteq> None then 0 else Suc (nat (int (length s) - ms_i st)))"

lemma match_step_open:
  assumes inv: "match_inv a b s st" and ab: "a \<noteq> b" and run: "0 \<le> ms_i st" "ms_result st = None"
    and at: "ms_i st = ms_ai st"
  shows "match_inv a b s (match_step a b s st) \<and> match_measure s (match_step a b s st) < match_measure s st"
proof -
  let ?i = "ms_i st" and ?ai = "index_from a s (ms_i st + 1)" and ?bi = "ms_bi st"
  have bi: "holds_at b s ?bi" "?i < ?bi" and beg: "holds_at a s ?i" "list_all (\<lambda>p. holds_at a s p \<and> p < ?i) (ms_begs st)"
    using inv run at by (auto simp: match_inv_def Let_def holds_at_def)
  have ai: "?ai = -1 \<or> holds_at a s ?ai \<and> ?i + 1 \<le> ?ai" by (rule index_from_holds)
  have step: "match_step a b s st = st\<lparr>ms_begs := ?i # ms_begs st, ms_ai := ?ai,
      ms_i := (if ?ai < ?bi \<and> 0 \<le> ?ai then ?ai else ?bi)\<rparr>"
    using at by (simp add: match_step_def Let_def)
  have i': "?i < (if ?ai < ?bi \<and> 0 \<le> ?ai then ?ai else ?bi)" using ai bi by auto
  have le: "?ai \<noteq> ?bi" using ai bi(1) ab holds_at_differ [of a b s ?ai ?bi] holds_at_range [of b s ?bi] by auto
  have "list_all (\<lambda>p. holds_at a s p \<and> p < (if ?ai < ?bi \<and> 0 \<le> ?ai then ?ai else ?bi)) (?i # ms_begs st)"
    using beg i' by (auto simp: list_all_iff)
  then have "match_inv a b s (match_step a b s st)"
    using inv run ai bi le unfolding step match_inv_def Let_def by (auto simp: list_all_iff)
  moreover have "match_measure s (match_step a b s st) < match_measure s st"
    using run i' holds_at_range [OF beg(1)] unfolding step match_measure_def by auto
  ultimately show ?thesis ..
qed

lemma match_step_close:
  assumes inv: "match_inv a b s st" and ab: "a \<noteq> b" and run: "0 \<le> ms_i st" "ms_result st = None"
    and at: "ms_i st \<noteq> ms_ai st"
  shows "match_inv a b s (match_step a b s st) \<and> match_measure s (match_step a b s st) < match_measure s st"
proof -
  let ?i = "ms_i st" and ?ai = "ms_ai st" and ?bi = "index_from b s (ms_i st + 1)"
  have old: "?i = ms_bi st" "holds_at b s ?i" "ms_begs st \<noteq> []" "?ai = -1 \<or> holds_at a s ?ai \<and> ?i < ?ai"
    and begs: "list_all (\<lambda>p. holds_at a s p \<and> p < ?i) (ms_begs st)"
    using inv run at by (auto simp: match_inv_def Let_def)
  obtain p ps where ps: "ms_begs st = p # ps" using old(3) by (cases "ms_begs st") auto
  have p: "holds_at a s p" "p < ?i" using begs ps by simp_all
  show ?thesis
  proof (cases ps)
    case Nil
    have step: "match_step a b s st = st\<lparr>ms_begs := [], ms_result := Some (p, ms_bi st),
        ms_i := (if ?ai < ms_bi st \<and> 0 \<le> ?ai then ?ai else ms_bi st)\<rparr>"
      using at ps Nil by (simp add: match_step_def Let_def)
    show ?thesis using p old(1,2) run unfolding step match_inv_def match_measure_def Let_def by simp
  next
    case (Cons q qs)
    have bi: "?bi = -1 \<or> holds_at b s ?bi \<and> ?i + 1 \<le> ?bi" by (rule index_from_holds)
    let ?new = "if ?ai < ?bi \<and> 0 \<le> ?ai then ?ai else ?bi"
    define left where "left = (if p < ms_left st then p else ms_left st)"
    define right where "right = (if p < ms_left st then ?i else ms_right st)"
    have step: "match_step a b s st = st\<lparr>ms_begs := ps, ms_left := left, ms_right := right, ms_bi := ?bi, ms_i := ?new\<rparr>"
      using at ps Cons old(1) by (simp add: match_step_def Let_def left_def right_def)
    have lr: "holds_at a s left \<and> holds_at b s right \<and> left < right"
      using inv run p old(2) holds_at_range [OF p(1)] unfolding match_inv_def Let_def left_def right_def by auto
    have new: "?new = -1 \<or> ?i < ?new" using bi old(4) by auto
    have ne: "?ai \<noteq> ?bi \<or> ?bi = -1" using bi old(4) ab holds_at_differ [of a b s ?ai ?bi] by auto
    have below: "list_all (\<lambda>p. holds_at a s p \<and> (0 \<le> ?new \<longrightarrow> p < ?new)) ps"
      using begs ps new by (auto simp: list_all_iff)
    have ais: "?ai = -1 \<or> holds_at a s ?ai \<and> ?new \<le> ?ai"
      using old(4) bi run(1) by auto
    have bis: "?bi = -1 \<or> holds_at b s ?bi \<and> ?new \<le> ?bi"
      using bi by auto
    have at_new: "?new = ?ai \<and> 0 \<le> ?new \<and> ?new < ?bi \<or> ?new = ?bi \<and> ps \<noteq> [] \<and> (0 \<le> ?bi \<longrightarrow> ?ai < 0 \<or> ?bi < ?ai)"
      using ne Cons by auto
    have "match_inv a b s (match_step a b s st)"
      using below ais bis at_new lr run(2) unfolding step match_inv_def Let_def by simp
    moreover have "match_measure s (match_step a b s st) < match_measure s st"
      using run new holds_at_range [OF old(2)] unfolding step match_measure_def by auto
    ultimately show ?thesis ..
  qed
qed

lemma match_step_inv:
  assumes "match_inv a b s st" "a \<noteq> b" "0 \<le> ms_i st \<and> ms_result st = None"
  shows "match_inv a b s (match_step a b s st) \<and> match_measure s (match_step a b s st) < match_measure s st"
proof (cases "ms_i st = ms_ai st")
  case True
  with assms show ?thesis by (intro match_step_open) simp_all
next
  case False
  with assms show ?thesis by (intro match_step_close) simp_all
qed

lemma match_range_spec:
  assumes ab: "a \<noteq> b"
  shows "(\<exists>l r. match_range a b s = Some (l, r) \<and> holds_at a s l \<and> holds_at b s r \<and> l < r)
    \<or> (match_range a b s = None \<and> (\<forall>i j. i < j \<and> j < length s \<longrightarrow> \<not> (s ! i = a \<and> s ! j = b)))"
proof (cases "0 \<le> ms_ai (match_start a b s) \<and> 0 < ms_bi (match_start a b s)")
  case True
  let ?st = "match_start a b s"
  have fields: "ms_i ?st = ms_ai ?st" "ms_ai ?st = index_from a s 0" "ms_bi ?st = index_from b s (ms_ai ?st + 1)"
    "ms_begs ?st = []" "ms_left ?st = int (length s)" "ms_result ?st = None"
    by (simp_all add: match_start_def Let_def)
  have inv: "match_inv a b s ?st"
    using True fields index_from_holds [of a s 0] index_from_holds [of b s "ms_ai ?st + 1"]
    unfolding match_inv_def Let_def by auto
  let ?b = "\<lambda>st. 0 \<le> ms_i st \<and> ms_result st = None"
  have step: "match_inv a b s (match_step a b s st) \<and> match_measure s (match_step a b s st) < match_measure s st"
    if "match_inv a b s st" "?b st" for st using match_step_inv [OF that(1) ab that(2)] .
  obtain t where t: "while_option ?b (match_step a b s) ?st = Some t"
    using measure_while_option_Some [where P = "match_inv a b s" and b = ?b and c = "match_step a b s"
        and f = "match_measure s", OF step inv] by blast
  have tinv: "match_inv a b s t" using while_option_rule [where P = "match_inv a b s", OF _ t inv] step by blast
  have stop: "\<not> ?b t" by (rule while_option_stop [OF t])
  show ?thesis
  proof (cases "ms_result t")
    case None
    with stop have "ms_i t < 0" by simp
    with tinv None have "ms_begs t \<noteq> []" "holds_at a s (ms_left t)" "holds_at b s (ms_right t)" "ms_left t < ms_right t"
      by (auto simp: match_inv_def Let_def)
    then show ?thesis using True t by (simp add: match_range_def Let_def)
  next
    case (Some p)
    then obtain l r where "p = (l, r)" by (cases p)
    with Some tinv True t show ?thesis by (simp add: match_range_def Let_def match_inv_def)
  qed
next
  case False
  have none: "match_range a b s = None" using False by (simp only: match_range_def Let_def if_False)
  have "\<not> (s ! i = a \<and> s ! j = b)" if ij: "i < j" "j < length s" for i j
  proof
    assume h: "s ! i = a \<and> s ! j = b"
    obtain k where k: "index_from a s 0 = int k" "k \<le> i"
    proof -
      from index_from_spec [of a s 0] consider "\<forall>k < length s. s ! k \<noteq> a"
        | k where "index_from a s 0 = int k" "\<forall>j < k. s ! j \<noteq> a" by auto
      then show thesis
      proof cases
        case (2 k)
        then have "\<not> i < k" using h by blast
        with 2 that show thesis by simp
      qed (use h ij in auto)
    qed
    from index_from_spec [of b s "int k + 1"] h ij k(2)
    obtain m where "index_from b s (int k + 1) = int m" "int k + 1 \<le> int m" by force
    with k False show False by (simp add: match_start_def Let_def)
  qed
  with none show ?thesis by blast
qed

text \<open>
  Matching braces finds a pair exactly when some opening brace has a closing one after it, and
  what it returns is what is before, between and after the two.
\<close>

theorem balanced_splits:
  assumes "a \<noteq> b"
  shows "case balanced a b s of
      Some (pre, body, post) \<Rightarrow> s = pre @ a # body @ b # post
    | None \<Rightarrow> \<forall>i j. i < j \<and> j < length s \<longrightarrow> \<not> (s ! i = a \<and> s ! j = b)"
proof -
  from match_range_spec [OF assms, of s] show ?thesis
  proof (elim disjE exE conjE)
    fix l r assume r: "match_range a b s = Some (l, r)" "holds_at a s l" "holds_at b s r" "l < r"
    obtain m n where mn: "l = int m" "r = int n" using r(2,3) by (auto simp: holds_at_def elim!: nonneg_int_cases)
    have mn': "m < n" "n < length s" "s ! m = a" "s ! n = b" using r mn by (auto simp: holds_at_def)
    have "s = take m s @ a # drop (Suc m) s" using mn' id_take_nth_drop [of m s] by simp
    also have "drop (Suc m) s = take (n - Suc m) (drop (Suc m) s) @ b # drop (Suc n) s"
      using mn' id_take_nth_drop [of "n - Suc m" "drop (Suc m) s"] by simp
    finally show ?thesis using r(1) mn by (simp add: balanced_def nat_add_distrib)
  qed (simp add: balanced_def)
qed

lemma balanced_splits_witness:
  "case balanced (Ch 123) (Ch 125) (map Ch (js ''a{b}c'')) of
      Some (pre, body, post) \<Rightarrow> map Ch (js ''a{b}c'') = pre @ Ch 123 # body @ Ch 125 # post
    | None \<Rightarrow> True"
  using balanced_splits [of "Ch 123" "Ch 125" "map Ch (js ''a{b}c'')"] by (auto split: option.splits)

section \<open>Parts\<close>

definition brace_open :: btok where "brace_open = Ch 123"
definition brace_close :: btok where "brace_close = Ch 125"

definition braces :: "btok list \<Rightarrow> (btok list \<times> btok list \<times> btok list) option" where
  "braces s = balanced brace_open brace_close s"

lemma braces_eq: "braces s = Some (pre, body, post) \<Longrightarrow> s = pre @ brace_open # body @ brace_close # post"
  using balanced_splits [of brace_open brace_close s] by (simp add: braces_def brace_open_def brace_close_def)

text \<open>\<open>split\<close> at a single character.\<close>

fun split_at :: "'a \<Rightarrow> 'a list \<Rightarrow> 'a list list" where
  "split_at c [] = [[]]"
| "split_at c (x # s) = (if x = c then [] # split_at c s else (x # hd (split_at c s)) # tl (split_at c s))"

text \<open>Two lists of parts, the last of the first and the first of the second made one.\<close>

definition join_parts :: "'a list list \<Rightarrow> 'a list list \<Rightarrow> 'a list list" where
  "join_parts p q = butlast p @ (last p @ hd q) # tl q"

function parse_comma_parts :: "btok list \<Rightarrow> btok list list" where
  "parse_comma_parts s =
     (if s = [] then [[]]
      else case braces s of
          None \<Rightarrow> split_at (Ch 44) s
        | Some (pre, body, post) \<Rightarrow>
            (let p = split_at (Ch 44) pre;
                 p1 = butlast p @ [last p @ brace_open # body @ [brace_close]]
             in if post = [] then p1 else join_parts p1 (parse_comma_parts post)))"
  by pat_completeness auto
termination by (relation "measure length") (auto dest: braces_eq)

declare parse_comma_parts.simps [simp del]

definition embrace :: "btok list \<Rightarrow> btok list" where
  "embrace s = brace_open # s @ [brace_close]"

section \<open>Sequences\<close>

definition digit :: "nat \<Rightarrow> bool" where
  "digit c = (48 \<le> c \<and> c \<le> 57)"

definition letter :: "nat \<Rightarrow> bool" where
  "letter c = (65 \<le> c \<and> c \<le> 90 \<or> 97 \<le> c \<and> c \<le> 122)"

text \<open>The regular expressions \<open>-?\d+\<close> and \<open>^-?0\d\<close>.\<close>

fun is_int_text :: "js_string \<Rightarrow> bool" where
  "is_int_text (c # s) = (if c = 45 then s \<noteq> [] \<and> list_all digit s else list_all digit (c # s))"
| "is_int_text [] = False"

definition is_padded :: "js_string \<Rightarrow> bool" where
  "is_padded s = (let t = (if take 1 s = [45] then tl s else s)
     in 2 \<le> length t \<and> hd t = 48 \<and> digit (t ! 1))"

text \<open>\<open>split(/\.\./)\<close>.\<close>

fun split_dots :: "js_string \<Rightarrow> js_string list" where
  "split_dots (a # b # s) =
     (if a = 46 \<and> b = 46 then [] # split_dots s
      else (a # hd (split_dots (b # s))) # tl (split_dots (b # s)))"
| "split_dots s = [s]"

definition plain_text :: "btok list \<Rightarrow> js_string option" where
  "plain_text s = (if list_all (\<lambda>t. case t of Ch _ \<Rightarrow> True | _ \<Rightarrow> False) s then Some (unescape_braces s) else None)"

definition is_numeric_parts :: "js_string list \<Rightarrow> bool" where
  "is_numeric_parts n = ((length n = 2 \<or> length n = 3) \<and> list_all is_int_text n)"

definition is_alpha_parts :: "js_string list \<Rightarrow> bool" where
  "is_alpha_parts n = ((length n = 2 \<or> length n = 3)
     \<and> list_all (\<lambda>p. length p = 1 \<and> letter (hd p)) (take 2 n) \<and> list_all is_int_text (drop 2 n))"

definition read_digits :: "js_string \<Rightarrow> int" where
  "read_digits s = foldl (\<lambda>n c. 10 * n + (int c - 48)) 0 s"

text \<open>\<open>numeric\<close>: the number a text denotes, or its first code unit.\<close>

definition numeric :: "js_string \<Rightarrow> int" where
  "numeric s = (if is_int_text s then (if hd s = 45 then - read_digits (tl s) else read_digits s) else int (hd s))"

definition int_text :: "int \<Rightarrow> js_string" where
  "int_text i = (if i < 0 then 45 # js (show_nat (nat (- i))) else js (show_nat (nat i)))"

text \<open>The loop from \<open>i\<close> to \<open>y\<close> by \<open>incr\<close>; \<open>None\<close> when it does not end.\<close>

partial_function (option) seq_loop :: "bool \<Rightarrow> int \<Rightarrow> int \<Rightarrow> int \<Rightarrow> int list option" where
  "seq_loop reverse i y incr =
     (if (if reverse then y \<le> i else i \<le> y)
      then Option.bind (seq_loop reverse (i + incr) y incr) (\<lambda>r. Some (i # r))
      else Some [])"

definition seq_char :: "int \<Rightarrow> js_string" where
  "seq_char i = (if i = 92 then [] else [nat i])"

definition seq_number :: "bool \<Rightarrow> nat \<Rightarrow> int \<Rightarrow> js_string" where
  "seq_number pad width i =
     (let c = int_text i; z = replicate (width - length c) 48
      in if pad \<and> length c < width then (if i < 0 then 45 # z @ tl c else z @ c) else c)"

definition seq_values :: "bool \<Rightarrow> js_string list \<Rightarrow> js_string list option" where
  "seq_values alpha n =
     (let x = numeric (n ! 0); y = numeric (n ! 1);
          width = max (length (n ! 0)) (length (n ! 1));
          incr = (if length n = 3 then \<bar>numeric (n ! 2)\<bar> else 1);
          reverse = (y < x);
          pad = list_ex is_padded n
      in map_option (map (if alpha then seq_char else seq_number pad width))
           (seq_loop reverse x y (if reverse then - incr else incr)))"

section \<open>Expanding\<close>

text \<open>\<open>/,.*\}/\<close>: a comma and, on the same line, a closing brace after it.\<close>

definition line_end :: "btok \<Rightarrow> bool" where
  "line_end t = (t = Ch 10 \<or> t = Ch 13 \<or> t = Ch 8232 \<or> t = Ch 8233)"

fun comma_then_close :: "btok list \<Rightarrow> bool" where
  "comma_then_close [] = False"
| "comma_then_close (t # s) =
     (t = Ch 44 \<and> brace_close \<in> set (takeWhile (\<lambda>u. \<not> line_end u) s) \<or> comma_then_close s)"

fun concat_map :: "('a \<Rightarrow> 'b list option) \<Rightarrow> 'a list \<Rightarrow> 'b list option" where
  "concat_map f [] = Some []"
| "concat_map f (x # xs) = Option.bind (f x) (\<lambda>ys. map_option (\<lambda>zs. ys @ zs) (concat_map f xs))"

definition combine :: "bool \<Rightarrow> btok list \<Rightarrow> btok list list \<Rightarrow> btok list list \<Rightarrow> btok list list" where
  "combine keep_empty pre N post =
     filter (\<lambda>e. keep_empty \<or> e \<noteq> []) (concat (map (\<lambda>x. map (\<lambda>p. pre @ x @ p) post) N))"

text \<open>\<open>expand\<close>, nested at most \<open>n\<close> deep.\<close>

primrec expand_n :: "nat \<Rightarrow> btok list \<Rightarrow> bool \<Rightarrow> btok list list option" where
  "expand_n 0 s is_top = None"
| "expand_n (Suc n) s is_top =
     (case braces s of
        None \<Rightarrow> Some [s]
      | Some (pre, body, post) \<Rightarrow>
          if pre \<noteq> [] \<and> last pre = Ch 36 then Some [s]
          else
            (let dots = (case plain_text body of Some t \<Rightarrow> split_dots t | None \<Rightarrow> []);
                 is_numeric = is_numeric_parts dots;
                 is_sequence = (is_numeric \<or> is_alpha_parts dots);
                 posts = (if post = [] then Some [[]] else expand_n n post False)
             in if \<not> is_sequence \<and> Ch 44 \<notin> set body
                then (if comma_then_close post
                      then expand_n n (pre @ brace_open # body @ EscClose # post) False else Some [s])
                else if is_sequence
                then Option.bind (seq_values (\<not> is_numeric) dots)
                       (\<lambda>N. map_option (combine True pre (map (map Ch) N)) posts)
                else
                  (let parts = parse_comma_parts body;
                       several = (\<lambda>ps. Option.bind (concat_map (\<lambda>el. expand_n n el False) ps)
                                   (\<lambda>N. map_option (combine (\<not> is_top) pre N) posts))
                   in if length parts = 1
                      then Option.bind (expand_n n (hd parts) False)
                             (\<lambda>es. if length es = 1
                                   then map_option (map (\<lambda>p. pre @ embrace (hd es) @ p)) posts
                                   else several (map embrace es))
                      else several parts)))"

text \<open>\<open>expandTop\<close>.\<close>

definition expand_top :: "nat \<Rightarrow> js_string \<Rightarrow> js_string list option" where
  "expand_top n s =
     (if s = [] then Some []
      else (let s1 = (if take 2 s = [123, 125] then [92, 123, 92, 125] @ drop 2 s else s)
            in map_option (map unescape_braces) (expand_n n (escape_braces s1) True)))"

section \<open>Plain text\<close>

lemma braces_none: "brace_open \<notin> set s \<Longrightarrow> braces s = None"
  by (cases "braces s") (auto dest: braces_eq)

lemma once_split:
  assumes "p @ a # q = xs @ a # ys" "a \<notin> set xs" "a \<notin> set ys"
  shows "p = xs \<and> q = ys"
  using assms
proof (induction p arbitrary: xs)
  case Nil
  then show ?case by (cases xs) auto
next
  case (Cons c p)
  then show ?case by (cases xs) auto
qed

lemma braces_once:
  assumes "brace_open \<notin> set pre" "brace_open \<notin> set body" "brace_open \<notin> set post"
    and "brace_close \<notin> set pre" "brace_close \<notin> set body" "brace_close \<notin> set post"
  shows "braces (pre @ brace_open # body @ brace_close # post) = Some (pre, body, post)"
proof -
  let ?s = "pre @ brace_open # body @ brace_close # post"
  let ?i = "length pre" and ?j = "length pre + Suc (length body)"
  have "?s ! ?i = brace_open" "?s ! ?j = brace_close" "?i < ?j" "?j < length ?s"
    by (simp_all add: nth_append)
  then have pair: "\<not> (\<forall>i j. i < j \<and> j < length ?s \<longrightarrow> \<not> (?s ! i = brace_open \<and> ?s ! j = brace_close))" by blast
  have "braces ?s \<noteq> None"
  proof
    assume none: "braces ?s = None"
    have "brace_open \<noteq> brace_close" by (simp add: brace_open_def brace_close_def)
    from balanced_splits [OF this, of ?s] none show False unfolding braces_def using pair by (simp only: option.case)
  qed
  then obtain p b q where r: "braces ?s = Some (p, b, q)" by auto
  then have eq: "p @ brace_open # (b @ brace_close # q) = pre @ brace_open # (body @ brace_close # post)"
    using braces_eq [OF r] by simp
  then have "p = pre \<and> b @ brace_close # q = body @ brace_close # post"
    by (rule once_split) (use assms in \<open>auto simp: brace_open_def brace_close_def\<close>)
  then have "p = pre" "b = body \<and> q = post"
    using once_split [of b brace_close q body post] assms by auto
  with r show ?thesis by simp
qed

lemma replace_pair_none: "Ch 92 \<notin> set s \<Longrightarrow> replace_pair c tok s = s"
  by (induction c tok s rule: replace_pair.induct) auto

lemma escape_plain: "92 \<notin> set s \<Longrightarrow> escape_braces s = map Ch s"
proof -
  assume "92 \<notin> set s"
  then have "Ch 92 \<notin> set (map Ch s)" by auto
  then show ?thesis by (simp add: escape_braces_def replace_pair_none del: set_map list.set_map)
qed

lemma unescape_plain [simp]: "unescape_braces (map Ch s) = s"
  by (induction s) (simp_all add: unescape_braces_def)

lemma plain_text_plain [simp]: "plain_text (map Ch s) = Some s"
  by (simp add: plain_text_def list_all_iff)

lemma Ch_in_map [simp]: "Ch c \<in> set (map Ch s) \<longleftrightarrow> c \<in> set s"
  by auto

text \<open>Text that means nothing to the expansion.\<close>

definition quiet :: "js_string \<Rightarrow> bool" where
  "quiet s = (set s \<inter> {92, 123, 125, 44} = {})"

lemma quiet_braces: "quiet s \<Longrightarrow> brace_open \<notin> set (map Ch s) \<and> brace_close \<notin> set (map Ch s)"
  by (auto simp: quiet_def brace_open_def brace_close_def)

lemma expand_quiet: "brace_open \<notin> set s \<Longrightarrow> expand_n (Suc n) s is_top = Some [s]"
  by (simp add: braces_none)

lemma expand_plain_set:
  assumes quiet: "quiet pre" "quiet post" and body: "set body \<inter> {92, 123, 125} = {}" "body \<noteq> []"
  shows "expand_top n (pre @ [123] @ body @ [125] @ post) =
      map_option (map unescape_braces)
        (expand_n n (map Ch pre @ brace_open # map Ch body @ brace_close # map Ch post) True)"
    and "braces (map Ch pre @ brace_open # map Ch body @ brace_close # map Ch post)
      = Some (map Ch pre, map Ch body, map Ch post)"
proof -
  let ?s = "pre @ [123] @ body @ [125] @ post"
  have "92 \<notin> set ?s" using quiet body by (auto simp: quiet_def)
  then have esc: "escape_braces ?s = map Ch pre @ brace_open # map Ch body @ brace_close # map Ch post"
    by (simp add: escape_plain brace_open_def brace_close_def)
  have "take 2 ?s \<noteq> [123, 125]"
  proof (cases pre)
    case Nil
    then show ?thesis using body by (cases body) auto
  next
    case (Cons c cs)
    then show ?thesis using quiet(1) by (auto simp: quiet_def)
  qed
  then show "expand_top n ?s = map_option (map unescape_braces)
      (expand_n n (map Ch pre @ brace_open # map Ch body @ brace_close # map Ch post) True)"
    using esc by (simp add: expand_top_def)
  have "brace_open \<notin> set (map Ch body)" "brace_close \<notin> set (map Ch body)"
    using body by (auto simp: brace_open_def brace_close_def)
  then show "braces (map Ch pre @ brace_open # map Ch body @ brace_close # map Ch post)
      = Some (map Ch pre, map Ch body, map Ch post)"
    using quiet_braces [OF quiet(1)] quiet_braces [OF quiet(2)] by (intro braces_once) simp_all
qed

text \<open>The expansions of what follows a set.\<close>

lemma expand_quiet_post:
  "quiet post \<Longrightarrow>
    (if map Ch post = [] then Some [[]] else expand_n (Suc n) (map Ch post) False) = Some [map Ch post]"
  using expand_quiet [of "map Ch post" n False] quiet_braces [of post] by auto

section \<open>Alternatives\<close>

fun join_commas :: "js_string list \<Rightarrow> js_string" where
  "join_commas [] = []" | "join_commas [p] = p" | "join_commas (p # ps) = p @ 44 # join_commas ps"

lemma split_at_none: "c \<notin> set s \<Longrightarrow> split_at c s = [s]"
  by (induction s) auto

lemma split_at_nonempty [simp]: "split_at c s \<noteq> []"
  by (cases s) auto

lemma split_at_append: "c \<notin> set p \<Longrightarrow> split_at c (p @ c # s) = p # split_at c s"
  by (induction p) auto

lemma split_join_commas:
  "list_all quiet ps \<Longrightarrow> ps \<noteq> [] \<Longrightarrow> split_at (Ch 44) (map Ch (join_commas ps)) = map (map Ch) ps"
proof (induction ps rule: join_commas.induct)
  case (2 p)
  then have "Ch 44 \<notin> set (map Ch p)" by (auto simp: quiet_def)
  then show ?case using split_at_none [of "Ch 44" "map Ch p"] by simp
next
  case (3 p q ps)
  have "Ch 44 \<notin> set (map Ch p)" using 3(2) by (auto simp: quiet_def)
  with 3 show ?case by (simp add: split_at_append del: set_map list.set_map)
qed simp

lemma split_dots_member:
  "c \<in> set s \<Longrightarrow> c \<noteq> 46 \<Longrightarrow> \<exists>p \<in> set (split_dots s). c \<in> set p"
proof (induction s rule: split_dots.induct)
  case (1 a b s)
  show ?case
  proof (cases "a = 46 \<and> b = 46")
    case True
    with 1 show ?thesis by auto
  next
    case False
    have ne: "split_dots (b # s) \<noteq> []" by (cases s) auto
    show ?thesis
    proof (cases "c = a")
      case True
      with False show ?thesis by auto
    next
      case ca: False
      then have "c \<in> set (b # s)" using 1(4) by simp
      from 1(2) [OF False this 1(5)] obtain p where "p \<in> set (split_dots (b # s))" "c \<in> set p" by blast
      with False ne show ?thesis by (cases "split_dots (b # s)") auto
    qed
  qed
qed auto

lemma comma_no_sequence:
  assumes "44 \<in> set s"
  shows "\<not> is_numeric_parts (split_dots s)" "\<not> is_alpha_parts (split_dots s)"
proof -
  obtain p where p: "p \<in> set (split_dots s)" "44 \<in> set p" using split_dots_member [OF assms] by auto
  have "\<not> list_all digit q" if "44 \<in> set q" for q using that by (auto simp: digit_def list_all_iff intro!: bexI [of _ 44])
  moreover have "\<not> digit 44" by (simp add: digit_def)
  ultimately have no: "\<not> is_int_text p" using p(2) by (cases p) auto
  show "\<not> is_numeric_parts (split_dots s)" using p no by (auto simp: is_numeric_parts_def list_all_iff)
  have "p \<in> set (take 2 (split_dots s)) \<or> p \<in> set (drop 2 (split_dots s))"
    using p(1) by (metis Un_iff append_take_drop_id set_append)
  moreover have "\<not> (length p = 1 \<and> letter (hd p))" using p(2) by (cases p) (auto simp: letter_def)
  ultimately show "\<not> is_alpha_parts (split_dots s)" using no by (auto simp: is_alpha_parts_def list_all_iff)
qed

lemma concat_map_quiet:
  "list_all (\<lambda>p. brace_open \<notin> set p) ps \<Longrightarrow> concat_map (\<lambda>el. expand_n (Suc n) el False) ps = Some ps"
  by (induction ps) (simp_all add: braces_none)

lemma join_commas_quiet:
  "list_all quiet ps \<Longrightarrow> set (join_commas ps) \<inter> {92, 123, 125} = {}"
  by (induction ps rule: join_commas.induct) (auto simp: quiet_def)

lemma join_commas_comma: "2 \<le> length ps \<Longrightarrow> 44 \<in> set (join_commas ps)"
  by (cases ps rule: join_commas.cases) auto

text \<open>
  C34. A set of plain alternatives expands to the text with each of them in turn, in order, where
  an empty result is left out.
\<close>

theorem expand_alternatives:
  assumes quiet: "quiet pre" "list_all quiet ps" "quiet post" and two: "2 \<le> length ps"
    and dollar: "pre = [] \<or> last pre \<noteq> 36"
  shows "expand_top (Suc (Suc n)) (pre @ [123] @ join_commas ps @ [125] @ post) =
    Some (filter (\<lambda>s. s \<noteq> []) (map (\<lambda>p. pre @ p @ post) ps))"
proof -
  let ?body = "join_commas ps"
  let ?m = "map Ch pre @ brace_open # map Ch ?body @ brace_close # map Ch post"
  note body = join_commas_quiet [OF quiet(2)] and comma = join_commas_comma [OF two]
  have ne: "ps \<noteq> []" "?body \<noteq> []" using two comma by auto
  note set = expand_plain_set [OF quiet(1,3) body ne(2)]
  have none: "brace_open \<notin> set (map Ch ?body)" using body by (auto simp: brace_open_def)
  have parts: "parse_comma_parts (map Ch ?body) = map (map Ch) ps"
    using ne split_join_commas [OF quiet(2) ne(1)] by (subst parse_comma_parts.simps) (simp add: braces_none [OF none])
  have cm: "concat_map (\<lambda>el. expand_n (Suc n) el False) (map (map Ch) ps) = Some (map (map Ch) ps)"
    using quiet(2) quiet_braces by (intro concat_map_quiet) (auto simp: list_all_iff)
  have last: "(map Ch pre \<noteq> [] \<and> last (map Ch pre) = Ch 36) = False" using dollar by (auto simp: last_map)
  have "expand_n (Suc (Suc n)) ?m True = Some (combine False (map Ch pre) (map (map Ch) ps) [map Ch post])"
    using comma_no_sequence [OF comma] comma parts cm expand_quiet_post [OF quiet(3), of n] two last
    by (subst expand_n.simps(2), simp only: set(2) option.case prod.case last if_False)
      (simp add: Let_def del: expand_n.simps list.set_map)
  moreover have "map unescape_braces (combine False (map Ch pre) (map (map Ch) ps) [map Ch post]) =
      filter (\<lambda>s. s \<noteq> []) (map (\<lambda>p. pre @ p @ post) ps)"
    by (induction ps) (auto simp: combine_def simp flip: map_append)
  ultimately show ?thesis by (simp only: set(1) option.map)
qed

lemma expand_alternatives_witness:
  "expand_top 2 (js ''a'' @ [123] @ join_commas [js ''b'', js ''c''] @ [125] @ js ''d'') = Some [js ''abd'', js ''acd'']"
  using expand_alternatives [of "js ''a''" "[js ''b'', js ''c'']" "js ''d''" 0]
  by (simp add: quiet_def numeral_2_eq_2)

section \<open>Numbers as text\<close>

lemma js_show_nat:
  "js (show_nat n) = (if n < 10 then [48 + n] else js (show_nat (n div 10)) @ [48 + n mod 10])"
  by (subst show_nat.simps) (simp add: js_def digit_char_def of_char_of)

lemma nat_text_digits: "list_all digit (js (show_nat n))"
proof (induction n rule: show_nat.induct)
  case (1 n)
  then show ?case by (subst js_show_nat) (auto simp: digit_def [of "48 + _"])
qed

lemma nat_text_nonempty [simp]: "js (show_nat n) \<noteq> []"
  by (simp add: js_def)

lemma nat_text_reads: "read_digits (js (show_nat n)) = int n"
proof (induction n rule: show_nat.induct)
  case (1 n)
  show ?case
  proof (cases "n < 10")
    case True
    then show ?thesis by (subst js_show_nat) (simp add: read_digits_def)
  next
    case False
    have "int n = 10 * int (n div 10) + int (n mod 10)" by presburger
    with 1 False show ?thesis by (subst js_show_nat) (simp add: read_digits_def)
  qed
qed

lemma nat_text_first: "0 < n \<Longrightarrow> hd (js (show_nat n)) \<noteq> 48"
proof (induction n rule: show_nat.induct)
  case (1 n)
  show ?case
  proof (cases "n < 10")
    case True
    with 1(2) show ?thesis by (subst js_show_nat) simp
  next
    case False
    then have "0 < n div 10" by simp
    with 1(1) False show ?thesis by (subst js_show_nat) (simp add: hd_append)
  qed
qed

lemma nat_text_zero: "js (show_nat 0) = [48]"
  by (subst js_show_nat) simp

lemma nat_text_no_minus: "hd (js (show_nat n)) \<noteq> 45"
  using nat_text_digits [of n] by (cases "js (show_nat n)") (auto simp: digit_def)

lemma int_text_number [simp]: "is_int_text (int_text i)" "numeric (int_text i) = i"
proof -
  have pos: "is_int_text (js (show_nat n))" for n
    using nat_text_digits [of n] nat_text_no_minus [of n] by (cases "js (show_nat n)") auto
  then show "is_int_text (int_text i)" using nat_text_digits by (simp add: int_text_def)
  then show "numeric (int_text i) = i"
    using nat_text_no_minus by (simp add: numeric_def int_text_def nat_text_reads)
qed

lemma int_text_not_padded: "\<not> is_padded (int_text i)"
proof -
  have pos: "\<not> (2 \<le> length (js (show_nat n)) \<and> hd (js (show_nat n)) = 48)" for n
    using nat_text_first [of n] nat_text_zero by (cases "n = 0") auto
  have "(if take 1 (int_text i) = [45] then tl (int_text i) else int_text i) = js (show_nat (nat \<bar>i\<bar>))"
  proof (cases "i < 0")
    case False
    then have "int_text i = js (show_nat (nat i))" by (simp add: int_text_def)
    moreover have "take 1 (js (show_nat (nat i))) \<noteq> [45]"
      using nat_text_no_minus [of "nat i"] by (cases "js (show_nat (nat i))") auto
    ultimately show ?thesis using False by simp
  qed (simp add: int_text_def)
  with pos show ?thesis unfolding is_padded_def Let_def by (simp only:) blast
qed

lemma int_text_chars: "c \<in> set (int_text i) \<Longrightarrow> c = 45 \<or> digit c"
  using nat_text_digits by (auto simp: int_text_def list_all_iff split: if_splits)

section \<open>Sequences of numbers\<close>

lemma split_dots_none: "46 \<notin> set p \<Longrightarrow> split_dots p = [p]"
  by (induction p rule: split_dots.induct) auto

lemma split_dots_append: "46 \<notin> set p \<Longrightarrow> split_dots (p @ 46 # 46 # s) = p # split_dots s"
proof (induction p)
  case (Cons a p)
  then show ?case by (cases p) auto
qed simp

text \<open>The body of a sequence from \<open>x\<close> to \<open>y\<close>, with its increment if it has one.\<close>

definition seq_body :: "int \<Rightarrow> int \<Rightarrow> int option \<Rightarrow> js_string" where
  "seq_body x y inc =
     int_text x @ [46, 46] @ int_text y @ (case inc of None \<Rightarrow> [] | Some k \<Rightarrow> [46, 46] @ int_text k)"

lemma int_text_no_dot: "46 \<notin> set (int_text i)"
  using int_text_chars [of 46 i] by (auto simp: digit_def)

lemma split_seq_body:
  "split_dots (seq_body x y inc) = int_text x # int_text y # (case inc of None \<Rightarrow> [] | Some k \<Rightarrow> [int_text k])"
  by (cases inc) (simp_all add: seq_body_def split_dots_append split_dots_none int_text_no_dot)

lemma seq_body_chars: "set (seq_body x y inc) \<inter> {92, 123, 125, 44} = {}"
proof -
  have "c = 45 \<or> c = 46 \<or> digit c" if "c \<in> set (seq_body x y inc)" for c
    using that int_text_chars by (cases inc) (auto simp: seq_body_def)
  then show ?thesis by (fastforce simp: digit_def)
qed

lemma seq_loop_zero:
  assumes "if reverse then y \<le> i else i \<le> y"
  shows "seq_loop reverse i y 0 = None"
proof (rule ccontr)
  assume "seq_loop reverse i y 0 \<noteq> None"
  then obtain r where r: "seq_loop reverse i y 0 = Some r" by blast
  have "(0::int) = 0 \<longrightarrow> \<not> (if reverse then y \<le> i else i \<le> y)"
  proof (rule seq_loop.raw_induct [where P = "\<lambda>rev i y k r. k = 0 \<longrightarrow> \<not> (if rev then y \<le> i else i \<le> y)", OF _ r])
    fix f rev i y k r
    assume ih: "\<And>rev i y k r. f rev i y k = Some r \<Longrightarrow> k = 0 \<longrightarrow> \<not> (if rev then y \<le> i else i \<le> y)"
      and eq: "(if (if rev then y \<le> i else i \<le> y) then Option.bind (f rev (i + k) y k) (\<lambda>r. Some (i # r)) else Some []) = Some (r :: int list)"
    show "k = 0 \<longrightarrow> \<not> (if rev then y \<le> i else i \<le> y)"
    proof (intro impI notI)
      assume k: "k = 0" and run: "if rev then y \<le> i else i \<le> y"
      from eq have "Option.bind (f rev i y 0) (\<lambda>r. Some (i # r)) = Some r" by (simp only: k add_0_right if_P [OF run])
      then obtain r' where "f rev i y 0 = Some r'" by (cases "f rev i y 0") simp_all
      from ih [OF this] run show False by simp
    qed
  qed
  with assms show False by simp
qed

lemma seq_loop_steps:
  assumes "k \<noteq> 0" "reverse \<longleftrightarrow> k < 0"
  shows "seq_loop reverse i y k =
    Some (map (\<lambda>j. i + k * int j) [0..<nat ((y - i) div k + 1)])"
proof (induction "nat ((y - i) div k + 1)" arbitrary: i)
  case 0
  then have "(y - i) div k < 0" by simp
  then have "\<not> (if reverse then y \<le> i else i \<le> y)"
    using assms by (auto simp: pos_imp_zdiv_nonneg_iff neg_imp_zdiv_nonneg_iff not_le [symmetric] simp del: not_le)
  with 0 show ?case by (subst seq_loop.simps) simp
next
  case (Suc m)
  have shift: "(y - (i + k)) div k = (y - i) div k - 1"
    using assms(1) div_mult_self2 [of k "y - i" "-1"] by (simp add: algebra_simps)
  have nn: "0 \<le> (y - i) div k" using Suc(2) by simp
  then have run: "if reverse then y \<le> i else i \<le> y"
    using assms by (auto simp: pos_imp_zdiv_nonneg_iff neg_imp_zdiv_nonneg_iff)
  have m: "m = nat ((y - (i + k)) div k + 1)" using Suc(2) shift by simp
  have "seq_loop reverse (i + k) y k = Some (map (\<lambda>j. i + k + k * int j) [0..<m])"
    using Suc(1) [OF m] m by simp
  then have "seq_loop reverse i y k = Some (i # map (\<lambda>j. i + k + k * int j) [0..<m])"
    using run by (subst seq_loop.simps) simp
  also have "i # map (\<lambda>j. i + k + k * int j) [0..<m] = map (\<lambda>j. i + k * int j) (0 # map Suc [0..<m])"
    by (simp add: algebra_simps)
  also have "0 # map Suc [0..<m] = [0..<Suc m]" by (simp only: map_Suc_upt upt_conv_Cons [symmetric] zero_less_Suc)
  finally show ?case using Suc(2) by simp
qed

definition seq_step :: "int option \<Rightarrow> int" where
  "seq_step inc = (case inc of None \<Rightarrow> 1 | Some k \<Rightarrow> \<bar>k\<bar>)"

lemma seq_values_numbers:
  "seq_values False (int_text x # int_text y # (case inc of None \<Rightarrow> [] | Some k \<Rightarrow> [int_text k])) =
    (if seq_step inc = 0 then None
     else Some (map (\<lambda>j. int_text (if y < x then x - seq_step inc * int j else x + seq_step inc * int j))
       [0..<Suc (nat (\<bar>y - x\<bar> div seq_step inc))]))"
proof -
  let ?n = "int_text x # int_text y # (case inc of None \<Rightarrow> [] | Some k \<Rightarrow> [int_text k])"
  let ?k = "if y < x then - seq_step inc else seq_step inc"
  have "\<not> list_ex is_padded ?n" by (cases inc) (simp_all add: int_text_not_padded)
  then have vals: "seq_values False ?n = map_option (map int_text) (seq_loop (y < x) x y ?k)"
    by (cases inc) (simp_all add: seq_values_def Let_def seq_number_def [abs_def] seq_step_def)
  show ?thesis
  proof (cases "seq_step inc = 0")
    case True
    moreover have "seq_loop (y < x) x y 0 = None" by (rule seq_loop_zero) auto
    ultimately show ?thesis unfolding vals by (cases "y < x") simp_all
  next
    case False
    have pos: "0 < seq_step inc" using False by (cases inc) (auto simp: seq_step_def)
    then have "?k \<noteq> 0" "y < x \<longleftrightarrow> ?k < 0" by auto
    from seq_loop_steps [OF this] have
      loop: "seq_loop (y < x) x y ?k = Some (map (\<lambda>j. x + ?k * int j) [0..<nat ((y - x) div ?k + 1)])" .
    have "(y - x) div ?k = \<bar>y - x\<bar> div seq_step inc"
      using div_minus_minus [of "x - y" "seq_step inc"] by auto
    moreover have "0 \<le> \<bar>y - x\<bar> div seq_step inc" using pos by (simp add: pos_imp_zdiv_nonneg_iff)
    ultimately have "nat ((y - x) div ?k + 1) = Suc (nat (\<bar>y - x\<bar> div seq_step inc))" by (simp add: nat_add_distrib)
    with loop False show ?thesis unfolding vals by (simp only:) simp
  qed
qed



end
