(* ===== verification/JsBraceDepth.thy ===== *)
theory JsBraceDepth
  imports JsBrace
begin

text \<open>
  How deep the brace expansion of \<open>JsBrace\<close> nests. Every nested call is on a lighter text, where the
  weight of a text is its characters and its closing braces; for this the theory shows that the
  parts of a body make it up, that the values of a sequence are no longer than its ends, and that
  what an expansion gives is the text itself or lighter. So fuel above the weight is enough.
\<close>

section \<open>Weights\<close>

text \<open>
  Every nested call is on a shorter text, or on one of the same length with a closing brace less.
\<close>

definition expand_weight :: "btok list \<Rightarrow> nat" where
  "expand_weight s = length s + length (filter (\<lambda>t. t = brace_close) s)"

lemma expand_weight_append: "expand_weight (s @ t) = expand_weight s + expand_weight t"
  by (simp add: expand_weight_def)

lemma expand_weight_simps [simp]:
  "expand_weight [] = 0"
  "expand_weight (t # s) = (if t = brace_close then 2 else 1) + expand_weight s"
  by (simp_all add: expand_weight_def)

lemma weight_take_drop: "expand_weight (take k s) + expand_weight (drop k s) = expand_weight s"
  by (simp flip: expand_weight_append)

lemma split_at_weight: "p \<in> set (split_at c s) \<Longrightarrow> expand_weight p \<le> expand_weight s"
proof (induction s arbitrary: p)
  case (Cons x s)
  have hd: "hd (split_at c s) \<in> set (split_at c s)" by simp
  show ?case
  proof (cases "x = c")
    case True
    with Cons show ?thesis by fastforce
  next
    case False
    with Cons(2) consider "p = x # hd (split_at c s)" | "p \<in> set (tl (split_at c s))" by auto
    then show ?thesis
    proof cases
      case 1
      with Cons(1) [OF hd] show ?thesis by simp
    next
      case 2
      then have "p \<in> set (split_at c s)" by (meson list.set_sel(2) split_at_nonempty)
      from Cons(1) [OF this] show ?thesis by simp
    qed
  qed
qed simp

lemma parse_comma_parts_nonempty [simp]: "parse_comma_parts s \<noteq> []"
  by (subst parse_comma_parts.simps) (auto simp: join_parts_def Let_def split: option.split)

lemma parse_comma_parts_weight: "p \<in> set (parse_comma_parts s) \<Longrightarrow> expand_weight p \<le> expand_weight s"
proof (induction s arbitrary: p rule: parse_comma_parts.induct)
  case (1 s)
  show ?case
  proof (cases "braces s")
    case None
    with 1(2) show ?thesis by (subst (asm) parse_comma_parts.simps) (auto dest: split_at_weight split: if_splits)
  next
    case (Some m)
    then obtain pre body post where m: "m = (pre, body, post)" by (cases m)
    let ?p1 = "butlast (split_at (Ch 44) pre) @ [last (split_at (Ch 44) pre) @ brace_open # body @ [brace_close]]"
    from Some m have s: "s = pre @ brace_open # body @ brace_close # post" by (auto dest: braces_eq)
    then have ne: "s \<noteq> []" by auto
    have w: "expand_weight s = expand_weight pre + (1 + (expand_weight body + (2 + expand_weight post)))"
      by (simp add: s expand_weight_append brace_open_def brace_close_def)
    have ws: "expand_weight q \<le> expand_weight pre + (1 + (expand_weight body + 2))" if "q \<in> set ?p1" for q
    proof -
      from that consider "q \<in> set (butlast (split_at (Ch 44) pre))"
        | "q = last (split_at (Ch 44) pre) @ brace_open # body @ [brace_close]" by auto
      then show ?thesis
      proof cases
        case 1
        then have "q \<in> set (split_at (Ch 44) pre)" by (rule in_set_butlastD)
        from split_at_weight [OF this] show ?thesis by simp
      next
        case 2
        have "expand_weight (last (split_at (Ch 44) pre)) \<le> expand_weight pre"
          by (intro split_at_weight [of _ "Ch 44"] last_in_set) simp
        then show ?thesis by (simp add: 2 expand_weight_append brace_open_def brace_close_def)
      qed
    qed
    show ?thesis
    proof (cases "post = []")
      case True
      then have "p \<in> set ?p1" using 1(2) ne Some m by (subst (asm) parse_comma_parts.simps) (simp add: Let_def)
      from ws [OF this] show ?thesis by (simp add: w)
    next
      case False
      have ih: "expand_weight q \<le> expand_weight post" if "q \<in> set (parse_comma_parts post)" for q
        using 1(1) [OF ne Some m [symmetric] refl refl refl False that] .
      have "p \<in> set (join_parts ?p1 (parse_comma_parts post))"
        using 1(2) ne Some m False by (subst (asm) parse_comma_parts.simps) (simp add: Let_def)
      then consider "p \<in> set (butlast ?p1)" | "p = last ?p1 @ hd (parse_comma_parts post)"
        | "p \<in> set (tl (parse_comma_parts post))" by (auto simp: join_parts_def)
      then show ?thesis
      proof cases
        case 1
        then have "p \<in> set ?p1" by (rule in_set_butlastD)
        from ws [OF this] show ?thesis by (simp add: w)
      next
        case 2
        have "expand_weight (last ?p1) \<le> expand_weight pre + (1 + (expand_weight body + 2))" by (rule ws) simp
        moreover have "expand_weight (hd (parse_comma_parts post)) \<le> expand_weight post" by (rule ih) simp
        ultimately show ?thesis unfolding 2 expand_weight_append w by linarith
      next
        case 3
        then have "p \<in> set (parse_comma_parts post)" by (meson list.set_sel(2) parse_comma_parts_nonempty)
        from ih [OF this] show ?thesis by (simp add: w)
      qed
    qed
  qed
qed

lemma concat_map_cong:
  "(\<And>x. x \<in> set xs \<Longrightarrow> f x = g x) \<Longrightarrow> concat_map f xs = concat_map g xs"
  by (induction xs) simp_all


text \<open>The parts, with commas between them, are the text.\<close>

fun glue :: "btok list list \<Rightarrow> btok list" where
  "glue [] = []" | "glue [p] = p" | "glue (p # ps) = p @ Ch 44 # glue ps"

lemma glue_snoc: "ps \<noteq> [] \<Longrightarrow> glue (ps @ [p]) = glue ps @ Ch 44 # p"
  by (induction ps rule: glue.induct) simp_all

lemma glue_extend: "ps \<noteq> [] \<Longrightarrow> glue (butlast ps @ [last ps @ s]) = glue ps @ s"
proof -
  assume "ps \<noteq> []"
  then obtain us u where "ps = us @ [u]" by (cases ps rule: rev_cases) auto
  then show ?thesis using glue_snoc [of us] by (cases "us = []") simp_all
qed

lemma glue_split: "glue (split_at (Ch 44) s) = s"
proof (induction s)
  case (Cons x s)
  have ne: "split_at (Ch 44) s \<noteq> []" by simp
  then obtain p ps where p: "split_at (Ch 44) s = p # ps" by (cases "split_at (Ch 44) s") auto
  with Cons show ?case by (cases ps) auto
qed simp

lemma glue_join:
  assumes "ps \<noteq> []" "qs \<noteq> []"
  shows "glue (join_parts ps qs) = glue ps @ glue qs"
proof -
  obtain q qs' where qs: "qs = q # qs'" using assms(2) by (cases qs) auto
  have "glue (butlast ps @ (last ps @ q) # qs') = glue ps @ glue (q # qs')"
  proof (cases qs')
    case Nil
    then show ?thesis using glue_extend [OF assms(1)] by simp
  next
    case (Cons r rs)
    have "glue (us @ u # r # rs) = glue (us @ [u]) @ Ch 44 # glue (r # rs)" for us u
      by (induction us rule: glue.induct) simp_all
    with Cons glue_extend [OF assms(1), of q] show ?thesis by simp
  qed
  then show ?thesis by (simp add: join_parts_def qs)
qed

lemma glue_parts: "glue (parse_comma_parts s) = s"
proof (induction s rule: parse_comma_parts.induct)
  case (1 s)
  show ?case
  proof (cases "s = [] \<or> braces s = None")
    case True
    then show ?thesis by (subst parse_comma_parts.simps) (auto simp: glue_split)
  next
    case False
    then obtain pre body post where m: "braces s = Some (pre, body, post)" and ne: "s \<noteq> []" by auto
    let ?p1 = "butlast (split_at (Ch 44) pre) @ [last (split_at (Ch 44) pre) @ brace_open # body @ [brace_close]]"
    have p1: "glue ?p1 = pre @ brace_open # body @ [brace_close]" by (simp add: glue_extend glue_split)
    note s = braces_eq [OF m]
    show ?thesis
    proof (cases "post = []")
      case True
      then show ?thesis using m ne p1 s by (subst parse_comma_parts.simps) (simp add: Let_def)
    next
      case False
      have "glue (parse_comma_parts post) = post"
        using 1 [OF ne m refl refl refl refl False] .
      then have "glue (join_parts ?p1 (parse_comma_parts post)) = s"
        by (subst glue_join) (simp_all add: p1 s)
      with m ne False show ?thesis by (subst parse_comma_parts.simps) (simp add: Let_def)
    qed
  qed
qed

lemma single_part: "length (parse_comma_parts s) = 1 \<Longrightarrow> hd (parse_comma_parts s) = s"
  using glue_parts [of s] by (cases "parse_comma_parts s") auto

text \<open>The values of a sequence are no longer than the texts of its ends.\<close>

lemma seq_loop_range:
  assumes "seq_loop reverse i y incr = Some r" "if reverse then incr \<le> 0 else 0 \<le> incr"
  shows "\<forall>v \<in> set r. if reverse then y \<le> v \<and> v \<le> i else i \<le> v \<and> v \<le> y"
proof -
  have "(if reverse then incr \<le> 0 else 0 \<le> incr) \<longrightarrow>
      (\<forall>v \<in> set r. if reverse then y \<le> v \<and> v \<le> i else i \<le> v \<and> v \<le> y)"
  proof (rule seq_loop.raw_induct [where P = "\<lambda>rev i y k r. (if rev then k \<le> 0 else 0 \<le> k) \<longrightarrow>
      (\<forall>v \<in> set r. if rev then y \<le> v \<and> v \<le> i else i \<le> v \<and> v \<le> y)", OF _ assms(1)])
    fix f rev i y k r
    assume ih: "\<And>rev i y k r. f rev i y k = Some r \<Longrightarrow> (if rev then k \<le> 0 else 0 \<le> k) \<longrightarrow>
        (\<forall>v \<in> set r. if rev then y \<le> v \<and> v \<le> i else i \<le> v \<and> v \<le> (y :: int))"
      and eq: "(if (if rev then y \<le> i else i \<le> y) then Option.bind (f rev (i + k) y k) (\<lambda>r. Some (i # r)) else Some []) = Some r"
    show "(if rev then k \<le> 0 else 0 \<le> k) \<longrightarrow> (\<forall>v \<in> set r. if rev then y \<le> v \<and> v \<le> i else i \<le> v \<and> v \<le> y)"
    proof (cases "if rev then y \<le> i else i \<le> y")
      case True
      from eq have "Option.bind (f rev (i + k) y k) (\<lambda>r. Some (i # r)) = Some r" by (simp only: if_P [OF True])
      then obtain r' where r': "f rev (i + k) y k = Some r'" "r = i # r'" by (cases "f rev (i + k) y k") auto
      from ih [OF r'(1)] True show ?thesis unfolding r'(2) by (cases rev) fastforce+
    next
      case False
      from eq have "r = []" by (simp only: if_not_P [OF False] option.inject)
      then show ?thesis by simp
    qed
  qed
  with assms(2) show ?thesis by blast
qed

lemma digits_value_less: "list_all digit s \<Longrightarrow> read_digits s < 10 ^ length s \<and> 0 \<le> read_digits s"
proof (induction s rule: rev_induct)
  case (snoc c s)
  then have "read_digits s < 10 ^ length s" "0 \<le> read_digits s" "digit c" by (auto simp: list_all_iff)
  moreover from \<open>digit c\<close> have "0 \<le> int c - 48" "int c - 48 \<le> 9" by (auto simp: digit_def)
  moreover have "read_digits (s @ [c]) = 10 * read_digits s + (int c - 48)" by (simp add: read_digits_def)
  ultimately show ?case by simp
qed (simp add: read_digits_def)

lemma nat_text_length: "int n < 10 ^ k \<Longrightarrow> 0 < k \<Longrightarrow> length (js (show_nat n)) \<le> k"
proof -
  assume a: "int n < 10 ^ k" and k: "0 < k"
  have "int n < int (10 ^ k)" using a by simp
  then have "n < 10 ^ k" using of_nat_less_iff by blast
  from length_show_nat [OF this k] show ?thesis by simp
qed

lemma int_text_parts:
  assumes "is_int_text p"
  obtains t where "p = 45 # t" "t \<noteq> []" "list_all digit t" "numeric p = - read_digits t"
  | "hd p \<noteq> 45" "p \<noteq> []" "list_all digit p" "numeric p = read_digits p"
proof (cases p)
  case Nil
  with assms show thesis by simp
next
  case (Cons c t)
  show thesis
  proof (cases "c = 45")
    case True
    with assms Cons show thesis by (intro that(1) [of t]) (simp_all add: numeric_def)
  next
    case False
    with assms Cons show thesis by (intro that(2)) (simp_all add: numeric_def)
  qed
qed

lemma nat_text_fits:
  assumes "list_all digit t" "t \<noteq> []" "int n \<le> read_digits t"
  shows "length (js (show_nat n)) \<le> length t"
proof -
  have "int n < 10 ^ length t" using assms(3) digits_value_less [OF assms(1)] by linarith
  then show ?thesis by (rule nat_text_length) (use assms(2) in blast)
qed

lemma int_text_between:
  assumes "is_int_text p" "is_int_text q" "numeric p \<le> i" "i \<le> numeric q"
  shows "length (int_text i) \<le> max (length p) (length q)"
proof (cases "i < 0")
  case True
  from assms(1) show ?thesis
  proof (cases rule: int_text_parts)
    case (1 t)
    have "length (js (show_nat (nat (- i)))) \<le> length t"
      by (rule nat_text_fits [OF 1(3,2)]) (use 1(4) assms(3) True in simp)
    with 1(1) True show ?thesis by (simp add: int_text_def)
  next
    case 2
    with assms(3) True digits_value_less [OF 2(3)] show ?thesis by linarith
  qed
next
  case False
  from assms(2) show ?thesis
  proof (cases rule: int_text_parts)
    case (1 t)
    have "length (js (show_nat (nat i))) \<le> length t"
      by (rule nat_text_fits [OF 1(3,2)]) (use 1(4) assms(4) False digits_value_less [OF 1(3)] in linarith)
    with 1(1) False show ?thesis by (simp add: int_text_def)
  next
    case 2
    have "length (js (show_nat (nat i))) \<le> length q"
      by (rule nat_text_fits [OF 2(3,2)]) (use 2(4) assms(4) False in simp)
    with False show ?thesis by (simp add: int_text_def)
  qed
qed

lemma seq_number_length: "length (seq_number pad width i) \<le> max width (length (int_text i))"
proof -
  obtain c t where "int_text i = c # t" if "i < 0" by (simp add: int_text_def)
  then show ?thesis by (cases "i < 0") (auto simp: seq_number_def Let_def)
qed

lemma int_text_no_close: "125 \<notin> set (int_text i)"
  using int_text_chars [of 125 i] by (auto simp: digit_def)

lemma seq_number_no_close: "125 \<notin> set (seq_number pad width i)"
proof -
  have "125 \<notin> set (tl (int_text i))" using int_text_no_close [of i] by (cases "int_text i") auto
  with int_text_no_close [of i] show ?thesis by (auto simp: seq_number_def Let_def)
qed

lemma seq_values_length:
  assumes n: "is_numeric_parts n \<or> is_alpha_parts n" and r: "seq_values (\<not> is_numeric_parts n) n = Some r"
  shows "\<forall>v \<in> set r. length v \<le> max (length (n ! 0)) (length (n ! 1)) \<and> 125 \<notin> set v"
proof -
  let ?x = "numeric (n ! 0)" and ?y = "numeric (n ! 1)" and ?w = "max (length (n ! 0)) (length (n ! 1))"
  let ?incr = "if length n = 3 then \<bar>numeric (n ! 2)\<bar> else 1"
  from r obtain l where l: "seq_loop (?y < ?x) ?x ?y (if ?y < ?x then - ?incr else ?incr) = Some l"
    and r': "r = map (if is_numeric_parts n then seq_number (list_ex is_padded n) ?w else seq_char) l"
    by (cases "is_numeric_parts n") (auto simp: seq_values_def Let_def)
  have between: "\<forall>v \<in> set l. if ?y < ?x then ?y \<le> v \<and> v \<le> ?x else ?x \<le> v \<and> v \<le> ?y"
    by (rule seq_loop_range [OF l]) simp
  show ?thesis
  proof (cases "is_numeric_parts n")
    case True
    have parts: "is_int_text (n ! 0)" "is_int_text (n ! 1)"
      using True by (auto simp: is_numeric_parts_def list_all_length)
    have "length (int_text v) \<le> ?w" if "v \<in> set l" for v
      using between that int_text_between [OF parts, of v] int_text_between [OF parts(2,1), of v]
      by (cases "?y < ?x") (auto simp: max.commute)
    then show ?thesis unfolding r' using seq_number_length [of "list_ex is_padded n" ?w] seq_number_no_close True
      by (fastforce intro: order.trans)
  next
    case False
    with n have alpha: "length (n ! 0) = 1" "letter (hd (n ! 0))" "length (n ! 1) = 1" "letter (hd (n ! 1))"
      by (cases n; cases "tl n"; auto simp: is_alpha_parts_def)+
    have letter: "numeric p \<le> 122" if "length p = 1" "letter (hd p)" for p
    proof -
      from that obtain c where "p = [c]" by (cases p) auto
      with that show ?thesis by (auto simp: numeric_def letter_def digit_def)
    qed
    have "v \<le> 122" if "v \<in> set l" for v
      using between that letter [OF alpha(1,2)] letter [OF alpha(3,4)] by (cases "?y < ?x") force+
    then show ?thesis unfolding r' using False alpha by (fastforce simp: seq_char_def)
  qed
qed

lemma weight_map_Ch: "125 \<notin> set v \<Longrightarrow> expand_weight (map Ch v) = length v"
  by (induction v) (auto simp: brace_close_def)

lemma split_dots_length: "p \<in> set (split_dots s) \<Longrightarrow> length p \<le> length s"
proof (induction s arbitrary: p rule: split_dots.induct)
  case (1 a b s)
  have ne: "split_dots (b # s) \<noteq> []" by (cases s) auto
  show ?case
  proof (cases "a = 46 \<and> b = 46")
    case True
    with 1 show ?thesis by fastforce
  next
    case False
    note ih = 1(2) [OF False]
    have "split_dots (a # b # s) = (a # hd (split_dots (b # s))) # tl (split_dots (b # s))"
      using False by (simp only: split_dots.simps if_False)
    with "1.prems" have "p = a # hd (split_dots (b # s)) \<or> p \<in> set (tl (split_dots (b # s)))" by (simp only: list.set insert_iff)
    then consider "p = a # hd (split_dots (b # s))" | "p \<in> set (tl (split_dots (b # s)))" by blast
    then show ?thesis
    proof cases
      case 1
      with ih [of "hd (split_dots (b # s))"] ne show ?thesis by simp
    next
      case 2
      with ne have "p \<in> set (split_dots (b # s))" by (meson list.set_sel(2))
      from ih [OF this] show ?thesis by simp
    qed
  qed
qed auto

section \<open>Enough fuel\<close>

lemma plain_text_eq: "plain_text s = Some t \<Longrightarrow> s = map Ch t"
proof (induction s arbitrary: t)
  case (Cons x s)
  then show ?case by (cases x) (auto simp: plain_text_def unescape_braces_def split: if_splits)
qed (simp add: plain_text_def unescape_braces_def)

text \<open>The values of a sequence in braces weigh no more than its text.\<close>

lemma seq_weight:
  assumes "dots = (case plain_text body of Some t \<Rightarrow> split_dots t | None \<Rightarrow> [])"
    and seq: "is_numeric_parts dots \<or> is_alpha_parts dots" and r: "seq_values (\<not> is_numeric_parts dots) dots = Some N"
    and v: "v \<in> set N"
  shows "expand_weight (map Ch v) \<le> expand_weight body"
proof -
  have two: "2 \<le> length dots" using seq by (auto simp: is_numeric_parts_def is_alpha_parts_def)
  with assms(1) obtain t where t: "plain_text body = Some t" "dots = split_dots t"
    by (cases "plain_text body") auto
  have "dots ! 0 \<in> set dots" "dots ! 1 \<in> set dots" using two by (auto intro!: nth_mem)
  then have "length (dots ! 0) \<le> length t" "length (dots ! 1) \<le> length t" using split_dots_length t(2) by auto
  moreover from seq_values_length [OF seq r] v
  have "length v \<le> max (length (dots ! 0)) (length (dots ! 1))" "125 \<notin> set v" by auto
  moreover have "length t \<le> expand_weight body" using plain_text_eq [OF t(1)] by (simp add: expand_weight_def)
  ultimately show ?thesis by (simp add: weight_map_Ch)
qed

text \<open>The ways a call returns.\<close>

definition expand_rest :: "nat \<Rightarrow> btok list \<Rightarrow> btok list list option" where
  "expand_rest n post = (if post = [] then Some [[]] else expand_n n post False)"

lemma expand_n_cases:
  assumes "expand_n (Suc n) s is_top = Some rs"
  obtains (same) "rs = [s]"
  | (again) pre body post where "braces s = Some (pre, body, post)"
      "expand_n n (pre @ brace_open # body @ EscClose # post) False = Some rs"
  | (sequence) pre body post N ps dots where "braces s = Some (pre, body, post)"
      "dots = (case plain_text body of Some t \<Rightarrow> split_dots t | None \<Rightarrow> [])"
      "is_numeric_parts dots \<or> is_alpha_parts dots" "seq_values (\<not> is_numeric_parts dots) dots = Some N"
      "expand_rest n post = Some ps" "rs = combine True pre (map (map Ch) N) ps"
  | (one) pre body post e ps where "braces s = Some (pre, body, post)"
      "length (parse_comma_parts body) = 1" "expand_n n (hd (parse_comma_parts body)) False = Some [e]"
      "expand_rest n post = Some ps" "rs = map (\<lambda>p. pre @ embrace e @ p) ps"
  | (again_all) pre body post es N ps where "braces s = Some (pre, body, post)"
      "length (parse_comma_parts body) = 1" "expand_n n (hd (parse_comma_parts body)) False = Some es"
      "length es \<noteq> 1" "concat_map (\<lambda>el. expand_n n el False) (map embrace es) = Some N"
      "expand_rest n post = Some ps" "rs = combine (\<not> is_top) pre N ps"
  | (several) pre body post N ps where "braces s = Some (pre, body, post)"
      "concat_map (\<lambda>el. expand_n n el False) (parse_comma_parts body) = Some N"
      "expand_rest n post = Some ps" "rs = combine (\<not> is_top) pre N ps"
proof (cases "braces s")
  case None
  with assms same show thesis by simp
next
  case (Some m)
  obtain pre body post where m: "m = (pre, body, post)" by (cases m)
  let ?dots = "case plain_text body of Some t \<Rightarrow> split_dots t | None \<Rightarrow> []"
  let ?seq = "is_numeric_parts ?dots \<or> is_alpha_parts ?dots"
  note br = Some [unfolded m]
  show thesis
  proof (cases "pre \<noteq> [] \<and> last pre = Ch 36")
    case True
    with assms br same show thesis by simp
  next
    case dollar: False
    show thesis
    proof (cases ?seq)
      case True
      have sq: "expand_n (Suc n) s is_top = Option.bind (seq_values (\<not> is_numeric_parts ?dots) ?dots)
          (\<lambda>N. map_option (combine True pre (map (map Ch) N)) (expand_rest n post))"
        using br dollar True by (simp only: expand_n.simps(2) option.case prod.case Let_def if_False if_True
          expand_rest_def simp_thms)
      obtain N ps where "seq_values (\<not> is_numeric_parts ?dots) ?dots = Some N"
        "expand_rest n post = Some ps" "rs = combine True pre (map (map Ch) N) ps"
        using assms unfolding sq by (auto simp: bind_eq_Some_conv)
      then show thesis by (rule sequence [OF br refl True])
    next
      case no_seq: False
      show thesis
      proof (cases "Ch 44 \<in> set body")
        case False
        have "expand_n (Suc n) s is_top =
            (if comma_then_close post then expand_n n (pre @ brace_open # body @ EscClose # post) False else Some [s])"
          using br dollar no_seq False
          by (simp only: expand_n.simps(2) option.case prod.case Let_def if_False if_True simp_thms)
        with assms same again [OF br] show thesis by (cases "comma_then_close post") simp_all
      next
        case True
        define several' where "several' = (\<lambda>ps. Option.bind (concat_map (\<lambda>el. expand_n n el False) ps)
            (\<lambda>N. map_option (combine (\<not> is_top) pre N) (expand_rest n post)))"
        have several': "\<exists>N qs. concat_map (\<lambda>el. expand_n n el False) ps = Some N \<and> expand_rest n post = Some qs
            \<and> rs = combine (\<not> is_top) pre N qs" if "several' ps = Some rs" for ps
          using that by (auto simp: several'_def bind_eq_Some_conv)
        let ?parts = "parse_comma_parts body"
        have eq: "expand_n (Suc n) s is_top =
            (if length ?parts = 1
             then Option.bind (expand_n n (hd ?parts) False)
                    (\<lambda>es. if length es = 1 then map_option (map (\<lambda>p. pre @ embrace (hd es) @ p)) (expand_rest n post)
                          else several' (map embrace es))
             else several' ?parts)"
          using br dollar no_seq True
          by (simp only: expand_n.simps(2) option.case prod.case Let_def if_False if_True simp_thms
              expand_rest_def several'_def)
        show thesis
        proof (cases "length ?parts = 1")
          case False
          with assms have "several' ?parts = Some rs" unfolding eq by (simp only: if_False)
          from several' [OF this] several [OF br] show thesis by blast
        next
          case one_part: True
          obtain es where es: "expand_n n (hd ?parts) False = Some es"
            and r: "(if length es = 1 then map_option (map (\<lambda>p. pre @ embrace (hd es) @ p)) (expand_rest n post)
                          else several' (map embrace es)) = Some rs"
            using assms unfolding eq if_P [OF one_part] bind_eq_Some_conv by blast
          show thesis
          proof (cases "length es = 1")
            case True
            then obtain e where e: "es = [e]" by (cases es) auto
            with r obtain ps where "expand_rest n post = Some ps" "rs = map (\<lambda>p. pre @ embrace e @ p) ps" by auto
            with one [OF br one_part] es e show thesis by blast
          next
            case False
            with r have "several' (map embrace es) = Some rs" by (simp only: if_False)
            from several' [OF this] again_all [OF br one_part es False] show thesis by blast
          qed
        qed
      qed
    qed
  qed
qed

lemma combine_member:
  "r \<in> set (combine keep_empty pre N ps) \<Longrightarrow> \<exists>x \<in> set N. \<exists>p \<in> set ps. r = pre @ x @ p"
  by (auto simp: combine_def)

lemma concat_map_member:
  "concat_map f xs = Some ys \<Longrightarrow> y \<in> set ys \<Longrightarrow> \<exists>x \<in> set xs. \<exists>zs. f x = Some zs \<and> y \<in> set zs"
  by (induction xs arbitrary: ys) (fastforce simp: bind_eq_Some_conv)+

lemma braces_weight:
  "braces s = Some (pre, body, post) \<Longrightarrow>
    expand_weight s = expand_weight pre + (1 + (expand_weight body + (2 + expand_weight post)))"
  by (drule braces_eq) (simp add: expand_weight_append brace_open_def brace_close_def)

lemma embrace_weight [simp]: "expand_weight (embrace s) = expand_weight s + 3"
  by (simp add: embrace_def expand_weight_append brace_open_def brace_close_def)

text \<open>An expansion is the text itself, or what it gives is lighter.\<close>

lemma expand_results:
  "expand_n n s is_top = Some rs \<Longrightarrow> rs = [s] \<or> (\<forall>r \<in> set rs. expand_weight r < expand_weight s)"
proof (induction n arbitrary: s is_top rs)
  case (Suc n)
  have le: "expand_weight r \<le> expand_weight t" if "expand_n n t False = Some qs" "r \<in> set qs" for t qs r
    using Suc.IH [OF that(1)] that(2) by auto
  have rest: "expand_weight p \<le> expand_weight post" if "expand_rest n post = Some ps" "p \<in> set ps" for post ps p
    using that le by (auto simp: expand_rest_def split: if_splits)
  have all: "expand_weight y \<le> w" if "concat_map (\<lambda>el. expand_n n el False) els = Some N" "y \<in> set N"
    "\<forall>el \<in> set els. expand_weight el \<le> w" for els N y w
  proof -
    from concat_map_member [OF that(1,2)] obtain el zs where "el \<in> set els" "expand_n n el False = Some zs" "y \<in> set zs" by blast
    with le that(3) show ?thesis by fastforce
  qed
  from Suc.prems show ?case
  proof (cases rule: expand_n_cases)
    case (again pre body post)
    from Suc.IH [OF again(2)] braces_weight [OF again(1)] show ?thesis
      by (auto simp: expand_weight_append brace_open_def brace_close_def)
  next
    case (sequence pre body post N ps dots)
    have "expand_weight r < expand_weight s" if "r \<in> set rs" for r
    proof -
      from combine_member [OF that [unfolded sequence(6)]] obtain v p where
        "v \<in> set N" "p \<in> set ps" "r = pre @ map Ch v @ p" by auto
      with seq_weight [OF sequence(2-4)] rest [OF sequence(5)] braces_weight [OF sequence(1)] show ?thesis
        by (fastforce simp: expand_weight_append)
    qed
    then show ?thesis by blast
  next
    case (one pre body post e ps)
    note w = braces_weight [OF one(1)]
    have e: "e = body \<or> expand_weight e < expand_weight body"
      using Suc.IH [OF one(3)] single_part [OF one(2)] by auto
    have ps: "ps = [post] \<or> (\<forall>p \<in> set ps. expand_weight p < expand_weight post)"
      using Suc.IH [of post False ps] one(4) by (auto simp: expand_rest_def split: if_splits)
    show ?thesis
    proof (cases "e = body \<and> ps = [post]")
      case True
      then show ?thesis using one(5) braces_eq [OF one(1)] by (simp add: embrace_def)
    next
      case False
      have "expand_weight (pre @ embrace e @ p) < expand_weight s" if "p \<in> set ps" for p
        using False e ps that w by (auto simp: expand_weight_append)
      then show ?thesis using one(5) by auto
    qed
  next
    case (again_all pre body post es N ps)
    have "expand_weight e < expand_weight body" if "e \<in> set es" for e
      using Suc.IH [OF again_all(3)] that again_all(4) single_part [OF again_all(2)] by auto
    then have els: "\<forall>el \<in> set (map embrace es). expand_weight el \<le> expand_weight body + 2" by fastforce
    have "expand_weight r < expand_weight s" if "r \<in> set rs" for r
    proof -
      from combine_member [OF that [unfolded again_all(7)]] obtain v p where
        "v \<in> set N" "p \<in> set ps" "r = pre @ v @ p" by auto
      with all [OF again_all(5) _ els] rest [OF again_all(6)] braces_weight [OF again_all(1)] show ?thesis
        by (fastforce simp: expand_weight_append)
    qed
    then show ?thesis by blast
  next
    case (several pre body post N ps)
    have els: "\<forall>el \<in> set (parse_comma_parts body). expand_weight el \<le> expand_weight body"
      by (simp add: parse_comma_parts_weight)
    have "expand_weight r < expand_weight s" if "r \<in> set rs" for r
    proof -
      from combine_member [OF that [unfolded several(4)]] obtain v p where
        "v \<in> set N" "p \<in> set ps" "r = pre @ v @ p" by auto
      with all [OF several(2) _ els] rest [OF several(3)] braces_weight [OF several(1)] show ?thesis
        by (fastforce simp: expand_weight_append)
    qed
    then show ?thesis by blast
  qed simp
qed simp



end
