(* ===== verification/JsRegexp.thy ===== *)
theory JsRegexp
  imports JsBraceDepth
begin

text \<open>
  Regular expressions of the host language, as far as the glob matcher of the search bundle
  (\<open>wordcut.js\<close>, module 20) uses them: it builds the text of an expression and leaves the rest to
  \<open>RegExp\<close>. The theory reads such a text by the standard's grammar, with the leniency of its
  appendix B, and says from which positions to which an expression matches. Only whether there is
  a match is modelled, so greedy and lazy repetitions are the same; numbered back references and
  flags are left out, which the matcher does not use. The lemmas are the ones its proofs need: how
  a text made of pieces is read, and what a repetition reaches.
\<close>

section \<open>Expressions and what they match\<close>

datatype rx =
  RClass bool "(nat \<times> nat) list"
| RAny
| RStart
| REnd
| RBound bool
| REmpty
| RSeq rx rx
| RAlt rx rx
| RRep nat "nat option" rx
| RLook bool rx

definition in_ranges :: "(nat \<times> nat) list \<Rightarrow> nat \<Rightarrow> bool" where
  "in_ranges rs c = list_ex (\<lambda>(a, b). a \<le> c \<and> c \<le> b) rs"

definition line_break :: "nat \<Rightarrow> bool" where
  "line_break c = (c = 10 \<or> c = 13 \<or> c = 8232 \<or> c = 8233)"

definition word_char :: "nat \<Rightarrow> bool" where
  "word_char c = (digit c \<or> letter c \<or> c = 95)"

primrec steps :: "('a \<Rightarrow> 'a list) \<Rightarrow> nat \<Rightarrow> 'a list \<Rightarrow> 'a list" where
  "steps f 0 is = is"
| "steps f (Suc k) is = steps f k (remdups (concat (map f is)))"

primrec reach :: "('a \<Rightarrow> 'a list) \<Rightarrow> nat \<Rightarrow> 'a list \<Rightarrow> 'a list" where
  "reach f 0 is = is"
| "reach f (Suc k) is = reach f k (remdups (is @ concat (map f is)))"

text \<open>The positions at which a match that begins at \<open>i\<close> may end.\<close>

primrec rx_ends :: "rx \<Rightarrow> js_string \<Rightarrow> nat \<Rightarrow> nat list" where
  "rx_ends (RClass neg rs) s i = (if i < length s \<and> in_ranges rs (s ! i) \<noteq> neg then [Suc i] else [])"
| "rx_ends RAny s i = (if i < length s \<and> \<not> line_break (s ! i) then [Suc i] else [])"
| "rx_ends RStart s i = (if i = 0 then [i] else [])"
| "rx_ends REnd s i = (if i = length s then [i] else [])"
| "rx_ends (RBound b) s i =
     (if ((0 < i \<and> word_char (s ! (i - 1))) \<noteq> (i < length s \<and> word_char (s ! i))) = b then [i] else [])"
| "rx_ends REmpty s i = [i]"
| "rx_ends (RSeq r q) s i = concat (map (rx_ends q s) (rx_ends r s i))"
| "rx_ends (RAlt r q) s i = rx_ends r s i @ rx_ends q s i"
| "rx_ends (RRep m n r) s i =
     reach (rx_ends r s) (case n of None \<Rightarrow> length s | Some n \<Rightarrow> n - m) (steps (rx_ends r s) m [i])"
| "rx_ends (RLook b r) s i = (if (rx_ends r s i \<noteq> []) = b then [i] else [])"

text \<open>A match anywhere in the text.\<close>

definition rx_found :: "rx \<Rightarrow> js_string \<Rightarrow> bool" where
  "rx_found r s = list_ex (\<lambda>i. rx_ends r s i \<noteq> []) [0..<Suc (length s)]"

section \<open>Escapes and classes\<close>

fun complement_from :: "nat \<Rightarrow> (nat \<times> nat) list \<Rightarrow> (nat \<times> nat) list" where
  "complement_from n [] = [(n, 65535)]"
| "complement_from n ((a, b) # rs) = (if n < a then [(n, a - 1)] else []) @ complement_from (Suc b) rs"

definition digit_ranges :: "(nat \<times> nat) list" where "digit_ranges = [(48, 57)]"
definition word_ranges :: "(nat \<times> nat) list" where "word_ranges = [(48, 57), (65, 90), (95, 95), (97, 122)]"
definition space_ranges :: "(nat \<times> nat) list" where
  "space_ranges = [(9, 13), (32, 32), (160, 160), (5760, 5760), (8192, 8202), (8232, 8233), (8239, 8239),
     (8287, 8287), (12288, 12288), (65279, 65279)]"

definition hex_digit :: "nat \<Rightarrow> nat option" where
  "hex_digit c = (if digit c then Some (c - 48) else if 65 \<le> c \<and> c \<le> 70 then Some (c - 55)
     else if 97 \<le> c \<and> c \<le> 102 then Some (c - 87) else None)"

definition hex_number :: "nat \<Rightarrow> js_string \<Rightarrow> nat option" where
  "hex_number k s = (if k \<le> length s \<and> list_all (\<lambda>c. hex_digit c \<noteq> None) (take k s)
     then Some (foldl (\<lambda>n c. 16 * n + the (hex_digit c)) 0 (take k s)) else None)"

text \<open>At most three octal digits, with a value below 256.\<close>

definition octal_digits :: "js_string \<Rightarrow> js_string" where
  "octal_digits s =
     (let ds = takeWhile (\<lambda>c. 48 \<le> c \<and> c \<le> 55) (take 3 s)
      in if length ds = 3 \<and> 51 < hd ds then take 2 ds else ds)"

text \<open>What follows a backslash: the code units it stands for, and the rest of the text.\<close>

definition escape_value :: "bool \<Rightarrow> js_string \<Rightarrow> ((nat \<times> nat) list \<times> js_string) option" where
  "escape_value in_class s =
     (case s of [] \<Rightarrow> None
      | c # s' \<Rightarrow>
          if c = 100 then Some (digit_ranges, s') else if c = 68 then Some (complement_from 0 digit_ranges, s')
          else if c = 119 then Some (word_ranges, s') else if c = 87 then Some (complement_from 0 word_ranges, s')
          else if c = 115 then Some (space_ranges, s') else if c = 83 then Some (complement_from 0 space_ranges, s')
          else if c = 98 then Some ([(8, 8)], s') else if c = 102 then Some ([(12, 12)], s')
          else if c = 110 then Some ([(10, 10)], s') else if c = 114 then Some ([(13, 13)], s')
          else if c = 116 then Some ([(9, 9)], s') else if c = 118 then Some ([(11, 11)], s')
          else if c = 99 then
            (if s' \<noteq> [] \<and> (letter (hd s') \<or> in_class \<and> word_char (hd s'))
             then Some ([(hd s' mod 32, hd s' mod 32)], tl s') else Some ([(92, 92)], s))
          else if c = 120 \<and> hex_number 2 s' \<noteq> None
          then Some ([(the (hex_number 2 s'), the (hex_number 2 s'))], drop 2 s')
          else if c = 117 \<and> hex_number 4 s' \<noteq> None
          then Some ([(the (hex_number 4 s'), the (hex_number 4 s'))], drop 4 s')
          else if octal_digits s \<noteq> []
          then (let v = foldl (\<lambda>n d. 8 * n + (d - 48)) 0 (octal_digits s)
                in Some ([(v, v)], drop (length (octal_digits s)) s))
          else Some ([(c, c)], s'))"

definition class_atom :: "js_string \<Rightarrow> ((nat \<times> nat) list \<times> js_string) option" where
  "class_atom s =
     (case s of [] \<Rightarrow> None | c # s' \<Rightarrow> if c = 92 then escape_value True s' else Some ([(c, c)], s'))"

lemma escape_value_shorter: "escape_value b s = Some (rs, t) \<Longrightarrow> length t \<le> length s"
  by (auto simp: escape_value_def Let_def split: list.splits if_splits)

lemma class_atom_shorter: "class_atom s = Some (rs, t) \<Longrightarrow> length t < length s"
  by (auto simp: class_atom_def split: list.splits if_splits dest: escape_value_shorter)

definition single :: "(nat \<times> nat) list \<Rightarrow> bool" where
  "single rs = (case rs of [(a, b)] \<Rightarrow> a = b | _ \<Rightarrow> False)"

text \<open>
  The members of a class up to its closing bracket. A range whose ends are in the wrong order is an
  error; where an end is not one character, the dash stands for itself.
\<close>

function class_items :: "js_string \<Rightarrow> ((nat \<times> nat) list \<times> js_string) option" where
  "class_items s =
     (if s \<noteq> [] \<and> hd s = 93 then Some ([], tl s)
      else case class_atom s of
          None \<Rightarrow> None
        | Some (a, s1) \<Rightarrow>
            if take 1 s1 = [45] \<and> 2 \<le> length s1 \<and> s1 ! 1 \<noteq> 93
            then (case class_atom (tl s1) of
                None \<Rightarrow> None
              | Some (b, s2) \<Rightarrow>
                  if single a \<and> single b \<and> fst (hd b) < fst (hd a) then None
                  else map_option (\<lambda>(rs, t).
                      ((if single a \<and> single b then [(fst (hd a), fst (hd b))] else a @ [(45, 45)] @ b) @ rs, t))
                    (class_items s2))
            else map_option (\<lambda>(rs, t). (a @ rs, t)) (class_items s1))"
  by pat_completeness auto
termination
proof (relation "measure length")
  fix s x a s1 y b s2
  assume "class_atom s = Some x" "(a, s1) = x" "class_atom (tl s1) = Some y" "(b, s2) = y"
  then show "(s2, s) \<in> measure length"
    using class_atom_shorter [of s a s1] class_atom_shorter [of "tl s1" b s2] by simp
qed (auto dest: class_atom_shorter)

declare class_items.simps [simp del]

definition lex_class :: "js_string \<Rightarrow> (rx \<times> js_string) option" where
  "lex_class s =
     (if take 1 s = [94] then map_option (\<lambda>(rs, t). (RClass True rs, t)) (class_items (tl s))
      else map_option (\<lambda>(rs, t). (RClass False rs, t)) (class_items s))"

lemma class_items_shorter: "class_items s = Some (rs, t) \<Longrightarrow> length t < length s"
proof (induction s arbitrary: rs rule: class_items.induct)
  case (1 s)
  show ?case
  proof (cases "s \<noteq> [] \<and> hd s = 93")
    case True
    with 1(3) show ?thesis by (subst (asm) class_items.simps) auto
  next
    case False
    with 1(3) obtain a s1 where a: "class_atom s = Some (a, s1)"
      by (subst (asm) class_items.simps) (auto split: option.splits)
    note less = class_atom_shorter [OF a]
    show ?thesis
    proof (cases "take 1 s1 = [45] \<and> 2 \<le> length s1 \<and> s1 ! 1 \<noteq> 93")
      case True
      with False 1(3) a obtain b s2 rs' where b: "class_atom (tl s1) = Some (b, s2)" and r: "class_items s2 = Some (rs', t)"
        and ord: "\<not> (single a \<and> single b \<and> fst (hd b) < fst (hd a))"
        by (subst (asm) class_items.simps) (auto split: option.splits if_splits)
      from 1(1) [OF False a refl True b refl ord r] class_atom_shorter [OF b] less show ?thesis by simp
    next
      case no: False
      with False 1(3) a obtain rs' where r: "class_items s1 = Some (rs', t)"
        by (subst (asm) class_items.simps) auto
      from 1(2) [OF False a refl no r] less show ?thesis by simp
    qed
  qed
qed

lemma lex_class_shorter: "lex_class s = Some (r, t) \<Longrightarrow> length t < length s"
  by (auto simp: lex_class_def split: if_splits dest!: class_items_shorter)

section \<open>Reading an expression\<close>

datatype group_kind = Plain_group | Look_group bool

datatype rx_tok = TAtom rx | TFixed rx | TOpen group_kind | TClose | TBar | TRep nat "nat option"

text \<open>The counts of a repetition in braces, if that is what follows the brace.\<close>

definition lex_counts :: "js_string \<Rightarrow> (nat \<times> nat option \<times> js_string) option" where
  "lex_counts s =
     (let lo = takeWhile digit s; s1 = dropWhile digit s;
          hi = takeWhile digit (tl s1); s2 = dropWhile digit (tl s1)
      in if lo = [] \<or> s1 = [] then None
         else if hd s1 = 125 then Some (nat (read_digits lo), Some (nat (read_digits lo)), tl s1)
         else if hd s1 = 44 \<and> s2 \<noteq> [] \<and> hd s2 = 125
         then Some (nat (read_digits lo), if hi = [] then None else Some (nat (read_digits hi)), tl s2)
         else None)"

definition drop_lazy :: "js_string \<Rightarrow> js_string" where
  "drop_lazy s = (if take 1 s = [63] then tl s else s)"

lemma length_dropWhile_less: "s \<noteq> [] \<Longrightarrow> length (dropWhile P (tl s)) < length s"
  by (cases s) (simp_all add: le_imp_less_Suc length_dropWhile_le)

lemma lex_counts_shorter: "lex_counts s = Some (m, n, t) \<Longrightarrow> length t < length s"
proof -
  let ?s1 = "dropWhile digit s"
  assume "lex_counts s = Some (m, n, t)"
  then have "?s1 \<noteq> []" "t = tl ?s1 \<or> t = tl (dropWhile digit (tl ?s1))"
    by (auto simp: lex_counts_def Let_def split: if_splits)
  moreover have "length ?s1 \<le> length s" by (rule length_dropWhile_le)
  ultimately show ?thesis using length_dropWhile_less [of ?s1 digit] by (cases ?s1) auto
qed

lemma drop_lazy_shorter: "length (drop_lazy s) \<le> length s"
  by (simp add: drop_lazy_def)

text \<open>The tokens of a text, or \<open>None\<close> for a syntax error.\<close>

function rx_lex :: "js_string \<Rightarrow> rx_tok list option" where
  "rx_lex [] = Some []"
| "rx_lex (c # s) =
     (if c = 92 then
        (if take 1 s = [98] then map_option (Cons (TFixed (RBound True))) (rx_lex (tl s))
         else if take 1 s = [66] then map_option (Cons (TFixed (RBound False))) (rx_lex (tl s))
         else case escape_value False s of
             None \<Rightarrow> None
           | Some (rs, s1) \<Rightarrow> map_option (Cons (TAtom (RClass False rs))) (rx_lex s1))
      else if c = 91 then
        (case lex_class s of None \<Rightarrow> None | Some (r, s1) \<Rightarrow> map_option (Cons (TAtom r)) (rx_lex s1))
      else if c = 40 then
        (if take 2 s = [63, 58] then map_option (Cons (TOpen Plain_group)) (rx_lex (drop 2 s))
         else if take 2 s = [63, 61] then map_option (Cons (TOpen (Look_group True))) (rx_lex (drop 2 s))
         else if take 2 s = [63, 33] then map_option (Cons (TOpen (Look_group False))) (rx_lex (drop 2 s))
         else if take 1 s = [63] then None
         else map_option (Cons (TOpen Plain_group)) (rx_lex s))
      else if c = 41 then map_option (Cons TClose) (rx_lex s)
      else if c = 124 then map_option (Cons TBar) (rx_lex s)
      else if c = 94 then map_option (Cons (TFixed RStart)) (rx_lex s)
      else if c = 36 then map_option (Cons (TFixed REnd)) (rx_lex s)
      else if c = 46 then map_option (Cons (TAtom RAny)) (rx_lex s)
      else if c = 42 then map_option (Cons (TRep 0 None)) (rx_lex (drop_lazy s))
      else if c = 43 then map_option (Cons (TRep 1 None)) (rx_lex (drop_lazy s))
      else if c = 63 then map_option (Cons (TRep 0 (Some 1))) (rx_lex (drop_lazy s))
      else case (if c = 123 then lex_counts s else None) of
          Some (m, n, s1) \<Rightarrow>
            if n \<noteq> None \<and> the n < m then None
            else map_option (Cons (TRep m n)) (rx_lex (drop_lazy s1))
        | None \<Rightarrow> map_option (Cons (TAtom (RClass False [(c, c)]))) (rx_lex s))"
  by pat_completeness auto
termination
proof (relation "measure length")
  fix c :: nat and s x m y n s1
  assume "(if c = 123 then lex_counts s else None) = Some x" "(m, y) = x" "(n, s1) = y"
  then have "length s1 < length s" by (auto split: if_splits dest: lex_counts_shorter)
  then show "(drop_lazy s1, c # s) \<in> measure length"
    using drop_lazy_shorter [of s1] by simp
qed (auto dest: lex_class_shorter escape_value_shorter simp: le_imp_less_Suc drop_lazy_shorter)

declare rx_lex.simps(2) [simp del]

text \<open>
  An open group: its kind, the alternatives before the present one, and the present one's items,
  last first, each with whether a repetition may follow it.
\<close>

type_synonym rx_frame = "group_kind \<times> rx list \<times> (bool \<times> rx) list"

definition join_items :: "(bool \<times> rx) list \<Rightarrow> rx" where
  "join_items items = foldl (\<lambda>r (_, q). RSeq q r) REmpty items"

definition join_alts :: "rx list \<Rightarrow> (bool \<times> rx) list \<Rightarrow> rx" where
  "join_alts alts items = foldl (\<lambda>r q. RAlt q r) (join_items items) alts"

definition close_group :: "rx_frame \<Rightarrow> rx" where
  "close_group f = (case f of (kind, alts, items) \<Rightarrow>
     (case kind of Plain_group \<Rightarrow> join_alts alts items | Look_group b \<Rightarrow> RLook b (join_alts alts items)))"

fun rx_build :: "rx_tok list \<Rightarrow> rx_frame \<Rightarrow> rx_frame list \<Rightarrow> rx option" where
  "rx_build [] f [] = Some (close_group f)"
| "rx_build [] f (g # fs) = None"
| "rx_build (t # ts) (kind, alts, items) fs =
     (case t of
        TAtom r \<Rightarrow> rx_build ts (kind, alts, (True, r) # items) fs
      | TFixed r \<Rightarrow> rx_build ts (kind, alts, (False, r) # items) fs
      | TBar \<Rightarrow> rx_build ts (kind, join_items items # alts, []) fs
      | TOpen k \<Rightarrow> rx_build ts (k, [], []) ((kind, alts, items) # fs)
      | TClose \<Rightarrow>
          (case fs of [] \<Rightarrow> None
           | (kind', alts', items') # fs' \<Rightarrow>
               rx_build ts (kind', alts', (True, close_group (kind, alts, items)) # items') fs')
      | TRep m n \<Rightarrow>
          (case items of
             (True, r) # items' \<Rightarrow> rx_build ts (kind, alts, (False, RRep m n r) # items') fs
           | _ \<Rightarrow> None))"

definition rx_compile :: "js_string \<Rightarrow> rx option" where
  "rx_compile s = Option.bind (rx_lex s) (\<lambda>ts. rx_build ts (Plain_group, [], []) [])"

text \<open>
  \<open>f.match(new RegExp(src))\<close>, where an invalid expression is replaced by one without a match.
\<close>

definition rx_test :: "js_string \<Rightarrow> js_string \<Rightarrow> bool" where
  "rx_test src s = (case rx_compile src of None \<Rightarrow> False | Some r \<Rightarrow> rx_found r s)"

end
