(* ===== verification/JsGlobParse.thy ===== *)
theory JsGlobParse
  imports JsRegexp
begin

text \<open>
  One path segment of a glob pattern becomes the text of a regular expression: \<open>parse\<close> of the glob
  matcher in the search bundle (\<open>wordcut.js\<close>, module 20). The record \<open>glob_state\<close> has the variables of
  its loop, \<open>glob_char\<close> is the body of the loop, and \<open>parse_n\<close> the whole function, whose calls of
  itself on the content of a bracket are bounded by fuel. The option \<open>nocase\<close> is off.
\<close>

section \<open>State\<close>

record glob_options =
  go_noglobstar :: bool
  go_dot :: bool
  go_noext :: bool
  go_nobrace :: bool
  go_nonegate :: bool
  go_nocomment :: bool
  go_nonull :: bool
  go_match_base :: bool
  go_flip_negate :: bool

definition no_options :: glob_options where
  "no_options = \<lparr>go_noglobstar = False, go_dot = False, go_noext = False, go_nobrace = False,
     go_nonegate = False, go_nocomment = False, go_nonull = False, go_match_base = False,
     go_flip_negate = False\<rparr>"

text \<open>What \<open>parse\<close> returns: \<open>false\<close>, the object GLOBSTAR, a text, an expression with the pattern it is for
  (\<open>_src\<close> and \<open>_glob\<close>), or a pair for a part.\<close>

datatype glob_part = Failed | Globstar | Lit js_string | Rx js_string js_string | Sub js_string bool

text \<open>An open pattern list; \<open>pl_re_end\<close> is set when it is closed.\<close>

record pattern_list =
  pt_type :: nat
  pt_re_start :: nat
  pt_re_end :: nat

record glob_state =
  gs_re :: js_string
  gs_magic :: bool
  gs_escaping :: bool
  gs_stack :: "pattern_list list"
  gs_negative :: "pattern_list list"
  gs_char :: "nat option"
  gs_in_class :: bool
  gs_re_class_start :: nat
  gs_class_start :: int

definition glob_init :: glob_state where
  "glob_init = \<lparr>gs_re = [], gs_magic = False, gs_escaping = False, gs_stack = [], gs_negative = [],
     gs_char = None, gs_in_class = False, gs_re_class_start = 0, gs_class_start = -1\<rparr>"

section \<open>Pieces of the expression\<close>

definition qmark :: js_string where "qmark = js ''[^/]''"
definition star :: js_string where "star = qmark @ js ''*?''"

text \<open>\<open>plTypes\<close>.\<close>

definition pl_open :: "nat \<Rightarrow> js_string" where
  "pl_open c = (if c = 33 then js ''(?:(?!(?:'' else js ''(?:'')"

definition pl_close :: "nat \<Rightarrow> js_string" where
  "pl_close c = (if c = 33 then js ''))'' @ js ''[^/]*?)'' else if c = 63 then js '')?''
     else if c = 43 then js '')+'' else if c = 42 then js '')*'' else js '')'')"

definition re_special :: "nat \<Rightarrow> bool" where
  "re_special c = (c \<in> set (js ''().*{}+?[]^$!'' @ [92]))"

definition clear_state_char :: "glob_state \<Rightarrow> glob_state" where
  "clear_state_char st =
     (case gs_char st of
        None \<Rightarrow> st
      | Some c \<Rightarrow>
          if c = 42 then st\<lparr>gs_re := gs_re st @ star, gs_magic := True, gs_char := None\<rparr>
          else if c = 63 then st\<lparr>gs_re := gs_re st @ qmark, gs_magic := True, gs_char := None\<rparr>
          else st\<lparr>gs_re := gs_re st @ [92, c], gs_char := None\<rparr>)"

text \<open>The text of the pair a part is turned into; for another result \<open>sp[0]\<close> is undefined.\<close>

definition sub_text :: "glob_part \<Rightarrow> js_string" where
  "sub_text p = (case p of Sub t m \<Rightarrow> t | _ \<Rightarrow> js ''undefined'')"

definition sub_magic :: "glob_part \<Rightarrow> bool" where
  "sub_magic p = (case p of Sub t m \<Rightarrow> m | _ \<Rightarrow> False)"

definition add_re :: "js_string \<Rightarrow> glob_state \<Rightarrow> glob_state" where
  "add_re t st = st\<lparr>gs_re := gs_re st @ t\<rparr>"

section \<open>The loop\<close>

text \<open>
  The character \<open>c\<close> at \<open>i\<close> of the pattern; \<open>sub\<close> parses the content of a bracket, and \<open>None\<close> is the
  early return of \<open>false\<close>.
\<close>

definition glob_char ::
  "(js_string \<Rightarrow> glob_part) \<Rightarrow> glob_options \<Rightarrow> js_string \<Rightarrow> nat \<Rightarrow> nat \<Rightarrow> glob_state \<Rightarrow> glob_state option" where
  "glob_char sub opts pattern i c st =
     (if gs_escaping st \<and> re_special c then Some ((add_re [92, c] st)\<lparr>gs_escaping := False\<rparr>)
      else if c = 47 then None
      else if c = 92 then Some ((clear_state_char st)\<lparr>gs_escaping := True\<rparr>)
      else if c \<in> {63, 42, 43, 64, 33} then
        (if gs_in_class st
         then Some (add_re [if c = 33 \<and> int i = gs_class_start st + 1 then 94 else c] st)
         else (let st1 = (clear_state_char st)\<lparr>gs_char := Some c\<rparr>
               in Some (if go_noext opts then clear_state_char st1 else st1)))
      else if c = 40 then
        (if gs_in_class st then Some (add_re [40] st)
         else case gs_char st of
             None \<Rightarrow> Some (add_re [92, 40] st)
           | Some t \<Rightarrow>
               Some ((add_re (pl_open t)
                   (st\<lparr>gs_stack := \<lparr>pt_type = t, pt_re_start = length (gs_re st), pt_re_end = 0\<rparr> # gs_stack st\<rparr>))
                 \<lparr>gs_char := None\<rparr>))
      else if c = 41 then
        (if gs_in_class st then Some (add_re [92, 41] st)
         else case gs_stack st of
             [] \<Rightarrow> Some (add_re [92, 41] st)
           | pl # stack \<Rightarrow>
               (let st1 = (add_re (pl_close (pt_type pl)) (clear_state_char st))\<lparr>gs_magic := True, gs_stack := stack\<rparr>
                in Some (if pt_type pl = 33
                         then st1\<lparr>gs_negative := gs_negative st1 @ [pl\<lparr>pt_re_end := length (gs_re st1)\<rparr>]\<rparr>
                         else st1)))
      else if c = 124 then
        (if gs_in_class st \<or> gs_stack st = [] \<or> gs_escaping st
         then Some ((add_re [92, 124] st)\<lparr>gs_escaping := False\<rparr>)
         else Some (add_re [124] (clear_state_char st)))
      else if c = 91 then
        (let st1 = clear_state_char st
         in if gs_in_class st1 then Some (add_re [92, 91] st1)
            else Some (add_re [91] (st1\<lparr>gs_in_class := True, gs_class_start := int i,
                   gs_re_class_start := length (gs_re st1)\<rparr>)))
      else if c = 93 then
        (if int i = gs_class_start st + 1 \<or> \<not> gs_in_class st
         then Some ((add_re [92, 93] st)\<lparr>gs_escaping := False\<rparr>)
         else (let cs = take (i - nat (gs_class_start st + 1)) (drop (nat (gs_class_start st + 1)) pattern)
               in if rx_compile ([91] @ cs @ [93]) = None
                  then (let sp = sub cs
                        in Some (st\<lparr>gs_re := take (gs_re_class_start st) (gs_re st) @ [92, 91] @ sub_text sp @ [92, 93],
                                    gs_magic := gs_magic st \<or> sub_magic sp, gs_in_class := False\<rparr>))
                  else Some ((add_re [93] st)\<lparr>gs_magic := True, gs_in_class := False\<rparr>)))
      else
        (let st1 = clear_state_char st
         in Some (add_re ((if \<not> gs_escaping st1 \<and> re_special c \<and> \<not> (c = 94 \<and> gs_in_class st1) then [92] else []) @ [c])
              (st1\<lparr>gs_escaping := False\<rparr>))))"

text \<open>The loop over the rest \<open>s\<close> of the pattern, from position \<open>i\<close>.\<close>

fun glob_loop ::
  "(js_string \<Rightarrow> glob_part) \<Rightarrow> glob_options \<Rightarrow> js_string \<Rightarrow> nat \<Rightarrow> js_string \<Rightarrow> glob_state \<Rightarrow> glob_state option" where
  "glob_loop sub opts pattern i [] st = Some st"
| "glob_loop sub opts pattern i (c # s) st =
     (case glob_char sub opts pattern i c st of
        None \<Rightarrow> None | Some st1 \<Rightarrow> glob_loop sub opts pattern (Suc i) s st1)"

section \<open>After the loop\<close>

text \<open>A class that was left open.\<close>

definition close_class :: "(js_string \<Rightarrow> glob_part) \<Rightarrow> js_string \<Rightarrow> glob_state \<Rightarrow> glob_state" where
  "close_class sub pattern st =
     (if gs_in_class st
      then (let sp = sub (drop (nat (gs_class_start st + 1)) pattern)
            in st\<lparr>gs_re := take (gs_re_class_start st) (gs_re st) @ [92, 91] @ sub_text sp,
                  gs_magic := gs_magic st \<or> sub_magic sp\<rparr>)
      else st)"

text \<open>
  \<open>tail.replace\<close>: a bar after a run of \<open>k\<close> backslashes, of which at most 129 take part: the pairs
  are repeated, and the bar is escaped.
\<close>

fun escape_bars :: "nat \<Rightarrow> js_string \<Rightarrow> js_string" where
  "escape_bars k [] = replicate k 92"
| "escape_bars k (c # s) =
     (if c = 92 then escape_bars (Suc k) s
      else if c = 124
      then replicate (k - min k 129) 92 @ replicate (4 * (min k 129 div 2)) 92 @ [92, 124] @ escape_bars 0 s
      else replicate k 92 @ c # escape_bars 0 s)"

text \<open>Pattern lists that were left open, the innermost first.\<close>

fun close_lists :: "pattern_list list \<Rightarrow> glob_state \<Rightarrow> glob_state" where
  "close_lists [] st = st"
| "close_lists (pl # pls) st =
     (let tail = escape_bars 0 (drop (pt_re_start pl + length (pl_open (pt_type pl))) (gs_re st));
          t = (if pt_type pl = 42 then star else if pt_type pl = 63 then qmark else [92, pt_type pl])
      in close_lists pls (st\<lparr>gs_magic := True, gs_re := take (pt_re_start pl) (gs_re st) @ t @ [92, 40] @ tail\<rparr>))"

text \<open>\<open>replace(/\)[+*?]?/, '')\<close>: the first closing parenthesis, with a repetition after it.\<close>

fun drop_close :: "js_string \<Rightarrow> js_string" where
  "drop_close [] = []"
| "drop_close (c # s) =
     (if c = 41 then (if s \<noteq> [] \<and> hd s \<in> {43, 42, 63} then tl s else s) else c # drop_close s)"

text \<open>A negative list looks ahead to the end of the pattern.\<close>

definition look_ahead :: "bool \<Rightarrow> pattern_list \<Rightarrow> js_string \<Rightarrow> js_string" where
  "look_ahead is_sub nl re =
     (let nl_before = take (pt_re_start nl) re;
          nl_first = take (pt_re_end nl - 8 - pt_re_start nl) (drop (pt_re_start nl) re);
          nl_after = drop (pt_re_end nl) re;
          nl_last = take 8 (drop (pt_re_end nl - 8) re) @ nl_after;
          clean = (drop_close ^^ length (filter (\<lambda>c. c = 40) nl_before)) nl_after;
          dollar = (if clean = [] \<and> \<not> is_sub then [36] else [])
      in nl_before @ nl_first @ clean @ dollar @ nl_last)"

text \<open>\<open>replace(/\\(.)/g, '$1')\<close>.\<close>

fun glob_unescape :: "js_string \<Rightarrow> js_string" where
  "glob_unescape (a # b # s) =
     (if a = 92 \<and> \<not> line_break b then b # glob_unescape s else a # glob_unescape (b # s))"
| "glob_unescape s = s"

definition pattern_start :: "glob_options \<Rightarrow> js_string \<Rightarrow> js_string" where
  "pattern_start opts pattern =
     (if take 1 pattern = [46] then []
      else if go_dot opts then js ''(?!(?:^|'' @ [92] @ js ''/)'' @ [92] @ js ''.{1,2}(?:$|'' @ [92] @ js ''/))''
      else js ''(?!'' @ [92] @ js ''.)'')"

definition finish_parse :: "glob_options \<Rightarrow> js_string \<Rightarrow> bool \<Rightarrow> glob_state \<Rightarrow> glob_part" where
  "finish_parse opts pattern is_sub st0 =
     (let st1 = clear_state_char (close_lists (gs_stack st0) st0);
          re1 = gs_re st1 @ (if gs_escaping st1 then [92, 92] else []);
          add_start = (re1 \<noteq> [] \<and> hd re1 \<in> {46, 91, 40});
          re2 = foldr (look_ahead is_sub) (gs_negative st1) re1;
          re3 = (if re2 \<noteq> [] \<and> gs_magic st1 then js ''(?=.)'' @ re2 else re2);
          re4 = (if add_start then pattern_start opts pattern @ re3 else re3)
      in if is_sub then Sub re4 (gs_magic st1)
         else if \<not> gs_magic st1 then Lit (glob_unescape pattern) else Rx re4 pattern)"

text \<open>\<open>parse\<close>, for a pattern short enough not to be refused.\<close>

primrec parse_n :: "nat \<Rightarrow> glob_options \<Rightarrow> js_string \<Rightarrow> bool \<Rightarrow> glob_part" where
  "parse_n 0 opts pattern is_sub = Failed"
| "parse_n (Suc n) opts pattern is_sub =
     (if \<not> go_noglobstar opts \<and> pattern = [42, 42] then Globstar
      else if pattern = [] then Lit []
      else (let sub = (\<lambda>cs. parse_n n opts cs True)
            in case glob_loop sub opts pattern 0 pattern glob_init of
                None \<Rightarrow> Failed
              | Some st \<Rightarrow> finish_parse opts pattern is_sub (close_class sub pattern st)))"

text \<open>\<open>None\<close> is the TypeError of a pattern that is too long.\<close>

definition parse_glob :: "glob_options \<Rightarrow> js_string \<Rightarrow> bool \<Rightarrow> glob_part option" where
  "parse_glob opts pattern is_sub =
     (if 65536 < length pattern then None else Some (parse_n (Suc (length pattern)) opts pattern is_sub))"

section \<open>Every segment is parsed\<close>

lemma clear_state_char_frame [simp]:
  "gs_in_class (clear_state_char st) = gs_in_class st" "gs_class_start (clear_state_char st) = gs_class_start st"
  "gs_escaping (clear_state_char st) = gs_escaping st" "gs_stack (clear_state_char st) = gs_stack st"
  "gs_negative (clear_state_char st) = gs_negative st" "gs_char (clear_state_char st) = None"
  by (simp_all add: clear_state_char_def split: option.split)

lemma add_re_frame [simp]:
  "gs_in_class (add_re t st) = gs_in_class st" "gs_class_start (add_re t st) = gs_class_start st"
  "gs_escaping (add_re t st) = gs_escaping st" "gs_stack (add_re t st) = gs_stack st"
  "gs_negative (add_re t st) = gs_negative st" "gs_char (add_re t st) = gs_char st"
  "gs_magic (add_re t st) = gs_magic st" "gs_re (add_re t st) = gs_re st @ t"
  by (simp_all add: add_re_def)

lemma not_special_slash [simp]: "\<not> re_special 47"
  by (simp add: re_special_def)

lemma glob_char_none: "glob_char sub opts pattern i c st = None \<longleftrightarrow> c = 47"
  by (simp add: glob_char_def Let_def split: option.split list.split)

lemma glob_loop_none: "glob_loop sub opts pattern i s st = None \<longleftrightarrow> 47 \<in> set s"
proof (induction s arbitrary: i st)
  case (Cons c s)
  then show ?case
    using glob_char_none [of sub opts pattern i c st]
    by (cases "glob_char sub opts pattern i c st") auto
qed simp

text \<open>A bracket is open only after a position of the pattern.\<close>

definition class_ok :: "glob_state \<Rightarrow> bool" where
  "class_ok st = (gs_in_class st \<longrightarrow> 0 \<le> gs_class_start st)"

lemma class_ok_init [simp]: "class_ok glob_init"
  by (simp add: class_ok_def glob_init_def)

lemma glob_char_class_ok: "glob_char sub opts pattern i c st = Some st1 \<Longrightarrow> class_ok st \<Longrightarrow> class_ok st1"
  unfolding glob_char_def Let_def
  by (auto simp: class_ok_def split: if_splits option.splits list.splits)

lemma glob_loop_class_ok: "glob_loop sub opts pattern i s st = Some st1 \<Longrightarrow> class_ok st \<Longrightarrow> class_ok st1"
proof (induction s arbitrary: i st)
  case (Cons c s)
  then show ?case by (auto split: option.splits dest: glob_char_class_ok)
qed simp

text \<open>The nested calls are on shorter texts, so that more fuel than that changes nothing.\<close>

lemma glob_char_sub:
  assumes "\<And>cs. length cs < length pattern \<Longrightarrow> sub cs = sub' cs" "i < length pattern"
  shows "glob_char sub opts pattern i c st = glob_char sub' opts pattern i c st"
proof -
  have "sub (take (i - nat (gs_class_start st + 1)) (drop (nat (gs_class_start st + 1)) pattern)) =
      sub' (take (i - nat (gs_class_start st + 1)) (drop (nat (gs_class_start st + 1)) pattern))"
    using assms(2) by (intro assms(1)) simp
  then show ?thesis unfolding glob_char_def Let_def by (simp only:)
qed

lemma glob_loop_sub:
  assumes sub: "\<And>cs. length cs < length pattern \<Longrightarrow> sub cs = sub' cs" and "i + length s \<le> length pattern"
  shows "glob_loop sub opts pattern i s st = glob_loop sub' opts pattern i s st"
  using assms(2)
proof (induction s arbitrary: i st)
  case (Cons c s)
  then have "glob_char sub opts pattern i c st = glob_char sub' opts pattern i c st"
    by (intro glob_char_sub sub) simp_all
  with Cons show ?case by (simp split: option.split)
qed simp

lemma close_class_sub:
  assumes "\<And>cs. length cs < length pattern \<Longrightarrow> sub cs = sub' cs" "class_ok st" "pattern \<noteq> []"
  shows "close_class sub pattern st = close_class sub' pattern st"
proof (cases "gs_in_class st")
  case True
  with assms(2) have "0 < nat (gs_class_start st + 1)" by (simp add: class_ok_def)
  with assms(3) have "length (drop (nat (gs_class_start st + 1)) pattern) < length pattern" by simp
  from assms(1) [OF this] show ?thesis by (simp add: close_class_def)
qed (simp add: close_class_def)

lemma parse_n_fuel: "length pattern < n \<Longrightarrow> length pattern < m \<Longrightarrow> parse_n n opts pattern is_sub = parse_n m opts pattern is_sub"
proof (induction "length pattern" arbitrary: pattern n m is_sub rule: less_induct)
  case less
  obtain n' m' where nm: "n = Suc n'" "m = Suc m'" using less(2,3) by (cases n; cases m) auto
  have sub: "parse_n n' opts cs True = parse_n m' opts cs True" if "length cs < length pattern" for cs
  proof (rule less(1) [OF that])
    show "length cs < n'" "length cs < m'" using that less(2,3) nm by simp_all
  qed
  have loop: "glob_loop (\<lambda>cs. parse_n n' opts cs True) opts pattern 0 pattern glob_init =
      glob_loop (\<lambda>cs. parse_n m' opts cs True) opts pattern 0 pattern glob_init"
    by (rule glob_loop_sub) (simp_all add: sub)
  show ?case
  proof (cases "glob_loop (\<lambda>cs. parse_n m' opts cs True) opts pattern 0 pattern glob_init")
    case (Some st)
    have "close_class (\<lambda>cs. parse_n n' opts cs True) pattern st = close_class (\<lambda>cs. parse_n m' opts cs True) pattern st"
      if "pattern \<noteq> []"
      by (rule close_class_sub) (simp_all add: sub that glob_loop_class_ok [OF Some])
    with Some loop nm show ?thesis by simp
  qed (simp add: nm loop)
qed

lemma parse_kinds:
  assumes "length pattern \<le> 65536"
  shows "\<exists>r. parse_glob opts pattern is_sub = Some r
    \<and> (\<forall>n. length pattern < n \<longrightarrow> parse_n n opts pattern is_sub = r)
    \<and> (r = Failed \<longleftrightarrow> 47 \<in> set pattern)
    \<and> (r = Globstar \<longleftrightarrow> \<not> go_noglobstar opts \<and> pattern = [42, 42])
    \<and> (47 \<notin> set pattern \<and> r \<noteq> Globstar \<longrightarrow>
         (if pattern = [] then r = Lit [] else if is_sub then \<exists>t m. r = Sub t m else \<exists>t. r = Lit t \<or> r = Rx t pattern))"
proof -
  let ?r = "parse_n (Suc (length pattern)) opts pattern is_sub"
  let ?sub = "\<lambda>cs. parse_n (length pattern) opts cs True"
  let ?loop = "glob_loop ?sub opts pattern 0 pattern glob_init"
  have fuel: "parse_n n opts pattern is_sub = ?r" if "length pattern < n" for n
    by (rule parse_n_fuel) (simp_all add: that)
  have kind: "if is_sub then \<exists>t m. finish_parse opts pattern is_sub st = Sub t m
      else \<exists>t. finish_parse opts pattern is_sub st = Lit t \<or> finish_parse opts pattern is_sub st = Rx t pattern" for st
    by (simp add: finish_parse_def Let_def)
  consider "\<not> go_noglobstar opts \<and> pattern = [42, 42]" | "pattern = []"
    | "47 \<in> set pattern" "?r = Failed" "pattern \<noteq> [42, 42]"
    | st where "47 \<notin> set pattern" "pattern \<noteq> []" "\<not> (\<not> go_noglobstar opts \<and> pattern = [42, 42])"
        "?r = finish_parse opts pattern is_sub (close_class ?sub pattern st)"
  proof (cases "\<not> go_noglobstar opts \<and> pattern = [42, 42] \<or> pattern = []")
    case False
    show thesis
    proof (cases ?loop)
      case None
      then have "47 \<in> set pattern" by (simp add: glob_loop_none)
      moreover from this have "pattern \<noteq> [42, 42]" by auto
      ultimately show thesis using that(3) None False by simp
    next
      case (Some st)
      then have "47 \<notin> set pattern" by (metis glob_loop_none option.distinct(1))
      then show thesis using that(4) [of st] Some False by auto
    qed
  qed (use that in blast)
  then have "(?r = Failed \<longleftrightarrow> 47 \<in> set pattern)
    \<and> (?r = Globstar \<longleftrightarrow> \<not> go_noglobstar opts \<and> pattern = [42, 42])
    \<and> (47 \<notin> set pattern \<and> ?r \<noteq> Globstar \<longrightarrow>
         (if pattern = [] then ?r = Lit [] else if is_sub then \<exists>t m. ?r = Sub t m else \<exists>t. ?r = Lit t \<or> ?r = Rx t pattern))"
  proof cases
    case 3
    then show ?thesis by auto
  next
    case (4 st)
    from kind [of "close_class ?sub pattern st"] show ?thesis unfolding 4(4) using 4(1-3) by (auto split: if_splits)
  qed auto
  moreover have "parse_glob opts pattern is_sub = Some ?r"
    using assms by (simp add: parse_glob_def del: parse_n.simps)
  moreover have "\<forall>n. length pattern < n \<longrightarrow> parse_n n opts pattern is_sub = ?r" using fuel by blast
  ultimately show ?thesis by blast
qed



section \<open>Escaped text\<close>

fun escape_all :: "js_string \<Rightarrow> js_string" where
  "escape_all [] = []" | "escape_all (c # s) = 92 # c # escape_all s"

lemma glob_unescape_escape: "list_all (\<lambda>c. \<not> line_break c) s \<Longrightarrow> glob_unescape (escape_all s) = s"
  by (induction s) simp_all

lemma length_escape_all [simp]: "length (escape_all s) = 2 * length s"
  by (induction s) simp_all

text \<open>Between two characters of a text without brackets or lists.\<close>

definition gs_idle :: "glob_state \<Rightarrow> bool" where
  "gs_idle st = (\<not> gs_escaping st \<and> \<not> gs_in_class st \<and> gs_stack st = [] \<and> gs_negative st = [])"

lemma gs_idle_init [simp]: "gs_idle glob_init"
  by (simp add: gs_idle_def glob_init_def)

lemma backslash_special [simp]: "re_special 92"
  by (simp add: re_special_def)

lemma glob_char_escaped:
  assumes "gs_idle st" "gs_char st = None" "c \<notin> {47, 64}"
  shows "\<exists>st1. Option.bind (glob_char sub opts pattern i 92 st) (glob_char sub opts pattern j c) = Some st1
    \<and> gs_idle st1 \<and> gs_char st1 = None \<and> gs_magic st1 = gs_magic st"
proof -
  have clear: "clear_state_char st = st" using assms(2) by (simp add: clear_state_char_def)
  have slash: "glob_char sub opts pattern i 92 st = Some (st\<lparr>gs_escaping := True\<rparr>)"
    using assms(1) clear by (simp add: glob_char_def gs_idle_def)
  let ?st = "st\<lparr>gs_escaping := True\<rparr>"
  show ?thesis
  proof (cases "re_special c")
    case True
    then have "glob_char sub opts pattern j c ?st = Some ((add_re [92, c] ?st)\<lparr>gs_escaping := False\<rparr>)"
      by (simp add: glob_char_def)
    with slash assms show ?thesis by (simp add: gs_idle_def)
  next
    case False
    have cl: "clear_state_char ?st = ?st" using assms(2) by (simp add: clear_state_char_def)
    from False have "c \<notin> {92, 63, 42, 43, 33, 40, 41, 91, 93}" by (auto simp: re_special_def)
    with False assms cl show ?thesis unfolding slash by (simp add: glob_char_def gs_idle_def Let_def)
  qed
qed

lemma glob_loop_escaped:
  "gs_idle st \<Longrightarrow> gs_char st = None \<Longrightarrow> set s \<inter> {47, 64} = {} \<Longrightarrow>
    \<exists>st1. glob_loop sub opts pattern i (escape_all s) st = Some st1
      \<and> gs_idle st1 \<and> gs_char st1 = None \<and> gs_magic st1 = gs_magic st"
proof (induction s arbitrary: i st)
  case (Cons c s)
  from glob_char_escaped [OF Cons(2,3), of c sub opts pattern i "Suc i"] Cons(4) obtain st1 st2 where
    "glob_char sub opts pattern i 92 st = Some st1" "glob_char sub opts pattern (Suc i) c st1 = Some st2"
    "gs_idle st2" "gs_char st2 = None" "gs_magic st2 = gs_magic st"
    by (auto simp: bind_eq_Some_conv)
  with Cons.IH [of st2 "Suc (Suc i)"] Cons(4) show ?case by simp
qed simp

text \<open>
  A text with a backslash before each character is the pattern of just that text, whatever
  the options; except for the at sign, which leaves the loop in the escaped state.
\<close>

theorem escaped_text_is_literal:
  assumes "length s \<le> 32768" "list_all (\<lambda>c. c \<noteq> 47 \<and> c \<noteq> 64 \<and> \<not> line_break c) s"
  shows "parse_glob opts (escape_all s) False = Some (Lit s)"
proof (cases s)
  case Nil
  then show ?thesis by (simp add: parse_glob_def)
next
  case (Cons c t)
  let ?sub = "\<lambda>cs. parse_n (length (escape_all s)) opts cs True"
  have "set s \<inter> {47, 64} = {}" using assms(2) by (auto simp: list_all_iff)
  from glob_loop_escaped [OF gs_idle_init _ this, of ?sub opts "escape_all s" 0] obtain st where
    loop: "glob_loop ?sub opts (escape_all s) 0 (escape_all s) glob_init = Some st"
    and st: "gs_idle st" "gs_char st = None" "\<not> gs_magic st"
    by (auto simp: glob_init_def)
  have "clear_state_char st = st" using st(2) by (simp add: clear_state_char_def)
  then have "finish_parse opts (escape_all s) False (close_class ?sub (escape_all s) st) = Lit (glob_unescape (escape_all s))"
    using st by (simp add: finish_parse_def close_class_def gs_idle_def Let_def)
  moreover have "glob_unescape (escape_all s) = s"
    using assms(2) by (intro glob_unescape_escape) (simp add: list_all_iff)
  ultimately show ?thesis using assms(1) loop Cons by (simp add: parse_glob_def)
qed

lemma escaped_text_is_literal_witness:
  "parse_glob no_options (escape_all (js ''a*[b]'')) False = Some (Lit (js ''a*[b]''))"
  using escaped_text_is_literal [of "js ''a*[b]''" no_options] by (simp add: line_break_def)

lemmas parse_eval = parse_glob_def glob_char_def glob_init_def Let_def add_re_def clear_state_char_def
  re_special_def finish_parse_def close_class_def star_def qmark_def pattern_start_def sub_text_def
  sub_magic_def no_options_def


end
