(* ===== verification/JsGlobMatch.thy ===== *)
theory JsGlobMatch
  imports JsGlobParse
begin

text \<open>
  Matching a path against a glob pattern: the rest of module 20 of the search bundle
  (\<open>wordcut.js\<close>). A pattern is trimmed, its leading exclamation marks are counted, its braces are
  expanded, and each result is split at slashes and parsed; a path is split as well, and
  \<open>matchOne\<close> walks along both, where \<open>**\<close> takes any number of segments. The theory shows that
  \<open>matchOne\<close> decides the declarative relation \<open>covers\<close>, that a partial match refuses no path that
  can go on to a match, and what negation and braces mean for whole patterns. The option \<open>nocase\<close>
  is off, and \<open>path.sep\<close> is a slash, as in the bundle.
\<close>

section \<open>Outcomes\<close>

text \<open>A call returns, throws a TypeError, or does not return.\<close>

datatype 'a outcome = Returns 'a | Throws | Hangs

fun on_return :: "'a outcome \<Rightarrow> ('a \<Rightarrow> 'b outcome) \<Rightarrow> 'b outcome" where
  "on_return (Returns x) f = f x" | "on_return Throws f = Throws" | "on_return Hangs f = Hangs"

section \<open>Segments\<close>

definition js_space :: "nat \<Rightarrow> bool" where
  "js_space c = in_ranges space_ranges c"

definition js_trim :: "js_string \<Rightarrow> js_string" where
  "js_trim s = rev (dropWhile js_space (rev (dropWhile js_space s)))"

text \<open>\<open>split(/\/+/)\<close>.\<close>

function split_slashes :: "js_string \<Rightarrow> js_string list" where
  "split_slashes s =
     (let a = takeWhile (\<lambda>c. c \<noteq> 47) s; r = dropWhile (\<lambda>c. c \<noteq> 47) s
      in if r = [] then [a] else a # split_slashes (dropWhile (\<lambda>c. c = 47) r))"
  by pat_completeness auto
termination
proof (relation "measure length")
  fix s x y :: js_string
  assume y: "y = dropWhile (\<lambda>c. c \<noteq> 47) s" "y \<noteq> []"
  then have "hd y = 47" using hd_dropWhile [of "\<lambda>c. c \<noteq> (47 :: nat)" s] by auto
  then have "dropWhile (\<lambda>c. c = 47) y = dropWhile (\<lambda>c. c = 47) (tl y)" using y(2) by (cases y) auto
  then have "length (dropWhile (\<lambda>c. c = 47) y) < length y" using length_dropWhile_less [OF y(2)] by simp
  also have "\<dots> \<le> length s" unfolding y(1) by (rule length_dropWhile_le)
  finally show "(dropWhile (\<lambda>c. c = 47) y, s) \<in> measure length" by simp
qed simp

declare split_slashes.simps [simp del]

text \<open>The match of a segment with a part that is not GLOBSTAR.\<close>

definition part_hit :: "glob_part \<Rightarrow> js_string \<Rightarrow> bool" where
  "part_hit p f = (case p of Lit t \<Rightarrow> f = t | Rx re glob \<Rightarrow> rx_test ([94] @ re @ [36]) f | _ \<Rightarrow> False)"

text \<open>A segment that \<open>**\<close> may take.\<close>

definition swallows :: "glob_options \<Rightarrow> js_string \<Rightarrow> bool" where
  "swallows opts f = (f \<noteq> [46] \<and> f \<noteq> [46, 46] \<and> (go_dot opts \<or> take 1 f \<noteq> [46]))"

section \<open>The walk\<close>

text \<open>
  \<open>matchOne\<close> on the rests of both arrays; \<open>glob_while\<close> is the loop of \<open>**\<close> with more pattern after
  it.
\<close>

function match_one :: "glob_options \<Rightarrow> bool \<Rightarrow> js_string list \<Rightarrow> glob_part list \<Rightarrow> bool"
  and glob_while :: "glob_options \<Rightarrow> bool \<Rightarrow> js_string list \<Rightarrow> glob_part list \<Rightarrow> bool" where
  "match_one opts partial [] [] = True"
| "match_one opts partial [] (p # ps) = partial"
| "match_one opts partial (f # fs) [] = (fs = [] \<and> f = [])"
| "match_one opts partial (f # fs) (p # ps) =
     (if p = Failed then False
      else if p = Globstar then
        (if ps = [] then list_all (swallows opts) (f # fs) else glob_while opts partial (f # fs) ps)
      else if part_hit p f then match_one opts partial fs ps else False)"
| "glob_while opts partial [] ps = partial"
| "glob_while opts partial (f # fs) ps =
     (if match_one opts partial (f # fs) ps then True
      else if \<not> swallows opts f then False else glob_while opts partial fs ps)"
  by pat_completeness auto
termination
  by (relation "measures [\<lambda>x. (case x of Inl (_, _, _, ps) \<Rightarrow> length ps | Inr (_, _, _, ps) \<Rightarrow> length ps),
       \<lambda>x. (case x of Inl (_, _, fs, _) \<Rightarrow> length fs | Inr (_, _, fs, _) \<Rightarrow> length fs),
       \<lambda>x. (case x of Inl _ \<Rightarrow> 0 | Inr _ \<Rightarrow> 1)]") auto

section \<open>Patterns\<close>

record glob_matcher =
  mm_options :: glob_options
  mm_pattern :: js_string
  mm_set :: "glob_part list list"
  mm_negate :: bool
  mm_comment :: bool
  mm_empty :: bool

definition parse_negate :: "glob_options \<Rightarrow> js_string \<Rightarrow> js_string \<times> bool" where
  "parse_negate opts pattern =
     (if go_nonegate opts then (pattern, False)
      else (let k = length (takeWhile (\<lambda>c. c = 33) pattern) in (drop k pattern, odd k)))"

text \<open>\<open>/\{.*\}/\<close>, and the braces expanded.\<close>

fun has_braces :: "js_string \<Rightarrow> bool" where
  "has_braces [] = False"
| "has_braces (c # s) = (c = 123 \<and> 125 \<in> set (takeWhile (\<lambda>d. \<not> line_break d) s) \<or> has_braces s)"

definition brace_expand :: "glob_options \<Rightarrow> js_string \<Rightarrow> js_string list outcome" where
  "brace_expand opts pattern =
     (if go_nobrace opts \<or> \<not> has_braces pattern then Returns [pattern]
      else case expand_top (2 * length pattern + 5) pattern of None \<Rightarrow> Hangs | Some ps \<Rightarrow> Returns ps)"

fun map_outcome :: "('a \<Rightarrow> 'b outcome) \<Rightarrow> 'a list \<Rightarrow> 'b list outcome" where
  "map_outcome f [] = Returns []"
| "map_outcome f (x # xs) = on_return (f x) (\<lambda>y. on_return (map_outcome f xs) (\<lambda>ys. Returns (y # ys)))"

definition parse_segment :: "glob_options \<Rightarrow> js_string \<Rightarrow> glob_part outcome" where
  "parse_segment opts s = (case parse_glob opts s False of None \<Rightarrow> Throws | Some p \<Rightarrow> Returns p)"

text \<open>The set of a pattern: its braces expanded, each result split and parsed.\<close>

definition glob_set :: "glob_options \<Rightarrow> js_string \<Rightarrow> glob_part list list outcome" where
  "glob_set opts pattern =
     on_return (brace_expand opts pattern) (\<lambda>globs.
       on_return (map_outcome (map_outcome (parse_segment opts)) (map split_slashes globs)) (\<lambda>parts.
         Returns (filter (\<lambda>s. Failed \<notin> set s) parts)))"

text \<open>The constructor, with \<open>make\<close>.\<close>

definition make_minimatch :: "glob_options \<Rightarrow> js_string \<Rightarrow> glob_matcher outcome" where
  "make_minimatch opts pattern0 =
     (let pattern = js_trim pattern0;
          mm = \<lparr>mm_options = opts, mm_pattern = pattern, mm_set = [], mm_negate = False,
                mm_comment = False, mm_empty = False\<rparr>
      in if \<not> go_nocomment opts \<and> take 1 pattern = [35] then Returns (mm\<lparr>mm_comment := True\<rparr>)
         else if pattern = [] then Returns (mm\<lparr>mm_empty := True\<rparr>)
         else (let (pattern', negate) = parse_negate opts pattern
               in on_return (glob_set opts pattern') (\<lambda>parts.
                    Returns (mm\<lparr>mm_pattern := pattern', mm_negate := negate, mm_set := parts\<rparr>))))"

text \<open>The last segment that is not empty.\<close>

definition base_name :: "js_string list \<Rightarrow> js_string" where
  "base_name fs = (case filter (\<lambda>f. f \<noteq> []) fs of [] \<Rightarrow> [] | gs \<Rightarrow> last gs)"

text \<open>\<open>Minimatch.prototype.match\<close>.\<close>

definition mm_match :: "glob_matcher \<Rightarrow> js_string \<Rightarrow> bool \<Rightarrow> bool" where
  "mm_match mm f partial =
     (if mm_comment mm then False
      else if mm_empty mm then f = []
      else if f = [47] \<and> partial then True
      else
        (let opts = mm_options mm; fs = split_slashes f;
             hit = list_ex (\<lambda>pattern.
               match_one opts partial
                 (if go_match_base opts \<and> length pattern = 1 then [base_name fs] else fs) pattern) (mm_set mm)
         in if hit then go_flip_negate opts \<or> \<not> mm_negate mm
            else \<not> go_flip_negate opts \<and> mm_negate mm))"

text \<open>\<open>minimatch(p, pattern, options)\<close>.\<close>

definition minimatch :: "js_string \<Rightarrow> js_value \<Rightarrow> glob_options \<Rightarrow> bool outcome" where
  "minimatch p pattern opts =
     (case pattern of
        JStr s \<Rightarrow>
          if \<not> go_nocomment opts \<and> take 1 s = [35] then Returns False
          else if js_trim s = [] then Returns (p = [])
          else on_return (make_minimatch opts s) (\<lambda>mm. Returns (mm_match mm p False))
      | _ \<Rightarrow> Throws)"

text \<open>\<open>minimatch.match\<close>, on a list of paths.\<close>

definition minimatch_list :: "js_string list \<Rightarrow> js_string \<Rightarrow> glob_options \<Rightarrow> js_string list outcome" where
  "minimatch_list list pattern opts =
     on_return (make_minimatch opts pattern) (\<lambda>mm.
       (let kept = filter (\<lambda>f. mm_match mm f False) list
        in Returns (if go_nonull opts \<and> kept = [] then kept @ [pattern] else kept)))"

text \<open>\<open>minimatch.filter\<close>: the predicate for \<open>Array.prototype.filter\<close>.\<close>

definition minimatch_filter :: "js_value \<Rightarrow> glob_options \<Rightarrow> js_string \<Rightarrow> bool outcome" where
  "minimatch_filter pattern opts p = minimatch p pattern opts"

section \<open>What a walk decides\<close>

text \<open>The paths a pattern covers; \<open>**\<close> at the end takes at least one segment.\<close>

inductive covers :: "glob_options \<Rightarrow> glob_part list \<Rightarrow> js_string list \<Rightarrow> bool" for opts where
  covers_nil: "covers opts [] []"
| covers_slash: "covers opts [] [[]]"
| covers_part: "p \<noteq> Globstar \<Longrightarrow> part_hit p f \<Longrightarrow> covers opts ps fs \<Longrightarrow> covers opts (p # ps) (f # fs)"
| covers_skip: "ps \<noteq> [] \<Longrightarrow> covers opts ps fs \<Longrightarrow> covers opts (Globstar # ps) fs"
| covers_take: "swallows opts f \<Longrightarrow> covers opts (Globstar # ps) fs \<Longrightarrow> covers opts (Globstar # ps) (f # fs)"
| covers_last: "swallows opts f \<Longrightarrow> covers opts [Globstar] [f]"

inductive_cases covers_nilE: "covers opts [] fs"
inductive_cases covers_partE: "covers opts (p # ps) fs"

lemma part_hit_simps [simp]: "\<not> part_hit Globstar f" "\<not> part_hit Failed f"
  by (simp_all add: part_hit_def)

lemma covers_stars: "fs \<noteq> [] \<Longrightarrow> covers opts [Globstar] fs \<longleftrightarrow> list_all (swallows opts) fs"
proof (induction fs)
  case (Cons f fs)
  show ?case
  proof (cases fs)
    case Nil
    then show ?thesis by (auto intro: covers.intros elim: covers_partE)
  next
    case (Cons g gs)
    with Cons.IH show ?thesis by (auto intro: covers.intros elim: covers_partE)
  qed
qed simp

lemma not_covers_nil: "\<not> covers opts (p # ps) []"
proof -
  have "covers opts ps fs \<Longrightarrow> fs = [] \<Longrightarrow> ps = []" for ps fs by (induction rule: covers.induct) auto
  then show ?thesis by blast
qed

lemma walk_covers:
  "match_one opts False fs ps = covers opts ps fs"
  "ps \<noteq> [] \<Longrightarrow> glob_while opts False fs ps = covers opts (Globstar # ps) fs"
proof (induction opts "False" fs ps and opts "False" fs ps rule: match_one_glob_while.induct)
  case (4 opts f fs p ps)
  then show ?case
    by (cases "p = Globstar") (auto simp: covers_stars intro: covers_part elim: covers_partE)
next
  case (6 opts f fs ps)
  then show ?case by (auto intro: covers_skip covers_take elim: covers_partE)
qed (auto intro: covers_nil covers_slash simp: not_covers_nil elim: covers_nilE)

lemma covers_append_partial:
  "covers opts ps (fs @ rest) \<Longrightarrow> match_one opts True fs ps"
  "ps \<noteq> [] \<Longrightarrow> covers opts (Globstar # ps) (fs @ rest) \<Longrightarrow> glob_while opts True fs ps"
proof (induction opts "True" fs ps and opts "True" fs ps rule: match_one_glob_while.induct)
  case (4 opts f fs p ps)
  show ?case
  proof (cases "p = Globstar")
    case True
    show ?thesis
    proof (cases "ps = []")
      case True
      with 4(3) \<open>p = Globstar\<close> have "list_all (swallows opts) ((f # fs) @ rest)" using covers_stars [of "(f # fs) @ rest"] by simp
      with True \<open>p = Globstar\<close> show ?thesis by simp
    next
      case False
      with 4 \<open>p = Globstar\<close> show ?thesis by simp
    qed
  next
    case False
    with 4(3) have "part_hit p f" "covers opts ps (fs @ rest)" by (auto elim: covers_partE)
    with 4(2) False show ?thesis by auto
  qed
next
  case (6 opts f fs ps)
  from 6(3,4) consider "covers opts ps ((f # fs) @ rest)" | "swallows opts f" "covers opts (Globstar # ps) (fs @ rest)"
    by (auto elim: covers_partE)
  then show ?case
  proof cases
    case 1
    with 6(1) show ?thesis by simp
  next
    case 2
    show ?thesis
    proof (cases "match_one opts True (f # fs) ps")
      case False
      with 2 6(2) [OF False _ 6(3)] show ?thesis by simp
    qed simp
  qed
qed (auto elim: covers_nilE)

text \<open>
  C30. \<open>matchOne\<close> decides whether the pattern covers the path: part by part, \<open>**\<close> taking any
  segments that begin with no hidden dot, and a slash at the end of the path allowed. A partial match
  refuses no path that some further segments lead to a covered one.
\<close>

theorem match_one_decides:
  "(match_one opts False fs ps \<longleftrightarrow> covers opts ps fs)
    \<and> ((\<exists>rest. covers opts ps (fs @ rest)) \<longrightarrow> match_one opts True fs ps)"
  by (auto simp: walk_covers covers_append_partial)

lemma match_one_decides_witness:
  "match_one no_options False [js ''a'', js ''b''] [Globstar, Lit (js ''b'')]
    \<and> match_one no_options True [js ''a''] [Globstar, Lit (js ''b'')]"
proof -
  have "covers no_options [Lit (js ''b'')] [js ''b'']" by (intro covers_part covers_nil) (simp_all add: part_hit_def)
  then have "covers no_options [Globstar, Lit (js ''b'')] [js ''a'', js ''b'']"
    by (intro covers_take covers_skip) (simp_all add: swallows_def)
  with match_one_decides [of no_options "[js ''a'', js ''b'']" "[Globstar, Lit (js ''b'')]"]
    match_one_decides [of no_options "[js ''a'']" "[Globstar, Lit (js ''b'')]"] show ?thesis
    by (metis append_Cons append_Nil)
qed

section \<open>Negation\<close>

lemma js_trim_ends:
  assumes "js_trim s = s" "s \<noteq> []"
  shows "\<not> js_space (hd s)" "\<not> js_space (last s)"
proof -
  let ?d = "dropWhile js_space s"
  have len: "length (dropWhile js_space (rev ?d)) = length s" using assms(1) by (metis js_trim_def length_rev)
  have le: "length (dropWhile js_space (rev ?d)) \<le> length ?d" using length_dropWhile_le [of js_space "rev ?d"] by simp
  have "length ?d = length s" using len le length_dropWhile_le [of js_space s] by simp
  moreover have "length (takeWhile js_space s) + length ?d = length s" by (simp flip: length_append)
  ultimately have "takeWhile js_space s = []" by simp
  then have front: "?d = s" using takeWhile_dropWhile_id [of js_space s] by simp
  show "\<not> js_space (hd s)" using front assms(2) by (metis hd_dropWhile)
  show "\<not> js_space (last s)"
  proof
    assume sp: "js_space (last s)"
    obtain c t where ct: "rev s = c # t" using assms(2) by (cases "rev s") auto
    then have "js_space c" using sp assms(2) by (metis hd_rev list.sel(1))
    then have "length (dropWhile js_space (rev s)) \<le> length t" using ct length_dropWhile_le [of js_space t] by simp
    also have "\<dots> < length s" using ct by (metis length_Cons length_rev lessI)
    finally show False using len front by simp
  qed
qed

lemma js_trim_none: "s \<noteq> [] \<Longrightarrow> \<not> js_space (hd s) \<Longrightarrow> \<not> js_space (last s) \<Longrightarrow> js_trim s = s"
proof -
  assume s: "s \<noteq> []" "\<not> js_space (hd s)" "\<not> js_space (last s)"
  have "dropWhile js_space s = s" using s(1,2) by (cases s) simp_all
  moreover have "dropWhile js_space (rev s) = rev s" using s(1,3) by (cases s rule: rev_cases) simp_all
  ultimately show ?thesis by (simp add: js_trim_def)
qed

definition path_hits :: "glob_options \<Rightarrow> glob_part list list \<Rightarrow> js_string \<Rightarrow> bool" where
  "path_hits opts parts f =
     (let fs = split_slashes f in
      list_ex (\<lambda>ps. match_one opts False
        (if go_match_base opts \<and> length ps = 1 then [base_name fs] else fs) ps) parts)"

text \<open>A trimmed pattern that is no comment, in terms of its set.\<close>

lemma minimatch_trimmed:
  assumes "js_trim s = s" "s \<noteq> []" "go_nocomment opts \<or> take 1 s \<noteq> [35]"
  shows "minimatch f (JStr s) opts =
    on_return (glob_set opts (fst (parse_negate opts s))) (\<lambda>parts.
      Returns (if path_hits opts parts f then go_flip_negate opts \<or> \<not> snd (parse_negate opts s)
               else \<not> go_flip_negate opts \<and> snd (parse_negate opts s)))"
  using assms by (cases "glob_set opts (fst (parse_negate opts s))")
    (auto simp: minimatch_def make_minimatch_def mm_match_def path_hits_def Let_def case_prod_unfold)

lemma parse_negate_cons:
  "\<not> go_nonegate opts \<Longrightarrow>
    parse_negate opts (33 # s) = (fst (parse_negate opts s), \<not> snd (parse_negate opts s))"
  by (simp add: parse_negate_def Let_def)

text \<open>
  An exclamation mark before a pattern negates its match, as often as it is repeated; it
  leaves a pattern that cannot be parsed or expanded as it is.
\<close>

theorem negation_inverts:
  assumes opts: "\<not> go_nonegate opts" "\<not> go_flip_negate opts"
    and s: "js_trim s = s" "s \<noteq> []" "go_nocomment opts \<or> hd s \<noteq> 35"
  shows "minimatch f (JStr (33 # s)) opts = on_return (minimatch f (JStr s) opts) (\<lambda>b. Returns (\<not> b))"
proof -
  have "\<not> js_space 33" by (simp add: js_space_def in_ranges_def space_ranges_def)
  then have trim: "js_trim (33 # s) = 33 # s"
    using js_trim_ends [OF s(1,2)] s(2) by (intro js_trim_none) simp_all
  have first: "go_nocomment opts \<or> take 1 s \<noteq> [35]" using s(2,3) by (cases s) auto
  have "minimatch f (JStr (33 # s)) opts =
    on_return (glob_set opts (fst (parse_negate opts (33 # s)))) (\<lambda>parts.
      Returns (if path_hits opts parts f then go_flip_negate opts \<or> \<not> snd (parse_negate opts (33 # s))
               else \<not> go_flip_negate opts \<and> snd (parse_negate opts (33 # s))))"
    by (rule minimatch_trimmed [OF trim]) simp_all
  then show ?thesis
    unfolding minimatch_trimmed [OF s(1,2) first] parse_negate_cons [OF opts(1)] using opts(2)
    by (cases "glob_set opts (fst (parse_negate opts s))") simp_all
qed

lemma negation_inverts_witness:
  "minimatch (js ''a'') (JStr (33 # js ''a'')) no_options =
    on_return (minimatch (js ''a'') (JStr (js ''a'')) no_options) (\<lambda>b. Returns (\<not> b))"
  using negation_inverts [of no_options "js ''a''" "js ''a''"]
  by (simp add: no_options_def js_trim_def js_space_def in_ranges_def space_ranges_def)

end
