(* ===== verification/JsGlobWild.thy ===== *)
theory JsGlobWild
  imports JsGlobMatch
begin

text \<open>
  What a glob pattern means, from its text to the paths it matches: for segments made of plain
  characters, question marks and stars the expression \<open>parse\<close> builds is read back and matched, and
  shown to do what the wildcards say; and a pattern of such segments and \<open>**\<close> matches a path exactly
  when its segments do in order. The theory composes the parser of segments, the expressions of the
  host and the walk of \<open>matchOne\<close>.
\<close>

section \<open>Wildcards\<close>

datatype wild = WChar nat | WOne | WMany

fun wild_char :: "wild \<Rightarrow> nat" where
  "wild_char (WChar c) = c" | "wild_char WOne = 63" | "wild_char WMany = 42"

fun is_wild :: "wild \<Rightarrow> bool" where
  "is_wild (WChar c) = False" | "is_wild t = True"

definition wild_text :: "wild list \<Rightarrow> js_string" where
  "wild_text ts = map wild_char ts"

text \<open>Characters that mean themselves: none of \<open>\ / ? * + @ ! ( ) | [ ]\<close>.\<close>

fun wild_ok :: "wild \<Rightarrow> bool" where
  "wild_ok (WChar c) = (c \<notin> {92, 47, 63, 42, 43, 64, 33, 40, 41, 124, 91, 93})" | "wild_ok t = True"

fun wild_match :: "wild list \<Rightarrow> js_string \<Rightarrow> bool" where
  "wild_match [] s = (s = [])"
| "wild_match (WChar c # ts) s = (s \<noteq> [] \<and> hd s = c \<and> wild_match ts (tl s))"
| "wild_match (WOne # ts) s = (s \<noteq> [] \<and> hd s \<noteq> 47 \<and> wild_match ts (tl s))"
| "wild_match (WMany # ts) s = (\<exists>k \<le> length s. 47 \<notin> set (take k s) \<and> wild_match ts (drop k s))"

section \<open>The expression of a segment\<close>

fun piece :: "wild \<Rightarrow> js_string" where
  "piece (WChar c) = (if re_special c then [92, c] else [c])"
| "piece WOne = qmark" | "piece WMany = star"

definition pieces :: "wild list \<Rightarrow> js_string" where
  "pieces ts = concat (map piece ts)"

lemma clear_none [simp]: "gs_char st = None \<Longrightarrow> clear_state_char st = st"
  by (simp add: clear_state_char_def)

lemma clear_again [simp]: "clear_state_char (clear_state_char st) = clear_state_char st"
  by (simp add: clear_state_char_def split: option.split)

lemma glob_char_wild:
  assumes "gs_idle st" "wild_ok t"
  shows "\<exists>st1. glob_char sub opts pattern i (wild_char t) st = Some st1 \<and> gs_idle st1
    \<and> gs_re (clear_state_char st1) = gs_re (clear_state_char st) @ piece t
    \<and> gs_magic (clear_state_char st1) = (gs_magic (clear_state_char st) \<or> is_wild t)"
proof -
  have idle: "gs_idle (clear_state_char st)" using assms(1) by (simp add: gs_idle_def)
  show ?thesis
  proof (cases t)
    case (WChar c)
    let ?st = "clear_state_char st"
    have "glob_char sub opts pattern i c st = Some (add_re (piece t) (?st\<lparr>gs_escaping := False\<rparr>))"
      using assms WChar by (auto simp: glob_char_def gs_idle_def Let_def re_special_def)
    moreover have "clear_state_char (add_re (piece t) (?st\<lparr>gs_escaping := False\<rparr>)) = add_re (piece t) (?st\<lparr>gs_escaping := False\<rparr>)"
      by (simp add: clear_state_char_def [of "add_re _ _"])
    ultimately show ?thesis using idle WChar by (simp add: gs_idle_def)
  next
    case WOne
    let ?st = "(clear_state_char st)\<lparr>gs_char := Some 63\<rparr>"
    have "glob_char sub opts pattern i 63 st = Some (if go_noext opts then clear_state_char ?st else ?st)"
      using assms by (simp add: glob_char_def gs_idle_def Let_def)
    moreover have "clear_state_char ?st = ?st\<lparr>gs_re := gs_re ?st @ qmark, gs_magic := True, gs_char := None\<rparr>"
      by (simp add: clear_state_char_def [of ?st])
    ultimately show ?thesis using idle WOne by (cases "go_noext opts") (simp_all add: gs_idle_def)
  next
    case WMany
    let ?st = "(clear_state_char st)\<lparr>gs_char := Some 42\<rparr>"
    have "glob_char sub opts pattern i 42 st = Some (if go_noext opts then clear_state_char ?st else ?st)"
      using assms by (simp add: glob_char_def gs_idle_def Let_def)
    moreover have "clear_state_char ?st = ?st\<lparr>gs_re := gs_re ?st @ star, gs_magic := True, gs_char := None\<rparr>"
      by (simp add: clear_state_char_def [of ?st])
    ultimately show ?thesis using idle WMany by (cases "go_noext opts") (simp_all add: gs_idle_def)
  qed
qed

lemma glob_loop_wild:
  "gs_idle st \<Longrightarrow> list_all wild_ok ts \<Longrightarrow>
    \<exists>st1. glob_loop sub opts pattern i (wild_text ts) st = Some st1 \<and> gs_idle st1
      \<and> gs_re (clear_state_char st1) = gs_re (clear_state_char st) @ pieces ts
      \<and> gs_magic (clear_state_char st1) = (gs_magic (clear_state_char st) \<or> list_ex is_wild ts)"
proof (induction ts arbitrary: i st)
  case (Cons t ts)
  from glob_char_wild [OF Cons(2), of t sub opts pattern i] Cons(3) obtain st1 where
    st1: "glob_char sub opts pattern i (wild_char t) st = Some st1" "gs_idle st1"
      "gs_re (clear_state_char st1) = gs_re (clear_state_char st) @ piece t"
      "gs_magic (clear_state_char st1) = (gs_magic (clear_state_char st) \<or> is_wild t)" by auto
  from Cons.IH [OF st1(2), of "Suc i"] Cons(3) st1 show ?case by (auto simp: wild_text_def pieces_def)
qed (simp add: wild_text_def pieces_def)

lemma piece_first: "wild_ok t \<Longrightarrow> piece t \<noteq> [] \<and> (hd (piece t) \<in> {46, 91, 40} \<longleftrightarrow> is_wild t)"
  by (cases t) (auto simp: qmark_def star_def re_special_def)

text \<open>The expression of a segment with wildcards.\<close>

definition wild_src :: "glob_options \<Rightarrow> wild list \<Rightarrow> js_string" where
  "wild_src opts ts =
     (if is_wild (hd ts) then pattern_start opts (wild_text ts) else []) @ js ''(?=.)'' @ pieces ts"

lemma parse_wild:
  assumes len: "length ts \<le> 65536" and ok: "list_all wild_ok ts" and ne: "ts \<noteq> []"
    and stars: "go_noglobstar opts \<or> wild_text ts \<noteq> [42, 42]"
  shows "parse_glob opts (wild_text ts) False =
    Some (if list_ex is_wild ts then Rx (wild_src opts ts) (wild_text ts) else Lit (glob_unescape (wild_text ts)))"
proof -
  let ?sub = "\<lambda>cs. parse_n (length (wild_text ts)) opts cs True"
  from glob_loop_wild [OF gs_idle_init ok, of ?sub opts "wild_text ts" 0] obtain st where
    loop: "glob_loop ?sub opts (wild_text ts) 0 (wild_text ts) glob_init = Some st" and st: "gs_idle st"
      "gs_re (clear_state_char st) = pieces ts" "gs_magic (clear_state_char st) = list_ex is_wild ts"
    by (auto simp: glob_init_def clear_state_char_def)
  obtain t us where ts: "ts = t # us" using ne by (cases ts) auto
  have first: "pieces ts \<noteq> []" "hd (pieces ts) \<in> {46, 91, 40} \<longleftrightarrow> is_wild (hd ts)"
    using piece_first [of t] ok ts by (simp_all add: pieces_def hd_append)
  have "close_class ?sub (wild_text ts) st = st" using st(1) by (simp add: close_class_def gs_idle_def)
  moreover have "finish_parse opts (wild_text ts) False st =
      (if list_ex is_wild ts then Rx (wild_src opts ts) (wild_text ts) else Lit (glob_unescape (wild_text ts)))"
    using st first by (auto simp: finish_parse_def gs_idle_def Let_def wild_src_def)
  moreover have "\<not> (\<not> go_noglobstar opts \<and> wild_text ts = [42, 42])" using stars by blast
  moreover have "wild_text ts \<noteq> []" using ne by (simp add: wild_text_def)
  moreover have "\<not> 65536 < length (wild_text ts)" using len by (simp add: wild_text_def)
  ultimately show ?thesis using loop by (simp only: parse_glob_def parse_n.simps(2) if_False Let_def option.case)
qed

section \<open>Reading the expression back\<close>

abbreviation one_char :: "nat \<Rightarrow> rx" where
  "one_char c \<equiv> RClass False [(c, c)]"

abbreviation no_slash :: rx where
  "no_slash \<equiv> RClass True [(47, 47)]"

lemma lex_plain:
  "c \<notin> {92, 91, 40, 41, 124, 94, 36, 46, 42, 43, 63, 123} \<Longrightarrow>
    rx_lex (c # s) = map_option (Cons (TAtom (one_char c))) (rx_lex s)"
  by (subst rx_lex.simps) simp

lemma lex_escaped:
  assumes "re_special c"
  shows "rx_lex (92 # c # s) = map_option (Cons (TAtom (one_char c))) (rx_lex s)"
proof -
  have c: "c \<in> {40, 41, 46, 42, 123, 125, 43, 63, 91, 93, 94, 36, 33, 92}" using assms by (simp add: re_special_def)
  then have "c \<notin> {100, 68, 119, 87, 115, 83, 98, 102, 110, 114, 116, 118, 99, 120, 117, 66}" "\<not> (48 \<le> c \<and> c \<le> 55)"
    by fastforce+
  moreover from this have "octal_digits (c # s) = []" by (auto simp: octal_digits_def)
  ultimately have "escape_value False (c # s) = Some ([(c, c)], s)" "c \<noteq> 98" "c \<noteq> 66"
    by (simp_all add: escape_value_def)
  then show ?thesis by (subst rx_lex.simps) simp
qed

lemma class_no_slash: "lex_class (94 # 47 # 93 # s) = Some (no_slash, s)"
proof -
  have "class_items (93 # s) = Some ([], s)" by (subst class_items.simps) simp
  then have "class_items (47 # 93 # s) = Some ([(47, 47)], s)" by (subst class_items.simps) (simp add: class_atom_def)
  then show ?thesis by (simp add: lex_class_def)
qed

lemma lex_open_class:
  "lex_class s = Some (r, t) \<Longrightarrow> rx_lex (91 # s) = map_option (Cons (TAtom r)) (rx_lex t)"
  by (subst rx_lex.simps) simp

lemma lex_qmark: "rx_lex (qmark @ s) = map_option (Cons (TAtom no_slash)) (rx_lex s)"
  using lex_open_class [OF class_no_slash [of s]] by (simp add: qmark_def)

lemma lex_star: "rx_lex (star @ s) = map_option (\<lambda>ts. TAtom no_slash # TRep 0 None # ts) (rx_lex s)"
proof -
  have "rx_lex (42 # 63 # s) = map_option (Cons (TRep 0 None)) (rx_lex s)"
    by (subst rx_lex.simps) (simp add: drop_lazy_def)
  moreover have "star @ s = qmark @ 42 # 63 # s" by (simp add: star_def)
  ultimately show ?thesis by (simp only: lex_qmark option.map_comp o_def)
qed

fun piece_toks :: "wild \<Rightarrow> rx_tok list" where
  "piece_toks (WChar c) = [TAtom (one_char c)]"
| "piece_toks WOne = [TAtom no_slash]"
| "piece_toks WMany = [TAtom no_slash, TRep 0 None]"

lemma lex_piece: "wild_ok t \<Longrightarrow> rx_lex (piece t @ s) = map_option (\<lambda>ts. piece_toks t @ ts) (rx_lex s)"
proof (cases t)
  case (WChar c)
  assume ok: "wild_ok t"
  show ?thesis
  proof (cases "re_special c")
    case True
    then show ?thesis using WChar by (simp add: lex_escaped)
  next
    case False
    then have "c \<notin> {92, 91, 40, 41, 124, 94, 36, 46, 42, 43, 63, 123}" using ok WChar by (auto simp: re_special_def)
    from lex_plain [OF this] False show ?thesis using WChar by simp
  qed
qed (simp_all add: lex_qmark lex_star)

lemma lex_pieces:
  "list_all wild_ok ts \<Longrightarrow> rx_lex (pieces ts @ s) = map_option (\<lambda>us. concat (map piece_toks ts) @ us) (rx_lex s)"
proof (induction ts)
  case (Cons t ts)
  then show ?case by (simp add: pieces_def lex_piece option.map_comp o_def)
next
  case Nil
  then show ?case by (cases "rx_lex s") (simp_all add: pieces_def)
qed

fun piece_item :: "wild \<Rightarrow> bool \<times> rx" where
  "piece_item (WChar c) = (True, one_char c)"
| "piece_item WOne = (True, no_slash)"
| "piece_item WMany = (False, RRep 0 None no_slash)"

lemma build_pieces:
  "rx_build (concat (map piece_toks ts) @ us) (k, alts, items) fs =
    rx_build us (k, alts, rev (map piece_item ts) @ items) fs"
proof (induction ts arbitrary: items)
  case (Cons t ts)
  then show ?case by (cases t) simp_all
qed simp

text \<open>What stands before the pieces.\<close>

definition start_toks :: "glob_options \<Rightarrow> rx_tok list" where
  "start_toks opts =
     (if go_dot opts
      then [TOpen (Look_group False), TOpen Plain_group, TFixed RStart, TBar, TAtom (one_char 47), TClose,
            TAtom (one_char 46), TRep 1 (Some 2), TOpen Plain_group, TFixed REnd, TBar, TAtom (one_char 47),
            TClose, TClose]
      else [TOpen (Look_group False), TAtom (one_char 46), TClose])"

definition start_rx :: "glob_options \<Rightarrow> rx" where
  "start_rx opts = RLook False
     (if go_dot opts
      then RSeq (RAlt (RSeq RStart REmpty) (RSeq (one_char 47) REmpty))
             (RSeq (RRep 1 (Some 2) (one_char 46))
                (RSeq (RAlt (RSeq REnd REmpty) (RSeq (one_char 47) REmpty)) REmpty))
      else RSeq (one_char 46) REmpty)"

lemma lex_close: "rx_lex (41 # s) = map_option (Cons TClose) (rx_lex s)"
  by (subst rx_lex.simps) simp

lemma lex_group:
  "rx_lex (40 # 63 # 58 # s) = map_option (Cons (TOpen Plain_group)) (rx_lex s)"
  "rx_lex (40 # 63 # 61 # s) = map_option (Cons (TOpen (Look_group True))) (rx_lex s)"
  "rx_lex (40 # 63 # 33 # s) = map_option (Cons (TOpen (Look_group False))) (rx_lex s)"
  by (subst rx_lex.simps, simp add: numeral_2_eq_2)+

lemma lex_single:
  "rx_lex (46 # s) = map_option (Cons (TAtom RAny)) (rx_lex s)"
  "rx_lex (94 # s) = map_option (Cons (TFixed RStart)) (rx_lex s)"
  "rx_lex (36 # s) = map_option (Cons (TFixed REnd)) (rx_lex s)"
  "rx_lex (124 # s) = map_option (Cons TBar) (rx_lex s)"
  by (subst rx_lex.simps, simp)+

lemma lex_counts_1_2: "rx_lex (123 # 49 # 44 # 50 # 125 # 40 # s) = map_option (Cons (TRep 1 (Some 2))) (rx_lex (40 # s))"
proof -
  have "lex_counts (49 # 44 # 50 # 125 # 40 # s) = Some (1, Some 2, 40 # s)"
    by (simp add: lex_counts_def digit_def read_digits_def)
  then show ?thesis by (subst rx_lex.simps) (simp add: drop_lazy_def)
qed

lemma lex_escaped_slash: "rx_lex (92 # 47 # s) = map_option (Cons (TAtom (one_char 47))) (rx_lex s)"
proof -
  have "escape_value False (47 # s) = Some ([(47, 47)], s)"
    by (simp add: escape_value_def octal_digits_def Let_def)
  then show ?thesis by (subst rx_lex.simps) simp
qed

lemma re_special_dot: "re_special 46"
  by (simp add: re_special_def)

lemma lex_start:
  assumes "take 1 p \<noteq> [46]"
  shows "rx_lex (pattern_start opts p @ s) = map_option (\<lambda>ts. start_toks opts @ ts) (rx_lex s)"
  using assms
  by (simp add: pattern_start_def start_toks_def lex_group lex_single lex_close lex_counts_1_2
      lex_escaped_slash lex_escaped [OF re_special_dot] option.map_comp o_def)

lemma build_start:
  "rx_build (start_toks opts @ us) (k, alts, items) fs = rx_build us (k, alts, (True, start_rx opts) # items) fs"
  by (simp add: start_toks_def start_rx_def close_group_def join_alts_def join_items_def)

text \<open>The expression as a whole.\<close>

definition wild_rx :: "glob_options \<Rightarrow> wild list \<Rightarrow> rx" where
  "wild_rx opts ts =
     RSeq RStart (foldr RSeq (if is_wild (hd ts) then [start_rx opts] else [])
       (RSeq (RLook True (RSeq RAny REmpty)) (foldr RSeq (map (\<lambda>t. snd (piece_item t)) ts) (RSeq REnd REmpty))))"

lemma compile_wild:
  assumes ok: "list_all wild_ok ts" and ne: "ts \<noteq> []"
  shows "rx_compile ([94] @ wild_src opts ts @ [36]) = Some (wild_rx opts ts)"
proof -
  let ?look = "[TOpen (Look_group True), TAtom RAny, TClose]"
  let ?pre = "if is_wild (hd ts) then start_toks opts else []"
  have dot: "take 1 (wild_text ts) \<noteq> [46]" if "is_wild (hd ts)"
    using that ne by (cases ts; cases "hd ts") (auto simp: wild_text_def)
  have tail: "rx_lex (js ''(?=.)'' @ pieces ts @ [36]) = Some (?look @ concat (map piece_toks ts) @ [TFixed REnd])"
    using ok by (simp add: lex_group lex_single lex_close lex_pieces)
  have "rx_lex ([94] @ wild_src opts ts @ [36]) =
      Some (TFixed RStart # ?pre @ ?look @ concat (map piece_toks ts) @ [TFixed REnd])"
    using tail dot by (simp add: wild_src_def lex_single lex_start)
  moreover have "rx_build (TFixed RStart # ?pre @ ?look @ concat (map piece_toks ts) @ [TFixed REnd]) (Plain_group, [], []) []
      = Some (wild_rx opts ts)"
    by (simp add: build_start build_pieces close_group_def join_alts_def join_items_def wild_rx_def
        foldr_map o_def case_prod_unfold foldl_conv_foldr rev_map)
  ultimately show ?thesis by (simp only: rx_compile_def Option.bind.bind_lunit)
qed

section \<open>What the expression matches\<close>

lemma seq_matches: "rx_ends (RSeq r q) s i \<noteq> [] \<longleftrightarrow> (\<exists>k \<in> set (rx_ends r s i). rx_ends q s k \<noteq> [])"
  by auto

lemma char_matches:
  "rx_ends (RSeq (one_char c) q) s i \<noteq> [] \<longleftrightarrow> i < length s \<and> s ! i = c \<and> rx_ends q s (Suc i) \<noteq> []"
  "rx_ends (RSeq no_slash q) s i \<noteq> [] \<longleftrightarrow> i < length s \<and> s ! i \<noteq> 47 \<and> rx_ends q s (Suc i) \<noteq> []"
  by (auto simp: in_ranges_def)

lemma look_matches: "rx_ends (RSeq (RLook b r) q) s i \<noteq> [] \<longleftrightarrow> (rx_ends r s i \<noteq> []) = b \<and> rx_ends q s i \<noteq> []"
  by auto

text \<open>A repetition of single steps reaches what lies within its bound.\<close>

lemma reach_steps:
  assumes "\<And>i. set (f i) = (if P i then {Suc i} else {})"
  shows "j \<in> set (reach f n is) \<longleftrightarrow> (\<exists>i \<in> set is. i \<le> j \<and> j \<le> i + n \<and> (\<forall>k. i \<le> k \<and> k < j \<longrightarrow> P k))"
proof (induction n arbitrary: "is")
  case 0
  then show ?case by (auto intro: le_antisym)
next
  case (Suc n)
  have "(\<exists>i \<in> set (remdups (is @ concat (map f is))). i \<le> j \<and> j \<le> i + n \<and> (\<forall>k. i \<le> k \<and> k < j \<longrightarrow> P k)) \<longleftrightarrow>
      (\<exists>i \<in> set is. i \<le> j \<and> j \<le> i + Suc n \<and> (\<forall>k. i \<le> k \<and> k < j \<longrightarrow> P k))" (is "?l \<longleftrightarrow> ?r")
  proof
    assume ?l
    then obtain i where i: "i \<in> set is \<or> (\<exists>m \<in> set is. P m \<and> i = Suc m)" "i \<le> j" "j \<le> i + n" "\<forall>k. i \<le> k \<and> k < j \<longrightarrow> P k"
      using assms by (auto split: if_splits)
    then show ?r by (metis Suc_leD Suc_le_eq add_Suc_right add_Suc le_SucI le_antisym linorder_not_less nat_le_linear)
  next
    assume ?r
    then obtain i where i: "i \<in> set is" "i \<le> j" "j \<le> i + Suc n" "\<forall>k. i \<le> k \<and> k < j \<longrightarrow> P k" by blast
    show ?l
    proof (cases "i = j")
      case True
      with i(1) show ?thesis by auto
    next
      case False
      with i have "P i" "Suc i \<le> j" "j \<le> Suc i + n" by auto
      moreover from this i(1) have "Suc i \<in> set (remdups (is @ concat (map f is)))" using assms by auto
      ultimately show ?thesis using i(4) by (metis Suc_leD)
    qed
  qed
  then show ?case unfolding reach.simps Suc .
qed

lemma star_ends:
  assumes "i \<le> length s"
  shows "j \<in> set (rx_ends (RRep 0 None no_slash) s i) \<longleftrightarrow> i \<le> j \<and> j \<le> length s \<and> 47 \<notin> set (take (j - i) (drop i s))"
proof -
  have step: "set (rx_ends no_slash s k) = (if k < length s \<and> s ! k \<noteq> 47 then {Suc k} else {})" for k
    by (simp add: in_ranges_def)
  have "j \<in> set (rx_ends (RRep 0 None no_slash) s i) \<longleftrightarrow>
      i \<le> j \<and> j \<le> i + length s \<and> (\<forall>k. i \<le> k \<and> k < j \<longrightarrow> k < length s \<and> s ! k \<noteq> 47)"
    using reach_steps [of "rx_ends no_slash s" "\<lambda>k. k < length s \<and> s ! k \<noteq> 47" j "length s" "[i]", OF step] by simp
  also have "\<dots> \<longleftrightarrow> i \<le> j \<and> j \<le> length s \<and> (\<forall>k. i \<le> k \<and> k < j \<longrightarrow> s ! k \<noteq> 47)"
  proof -
    have "j \<le> length s" if "i \<le> j" "\<forall>k. i \<le> k \<and> k < j \<longrightarrow> k < length s \<and> s ! k \<noteq> 47"
    proof (cases "i = j")
      case False
      with that have "j - 1 < length s" by auto
      then show ?thesis by simp
    qed (use assms in simp)
    then show ?thesis using assms by auto
  qed
  also have "(\<forall>k. i \<le> k \<and> k < j \<longrightarrow> s ! k \<noteq> 47) \<longleftrightarrow> 47 \<notin> set (take (j - i) (drop i s))" if "j \<le> length s"
  proof -
    have len: "length (take (j - i) (drop i s)) = j - i" using that by simp
    have "47 \<in> set (take (j - i) (drop i s)) \<longleftrightarrow> (\<exists>m < j - i. s ! (i + m) = 47)"
      unfolding in_set_conv_nth len using assms by auto
    also have "\<dots> \<longleftrightarrow> (\<exists>k. i \<le> k \<and> k < j \<and> s ! k = 47)"
    proof
      assume "\<exists>k. i \<le> k \<and> k < j \<and> s ! k = 47"
      then obtain k where k: "i \<le> k" "k < j" "s ! k = 47" by blast
      then have "k - i < j - i" "s ! (i + (k - i)) = 47" by simp_all
      then show "\<exists>m < j - i. s ! (i + m) = 47" by blast
    next
      assume "\<exists>m < j - i. s ! (i + m) = 47"
      then obtain m where "m < j - i" "s ! (i + m) = 47" by blast
      then show "\<exists>k. i \<le> k \<and> k < j \<and> s ! k = 47" by (intro exI [of _ "i + m"]) simp
    qed
    finally show ?thesis by blast
  qed
  ultimately show ?thesis by blast
qed

lemma pieces_match:
  "i \<le> length s \<Longrightarrow>
    rx_ends (foldr RSeq (map (\<lambda>t. snd (piece_item t)) ts) (RSeq REnd REmpty)) s i \<noteq> [] \<longleftrightarrow> wild_match ts (drop i s)"
proof (induction ts arbitrary: i)
  case (Cons t ts)
  let ?q = "foldr RSeq (map (\<lambda>t. snd (piece_item t)) ts) (RSeq REnd REmpty)"
  have hd: "drop i s \<noteq> [] \<and> hd (drop i s) = s ! i \<and> tl (drop i s) = drop (Suc i) s" if "i < length s"
    using that by (simp add: hd_drop_conv_nth drop_Suc tl_drop)
  show ?case
  proof (cases t)
    case (WChar c)
    have "rx_ends (RSeq (one_char c) ?q) s i \<noteq> [] \<longleftrightarrow> i < length s \<and> s ! i = c \<and> rx_ends ?q s (Suc i) \<noteq> []"
      by (rule char_matches)
    then show ?thesis using WChar hd Cons.IH [of "Suc i"] Cons.prems by (cases "i < length s") auto
  next
    case WOne
    have "rx_ends (RSeq no_slash ?q) s i \<noteq> [] \<longleftrightarrow> i < length s \<and> s ! i \<noteq> 47 \<and> rx_ends ?q s (Suc i) \<noteq> []"
      by (rule char_matches)
    then show ?thesis using WOne hd Cons.IH [of "Suc i"] Cons.prems by (cases "i < length s") auto
  next
    case WMany
    have "rx_ends (RSeq (RRep 0 None no_slash) ?q) s i \<noteq> [] \<longleftrightarrow>
        (\<exists>j \<in> set (rx_ends (RRep 0 None no_slash) s i). rx_ends ?q s j \<noteq> [])" by (rule seq_matches)
    also have "\<dots> \<longleftrightarrow> (\<exists>j. i \<le> j \<and> j \<le> length s \<and> 47 \<notin> set (take (j - i) (drop i s)) \<and> wild_match ts (drop j s))"
      using star_ends [OF Cons.prems] Cons.IH by blast
    also have "\<dots> \<longleftrightarrow> wild_match (WMany # ts) (drop i s)"
    proof -
      have "(\<exists>j. i \<le> j \<and> j \<le> length s \<and> Q (j - i) j) \<longleftrightarrow> (\<exists>k \<le> length s - i. Q k (i + k))" for Q
        using Cons.prems by (metis add_diff_cancel_left' add_le_cancel_left le_add1 le_add_diff_inverse)
      then show ?thesis by (simp add: add.commute)
    qed
    finally show ?thesis using WMany by simp
  qed
qed auto

section \<open>Segments\<close>

lemma wild_match_no_slash: "wild_match ts s \<Longrightarrow> list_all wild_ok ts \<Longrightarrow> 47 \<notin> set s"
proof (induction ts arbitrary: s)
  case (Cons t ts)
  show ?case
  proof (cases t)
    case WMany
    with Cons obtain k where "47 \<notin> set (take k s)" "47 \<notin> set (drop k s)" by auto
    then have "47 \<notin> set (take k s @ drop k s)" by (simp only: set_append Un_iff) simp
    then show ?thesis by simp
  qed (use Cons in \<open>cases s; auto\<close>)+
qed simp

lemma start_matches:
  assumes "47 \<notin> set s" "s \<noteq> []"
  shows "rx_ends (RSeq (start_rx opts) q) s 0 \<noteq> [] \<longleftrightarrow> swallows opts s \<and> rx_ends q s 0 \<noteq> []"
proof (cases "go_dot opts")
  case False
  then show ?thesis using assms(2) by (cases s) (auto simp: start_rx_def swallows_def in_ranges_def)
next
  case True
  have s0: "s ! 0 \<noteq> 47" using assms by (metis length_greater_0_conv nth_mem)
  have no: "k < length s \<Longrightarrow> s ! k \<noteq> 47" for k using assms(1) by (metis nth_mem)
  let ?r = "RSeq (RRep 1 (Some 2) (one_char 46)) (RSeq (RAlt (RSeq REnd REmpty) (RSeq (one_char 47) REmpty)) REmpty)"
  have at_end: "rx_ends (RSeq (RAlt (RSeq REnd REmpty) (RSeq (one_char 47) REmpty)) REmpty) s k \<noteq> [] \<longleftrightarrow> k = length s" for k
    using no [of k] by (auto simp: in_ranges_def)
  have dots: "k \<in> set (rx_ends (RRep 1 (Some 2) (one_char 46)) s 0) \<longleftrightarrow>
      s ! 0 = 46 \<and> (k = 1 \<or> k = 2 \<and> 2 \<le> length s \<and> s ! 1 = 46)" for k
    using assms(2) by (auto simp: in_ranges_def numeral_2_eq_2)
  have "rx_ends ?r s 0 \<noteq> [] \<longleftrightarrow> s ! 0 = 46 \<and> (1 = length s \<or> 2 = length s \<and> s ! 1 = 46)"
  proof -
    have "rx_ends ?r s 0 \<noteq> [] \<longleftrightarrow> length s \<in> set (rx_ends (RRep 1 (Some 2) (one_char 46)) s 0)"
      unfolding seq_matches [of "RRep 1 (Some 2) (one_char 46)"] at_end by blast
    also have "\<dots> \<longleftrightarrow> s ! 0 = 46 \<and> (1 = length s \<or> 2 = length s \<and> s ! 1 = 46)" unfolding dots by auto
    finally show ?thesis .
  qed
  also have "\<dots> \<longleftrightarrow> s = [46] \<or> s = [46, 46]"
    by (cases s; cases "tl s"; cases "tl (tl s)") auto
  finally have r: "rx_ends ?r s 0 \<noteq> [] \<longleftrightarrow> s = [46] \<or> s = [46, 46]" .
  have "rx_ends (RSeq (RAlt (RSeq RStart REmpty) (RSeq (one_char 47) REmpty)) r') s 0 \<noteq> [] \<longleftrightarrow> rx_ends r' s 0 \<noteq> []" for r'
    using s0 by (simp add: in_ranges_def)
  note r = this [of ?r, unfolded r]
  have "start_rx opts = RLook False (RSeq (RAlt (RSeq RStart REmpty) (RSeq (one_char 47) REmpty)) ?r)"
    using True by (simp add: start_rx_def)
  then show ?thesis using r True by (simp only: look_matches swallows_def) blast
qed

lemma wild_rx_found:
  assumes ok: "list_all wild_ok ts" and slash: "47 \<notin> set f"
  shows "rx_found (wild_rx opts ts) f \<longleftrightarrow>
    f \<noteq> [] \<and> \<not> line_break (hd f) \<and> (is_wild (hd ts) \<longrightarrow> swallows opts f) \<and> wild_match ts f"
proof -
  let ?q = "foldr RSeq (map (\<lambda>t. snd (piece_item t)) ts) (RSeq REnd REmpty)"
  let ?l = "RSeq (RLook True (RSeq RAny REmpty)) ?q"
  let ?r = "foldr RSeq (if is_wild (hd ts) then [start_rx opts] else []) ?l"
  have "rx_found (RSeq RStart ?r) f \<longleftrightarrow> (\<exists>i \<le> length f. i = 0 \<and> rx_ends ?r f i \<noteq> [])"
    by (auto simp: rx_found_def list_ex_iff less_Suc_eq_le)
  then have found: "rx_found (wild_rx opts ts) f \<longleftrightarrow> rx_ends ?r f 0 \<noteq> []" by (simp add: wild_rx_def)
  have "rx_ends ?l f 0 \<noteq> [] \<longleftrightarrow> (0 < length f \<and> \<not> line_break (f ! 0)) \<and> rx_ends ?q f 0 \<noteq> []"
    unfolding look_matches by simp
  then have look: "rx_ends ?l f 0 \<noteq> [] \<longleftrightarrow> f \<noteq> [] \<and> \<not> line_break (hd f) \<and> wild_match ts f"
    using pieces_match [of 0 f ts] by (cases f) auto
  show ?thesis
  proof (cases "is_wild (hd ts)")
    case True
    then have "?r = RSeq (start_rx opts) ?l" by simp
    show ?thesis
    proof (cases "f = []")
      case True
      then have "rx_ends ?l f 0 = []" using look by blast
      then have "rx_ends (RSeq (start_rx opts) ?l) f 0 = []"
        using look_matches [of False _ ?l f 0] unfolding start_rx_def by blast
      with True \<open>?r = _\<close> found show ?thesis by auto
    next
      case False
      from start_matches [OF slash False, of opts ?l] look found \<open>?r = _\<close> \<open>is_wild (hd ts)\<close> show ?thesis by auto
    qed
  next
    case False
    then have "?r = ?l" by simp
    with False look found show ?thesis by auto
  qed
qed

text \<open>What a segment of a pattern means.\<close>

definition segment_hit :: "glob_options \<Rightarrow> wild list \<Rightarrow> js_string \<Rightarrow> bool" where
  "segment_hit opts ts f =
     (if list_ex is_wild ts
      then f \<noteq> [] \<and> \<not> line_break (hd f) \<and> (is_wild (hd ts) \<longrightarrow> swallows opts f) \<and> wild_match ts f
      else f = wild_text ts)"

definition segment_ok :: "glob_options \<Rightarrow> wild list \<Rightarrow> bool" where
  "segment_ok opts ts = (ts \<noteq> [] \<and> list_all wild_ok ts \<and> length ts \<le> 65536
     \<and> (go_noglobstar opts \<or> wild_text ts \<noteq> [42, 42]))"

lemma glob_unescape_plain: "92 \<notin> set s \<Longrightarrow> glob_unescape s = s"
  by (induction s rule: glob_unescape.induct) auto

lemma wild_text_plain:
  assumes "list_all wild_ok ts"
  shows "92 \<notin> set (wild_text ts) \<and> 47 \<notin> set (wild_text ts) \<and> 33 \<notin> set (wild_text ts)"
proof -
  have "wild_char t \<notin> {92, 47, 33}" if "wild_ok t" for t using that by (cases t) auto
  with assms show ?thesis by (auto simp: wild_text_def list_all_iff)
qed

lemma wildcards_hit:
  assumes ok: "segment_ok opts ts" and slash: "47 \<notin> set f"
  shows "\<exists>p. parse_glob opts (wild_text ts) False = Some p \<and> p \<noteq> Globstar \<and> part_hit p f = segment_hit opts ts f"
proof -
  have oks: "list_all wild_ok ts" "ts \<noteq> []" "length ts \<le> 65536" "go_noglobstar opts \<or> wild_text ts \<noteq> [42, 42]"
    using ok by (simp_all add: segment_ok_def)
  note parse = parse_wild [OF oks(3,1,2,4)]
  show ?thesis
  proof (cases "list_ex is_wild ts")
    case True
    have "part_hit (Rx (wild_src opts ts) (wild_text ts)) f = rx_found (wild_rx opts ts) f"
      using compile_wild [OF oks(1,2)] by (simp add: part_hit_def rx_test_def)
    with True parse wild_rx_found [OF oks(1) slash] show ?thesis by (simp add: segment_hit_def)
  next
    case False
    with parse wild_text_plain [OF oks(1)] show ?thesis
      by (simp add: segment_hit_def part_hit_def glob_unescape_plain)
  qed
qed

text \<open>
  C31. A segment of plain characters, question marks and stars is parsed to a part that hits
  exactly what the wildcards mean: a question mark one character and a star any, but no slash; a
  leading wildcard hits no hidden file unless told to. A segment with a wildcard hits no name that
  is empty or begins with a line break, which its look-ahead does not see.
\<close>

theorem wildcards_match:
  assumes ok: "segment_ok opts ts" and slash: "47 \<notin> set f"
  shows "\<exists>p. parse_glob opts (wild_text ts) False = Some p \<and> p \<noteq> Globstar \<and> part_hit p f = segment_hit opts ts f"
  by (rule wildcards_hit [OF assms])

lemma wildcards_match_witness:
  "\<exists>p. parse_glob no_options (js ''?*.c'') False = Some p \<and> part_hit p (js ''ab.c'') \<and> \<not> part_hit p (js ''.c'')"
proof -
  let ?ts = "[WOne, WMany, WChar 46, WChar 99]"
  have ok: "segment_ok no_options ?ts" by (simp add: segment_ok_def wild_text_def)
  have "wild_match [WMany, WChar 46, WChar 99] [98, 46, 99]" by (simp, rule exI [of _ "Suc 0"], simp)
  then have "segment_hit no_options ?ts (js ''ab.c'')"
    by (simp add: segment_hit_def swallows_def line_break_def del: wild_match.simps(4))
  moreover have "\<not> segment_hit no_options ?ts (js ''.c'')"
    by (simp add: segment_hit_def swallows_def no_options_def)
  moreover have "wild_text ?ts = js ''?*.c''" "47 \<notin> set (js ''ab.c'')" "47 \<notin> set (js ''.c'')" by (simp_all add: wild_text_def)
  moreover obtain p where "parse_glob no_options (wild_text ?ts) False = Some p"
    "part_hit p (js ''ab.c'') = segment_hit no_options ?ts (js ''ab.c'')"
    using wildcards_match [OF ok, of "js ''ab.c''"] calculation(4) by blast
  moreover obtain q where "parse_glob no_options (wild_text ?ts) False = Some q"
    "part_hit q (js ''.c'') = segment_hit no_options ?ts (js ''.c'')"
    using wildcards_match [OF ok, of "js ''.c''"] calculation(5) by blast
  ultimately show ?thesis by (metis option.inject)
qed

section \<open>Paths\<close>

datatype segment = Stars | Seg "wild list"

fun segment_text :: "segment \<Rightarrow> js_string" where
  "segment_text Stars = [42, 42]" | "segment_text (Seg ts) = wild_text ts"

fun glob_text :: "segment list \<Rightarrow> js_string" where
  "glob_text [] = []" | "glob_text [g] = segment_text g" | "glob_text (g # gs) = segment_text g @ 47 # glob_text gs"

fun segment_good :: "glob_options \<Rightarrow> segment \<Rightarrow> bool" where
  "segment_good opts Stars = (\<not> go_noglobstar opts)" | "segment_good opts (Seg ts) = segment_ok opts ts"

text \<open>The paths a pattern means.\<close>

fun path_covered :: "glob_options \<Rightarrow> segment list \<Rightarrow> js_string list \<Rightarrow> bool" where
  "path_covered opts [] fs = (fs = [] \<or> fs = [[]])"
| "path_covered opts (Seg ts # gs) fs = (fs \<noteq> [] \<and> segment_hit opts ts (hd fs) \<and> path_covered opts gs (tl fs))"
| "path_covered opts (Stars # gs) fs =
     (if gs = [] then fs \<noteq> [] \<and> list_all (swallows opts) fs
      else \<exists>k < length fs. list_all (swallows opts) (take k fs) \<and> path_covered opts gs (drop k fs))"

lemma split_slashes_simps:
  "47 \<notin> set s \<Longrightarrow> split_slashes s = [s]"
  "47 \<notin> set s \<Longrightarrow> take 1 t \<noteq> [47] \<Longrightarrow> split_slashes (s @ 47 # t) = s # split_slashes t"
proof -
  assume s: "47 \<notin> set s"
  then have "takeWhile (\<lambda>c. c \<noteq> 47) s = s" "dropWhile (\<lambda>c. c \<noteq> 47) s = []" by (auto simp: takeWhile_eq_all_conv)
  then show "split_slashes s = [s]" by (subst split_slashes.simps) simp
  assume t: "take 1 t \<noteq> [47]"
  have "takeWhile (\<lambda>c. c \<noteq> 47) (s @ 47 # t) = s" using s by (induction s) auto
  moreover have "dropWhile (\<lambda>c. c \<noteq> 47) (s @ 47 # t) = 47 # t" using s by (induction s) auto
  moreover have "dropWhile (\<lambda>c. c = 47) t = t" using t by (cases t) auto
  ultimately show "split_slashes (s @ 47 # t) = s # split_slashes t" by (subst split_slashes.simps) simp
qed

lemma split_slashes_parts: "g \<in> set (split_slashes s) \<Longrightarrow> 47 \<notin> set g"
proof (induction s rule: split_slashes.induct)
  case (1 s)
  have a: "47 \<notin> set (takeWhile (\<lambda>c. c \<noteq> 47) s)" by (auto dest: set_takeWhileD)
  show ?case
  proof (cases "dropWhile (\<lambda>c. c \<noteq> 47) s = []")
    case True
    with 1(2) a show ?thesis by (subst (asm) split_slashes.simps) simp
  next
    case False
    then have "split_slashes s = takeWhile (\<lambda>c. c \<noteq> 47) s # split_slashes (dropWhile (\<lambda>c. c = 47) (dropWhile (\<lambda>c. c \<noteq> 47) s))"
      by (subst split_slashes.simps) (simp only: Let_def if_False)
    with 1(2) have "g = takeWhile (\<lambda>c. c \<noteq> 47) s \<or> g \<in> set (split_slashes (dropWhile (\<lambda>c. c = 47) (dropWhile (\<lambda>c. c \<noteq> 47) s)))"
      by (simp only: list.set insert_iff)
    with a 1(1) [OF refl refl False] show ?thesis by blast
  qed
qed

lemma split_slashes_nonempty [simp]: "split_slashes s \<noteq> []"
  by (subst split_slashes.simps) (simp add: Let_def)

lemma segment_text_good:
  "segment_good opts g \<Longrightarrow> segment_text g \<noteq> [] \<and> 92 \<notin> set (segment_text g)
     \<and> 47 \<notin> set (segment_text g) \<and> 33 \<notin> set (segment_text g)"
  using wild_text_plain by (cases g) (auto simp: segment_ok_def wild_text_def)

lemma glob_text_cons: "gs \<noteq> [] \<Longrightarrow> glob_text (g # gs) = segment_text g @ 47 # glob_text gs"
  by (cases gs) simp_all

lemma glob_text_first: "list_all (segment_good opts) gs \<Longrightarrow> gs \<noteq> [] \<Longrightarrow> glob_text gs \<noteq> [] \<and> hd (glob_text gs) \<noteq> 47 \<and> hd (glob_text gs) \<noteq> 33"
proof (cases gs)
  case (Cons g us)
  assume "list_all (segment_good opts) gs"
  then have g: "segment_text g \<noteq> []" "47 \<notin> set (segment_text g)" "33 \<notin> set (segment_text g)"
    using segment_text_good [of opts g] Cons by simp_all
  then have "hd (segment_text g) \<noteq> 47" "hd (segment_text g) \<noteq> 33" by (metis list.set_sel(1))+
  then show ?thesis using g(1) Cons by (cases us) (simp_all add: hd_append)
qed simp

lemma split_glob_text:
  "list_all (segment_good opts) gs \<Longrightarrow> gs \<noteq> [] \<Longrightarrow> split_slashes (glob_text gs) = map segment_text gs"
proof (induction gs)
  case (Cons g gs)
  have g: "47 \<notin> set (segment_text g)" using segment_text_good [of opts g] Cons(2) by simp
  show ?case
  proof (cases "gs = []")
    case True
    with g show ?thesis by (simp add: split_slashes_simps)
  next
    case False
    with Cons have ih: "split_slashes (glob_text gs) = map segment_text gs" by simp
    have "take 1 (glob_text gs) \<noteq> [47]"
      using glob_text_first [of opts gs] Cons(2) False by (cases "glob_text gs") auto
    from split_slashes_simps(2) [OF g this] ih False show ?thesis by (simp add: glob_text_cons)
  qed
qed simp

text \<open>The walk over the parsed segments is what the pattern means.\<close>

lemma covers_stars_more:
  "ps \<noteq> [] \<Longrightarrow> covers opts (Globstar # ps) fs \<longleftrightarrow>
    (\<exists>k < length fs. list_all (swallows opts) (take k fs) \<and> covers opts ps (drop k fs))"
proof (induction fs)
  case Nil
  then show ?case by (simp add: not_covers_nil)
next
  case (Cons f fs)
  have "covers opts (Globstar # ps) (f # fs) \<longleftrightarrow>
      covers opts ps (f # fs) \<or> swallows opts f \<and> covers opts (Globstar # ps) fs"
    using Cons(2) by (auto intro: covers_skip covers_take elim: covers_partE)
  also have "\<dots> \<longleftrightarrow> covers opts ps (f # fs) \<or> swallows opts f \<and>
      (\<exists>k < length fs. list_all (swallows opts) (take k fs) \<and> covers opts ps (drop k fs))"
    using Cons by simp
  also have "\<dots> \<longleftrightarrow> (\<exists>k < length (f # fs). list_all (swallows opts) (take k (f # fs)) \<and> covers opts ps (drop k (f # fs)))"
    (is "?l \<longleftrightarrow> (\<exists>k < _. ?P k)")
  proof
    assume ?l
    then show "\<exists>k < length (f # fs). ?P k"
    proof
      assume "covers opts ps (f # fs)"
      then show ?thesis by (intro exI [of _ 0]) simp
    next
      assume "swallows opts f \<and> (\<exists>k < length fs. list_all (swallows opts) (take k fs) \<and> covers opts ps (drop k fs))"
      then obtain k where "swallows opts f" "k < length fs" "list_all (swallows opts) (take k fs)" "covers opts ps (drop k fs)" by blast
      then show ?thesis by (intro exI [of _ "Suc k"]) simp
    qed
  next
    assume "\<exists>k < length (f # fs). ?P k"
    then obtain k where k: "k < length (f # fs)" "?P k" by blast
    then show ?l by (cases k) auto
  qed
  finally show ?case .
qed

lemma covers_part_iff:
  "p \<noteq> Globstar \<Longrightarrow> covers opts (p # ps) fs \<longleftrightarrow> fs \<noteq> [] \<and> part_hit p (hd fs) \<and> covers opts ps (tl fs)"
  by (cases fs) (auto simp: not_covers_nil intro: covers_part elim: covers_partE)

definition part_for :: "glob_options \<Rightarrow> segment \<Rightarrow> glob_part" where
  "part_for opts g = the (parse_glob opts (segment_text g) False)"

lemma part_for_stars: "\<not> go_noglobstar opts \<Longrightarrow> part_for opts Stars = Globstar"
  by (simp add: part_for_def parse_glob_def)

lemma part_for_seg:
  assumes "segment_ok opts ts" "47 \<notin> set f"
  shows "part_for opts (Seg ts) \<noteq> Globstar \<and> part_hit (part_for opts (Seg ts)) f = segment_hit opts ts f"
  using wildcards_hit [OF assms] by (auto simp: part_for_def)

lemma covers_path:
  "list_all (segment_good opts) gs \<Longrightarrow> list_all (\<lambda>f. 47 \<notin> set f) fs \<Longrightarrow>
    covers opts (map (part_for opts) gs) fs \<longleftrightarrow> path_covered opts gs fs"
proof (induction gs arbitrary: fs)
  case Nil
  show ?case by (auto intro: covers_nil covers_slash elim: covers_nilE)
next
  case (Cons g gs)
  show ?case
  proof (cases g)
    case Stars
    then have star: "part_for opts g = Globstar" using Cons(2) by (simp add: part_for_stars)
    have drop: "list_all (\<lambda>f. 47 \<notin> set f) (drop k fs)" for k
      using Cons(3) by (auto simp: list_all_iff dest: in_set_dropD)
    show ?thesis
    proof (cases "gs = []")
      case True
      then show ?thesis using star Stars covers_stars [of fs opts] not_covers_nil [of opts Globstar "[]"] by (cases "fs = []") simp_all
    next
      case False
      then have "covers opts (Globstar # map (part_for opts) gs) fs \<longleftrightarrow>
          (\<exists>k < length fs. list_all (swallows opts) (take k fs) \<and> path_covered opts gs (drop k fs))"
        using covers_stars_more [of "map (part_for opts) gs" opts fs] Cons.IH [OF _ drop] Cons(2) by simp
      then show ?thesis using star Stars False by simp
    qed
  next
    case (Seg ts)
    then have ok: "segment_ok opts ts" using Cons(2) by simp
    have "covers opts (part_for opts g # map (part_for opts) gs) fs \<longleftrightarrow>
        fs \<noteq> [] \<and> part_hit (part_for opts g) (hd fs) \<and> covers opts (map (part_for opts) gs) (tl fs)"
      using part_for_seg [OF ok, of "[]"] Seg by (intro covers_part_iff) simp
    also have "\<dots> \<longleftrightarrow> fs \<noteq> [] \<and> segment_hit opts ts (hd fs) \<and> path_covered opts gs (tl fs)"
    proof (cases fs)
      case (Cons f us)
      then have "47 \<notin> set f" "list_all (\<lambda>f. 47 \<notin> set f) us" using Cons.prems by simp_all
      with Cons Cons.IH [of us] Cons.prems(1) part_for_seg [OF ok] Seg show ?thesis by simp
    qed simp
    finally show ?thesis using Seg by simp
  qed
qed

lemma map_outcome_returns: "(\<And>x. x \<in> set xs \<Longrightarrow> f x = Returns (h x)) \<Longrightarrow> map_outcome f xs = Returns (map h xs)"
  by (induction xs) simp_all

lemma glob_set_path:
  assumes good: "list_all (segment_good opts) gs" "gs \<noteq> []" and plain: "go_nobrace opts \<or> \<not> has_braces (glob_text gs)"
  shows "glob_set opts (glob_text gs) = Returns [map (part_for opts) gs]"
proof -
  have seg: "parse_segment opts (segment_text g) = Returns (part_for opts g) \<and> part_for opts g \<noteq> Failed" if "g \<in> set gs" for g
  proof -
    have g: "segment_good opts g" using good(1) that by (simp add: list_all_iff)
    have "length (segment_text g) \<le> 65536" using g by (cases g) (simp_all add: segment_ok_def wild_text_def)
    from parse_kinds [OF this, of opts False] segment_text_good [OF g] show ?thesis
      by (auto simp: parse_segment_def part_for_def)
  qed
  have "brace_expand opts (glob_text gs) = Returns [glob_text gs]" using plain by (simp add: brace_expand_def)
  moreover have "map_outcome (parse_segment opts) (map segment_text gs) = Returns (map (part_for opts) gs)"
  proof -
    have "map_outcome (parse_segment opts) (map segment_text us) = Returns (map (part_for opts) us)" if "set us \<subseteq> set gs" for us
      using that seg by (induction us) simp_all
    then show ?thesis by blast
  qed
  moreover have "Failed \<notin> set (map (part_for opts) gs)" using seg by fastforce
  ultimately show ?thesis using split_glob_text [OF good] by (simp add: glob_set_def)
qed

text \<open>
  C29. From the text of a pattern to the answer: a pattern of segments with wildcards and of \<open>**\<close>,
  with slashes between them, matches exactly the paths whose segments it hits in order, where \<open>**\<close>
  stands for any number of visible segments, at the end for at least one, and a slash at the end of
  the path is allowed.
\<close>

theorem glob_matches:
  assumes good: "list_all (segment_good opts) gs" "gs \<noteq> []"
    and plain: "js_trim (glob_text gs) = glob_text gs" "go_nocomment opts \<or> hd (glob_text gs) \<noteq> 35"
      "go_nobrace opts \<or> \<not> has_braces (glob_text gs)" "\<not> go_match_base opts"
  shows "minimatch f (JStr (glob_text gs)) opts = Returns (path_covered opts gs (split_slashes f))"
proof -
  note first = glob_text_first [OF good]
  then obtain c t where ct: "glob_text gs = c # t" "c \<noteq> 33" by (cases "glob_text gs") auto
  then have neg: "parse_negate opts (glob_text gs) = (glob_text gs, False)" by (simp add: parse_negate_def)
  have comment: "go_nocomment opts \<or> take 1 (glob_text gs) \<noteq> [35]" using plain(2) ct by auto
  have "list_all (\<lambda>f. 47 \<notin> set f) (split_slashes f)" using split_slashes_parts by (auto simp: list_all_iff)
  from covers_path [OF good(1) this] have "path_hits opts [map (part_for opts) gs] f = path_covered opts gs (split_slashes f)"
    using plain(4) by (simp add: path_hits_def walk_covers)
  then show ?thesis
    using minimatch_trimmed [OF plain(1) _ comment, of f] first glob_set_path [OF good plain(3)] neg by simp
qed

lemma glob_matches_witness:
  "minimatch (js ''a/b/x.c'') (JStr (js ''a/**/*.c'')) no_options = Returns True"
proof -
  let ?gs = "[Seg [WChar 97], Stars, Seg [WMany, WChar 46, WChar 99]]"
  have pat: "glob_text ?gs = js ''a/**/*.c''" by (simp add: wild_text_def)
  have good: "list_all (segment_good no_options) ?gs" by (simp add: segment_ok_def wild_text_def no_options_def)
  have trim: "js_trim (js ''a/**/*.c'') = js ''a/**/*.c''"
    by (simp add: js_trim_def js_space_def in_ranges_def space_ranges_def)
  have split: "split_slashes (js ''a/b/x.c'') = [js ''a'', js ''b'', js ''x.c'']"
    by (simp add: split_slashes.simps [of "_ # _"])
  have "wild_match [WMany, WChar 46, WChar 99] [120, 46, 99]" by (simp, rule exI [of _ "Suc 0"], simp)
  then have "segment_hit no_options [WMany, WChar 46, WChar 99] (js ''x.c'')"
    by (simp add: segment_hit_def swallows_def line_break_def del: wild_match.simps(4))
  then have "path_covered no_options [Stars, Seg [WMany, WChar 46, WChar 99]] [js ''b'', js ''x.c'']"
    by (simp add: swallows_def, intro exI [of _ "Suc 0"]) (simp add: swallows_def)
  then have "path_covered no_options ?gs [js ''a'', js ''b'', js ''x.c'']"
    by (simp add: segment_hit_def wild_text_def del: path_covered.simps(3))
  with glob_matches [OF good, of "js ''a/b/x.c''"] pat trim split show ?thesis
    by (simp add: no_options_def del: path_covered.simps)
qed

end
