(* ===== verification/JsInflight.thy ===== *)
theory JsInflight
  imports Main
begin

text \<open>
  Requests in flight, in the search bundle (\<open>wordcut.js\<close>, modules 18 and 21): callbacks that ask for
  the same key while a request for it runs wait for its response, which is then given to all of
  them; what is asked for during a response is answered in a later turn. The record \<open>inflight\<close> has
  the table \<open>reqs\<close>, the responders that were made by \<open>once\<close> and not yet called, and the responses
  put off with \<open>process.nextTick\<close>. A callback may ask for more and may throw; it does not call a
  responder itself. The theory shows that in every history each callback is called at most once and
  in the order of asking, and that whoever waits has exactly one response to come.
\<close>

section \<open>State\<close>

record ('k, 'c, 'a) inflight =
  if_reqs :: "'k \<rightharpoonup> 'c list"
  if_open :: "(nat \<times> 'k) list"
  if_next :: nat
  if_ticks :: "('k \<times> 'a) list"
  if_asked :: "('k \<times> 'c) list"
  if_done :: "('k \<times> 'c \<times> 'a option) list"

text \<open>
  The last two fields record what was asked for and what became of it: \<open>Some\<close> the arguments the
  callback was called with, \<open>None\<close> for a callback dropped because one before it threw.
\<close>

definition inflight_init :: "('k, 'c, 'a) inflight" where
  "inflight_init = \<lparr>if_reqs = Map.empty, if_open = [], if_next = 0, if_ticks = [], if_asked = [], if_done = []\<rparr>"

text \<open>\<open>inflight(key, cb)\<close>: a new responder is the number \<open>if_next\<close>.\<close>

definition ask :: "'k \<times> 'c \<Rightarrow> ('k, 'c, 'a) inflight \<Rightarrow> ('k, 'c, 'a) inflight" where
  "ask q st =
     (case q of (key, cb) \<Rightarrow>
       let st1 = st\<lparr>if_asked := if_asked st @ [(key, cb)]\<rparr> in
       (case if_reqs st key of
          Some cbs \<Rightarrow> st1\<lparr>if_reqs := (if_reqs st)(key \<mapsto> cbs @ [cb])\<rparr>
        | None \<Rightarrow> st1\<lparr>if_reqs := (if_reqs st)(key \<mapsto> [cb]), if_open := if_open st @ [(if_next st, key)],
                      if_next := if_next st + 1\<rparr>))"

text \<open>
  The loop of \<open>RES\<close> over the callbacks there when it started: what a callback asks for, and whether
  it throws, is its \<open>effect\<close>. The callbacks after one that throws are never called.
\<close>

fun call_each ::
  "('c \<Rightarrow> ('k \<times> 'c) list \<times> bool) \<Rightarrow> 'k \<Rightarrow> 'a \<Rightarrow> 'c list \<Rightarrow> ('k, 'c, 'a) inflight \<Rightarrow> ('k, 'c, 'a) inflight" where
  "call_each effect key args [] st = st"
| "call_each effect key args (cb # cbs) st =
     (let st1 = fold ask (fst (effect cb)) (st\<lparr>if_done := if_done st @ [(key, cb, Some args)]\<rparr>)
      in if snd (effect cb) then st1\<lparr>if_done := if_done st1 @ map (\<lambda>c. (key, c, None)) cbs\<rparr>
         else call_each effect key args cbs st1)"

text \<open>\<open>RES\<close>, with its \<open>finally\<close>.\<close>

definition run_res ::
  "('c \<Rightarrow> ('k \<times> 'c) list \<times> bool) \<Rightarrow> 'k \<Rightarrow> 'a \<Rightarrow> ('k, 'c, 'a) inflight \<Rightarrow> ('k, 'c, 'a) inflight" where
  "run_res effect key args st =
     (case if_reqs st key of
        None \<Rightarrow> st
      | Some cbs \<Rightarrow>
          (let len = length cbs;
               st1 = call_each effect key args cbs st;
               cbs1 = (case if_reqs st1 key of None \<Rightarrow> [] | Some cs \<Rightarrow> cs)
           in if len < length cbs1
              then st1\<lparr>if_reqs := (if_reqs st1)(key \<mapsto> drop len cbs1), if_ticks := if_ticks st1 @ [(key, args)]\<rparr>
              else st1\<lparr>if_reqs := (if_reqs st1)(key := None)\<rparr>))"

text \<open>A responder is called: \<open>once\<close> runs it the first time only.\<close>

definition respond ::
  "('c \<Rightarrow> ('k \<times> 'c) list \<times> bool) \<Rightarrow> nat \<Rightarrow> 'a \<Rightarrow> ('k, 'c, 'a) inflight \<Rightarrow> ('k, 'c, 'a) inflight" where
  "respond effect r args st =
     (case map_of (if_open st) r of
        None \<Rightarrow> st
      | Some key \<Rightarrow> run_res effect key args (st\<lparr>if_open := filter (\<lambda>(r', _). r' \<noteq> r) (if_open st)\<rparr>))"

text \<open>The next turn's response, if there is one.\<close>

definition run_tick :: "('c \<Rightarrow> ('k \<times> 'c) list \<times> bool) \<Rightarrow> ('k, 'c, 'a) inflight \<Rightarrow> ('k, 'c, 'a) inflight" where
  "run_tick effect st =
     (case if_ticks st of
        [] \<Rightarrow> st | (key, args) # ticks \<Rightarrow> run_res effect key args (st\<lparr>if_ticks := ticks\<rparr>))"

inductive inflight_run :: "('c \<Rightarrow> ('k \<times> 'c) list \<times> bool) \<Rightarrow> ('k, 'c, 'a) inflight \<Rightarrow> bool" for effect where
  start: "inflight_run effect inflight_init"
| asks: "inflight_run effect st \<Longrightarrow> inflight_run effect (ask q st)"
| responds: "inflight_run effect st \<Longrightarrow> inflight_run effect (respond effect r args st)"
| ticks: "inflight_run effect st \<Longrightarrow> inflight_run effect (run_tick effect st)"

section \<open>The invariant\<close>

definition waiting :: "'k \<Rightarrow> ('k, 'c, 'a) inflight \<Rightarrow> 'c list" where
  "waiting k st = (case if_reqs st k of None \<Rightarrow> [] | Some cbs \<Rightarrow> cbs)"

definition asked_for :: "'k \<Rightarrow> ('k, 'c, 'a) inflight \<Rightarrow> 'c list" where
  "asked_for k st = map snd (filter (\<lambda>(k', _). k' = k) (if_asked st))"

definition done_for :: "'k \<Rightarrow> ('k, 'c, 'a) inflight \<Rightarrow> 'c list" where
  "done_for k st = map (\<lambda>(_, c, _). c) (filter (\<lambda>(k', _). k' = k) (if_done st))"

text \<open>The responses to come for a key: its open responders and its turns.\<close>

definition to_come :: "'k \<Rightarrow> ('k, 'c, 'a) inflight \<Rightarrow> nat" where
  "to_come k st = length (filter (\<lambda>(_, k'). k' = k) (if_open st)) + length (filter (\<lambda>(k', _). k' = k) (if_ticks st))"

definition key_inv :: "'k \<Rightarrow> ('k, 'c, 'a) inflight \<Rightarrow> bool" where
  "key_inv k st = (asked_for k st = done_for k st @ waiting k st
     \<and> to_come k st = (if if_reqs st k = None then 0 else 1) \<and> if_reqs st k \<noteq> Some [])"

definition open_inv :: "('k, 'c, 'a) inflight \<Rightarrow> bool" where
  "open_inv st = (distinct (map fst (if_open st)) \<and> (\<forall>r \<in> set (map fst (if_open st)). r < if_next st))"

definition inflight_inv :: "('k, 'c, 'a) inflight \<Rightarrow> bool" where
  "inflight_inv st = ((\<forall>k. key_inv k st) \<and> open_inv st)"

lemmas per_key = asked_for_def done_for_def waiting_def to_come_def

lemma ask_open_inv: "open_inv st \<Longrightarrow> open_inv (ask q st)"
  by (cases q; cases "if_reqs st (fst q)") (auto simp: open_inv_def ask_def Let_def)

lemma ask_key_inv: "key_inv k st \<Longrightarrow> key_inv k (ask q st)"
  by (cases q; cases "if_reqs st (fst q)"; cases "k = fst q")
    (simp_all add: key_inv_def ask_def Let_def per_key)

lemma ask_inv: "inflight_inv st \<Longrightarrow> inflight_inv (ask q st)"
  by (simp add: inflight_inv_def ask_open_inv ask_key_inv)

text \<open>
  While \<open>RES\<close> runs for a key, its table entry holds the callbacks it runs and then those added; the
  callbacks it has still to call are not done.
\<close>

definition res_inv :: "'k \<Rightarrow> 'c list \<Rightarrow> 'c list \<Rightarrow> ('k, 'c, 'a) inflight \<Rightarrow> bool" where
  "res_inv key cbs rest st =
     ((\<exists>new. if_reqs st key = Some (cbs @ new) \<and> asked_for key st = done_for key st @ rest @ new)
      \<and> to_come key st = 0 \<and> (\<forall>k. k \<noteq> key \<longrightarrow> key_inv k st) \<and> open_inv st)"

lemma ask_res_inv:
  assumes "res_inv key cbs rest st"
  shows "res_inv key cbs rest (ask q st)"
proof -
  obtain new where new: "if_reqs st key = Some (cbs @ new)" "asked_for key st = done_for key st @ rest @ new"
    and none: "to_come key st = 0" using assms by (auto simp: res_inv_def)
  have "\<exists>new'. if_reqs (ask q st) key = Some (cbs @ new') \<and> asked_for key (ask q st) = done_for key (ask q st) @ rest @ new'"
  proof (cases "fst q = key")
    case True
    with new show ?thesis by (intro exI [of _ "new @ [snd q]"]) (cases q; simp add: ask_def Let_def per_key)
  next
    case False
    with new show ?thesis
      by (intro exI [of _ new]) (cases q; cases "if_reqs st (fst q)"; simp add: ask_def Let_def per_key)
  qed
  moreover have "to_come key (ask q st) = 0"
    using none new(1) by (cases q; cases "if_reqs st (fst q)") (auto simp: ask_def Let_def per_key)
  ultimately show ?thesis using assms by (simp add: res_inv_def ask_key_inv ask_open_inv)
qed

lemma asks_res_inv: "res_inv key cbs rest st \<Longrightarrow> res_inv key cbs rest (fold ask qs st)"
  by (induction qs arbitrary: st) (simp_all add: ask_res_inv)

lemma call_res_inv:
  "res_inv key cbs (cb # rest) st \<Longrightarrow> res_inv key cbs rest (st\<lparr>if_done := if_done st @ [(key, cb, x)]\<rparr>)"
  by (auto simp: res_inv_def key_inv_def open_inv_def per_key)

lemma drop_res_inv:
  "res_inv key cbs rest st \<Longrightarrow> res_inv key cbs [] (st\<lparr>if_done := if_done st @ map (\<lambda>c. (key, c, None)) rest\<rparr>)"
  by (auto simp: res_inv_def key_inv_def open_inv_def per_key filter_map o_def)

lemma call_each_inv: "res_inv key cbs rest st \<Longrightarrow> res_inv key cbs [] (call_each effect key args rest st)"
proof (induction rest arbitrary: st)
  case (Cons cb rest)
  have "res_inv key cbs rest (fold ask (fst (effect cb)) (st\<lparr>if_done := if_done st @ [(key, cb, Some args)]\<rparr>))"
    by (intro asks_res_inv call_res_inv Cons.prems)
  then show ?case using Cons.IH drop_res_inv by (auto simp: Let_def)
qed simp

lemma run_res_inv:
  assumes "res_inv key cbs cbs st" "if_reqs st key = Some cbs"
  shows "inflight_inv (run_res effect key args st)"
proof -
  let ?st = "call_each effect key args cbs st"
  have inv: "res_inv key cbs [] ?st" by (rule call_each_inv [OF assms(1)])
  then obtain new where new: "if_reqs ?st key = Some (cbs @ new)" "asked_for key ?st = done_for key ?st @ new"
    by (auto simp: res_inv_def)
  show ?thesis
  proof (cases "new = []")
    case True
    then have "run_res effect key args st = ?st\<lparr>if_reqs := (if_reqs ?st)(key := None)\<rparr>"
      using new assms(2) by (simp add: run_res_def Let_def)
    then show ?thesis using inv new True
      by (auto simp: res_inv_def inflight_inv_def key_inv_def open_inv_def per_key)
  next
    case False
    then have "run_res effect key args st =
        ?st\<lparr>if_reqs := (if_reqs ?st)(key \<mapsto> new), if_ticks := if_ticks ?st @ [(key, args)]\<rparr>"
      using new assms(2) by (simp add: run_res_def Let_def)
    then show ?thesis using inv new False
      by (auto simp: res_inv_def inflight_inv_def key_inv_def open_inv_def per_key)
  qed
qed

lemma filter_responder:
  "distinct (map fst xs) \<Longrightarrow> map_of xs r = Some k \<Longrightarrow>
    length (filter (\<lambda>(_, k'). k' = j) xs) =
      length (filter (\<lambda>(_, k'). k' = j) (filter (\<lambda>(r', _). r' \<noteq> r) xs)) + (if j = k then 1 else 0)"
proof (induction xs)
  case (Cons x xs)
  obtain r' k' where x: "x = (r', k')" by (cases x)
  show ?case
  proof (cases "r' = r")
    case True
    then have "r \<notin> fst ` set xs" using Cons(2) x by simp
    then have "filter (\<lambda>(r', _). r' \<noteq> r) xs = xs" by (force simp: filter_id_conv)
    with True Cons x show ?thesis by auto
  next
    case False
    with Cons x show ?thesis by auto
  qed
qed simp

lemma begin_res_inv:
  assumes inv: "inflight_inv st" and reqs: "if_reqs st' = if_reqs st" "if_asked st' = if_asked st" "if_done st' = if_done st"
    and opens: "open_inv st'" and come: "\<And>k. to_come k st = to_come k st' + (if k = key then 1 else 0)"
  obtains cbs where "if_reqs st' key = Some cbs" "res_inv key cbs cbs st'"
proof -
  have keys: "key_inv k st" for k using inv by (simp add: inflight_inv_def)
  have "to_come key st \<noteq> 0" using come [of key] by simp
  then obtain cbs where cbs: "if_reqs st key = Some cbs"
    using keys [of key] by (auto simp: key_inv_def split: if_splits)
  have "to_come key st' = 0" using keys [of key] cbs come [of key] by (simp add: key_inv_def)
  moreover have "asked_for key st' = done_for key st' @ cbs"
    using keys [of key] cbs reqs by (simp add: key_inv_def per_key)
  moreover have "key_inv k st'" if "k \<noteq> key" for k
    using keys [of k] come [of k] that reqs by (simp add: key_inv_def asked_for_def done_for_def waiting_def)
  ultimately have "res_inv key cbs cbs st'" using cbs reqs opens by (simp add: res_inv_def)
  with cbs reqs that show thesis by simp
qed

lemma respond_inv: "inflight_inv st \<Longrightarrow> inflight_inv (respond effect r args st)"
proof (cases "map_of (if_open st) r")
  case (Some key)
  assume inv: "inflight_inv st"
  let ?st = "st\<lparr>if_open := filter (\<lambda>(r', _). r' \<noteq> r) (if_open st)\<rparr>"
  have dist: "distinct (map fst (if_open st))" using inv by (simp add: inflight_inv_def open_inv_def)
  have come: "to_come k st = to_come k ?st + (if k = key then 1 else 0)" for k
    using filter_responder [OF dist Some, of k] by (simp add: to_come_def)
  have opens: "open_inv ?st" using inv dist
    by (auto simp: inflight_inv_def open_inv_def distinct_map inj_on_def)
  obtain cbs where "if_reqs ?st key = Some cbs" "res_inv key cbs cbs ?st"
    by (rule begin_res_inv [OF inv _ _ _ opens come]) simp_all
  then have "inflight_inv (run_res effect key args ?st)" by (intro run_res_inv)
  then show ?thesis using Some by (simp add: respond_def)
qed (simp add: respond_def)

lemma run_tick_inv: "inflight_inv st \<Longrightarrow> inflight_inv (run_tick effect st)"
proof (cases "if_ticks st")
  case (Cons t ticks)
  assume inv: "inflight_inv st"
  obtain key args where t: "t = (key, args)" by (cases t)
  let ?st = "st\<lparr>if_ticks := ticks\<rparr>"
  have come: "to_come k st = to_come k ?st + (if k = key then 1 else 0)" for k
    using Cons t by (simp add: to_come_def)
  have opens: "open_inv ?st" using inv by (simp add: inflight_inv_def open_inv_def)
  obtain cbs where "if_reqs ?st key = Some cbs" "res_inv key cbs cbs ?st"
    by (rule begin_res_inv [OF inv _ _ _ opens come]) simp_all
  then have "inflight_inv (run_res effect key args ?st)" by (intro run_res_inv)
  then show ?thesis using Cons t by (simp add: run_tick_def)
qed (simp add: run_tick_def)

lemma inflight_run_inv: "inflight_run effect st \<Longrightarrow> inflight_inv st"
proof (induction rule: inflight_run.induct)
  case start
  show ?case by (simp add: inflight_inv_def key_inv_def open_inv_def per_key inflight_init_def)
qed (simp_all add: ask_inv respond_inv run_tick_inv)

text \<open>What is done is only added to, and with \<open>None\<close> only after a callback that throws.\<close>

definition none_lost :: "('k, 'c, 'a) inflight \<Rightarrow> bool" where
  "none_lost st = list_all (\<lambda>(_, _, x). x \<noteq> None) (if_done st)"

lemma ask_none_lost [simp]: "none_lost (ask q st) = none_lost st"
  by (cases q; cases "if_reqs st (fst q)") (simp_all add: none_lost_def ask_def Let_def)

lemma asks_none_lost [simp]: "none_lost (fold ask qs st) = none_lost st"
  by (induction qs arbitrary: st) simp_all

lemma call_each_none_lost: "\<forall>c. \<not> snd (effect c) \<Longrightarrow> none_lost st \<Longrightarrow> none_lost (call_each effect key args cbs st)"
proof (induction cbs arbitrary: st)
  case (Cons cb cbs)
  have "none_lost (st\<lparr>if_done := if_done st @ [(key, cb, Some args)]\<rparr>)" using Cons.prems(2) by (simp add: none_lost_def)
  with Cons show ?case by (simp add: Let_def)
qed simp

lemma run_res_none_lost: "\<forall>c. \<not> snd (effect c) \<Longrightarrow> none_lost st \<Longrightarrow> none_lost (run_res effect key args st)"
  using call_each_none_lost [of effect st key args]
  by (auto simp: run_res_def Let_def none_lost_def split: option.split)

lemma inflight_run_none_lost: "inflight_run effect st \<Longrightarrow> \<forall>c. \<not> snd (effect c) \<Longrightarrow> none_lost st"
proof (induction rule: inflight_run.induct)
  case (responds st r args)
  then have "none_lost (st\<lparr>if_open := filter (\<lambda>(r', _). r' \<noteq> r) (if_open st)\<rparr>)" by (simp add: none_lost_def)
  from run_res_none_lost [OF responds(3) this] responds show ?case by (simp add: respond_def split: option.split)
next
  case (ticks st)
  then have "none_lost (st\<lparr>if_ticks := tl (if_ticks st)\<rparr>)" by (simp add: none_lost_def)
  from run_res_none_lost [OF ticks(3) this] ticks show ?case
    by (cases "if_ticks st") (auto simp: run_tick_def)
next
  case start
  show ?case by (simp add: none_lost_def inflight_init_def)
qed simp

text \<open>
  C16. However requests, responses and turns interleave, the callbacks asked for a key are dealt with
  once each, in the order of asking, and the others wait; while some wait, exactly one response for
  the key is to come, an open responder or a turn put off; and if no callback throws, none is
  dropped.
\<close>

theorem inflight_answers_once:
  assumes "inflight_run effect st"
  shows "asked_for k st = done_for k st @ waiting k st
    \<and> to_come k st = (if waiting k st = [] then 0 else 1)
    \<and> ((\<forall>c. \<not> snd (effect c)) \<longrightarrow> none_lost st)"
proof -
  have "key_inv k st" using inflight_run_inv [OF assms] by (simp add: inflight_inv_def)
  moreover have "waiting k st = [] \<longleftrightarrow> if_reqs st k = None"
    using calculation by (auto simp: key_inv_def waiting_def split: option.splits)
  ultimately show ?thesis using inflight_run_none_lost [OF assms] by (simp add: key_inv_def)
qed

lemma inflight_answers_once_witness:
  "\<exists>st :: (nat, nat, nat) inflight. inflight_run (\<lambda>c. (if c = 0 then [(7, 2)] else [], False)) st
    \<and> done_for 7 st = [0, 1] \<and> waiting 7 st = [2] \<and> to_come 7 st = 1 \<and> none_lost st"
proof -
  let ?e = "\<lambda>c :: nat. (if c = 0 then [(7 :: nat, 2 :: nat)] else [], False)"
  let ?st = "respond ?e 0 (5 :: nat) (ask (7, 1) (ask (7, 0) inflight_init))"
  have run: "inflight_run ?e ?st" by (intro inflight_run.intros)
  have "done_for 7 ?st = [0, 1]" "waiting 7 ?st = [2]"
    by (simp_all add: respond_def run_res_def ask_def inflight_init_def done_for_def waiting_def Let_def)
  with inflight_answers_once [OF run, of 7] run show ?thesis by (intro exI [of _ ?st]) simp
qed

end
