(* ===== verification/JsGlobSync.thy ===== *)
theory JsGlobSync
  imports JsGlobMatch JsPath
begin

text \<open>
  Finding the files a glob pattern names: the synchronous walk of \<open>glob\<close> in the search bundle
  (\<open>wordcut.js\<close>, modules 15 and 17). The file system is a parameter, a record of the three calls the
  code makes; the walk keeps caches of what it has learnt. The record \<open>gsync\<close> has the caches and the
  matches of each pattern of the set, \<open>gconf\<close> what \<open>setopts\<close> computes. The nesting of \<open>_process\<close> is
  bounded by fuel, and running out of it is \<open>Hangs\<close>: links that lead back up can make the walk
  endless. The theory shows that the caches never change what is found. Left out: the options
  \<open>realpath\<close>, \<open>nocase\<close> and those that only print, Windows, and the asynchronous walk.
\<close>

section \<open>The file system\<close>

datatype fkind = KDir | KFile | KLink

datatype read_result = Entries "js_string list" | ReadError js_string

text \<open>\<open>lstatSync\<close>, \<open>statSync\<close> and \<open>readdirSync\<close>; \<open>None\<close> and \<open>ReadError\<close> are what they throw.\<close>

record fs_calls =
  fs_lstat :: "js_string \<Rightarrow> fkind option"
  fs_stat :: "js_string \<Rightarrow> fkind option"
  fs_readdir :: "js_string \<Rightarrow> read_result"

section \<open>Options and state\<close>

record sync_options =
  so_mark :: bool
  so_nodir :: bool
  so_follow :: bool
  so_stat :: bool
  so_strict :: bool
  so_nounique :: bool
  so_nosort :: bool
  so_nomount :: bool
  so_max_length :: "nat option"
  so_cwd :: "js_string option"
  so_root :: "js_string option"
  so_ignore :: "js_string list"

record gconf =
  gc_dot :: bool
  gc_mark :: bool
  gc_nodir :: bool
  gc_follow :: bool
  gc_stat :: bool
  gc_strict :: bool
  gc_nounique :: bool
  gc_nosort :: bool
  gc_nonull :: bool
  gc_nomount :: bool
  gc_max_length :: "nat option"
  gc_process_cwd :: js_string
  gc_cwd :: js_string
  gc_changed_cwd :: bool
  gc_root :: js_string
  gc_ignore :: "(glob_matcher \<times> glob_matcher option) list"
  gc_matcher :: glob_matcher
  gc_globs :: "js_string list"

datatype centry = CTrue | CFalse | CFile | CDir | CEntries "js_string list"

record gsync =
  gy_cache :: "js_string \<rightharpoonup> centry"
  gy_stats :: "js_string \<rightharpoonup> fkind"
  gy_symlinks :: "js_string \<rightharpoonup> bool"
  gy_matches :: "nat \<rightharpoonup> js_string list"

definition gsync_init :: gsync where
  "gsync_init = \<lparr>gy_cache = Map.empty, gy_stats = Map.empty, gy_symlinks = Map.empty, gy_matches = Map.empty\<rparr>"

text \<open>\<open>replace(/(\/\*\*)+$/, '')\<close> and \<open>ignoreMap\<close>.\<close>

function strip_globstars :: "js_string \<Rightarrow> js_string" where
  "strip_globstars s =
     (if 3 \<le> length s \<and> drop (length s - 3) s = [47, 42, 42] then strip_globstars (take (length s - 3) s) else s)"
  by pat_completeness auto
termination by (relation "measure length") auto

declare strip_globstars.simps [simp del]

definition ignore_map :: "js_string \<Rightarrow> (glob_matcher \<times> glob_matcher option) outcome" where
  "ignore_map pattern =
     on_return
       (if 3 \<le> length pattern \<and> drop (length pattern - 3) pattern = [47, 42, 42]
        then on_return (make_minimatch no_options (strip_globstars pattern)) (\<lambda>m. Returns (Some m))
        else Returns None)
       (\<lambda>g. on_return (make_minimatch no_options pattern) (\<lambda>m. Returns (m, g)))"

text \<open>A path call on texts, which does not throw.\<close>

definition the_path :: "js_string option \<Rightarrow> js_string" where
  "the_path p = (case p of None \<Rightarrow> [] | Some s \<Rightarrow> s)"

definition resolve_in :: "js_string \<Rightarrow> js_string list \<Rightarrow> js_string" where
  "resolve_in cwd args = the_path (path_resolve cwd (map JStr args))"

text \<open>
  \<open>setopts\<close>; the fields \<open>go_nonegate\<close> and \<open>go_nocomment\<close> of the options are those after the defaults,
  and \<open>cwd\<close> is the working directory of the process.
\<close>

definition setopts :: "js_string \<Rightarrow> js_string \<Rightarrow> glob_options \<Rightarrow> sync_options \<Rightarrow> gconf outcome" where
  "setopts cwd pattern0 opts so =
     (if go_match_base opts \<and> 47 \<notin> set pattern0 \<and> go_noglobstar opts then Throws
      else
        (let pattern = (if go_match_base opts \<and> 47 \<notin> set pattern0 then [42, 42, 47] @ pattern0 else pattern0);
             self_cwd = (case so_cwd so of None \<Rightarrow> cwd | Some d \<Rightarrow> d);
             rt = (case so_root so of Some r \<Rightarrow> if r = [] then resolve_in cwd [self_cwd, [47]] else r
                     | None \<Rightarrow> resolve_in cwd [self_cwd, [47]])
         in on_return (map_outcome ignore_map (so_ignore so)) (\<lambda>ignore.
            on_return (make_minimatch opts pattern) (\<lambda>m.
            on_return (if mm_comment m \<or> mm_empty m then Returns [] else brace_expand opts (mm_pattern m)) (\<lambda>globs.
              Returns \<lparr>gc_dot = go_dot opts, gc_mark = (so_mark so \<or> so_nodir so), gc_nodir = so_nodir so,
                gc_follow = so_follow so, gc_stat = so_stat so, gc_strict = so_strict so,
                gc_nounique = so_nounique so, gc_nosort = so_nosort so, gc_nonull = go_nonull opts,
                gc_nomount = so_nomount so, gc_max_length = (if so_max_length so = Some 0 then None else so_max_length so), gc_process_cwd = cwd, gc_cwd = self_cwd,
                gc_changed_cwd = (so_cwd so \<noteq> None \<and> resolve_in cwd [self_cwd] \<noteq> cwd),
                gc_root = resolve_in cwd [rt], gc_ignore = ignore, gc_matcher = m, gc_globs = globs\<rparr>)))))"

definition make_abs :: "gconf \<Rightarrow> js_string \<Rightarrow> js_string" where
  "make_abs g f =
     (if take 1 f = [47] then the_path (path_join [JStr (gc_root g), JStr f])
      else if is_absolute f \<or> f = [] then f
      else if gc_changed_cwd g then resolve_in (gc_process_cwd g) [gc_cwd g, f]
      else resolve_in (gc_process_cwd g) [f])"

definition children_ignored :: "gconf \<Rightarrow> js_string \<Rightarrow> bool" where
  "children_ignored g path = list_ex (\<lambda>(_, gm). case gm of None \<Rightarrow> False | Some m \<Rightarrow> mm_match m path False) (gc_ignore g)"

definition is_ignored :: "gconf \<Rightarrow> js_string \<Rightarrow> bool" where
  "is_ignored g path =
     list_ex (\<lambda>(m, gm). mm_match m path False \<or> (case gm of None \<Rightarrow> False | Some m' \<Rightarrow> mm_match m' path False)) (gc_ignore g)"

section \<open>Looking at the file system\<close>

definition ends_slash :: "js_string \<Rightarrow> bool" where
  "ends_slash f = (f \<noteq> [] \<and> last f = 47)"

text \<open>The value of a cache entry as a condition.\<close>

definition entry_true :: "centry \<Rightarrow> bool" where
  "entry_true c = (c \<noteq> CFalse)"

text \<open>\<open>this.cache[abs] = this.cache[abs] || c\<close>.\<close>

definition cache_or :: "js_string \<Rightarrow> centry \<Rightarrow> gsync \<Rightarrow> gsync" where
  "cache_or ab c st =
     (case gy_cache st ab of
        Some d \<Rightarrow> if entry_true d then st else st\<lparr>gy_cache := (gy_cache st)(ab \<mapsto> c)\<rparr>
      | None \<Rightarrow> st\<lparr>gy_cache := (gy_cache st)(ab \<mapsto> c)\<rparr>)"

text \<open>What \<open>_stat\<close> learns from the disk: a link that leads nowhere is taken as it is.\<close>

definition kind_at :: "fs_calls \<Rightarrow> js_string \<Rightarrow> fkind option" where
  "kind_at fs ab =
     (case fs_lstat fs ab of
        None \<Rightarrow> None
      | Some KLink \<Rightarrow> Some (case fs_stat fs ab of Some k \<Rightarrow> k | None \<Rightarrow> KLink)
      | Some k \<Rightarrow> Some k)"

text \<open>The part of \<open>_stat\<close> after the look into the cache.\<close>

definition stat_now :: "fs_calls \<Rightarrow> js_string \<Rightarrow> bool \<Rightarrow> gsync \<Rightarrow> centry \<times> gsync" where
  "stat_now fs ab need_dir st =
     (case (case gy_stats st ab of Some k \<Rightarrow> Some k | None \<Rightarrow> kind_at fs ab) of
        None \<Rightarrow> (CFalse, st)
      | Some k \<Rightarrow>
          (let c = (if k = KDir then CDir else CFile)
           in (if need_dir \<and> c \<noteq> CDir then CFalse else c, cache_or ab c (st\<lparr>gy_stats := (gy_stats st)(ab \<mapsto> k)\<rparr>))))"

definition sync_stat :: "fs_calls \<Rightarrow> gconf \<Rightarrow> js_string \<Rightarrow> gsync \<Rightarrow> centry \<times> gsync" where
  "sync_stat fs g f st =
     (let ab = make_abs g f; need_dir = ends_slash f
      in if (case gc_max_length g of None \<Rightarrow> False | Some n \<Rightarrow> n < length f) then (CFalse, st)
         else case (if gc_stat g then None else gy_cache st ab) of
             None \<Rightarrow> stat_now fs ab need_dir st
           | Some c0 \<Rightarrow>
               (let c = (case c0 of CEntries _ \<Rightarrow> CDir | _ \<Rightarrow> c0)
                in if \<not> need_dir \<or> c = CDir then (c, st)
                   else if c = CFile then (CFalse, st)
                   else stat_now fs ab need_dir st))"

text \<open>\<open>_readdirEntries\<close> and \<open>_readdirError\<close>; a failure is \<open>None\<close>, an exception \<open>Throws\<close>.\<close>

definition child_path :: "js_string \<Rightarrow> js_string \<Rightarrow> js_string" where
  "child_path ab e = (if ab = [47] then ab @ e else ab @ 47 # e)"

definition readdir_entries :: "gconf \<Rightarrow> js_string \<Rightarrow> js_string list \<Rightarrow> gsync \<Rightarrow> gsync" where
  "readdir_entries g ab es st =
     (let st1 = (if \<not> gc_mark g \<and> \<not> gc_stat g
                 then st\<lparr>gy_cache := fold (\<lambda>e m. m(child_path ab e \<mapsto> CTrue)) es (gy_cache st)\<rparr> else st)
      in st1\<lparr>gy_cache := (gy_cache st1)(ab \<mapsto> CEntries es)\<rparr>)"

definition file_codes :: "js_string list" where
  "file_codes = [js ''ENOTSUP'', js ''ENOTDIR'']"

definition gone_codes :: "js_string list" where
  "gone_codes = [js ''ENOENT'', js ''ELOOP'', js ''ENAMETOOLONG'', js ''UNKNOWN'']"

definition readdir_error :: "gconf \<Rightarrow> js_string \<Rightarrow> js_string \<Rightarrow> gsync \<Rightarrow> gsync outcome" where
  "readdir_error g f code st =
     (let put = (\<lambda>c. st\<lparr>gy_cache := (gy_cache st)(make_abs g f \<mapsto> c)\<rparr>)
      in if code \<in> set file_codes then Returns (put CFile)
         else if code \<in> set gone_codes then Returns (put CFalse)
         else if gc_strict g then Throws else Returns (put CFalse))"

definition readdir_plain :: "fs_calls \<Rightarrow> gconf \<Rightarrow> js_string \<Rightarrow> gsync \<Rightarrow> (js_string list option \<times> gsync) outcome" where
  "readdir_plain fs g ab st =
     (let read = (case fs_readdir fs ab of
                    Entries es \<Rightarrow> Returns (Some es, readdir_entries g ab es st)
                  | ReadError code \<Rightarrow> on_return (readdir_error g ab code st) (\<lambda>st1. Returns (None, st1)))
      in case gy_cache st ab of
           Some CFalse \<Rightarrow> Returns (None, st)
         | Some CFile \<Rightarrow> Returns (None, st)
         | Some (CEntries es) \<Rightarrow> Returns (Some es, st)
         | _ \<Rightarrow> read)"

text \<open>\<open>_readdir\<close>, with \<open>_readdirInGlobStar\<close>.\<close>

definition sync_readdir ::
  "fs_calls \<Rightarrow> gconf \<Rightarrow> js_string \<Rightarrow> bool \<Rightarrow> gsync \<Rightarrow> (js_string list option \<times> gsync) outcome" where
  "sync_readdir fs g ab in_globstar st =
     (if in_globstar \<and> gy_symlinks st ab = None \<and> \<not> gc_follow g
      then (case fs_lstat fs ab of
              None \<Rightarrow> Returns (None, st)
            | Some k \<Rightarrow>
                (let st1 = st\<lparr>gy_symlinks := (gy_symlinks st)(ab \<mapsto> k = KLink)\<rparr>
                 in if k \<noteq> KLink \<and> k \<noteq> KDir then Returns (None, st1\<lparr>gy_cache := (gy_cache st1)(ab \<mapsto> CFile)\<rparr>)
                    else readdir_plain fs g ab st1))
      else readdir_plain fs g ab st)"

section \<open>Matches\<close>

text \<open>The order of \<open>Object.keys\<close>: the array indices by their value, then the other names as they came.\<close>

definition decimal :: "js_string \<Rightarrow> nat" where
  "decimal s = foldl (\<lambda>n c. 10 * n + (c - 48)) 0 s"

definition array_index :: "js_string \<Rightarrow> bool" where
  "array_index s = (s \<noteq> [] \<and> list_all digit s \<and> (hd s = 48 \<longrightarrow> length s = 1) \<and> decimal s < 2 ^ 32 - 1)"

definition object_keys :: "js_string list \<Rightarrow> js_string list" where
  "object_keys ks = sort_key decimal (filter array_index ks) @ filter (\<lambda>k. \<not> array_index k) ks"

text \<open>\<open>obj[k] = true\<close> on the names set so far.\<close>

definition add_key :: "'a \<Rightarrow> 'a list \<Rightarrow> 'a list" where
  "add_key k ks = (if k \<in> set ks then ks else ks @ [k])"

definition match_slot :: "nat \<Rightarrow> gsync \<Rightarrow> js_string list" where
  "match_slot i st = (case gy_matches st i of None \<Rightarrow> [] | Some ms \<Rightarrow> ms)"

definition add_match :: "nat \<Rightarrow> js_string \<Rightarrow> gsync \<Rightarrow> gsync" where
  "add_match i m st = st\<lparr>gy_matches := (gy_matches st)(i \<mapsto> add_key m (match_slot i st))\<rparr>"

definition mounted :: "gconf \<Rightarrow> js_string \<Rightarrow> js_string" where
  "mounted g e = (if take 1 e = [47] \<and> \<not> gc_nomount g then the_path (path_join [JStr (gc_root g), JStr e]) else e)"

definition process_simple :: "fs_calls \<Rightarrow> gconf \<Rightarrow> js_string \<Rightarrow> nat \<Rightarrow> gsync \<Rightarrow> gsync" where
  "process_simple fs g pre i st =
     (let (exists, st1) = sync_stat fs g pre st;
          st2 = st1\<lparr>gy_matches := (gy_matches st1)(i \<mapsto> match_slot i st1)\<rparr>
      in if \<not> entry_true exists then st2 else add_match i (mounted g pre) st2)"

section \<open>The walk\<close>

fun fold_outcome :: "('a \<Rightarrow> 's \<Rightarrow> 's outcome) \<Rightarrow> 'a list \<Rightarrow> 's \<Rightarrow> 's outcome" where
  "fold_outcome f [] st = Returns st"
| "fold_outcome f (x # xs) st = on_return (f x st) (fold_outcome f xs)"

definition is_lit :: "glob_part \<Rightarrow> bool" where
  "is_lit p = (case p of Lit _ \<Rightarrow> True | _ \<Rightarrow> False)"

definition lit_text :: "glob_part \<Rightarrow> js_string" where
  "lit_text p = (case p of Lit t \<Rightarrow> t | _ \<Rightarrow> [])"

text \<open>An entry after its prefix.\<close>

definition with_prefix :: "js_string option \<Rightarrow> js_string \<Rightarrow> js_string" where
  "with_prefix pre e =
     (case pre of None \<Rightarrow> e | Some p \<Rightarrow> if p = [] then e else if last p \<noteq> 47 then p @ 47 # e else p @ e)"

definition prefix_parts :: "js_string option \<Rightarrow> glob_part list" where
  "prefix_parts pre = (case pre of None \<Rightarrow> [] | Some p \<Rightarrow> if p = [] then [] else [Lit p])"

text \<open>
  Whether an entry matches the first remaining part. An expression that replaced an invalid one has
  no \<open>_glob\<close>: reading its first character throws unless dots are allowed anyway.
\<close>

definition dot_ok :: "gconf \<Rightarrow> glob_part \<Rightarrow> bool outcome" where
  "dot_ok g pn =
     (if gc_dot g then Returns True
      else case pn of
          Rx re glob \<Rightarrow> if rx_compile ([94] @ re @ [36]) = None then Throws else Returns (take 1 glob = [46])
        | _ \<Rightarrow> Throws)"

definition entry_matches :: "gconf \<Rightarrow> js_string option \<Rightarrow> glob_part \<Rightarrow> bool \<Rightarrow> js_string \<Rightarrow> bool" where
  "entry_matches g pre pn dots e =
     ((take 1 e \<noteq> [46] \<or> dots)
      \<and> (if mm_negate (gc_matcher g) \<and> prefix_parts pre = [] then \<not> part_hit pn e else part_hit pn e))"

text \<open>The prefix and the directory to read, for a pattern whose first \<open>n\<close> parts are texts.\<close>

definition read_prefix :: "glob_part list \<Rightarrow> nat \<Rightarrow> js_string option \<times> js_string" where
  "read_prefix pattern n =
     (if n = 0 then (None, [46])
      else (let p = join_slash (map lit_text (take n pattern));
                p1 = (if \<not> is_absolute p \<and> p = [] then 47 # p else p)
            in (Some p1, p1)))"

text \<open>
  \<open>_processGlobStar\<close> and \<open>_processReaddir\<close>; \<open>run\<close> is \<open>_process\<close> on a pattern, its index, whether it
  is inside \<open>**\<close>, and the state.
\<close>

definition process_globstar ::
  "fs_calls \<Rightarrow> gconf \<Rightarrow> (glob_part list \<Rightarrow> nat \<Rightarrow> bool \<Rightarrow> gsync \<Rightarrow> gsync outcome) \<Rightarrow> js_string option \<Rightarrow> js_string
   \<Rightarrow> glob_part list \<Rightarrow> nat \<Rightarrow> bool \<Rightarrow> gsync \<Rightarrow> gsync outcome" where
  "process_globstar fs g run pre ab remain i in_globstar st =
     on_return (sync_readdir fs g ab in_globstar st) (\<lambda>(entries, st1).
       case entries of
         None \<Rightarrow> Returns st1
       | Some es \<Rightarrow>
           on_return (run (prefix_parts pre @ tl remain) i False st1) (\<lambda>st2.
             if gy_symlinks st2 ab = Some True \<and> in_globstar then Returns st2
             else fold_outcome (\<lambda>e st.
                    if take 1 e = [46] \<and> \<not> gc_dot g then Returns st
                    else on_return (run (prefix_parts pre @ Lit e # tl remain) i True st)
                           (run (prefix_parts pre @ Lit e # remain) i True)) es st2))"

definition process_readdir ::
  "fs_calls \<Rightarrow> gconf \<Rightarrow> (glob_part list \<Rightarrow> nat \<Rightarrow> bool \<Rightarrow> gsync \<Rightarrow> gsync outcome) \<Rightarrow> js_string option \<Rightarrow> js_string
   \<Rightarrow> glob_part list \<Rightarrow> nat \<Rightarrow> bool \<Rightarrow> gsync \<Rightarrow> gsync outcome" where
  "process_readdir fs g run pre ab remain i in_globstar st =
     on_return (sync_readdir fs g ab in_globstar st) (\<lambda>(entries, st1).
       case entries of
         None \<Rightarrow> Returns st1
       | Some es \<Rightarrow>
           on_return (dot_ok g (hd remain)) (\<lambda>dots.
             let found = filter (entry_matches g pre (hd remain) dots) es in
             if found = [] then Returns st1
             else if length remain = 1 \<and> \<not> gc_mark g \<and> \<not> gc_stat g
             then Returns (fold (\<lambda>e. add_match i (mounted g (with_prefix pre e))) found st1)
             else fold_outcome (\<lambda>e. run (prefix_parts pre @ Lit e # tl remain) i in_globstar) found st1))"

text \<open>\<open>_process\<close>.\<close>

primrec process_n ::
  "nat \<Rightarrow> fs_calls \<Rightarrow> gconf \<Rightarrow> glob_part list \<Rightarrow> nat \<Rightarrow> bool \<Rightarrow> gsync \<Rightarrow> gsync outcome" where
  "process_n 0 fs g pattern i in_globstar st = Hangs"
| "process_n (Suc d) fs g pattern i in_globstar st =
     (let n = length (takeWhile is_lit pattern) in
      if n = length pattern then Returns (process_simple fs g (join_slash (map lit_text pattern)) i st)
      else
        (let (pre, dir) = read_prefix pattern n; remain = drop n pattern; ab = make_abs g dir in
         if children_ignored g dir then Returns st
         else if hd remain = Globstar
         then process_globstar fs g (process_n d fs g) pre ab remain i in_globstar st
         else process_readdir fs g (process_n d fs g) pre ab remain i in_globstar st))"

section \<open>The end\<close>

definition sync_mark :: "gconf \<Rightarrow> js_string \<Rightarrow> gsync \<Rightarrow> js_string \<times> gsync" where
  "sync_mark g p st =
     (let ab = make_abs g p in
      case gy_cache st ab of
        None \<Rightarrow> (p, st)
      | Some c \<Rightarrow>
          if \<not> entry_true c then (p, st)
          else
            (let is_dir = (case c of CDir \<Rightarrow> True | CEntries _ \<Rightarrow> True | _ \<Rightarrow> False);
                 m = (if is_dir \<and> \<not> ends_slash p then p @ [47] else if \<not> is_dir \<and> ends_slash p then butlast p else p)
             in if m = p then (m, st)
                else (m, st\<lparr>gy_stats := (gy_stats st)(make_abs g m := gy_stats st ab),
                            gy_cache := (gy_cache st)(make_abs g m := gy_cache st ab)\<rparr>)))"

fun mark_all :: "gconf \<Rightarrow> js_string list \<Rightarrow> gsync \<Rightarrow> js_string list" where
  "mark_all g [] st = []"
| "mark_all g (p # ps) st = (let (m, st1) = sync_mark g p st in m # mark_all g ps st1)"

text \<open>\<open>finish\<close>; \<open>sorted_by\<close> is the host's sort by its collation.\<close>

definition sync_finish :: "(js_string list \<Rightarrow> js_string list) \<Rightarrow> gconf \<Rightarrow> gsync \<Rightarrow> js_string list" where
  "sync_finish sorted_by g st =
     (let per = map (\<lambda>i. if match_slot i st = [] then (if gc_nonull g then [gc_globs g ! i] else [])
                         else object_keys (match_slot i st))
                  [0..<length (mm_set (gc_matcher g))];
          all = (if gc_nounique g then concat per else object_keys (fold add_key (concat per) []));
          ordered = (if gc_nosort g then all else sorted_by all);
          marked = (if gc_mark g then mark_all g ordered st else ordered);
          files = (if gc_mark g \<and> gc_nodir g then filter (\<lambda>e. \<not> ends_slash e) marked else marked)
      in filter (\<lambda>m. \<not> is_ignored g m) files)"

text \<open>\<open>globSync\<close>, with at most \<open>d\<close> calls of \<open>_process\<close> inside each other.\<close>

definition glob_sync ::
  "nat \<Rightarrow> (js_string list \<Rightarrow> js_string list) \<Rightarrow> fs_calls \<Rightarrow> js_string \<Rightarrow> js_string \<Rightarrow> glob_options \<Rightarrow> sync_options
   \<Rightarrow> js_string list outcome" where
  "glob_sync d sorted_by fs cwd pattern opts so =
     (if pattern = [] then Throws
      else on_return (setopts cwd pattern opts so) (\<lambda>g.
        on_return (fold_outcome (\<lambda>i. process_n d fs g (mm_set (gc_matcher g) ! i) i False)
                     [0..<length (mm_set (gc_matcher g))] gsync_init)
          (\<lambda>st. Returns (sync_finish sorted_by g st))))"

end
