(* ===== verification/JsGlobWalk.thy ===== *)
theory JsGlobWalk
  imports JsGlobSync
begin

text \<open>
  The walk of \<open>JsGlobSync\<close> against one that remembers nothing. The caches hold what the file system
  says and nothing else; on a file system that does not change meanwhile, every search gives the
  outcome of the walk without caches, and it ends when the directories are of bounded depth.
\<close>

section \<open>Absolute paths\<close>

lemma normalize_rooted:
  assumes "is_absolute r"
  shows "path_normalize (47 # 47 # r) = path_normalize r"
proof -
  have "r \<noteq> []" using is_absolute_nonempty [OF assms] .
  moreover have "normal_parts (47 # 47 # r) = normal_parts r"
    using assms by (simp add: normal_parts_def is_absolute_def)
  ultimately show ?thesis using assms by (simp add: path_normalize_eq is_absolute_def)
qed

lemma normalize_clean:
  assumes "clean ps"
  shows "path_normalize (47 # join_slash ps) = 47 # join_slash ps"
proof -
  have comps: "list_all component ps" using assms by (simp add: clean_def)
  have "path_parts (47 # join_slash ps) = ps" using parts_join [OF comps] by simp
  moreover have "walk ps = (0, ps)" using foldl_clean [OF assms, of 0 "[]"] by (simp add: walk_def)
  ultimately have "normal_parts (47 # join_slash ps) = ps" by (simp add: normal_parts_def is_absolute_def)
  then show ?thesis using join_last [OF comps] by (auto simp: path_normalize_eq is_absolute_def)
qed

lemma join_root: "is_absolute f \<Longrightarrow> the_path (path_join [JStr [47], JStr f]) = path_normalize (47 # 47 # f)"
  using is_absolute_nonempty [of f] by (simp add: path_join_def the_path_def)

lemma resolve_clean:
  assumes "is_absolute cwd" "args = [f] \<or> (\<exists>d. args = [d, f] \<and> \<not> is_absolute f)"
  obtains ps where "clean ps" "resolve_in cwd args = 47 # join_slash ps"
  using assms(2)
proof (elim disjE exE conjE)
  assume "args = [f]"
  then show ?thesis
    using that [OF walk_clean [OF full_components]] resolve_one [OF assms(1), of f] by (simp add: resolve_in_def the_path_def)
next
  fix d assume d: "args = [d, f]" "\<not> is_absolute f"
  have "list_all component (full_parts cwd d @ path_parts f)"
    using full_components path_parts_components by simp
  from that [OF walk_clean [OF this]] show ?thesis
    using resolve_two [OF assms(1) d(2), of d] d(1) by (simp add: resolve_in_def the_path_def)
qed

lemma make_abs_idem:
  assumes "gc_root g = [47]" "is_absolute (gc_process_cwd g)"
  shows "make_abs g (make_abs g f) = make_abs g f"
proof -
  have fixed: "make_abs g r = r" if "is_absolute r" "path_normalize r = r" for r
    using that assms(1) join_root [of r] normalize_rooted [of r] by (simp add: make_abs_def is_absolute_def)
  show ?thesis
  proof (cases "is_absolute f \<or> f = []")
    case True
    then show ?thesis
    proof
      assume f: "is_absolute f"
      then have eq: "make_abs g f = path_normalize (47 # 47 # f)"
        using assms(1) join_root by (simp add: make_abs_def is_absolute_def)
      have "is_absolute (path_normalize (47 # 47 # f))"
        using normalize_facts(1) [of "47 # 47 # f"] by (simp add: is_absolute_def)
      then show ?thesis unfolding eq by (rule fixed [OF _ path_normalize_idem])
    next
      assume "f = []"
      then show ?thesis by (simp add: make_abs_def)
    qed
  next
    case False
    define args where "args = (if gc_changed_cwd g then [gc_cwd g, f] else [f])"
    have eq: "make_abs g f = resolve_in (gc_process_cwd g) args"
      using False by (auto simp: make_abs_def is_absolute_def args_def)
    obtain ps where ps: "clean ps" "resolve_in (gc_process_cwd g) args = 47 # join_slash ps"
      by (rule resolve_clean [OF assms(2), of args f]) (use False in \<open>auto simp: args_def\<close>)
    show ?thesis unfolding eq ps(2)
      by (rule fixed) (use normalize_clean [OF ps(1)] in \<open>simp_all add: is_absolute_def\<close>)
  qed
qed

section \<open>What the file system promises\<close>

text \<open>
  A file system that stands still: a name that does not exist cannot be read, nor can a file; a
  directory lists names that exist, or fails in some unusual way, which the strict mode throws; and
  no link leads nowhere.
\<close>

definition settled :: "fs_calls \<Rightarrow> bool \<Rightarrow> bool" where
  "settled fs strict = (\<forall>p. case kind_at fs p of
       None \<Rightarrow> \<exists>c \<in> set gone_codes. fs_readdir fs p = ReadError c
     | Some KFile \<Rightarrow> \<exists>c \<in> set file_codes. fs_readdir fs p = ReadError c
     | Some KDir \<Rightarrow> (case fs_readdir fs p of
           Entries es \<Rightarrow> \<forall>e \<in> set es. kind_at fs (child_path p e) \<noteq> None
         | ReadError c \<Rightarrow> strict \<and> c \<notin> set file_codes \<and> c \<notin> set gone_codes)
     | Some KLink \<Rightarrow> False)"

lemma settled_codes: "c \<in> set file_codes \<Longrightarrow> c \<notin> set gone_codes"
  by (auto simp: file_codes_def gone_codes_def)

lemma settled_gone:
  assumes "settled fs strict" "kind_at fs p = None"
  obtains c where "c \<in> set gone_codes" "c \<notin> set file_codes" "fs_readdir fs p = ReadError c"
  using spec [OF assms(1) [unfolded settled_def], of p] assms(2) settled_codes by auto

lemma settled_file:
  assumes "settled fs strict" "kind_at fs p = Some KFile"
  obtains c where "c \<in> set file_codes" "fs_readdir fs p = ReadError c"
  using spec [OF assms(1) [unfolded settled_def], of p] assms(2) by auto

lemma settled_no_link: "settled fs strict \<Longrightarrow> kind_at fs p \<noteq> Some KLink"
  unfolding settled_def by (drule spec [of _ p]) (auto split: option.splits fkind.splits)

lemma settled_entries:
  assumes "settled fs strict" "fs_readdir fs p = Entries es"
  shows "kind_at fs p = Some KDir \<and> (\<forall>e \<in> set es. kind_at fs (child_path p e) \<noteq> None)"
  using spec [OF assms(1) [unfolded settled_def], of p] assms(2)
  by (auto split: option.splits fkind.splits)

lemma settled_error:
  assumes "settled fs strict" "fs_readdir fs p = ReadError c"
  shows "(c \<in> set file_codes \<longrightarrow> kind_at fs p = Some KFile) \<and> (c \<in> set gone_codes \<longrightarrow> kind_at fs p = None)
    \<and> (c \<notin> set file_codes \<longrightarrow> c \<notin> set gone_codes \<longrightarrow> strict)"
  using spec [OF assms(1) [unfolded settled_def], of p] assms(2) settled_codes [of c]
  by (auto split: option.splits fkind.splits)

section \<open>The walk without caches\<close>

definition found_at :: "fs_calls \<Rightarrow> gconf \<Rightarrow> js_string \<Rightarrow> bool" where
  "found_at fs g f =
     (\<not> (case gc_max_length g of None \<Rightarrow> False | Some n \<Rightarrow> n < length f)
      \<and> (case kind_at fs (make_abs g f) of None \<Rightarrow> False | Some k \<Rightarrow> ends_slash f \<longrightarrow> k = KDir))"

definition list_dir :: "fs_calls \<Rightarrow> gconf \<Rightarrow> js_string \<Rightarrow> js_string list option outcome" where
  "list_dir fs g p =
     (case fs_readdir fs p of
        Entries es \<Rightarrow> Returns (Some es)
      | ReadError c \<Rightarrow>
          if gc_strict g \<and> c \<notin> set file_codes \<and> c \<notin> set gone_codes then Throws else Returns None)"

definition then_list :: "'a list outcome \<Rightarrow> 'a list outcome \<Rightarrow> 'a list outcome" where
  "then_list r r' = on_return r (\<lambda>xs. on_return r' (\<lambda>ys. Returns (xs @ ys)))"

fun concat_outcome :: "('a \<Rightarrow> 'b list outcome) \<Rightarrow> 'a list \<Rightarrow> 'b list outcome" where
  "concat_outcome f [] = Returns []"
| "concat_outcome f (x # xs) = then_list (f x) (concat_outcome f xs)"

primrec find_n :: "nat \<Rightarrow> fs_calls \<Rightarrow> gconf \<Rightarrow> glob_part list \<Rightarrow> bool \<Rightarrow> js_string list outcome" where
  "find_n 0 fs g pattern in_globstar = Hangs"
| "find_n (Suc d) fs g pattern in_globstar =
     (let n = length (takeWhile is_lit pattern) in
      if n = length pattern then
        (let f = join_slash (map lit_text pattern) in Returns (if found_at fs g f then [mounted g f] else []))
      else
        (let (pre, dir) = read_prefix pattern n; remain = drop n pattern; ab = make_abs g dir in
         if children_ignored g dir then Returns []
         else
           on_return (list_dir fs g ab) (\<lambda>entries.
             case entries of
               None \<Rightarrow> Returns []
             | Some es \<Rightarrow>
                 if hd remain = Globstar then
                   then_list (find_n d fs g (prefix_parts pre @ tl remain) False)
                     (if in_globstar \<and> \<not> gc_follow g \<and> fs_lstat fs ab = Some KLink then Returns []
                      else concat_outcome (\<lambda>e.
                             if take 1 e = [46] \<and> \<not> gc_dot g then Returns []
                             else then_list (find_n d fs g (prefix_parts pre @ Lit e # tl remain) True)
                                    (find_n d fs g (prefix_parts pre @ Lit e # remain) True)) es)
                 else
                   on_return (dot_ok g (hd remain)) (\<lambda>dots.
                     let found = filter (entry_matches g pre (hd remain) dots) es in
                     if length remain = 1 \<and> \<not> gc_mark g \<and> \<not> gc_stat g
                     then Returns (map (\<lambda>e. mounted g (with_prefix pre e)) found)
                     else concat_outcome (\<lambda>e. find_n d fs g (prefix_parts pre @ Lit e # tl remain) in_globstar)
                            found))))"

section \<open>Caches that tell the truth\<close>

fun entry_ok :: "fs_calls \<Rightarrow> js_string \<Rightarrow> centry \<Rightarrow> bool" where
  "entry_ok fs p CTrue = (kind_at fs p \<noteq> None)"
| "entry_ok fs p CFalse = (kind_at fs p = None)"
| "entry_ok fs p CFile = (kind_at fs p = Some KFile)"
| "entry_ok fs p CDir = (kind_at fs p = Some KDir)"
| "entry_ok fs p (CEntries es) = (fs_readdir fs p = Entries es)"

definition coherent :: "fs_calls \<Rightarrow> gconf \<Rightarrow> gsync \<Rightarrow> bool" where
  "coherent fs g st =
     ((\<forall>p c. gy_cache st p = Some c \<longrightarrow> entry_ok fs p c)
      \<and> (\<forall>p k. gy_stats st p = Some k \<longrightarrow> kind_at fs p = Some k)
      \<and> (\<forall>p b. gy_symlinks st p = Some b \<longrightarrow> \<not> gc_follow g \<and> b = (fs_lstat fs p = Some KLink)))"

lemma coherent_init: "coherent fs g gsync_init"
  by (simp add: coherent_def gsync_init_def)

lemma coherent_cache: "coherent fs g st \<Longrightarrow> entry_ok fs p c \<Longrightarrow> coherent fs g (st\<lparr>gy_cache := (gy_cache st)(p \<mapsto> c)\<rparr>)"
  by (simp add: coherent_def)

lemma coherent_entry: "coherent fs g st \<Longrightarrow> gy_cache st p = Some c \<Longrightarrow> entry_ok fs p c"
  by (simp add: coherent_def)

lemma coherent_matches [simp]: "coherent fs g (st\<lparr>gy_matches := m\<rparr>) = coherent fs g st"
  by (simp add: coherent_def)

text \<open>What a step may change besides the matches.\<close>

definition moved :: "fs_calls \<Rightarrow> gconf \<Rightarrow> gsync \<Rightarrow> gsync \<Rightarrow> bool" where
  "moved fs g st st' =
     (coherent fs g st' \<and> gy_matches st' = gy_matches st \<and> dom (gy_symlinks st) \<subseteq> dom (gy_symlinks st'))"

lemma moved_refl: "coherent fs g st \<Longrightarrow> moved fs g st st"
  by (simp add: moved_def)

lemma moved_cache: "coherent fs g st \<Longrightarrow> entry_ok fs p c \<Longrightarrow> moved fs g st (st\<lparr>gy_cache := (gy_cache st)(p \<mapsto> c)\<rparr>)"
  by (simp add: moved_def coherent_cache)

lemma moved_cache_or: "coherent fs g st \<Longrightarrow> entry_ok fs p c \<Longrightarrow> moved fs g st (cache_or p c st)"
  by (auto simp: cache_or_def moved_refl moved_cache split: option.splits)

lemma stat_now_ok:
  assumes "settled fs strict" "coherent fs g st" "stat_now fs p need st = (c, st')"
  shows "entry_true c = (case kind_at fs p of None \<Rightarrow> False | Some k \<Rightarrow> need \<longrightarrow> k = KDir) \<and> moved fs g st st'"
proof -
  have stat: "(case gy_stats st p of Some k \<Rightarrow> Some k | None \<Rightarrow> kind_at fs p) = kind_at fs p"
    using assms(2) by (auto simp: coherent_def split: option.splits)
  show ?thesis
  proof (cases "kind_at fs p")
    case None
    then show ?thesis using assms(2,3) by (simp add: stat_now_def stat entry_true_def moved_refl)
  next
    case (Some k)
    define st1 where "st1 = st\<lparr>gy_stats := (gy_stats st)(p \<mapsto> k)\<rparr>"
    define d where "d = (if k = KDir then CDir else CFile)"
    have "entry_ok fs p d" using Some settled_no_link [OF assms(1), of p] by (cases k) (auto simp: d_def)
    moreover have "coherent fs g st1" using assms(2) Some by (simp add: coherent_def st1_def)
    ultimately have "moved fs g st1 (cache_or p d st1)" by (simp add: moved_cache_or)
    moreover have "st' = cache_or p d st1" "c = (if need \<and> d \<noteq> CDir then CFalse else d)"
      using assms(3) by (auto simp: stat_now_def stat Some st1_def d_def Let_def split: if_splits)
    ultimately show ?thesis by (auto simp: Some entry_true_def d_def moved_def st1_def)
  qed
qed

lemma sync_stat_ok:
  assumes "settled fs (gc_strict g)" "coherent fs g st" "sync_stat fs g f st = (c, st')"
  shows "entry_true c = found_at fs g f \<and> moved fs g st st'"
proof (cases "case gc_max_length g of None \<Rightarrow> False | Some n \<Rightarrow> n < length f")
  case True
  then show ?thesis using assms(2,3) by (simp add: sync_stat_def found_at_def entry_true_def moved_refl)
next
  case False
  note now = stat_now_ok [OF assms(1,2), of "make_abs g f" "ends_slash f"]
  show ?thesis
  proof (cases "if gc_stat g then None else gy_cache st (make_abs g f)")
    case None
    then show ?thesis using now assms(3) False by (simp add: sync_stat_def found_at_def Let_def)
  next
    case (Some c0)
    then have ok: "entry_ok fs (make_abs g f) c0" using assms(2) by (auto dest: coherent_entry split: if_splits)
    then show ?thesis
      using Some now [of c st'] assms(2,3) False settled_entries [OF assms(1), of "make_abs g f"]
      by (cases c0) (auto simp: sync_stat_def found_at_def Let_def entry_true_def moved_refl split: if_splits)
  qed
qed

lemma coherent_entries:
  assumes "settled fs strict" "coherent fs g st" "fs_readdir fs p = Entries es"
  shows "moved fs g st (readdir_entries g p es st)"
proof -
  have ok: "\<forall>e \<in> set es. kind_at fs (child_path p e) \<noteq> None" using settled_entries [OF assms(1,3)] by simp
  have folded: "fold (\<lambda>e m. m(child_path p e \<mapsto> CTrue)) es m q = Some c \<Longrightarrow> entry_ok fs q c"
    if "\<forall>q c. m q = Some c \<longrightarrow> entry_ok fs q c" for m q c
    using that ok by (induction es arbitrary: m) (auto split: if_splits)
  have "coherent fs g (st\<lparr>gy_cache := fold (\<lambda>e m. m(child_path p e \<mapsto> CTrue)) es (gy_cache st)\<rparr>)"
    using assms(2) folded [of "gy_cache st"] unfolding coherent_def by simp
  from coherent_cache [OF this, of p "CEntries es"] show ?thesis
    using assms(2,3) by (simp add: readdir_entries_def moved_def Let_def coherent_cache)
qed

lemma readdir_plain_ok:
  assumes "settled fs (gc_strict g)" "coherent fs g st" "make_abs g p = p"
  shows "case list_dir fs g p of
      Returns es \<Rightarrow> \<exists>st'. readdir_plain fs g p st = Returns (es, st') \<and> moved fs g st st'
    | Throws \<Rightarrow> readdir_plain fs g p st = Throws
    | Hangs \<Rightarrow> False"
proof (cases "gy_cache st p = Some CFalse \<or> gy_cache st p = Some CFile \<or> (\<exists>es. gy_cache st p = Some (CEntries es))")
  case True
  then show ?thesis
  proof (elim disjE exE)
    assume c: "gy_cache st p = Some CFalse"
    then have "kind_at fs p = None" using coherent_entry [OF assms(2) c] by simp
    from settled_gone [OF assms(1) this] obtain code where "code \<in> set gone_codes" "fs_readdir fs p = ReadError code"
      by blast
    then show ?thesis using c assms(2) by (simp add: readdir_plain_def list_dir_def moved_refl)
  next
    assume c: "gy_cache st p = Some CFile"
    then have "kind_at fs p = Some KFile" using coherent_entry [OF assms(2) c] by simp
    from settled_file [OF assms(1) this] obtain code where "code \<in> set file_codes" "fs_readdir fs p = ReadError code"
      by blast
    then show ?thesis using c assms(2) by (simp add: readdir_plain_def list_dir_def moved_refl)
  next
    fix es assume c: "gy_cache st p = Some (CEntries es)"
    then have "fs_readdir fs p = Entries es" using coherent_entry [OF assms(2) c] by simp
    then show ?thesis using c assms(2) by (simp add: readdir_plain_def list_dir_def moved_refl)
  qed
next
  case False
  then have plain: "readdir_plain fs g p st = (case fs_readdir fs p of
      Entries es \<Rightarrow> Returns (Some es, readdir_entries g p es st)
    | ReadError code \<Rightarrow> on_return (readdir_error g p code st) (\<lambda>st1. Returns (None, st1)))"
    by (auto simp: readdir_plain_def Let_def split: option.splits centry.splits)
  show ?thesis
  proof (cases "fs_readdir fs p")
    case (Entries es)
    then show ?thesis using plain coherent_entries [OF assms(1,2) Entries] by (simp add: list_dir_def)
  next
    case (ReadError code)
    note err = settled_error [OF assms(1) ReadError]
    show ?thesis using plain ReadError err moved_cache [OF assms(2)]
      by (auto simp: list_dir_def readdir_error_def assms(3) Let_def)
  qed
qed

text \<open>A name without a kind, or of a file, has no entries.\<close>

lemma list_dir_none:
  assumes "settled fs strict" "kind_at fs p = None \<or> kind_at fs p = Some KFile"
  shows "list_dir fs g p = Returns None"
  using assms(2)
proof
  assume "kind_at fs p = None"
  from settled_gone [OF assms(1) this] obtain c where "c \<in> set gone_codes" "fs_readdir fs p = ReadError c" by blast
  then show ?thesis by (simp add: list_dir_def)
next
  assume "kind_at fs p = Some KFile"
  from settled_file [OF assms(1) this] obtain c where "c \<in> set file_codes" "fs_readdir fs p = ReadError c" by blast
  then show ?thesis by (simp add: list_dir_def)
qed

lemma sync_readdir_ok:
  assumes "settled fs (gc_strict g)" "coherent fs g st" "make_abs g p = p"
  shows "case list_dir fs g p of
      Returns es \<Rightarrow> \<exists>st'. sync_readdir fs g p in_globstar st = Returns (es, st') \<and> moved fs g st st'
        \<and> (es \<noteq> None \<and> in_globstar \<and> \<not> gc_follow g \<longrightarrow> p \<in> dom (gy_symlinks st'))
    | Throws \<Rightarrow> sync_readdir fs g p in_globstar st = Throws
    | Hangs \<Rightarrow> False"
proof (cases "in_globstar \<and> gy_symlinks st p = None \<and> \<not> gc_follow g")
  case False
  then have eq: "sync_readdir fs g p in_globstar st = readdir_plain fs g p st" by (auto simp: sync_readdir_def)
  show ?thesis using readdir_plain_ok [OF assms] False unfolding eq
    by (auto simp: moved_def subset_eq domIff split: outcome.splits)
next
  case True
  show ?thesis
  proof (cases "fs_lstat fs p")
    case None
    then have "kind_at fs p = None" by (simp add: kind_at_def)
    then show ?thesis using True None assms(2) list_dir_none [OF assms(1)] by (simp add: sync_readdir_def moved_refl)
  next
    case (Some k)
    define st1 where "st1 = st\<lparr>gy_symlinks := (gy_symlinks st)(p \<mapsto> k = KLink)\<rparr>"
    have coh: "coherent fs g st1" using assms(2) Some True by (auto simp: coherent_def st1_def)
    have st1: "gy_matches st1 = gy_matches st" "dom (gy_symlinks st1) = insert p (dom (gy_symlinks st))"
      by (auto simp: st1_def)
    show ?thesis
    proof (cases "k = KFile")
      case filed: True
      then have "kind_at fs p = Some KFile" using Some by (simp add: kind_at_def)
      then show ?thesis using True Some filed list_dir_none [OF assms(1), of p g] coherent_cache [OF coh, of p CFile]
        by (auto simp: sync_readdir_def moved_def st1_def)
    next
      case False
      then have eq: "sync_readdir fs g p in_globstar st = readdir_plain fs g p st1"
        using True Some by (cases k) (simp_all add: sync_readdir_def st1_def)
      show ?thesis using readdir_plain_ok [OF assms(1) coh assms(3)] st1 unfolding eq
        by (auto simp: moved_def split: outcome.splits)
    qed
  qed
qed

section \<open>The walk with caches follows the walk without\<close>

text \<open>A run that adds the matches \<open>ms\<close> of pattern \<open>i\<close>.\<close>

definition adds :: "fs_calls \<Rightarrow> gconf \<Rightarrow> nat \<Rightarrow> gsync \<Rightarrow> js_string list \<Rightarrow> gsync \<Rightarrow> bool" where
  "adds fs g i st ms st' =
     (coherent fs g st' \<and> match_slot i st' = fold add_key ms (match_slot i st)
      \<and> (\<forall>j. j \<noteq> i \<longrightarrow> gy_matches st' j = gy_matches st j) \<and> dom (gy_symlinks st) \<subseteq> dom (gy_symlinks st'))"

lemma adds_refl: "coherent fs g st \<Longrightarrow> adds fs g i st [] st"
  by (simp add: adds_def)

lemma adds_trans: "adds fs g i st ms st1 \<Longrightarrow> adds fs g i st1 ms' st2 \<Longrightarrow> adds fs g i st (ms @ ms') st2"
  by (auto simp: adds_def subset_eq domIff)

lemma adds_coherent: "adds fs g i st ms st' \<Longrightarrow> coherent fs g st'"
  by (simp add: adds_def)

lemma moved_adds: "moved fs g st st' \<Longrightarrow> adds fs g i st [] st'"
  by (simp add: moved_def adds_def match_slot_def)

lemma adds_match: "coherent fs g st \<Longrightarrow> adds fs g i st [m] (add_match i m st)"
  by (simp add: adds_def add_match_def match_slot_def)

lemma adds_matches:
  "coherent fs g st \<Longrightarrow> adds fs g i st (map f es) (fold (\<lambda>e. add_match i (f e)) es st)"
proof (induction es arbitrary: st)
  case (Cons e es)
  have "adds fs g i st [f e] (add_match i (f e) st)" using Cons.prems by (rule adds_match)
  from adds_trans [OF this Cons.IH [OF adds_coherent [OF this]]] show ?case by simp
qed (simp add: adds_refl)

text \<open>The outcome \<open>out\<close> from \<open>st\<close> adds what \<open>r\<close> lists, or fails as \<open>r\<close> does.\<close>

definition follows :: "fs_calls \<Rightarrow> gconf \<Rightarrow> nat \<Rightarrow> gsync \<Rightarrow> js_string list outcome \<Rightarrow> gsync outcome \<Rightarrow> bool" where
  "follows fs g i st r out =
     (case r of Returns ms \<Rightarrow> \<exists>st'. out = Returns st' \<and> adds fs g i st ms st' | Throws \<Rightarrow> out = Throws | Hangs \<Rightarrow> out = Hangs)"

lemma follows_return: "adds fs g i st ms st' \<Longrightarrow> follows fs g i st (Returns ms) (Returns st')"
  by (simp add: follows_def)

lemma follows_then:
  assumes "follows fs g i st r out"
    and "\<And>ms st1. r = Returns ms \<Longrightarrow> adds fs g i st ms st1 \<Longrightarrow> follows fs g i st1 r' (k st1)"
  shows "follows fs g i st (then_list r r') (on_return out k)"
proof (cases r)
  case (Returns ms)
  then obtain st1 where st1: "out = Returns st1" "adds fs g i st ms st1" using assms(1) by (auto simp: follows_def)
  from assms(2) [OF Returns st1(2)] show ?thesis
    by (cases r') (auto simp: then_list_def Returns st1(1) follows_def intro: adds_trans [OF st1(2)])
qed (use assms(1) in \<open>simp_all add: follows_def then_list_def\<close>)

lemma follows_after:
  assumes "adds fs g i st [] st1" "follows fs g i st1 r out"
  shows "follows fs g i st r out"
  using assms(2) adds_trans [OF assms(1)] by (auto simp: follows_def split: outcome.splits)

lemma follows_fold:
  assumes "coherent fs g st"
    and "\<And>e st. e \<in> set es \<Longrightarrow> coherent fs g st \<Longrightarrow> follows fs g i st (r e) (f e st)"
  shows "follows fs g i st (concat_outcome r es) (fold_outcome f es st)"
  using assms
proof (induction es arbitrary: st)
  case Nil
  then show ?case by (simp add: follows_return adds_refl)
next
  case (Cons e es)
  show ?case unfolding concat_outcome.simps fold_outcome.simps
    by (rule follows_then [OF Cons.prems(2)]) (use Cons in \<open>auto dest: adds_coherent\<close>)
qed

lemma process_simple_adds:
  assumes "settled fs (gc_strict g)" "coherent fs g st"
  shows "adds fs g i st (if found_at fs g f then [mounted g f] else []) (process_simple fs g f i st)"
proof -
  obtain c st1 where stat: "sync_stat fs g f st = (c, st1)" by (cases "sync_stat fs g f st")
  note ok = sync_stat_ok [OF assms stat]
  define st2 where "st2 = st1\<lparr>gy_matches := (gy_matches st1)(i \<mapsto> match_slot i st1)\<rparr>"
  have st1: "adds fs g i st [] st1" using ok moved_adds by blast
  have "adds fs g i st1 [] st2" using adds_coherent [OF st1] by (simp add: adds_def st2_def match_slot_def)
  with st1 have st2: "adds fs g i st [] st2" using adds_trans by fastforce
  show ?thesis
  proof (cases "found_at fs g f")
    case True
    then have "process_simple fs g f i st = add_match i (mounted g f) st2"
      using ok by (simp add: process_simple_def stat st2_def Let_def)
    then show ?thesis using True adds_trans [OF st2 adds_match [OF adds_coherent [OF st2]]] by simp
  next
    case False
    then have "process_simple fs g f i st = st2" using ok by (simp add: process_simple_def stat st2_def Let_def)
    then show ?thesis using False st2 by simp
  qed
qed

text \<open>After a directory was listed inside \<open>**\<close>, the code knows whether it is a link.\<close>

lemma link_known:
  assumes "coherent fs g st" "in_globstar \<longrightarrow> \<not> gc_follow g \<longrightarrow> p \<in> dom (gy_symlinks st)"
  shows "(gy_symlinks st p = Some True \<and> in_globstar) = (in_globstar \<and> \<not> gc_follow g \<and> fs_lstat fs p = Some KLink)"
  using assms unfolding coherent_def by (auto simp: domIff)

lemma process_follows:
  assumes "settled fs (gc_strict g)" "\<And>p. make_abs g (make_abs g p) = make_abs g p" "coherent fs g st"
  shows "follows fs g i st (find_n d fs g pattern in_globstar) (process_n d fs g pattern i in_globstar st)"
  using assms(3)
proof (induction d arbitrary: pattern in_globstar st)
  case 0
  then show ?case by (simp add: follows_def)
next
  case (Suc d)
  define n where "n = length (takeWhile is_lit pattern)"
  obtain pre dir where rp: "read_prefix pattern n = (pre, dir)" by (cases "read_prefix pattern n")
  define remain where "remain = drop n pattern"
  define ab where "ab = make_abs g dir"
  note step = find_n.simps(2) process_n.simps(2) Let_def n_def [symmetric] rp prod.case ab_def [symmetric] remain_def [symmetric]
  consider (simple) "n = length pattern" | (ignored) "n \<noteq> length pattern" "children_ignored g dir"
    | (read) "n \<noteq> length pattern" "\<not> children_ignored g dir" by blast
  then show ?case
  proof cases
    case simple
    show ?thesis unfolding step using simple process_simple_adds [OF assms(1) Suc.prems] by (simp add: follows_return)
  next
    case ignored
    show ?thesis unfolding step using ignored adds_refl [OF Suc.prems] by (simp add: follows_return)
  next
    case read
    have fixed: "make_abs g ab = ab" unfolding ab_def by (rule assms(2))
    note sr = sync_readdir_ok [OF assms(1) Suc.prems fixed, of in_globstar]
    show ?thesis
    proof (cases "list_dir fs g ab")
      case Throws
      then show ?thesis unfolding step process_globstar_def process_readdir_def using sr read by (simp add: follows_def)
    next
      case Hangs
      then show ?thesis using sr by simp
    next
      case (Returns entries)
      with sr have "\<exists>st'. sync_readdir fs g ab in_globstar st = Returns (entries, st') \<and> moved fs g st st'
          \<and> (entries \<noteq> None \<and> in_globstar \<and> \<not> gc_follow g \<longrightarrow> ab \<in> dom (gy_symlinks st'))"
        by (simp only: outcome.case)
      then obtain st1 where st1: "sync_readdir fs g ab in_globstar st = Returns (entries, st1)" "moved fs g st st1"
        and links: "entries \<noteq> None \<and> in_globstar \<and> \<not> gc_follow g \<longrightarrow> ab \<in> dom (gy_symlinks st1)"
        by (elim exE conjE) (rule that)
      have coh: "coherent fs g st1" using st1(2) by (simp add: moved_def)
      show ?thesis
      proof (cases entries)
        case None
        then show ?thesis unfolding step process_globstar_def process_readdir_def using read Returns st1 moved_adds by (simp add: follows_return)
      next
        case (Some es)
        note eqs = Returns st1(1) Some on_return.simps prod.case option.case if_not_P [OF read(1)] if_not_P [OF read(2)]
        show ?thesis
        proof (cases "hd remain = Globstar")
          case True
          show ?thesis unfolding step eqs if_P [OF True] process_globstar_def eqs
            apply (rule follows_after [OF moved_adds [OF st1(2)]])
            apply (rule follows_then [OF Suc.IH [OF coh]])
            subgoal premises prems for ms st2
            proof -
              note coh2 = adds_coherent [OF prems(2)]
              have "in_globstar \<longrightarrow> \<not> gc_follow g \<longrightarrow> ab \<in> dom (gy_symlinks st2)"
                using links Some prems(2) by (auto simp: adds_def)
              note link = link_known [OF coh2 this]
              show ?thesis unfolding link
                by (auto intro!: follows_return adds_refl [OF coh2] follows_fold [OF coh2] follows_then [OF Suc.IH]
                    Suc.IH dest: adds_coherent simp: adds_refl)
            qed
            done
        next
          case False
          show ?thesis unfolding step eqs if_not_P [OF False] process_readdir_def eqs
            apply (rule follows_after [OF moved_adds [OF st1(2)]])
            apply (cases "dot_ok g (hd remain)")
            apply (auto simp: follows_def [of _ _ _ _ Throws] follows_def [of _ _ _ _ Hangs]
                intro!: follows_return adds_refl [OF coh] adds_matches [OF coh] follows_fold [OF coh] Suc.IH)
            done
        qed
      qed
    qed
  qed
qed

section \<open>Searches\<close>

lemma map_outcome_nth: "map_outcome (\<lambda>i. f (xs ! i)) [0..<length xs] = map_outcome f xs"
proof -
  have "map_outcome (\<lambda>i. f (k i)) js = map_outcome f (map k js)" for k and js :: "nat list"
    by (induction js) auto
  from this [of "(!) xs" "[0..<length xs]"] show ?thesis by (simp add: map_nth)
qed

lemma on_return_Returns: "on_return r k = Returns x \<longleftrightarrow> (\<exists>y. r = Returns y \<and> k y = Returns x)"
  by (cases r) auto

lemma resolve_root: "resolve_in cwd [d, [47]] = [47]" "resolve_in cwd [[47]] = [47]"
  by (simp_all add: resolve_in_def the_path_def path_resolve_def is_absolute_def resolve_loop_absolute normalize_array_def
      path_parts_def)

lemma setopts_facts:
  assumes "setopts cwd pattern opts so = Returns g"
  shows "gc_process_cwd g = cwd" "gc_mark g = (so_mark so \<or> so_nodir so)" "gc_strict g = so_strict so"
    "gc_nodir g = so_nodir so" "so_root so = None \<Longrightarrow> gc_root g = [47]"
  using assms unfolding setopts_def Let_def
  by (auto simp: on_return_Returns resolve_root split: if_splits)

text \<open>The end of a search without caches.\<close>

definition finish_found :: "(js_string list \<Rightarrow> js_string list) \<Rightarrow> gconf \<Rightarrow> js_string list list \<Rightarrow> js_string list" where
  "finish_found sorted_by g mss =
     (let per = map (\<lambda>(ms, lit). if ms = [] then (if gc_nonull g then [lit] else []) else object_keys (fold add_key ms []))
                  (zip mss (map (\<lambda>i. gc_globs g ! i) [0..<length mss]));
          every = (if gc_nounique g then concat per else object_keys (fold add_key (concat per) []))
      in filter (\<lambda>m. \<not> is_ignored g m) (if gc_nosort g then every else sorted_by every))"

definition glob_uncached ::
  "nat \<Rightarrow> (js_string list \<Rightarrow> js_string list) \<Rightarrow> fs_calls \<Rightarrow> js_string \<Rightarrow> js_string \<Rightarrow> glob_options \<Rightarrow> sync_options
   \<Rightarrow> js_string list outcome" where
  "glob_uncached d sorted_by fs cwd pattern opts so =
     (if pattern = [] then Throws
      else on_return (setopts cwd pattern opts so) (\<lambda>g.
        on_return (map_outcome (\<lambda>ps. find_n d fs g ps False) (mm_set (gc_matcher g)))
          (\<lambda>mss. Returns (finish_found sorted_by g mss))))"

lemma add_key_set: "set (fold add_key ms ks) = set ms \<union> set ks"
  by (induction ms arbitrary: ks) (auto simp: add_key_def)

lemma add_keys_empty: "fold add_key ms [] = [] \<longleftrightarrow> ms = []"
  using add_key_set [of ms "[]"] by auto

lemma fold_follows:
  assumes "settled fs (gc_strict g)" "\<And>p. make_abs g (make_abs g p) = make_abs g p"
    and "coherent fs g st" "distinct is" "\<forall>i \<in> set is. gy_matches st i = None"
  shows "case map_outcome (\<lambda>i. find_n d fs g (f i) False) is of
      Returns mss \<Rightarrow> \<exists>st'. fold_outcome (\<lambda>i. process_n d fs g (f i) i False) is st = Returns st'
        \<and> (\<forall>j. j \<notin> set is \<longrightarrow> gy_matches st' j = gy_matches st j)
        \<and> map (\<lambda>i. match_slot i st') is = map (\<lambda>ms. fold add_key ms []) mss
    | Throws \<Rightarrow> fold_outcome (\<lambda>i. process_n d fs g (f i) i False) is st = Throws
    | Hangs \<Rightarrow> fold_outcome (\<lambda>i. process_n d fs g (f i) i False) is st = Hangs"
  using assms(3-5)
proof (induction "is" arbitrary: st)
  case (Cons i js)
  note step = process_follows [OF assms(1,2) Cons.prems(1), of i d "f i" False, unfolded follows_def]
  show ?case
  proof (cases "find_n d fs g (f i) False")
    case (Returns ms)
    with step obtain st1 where run: "process_n d fs g (f i) i False st = Returns st1" and ad: "adds fs g i st ms st1"
      by auto
    have slot: "match_slot i st1 = fold add_key ms []" using ad Cons.prems(3) by (simp add: adds_def match_slot_def)
    have rest: "\<forall>j \<in> set js. gy_matches st1 j = None" using ad Cons.prems(2,3) by (auto simp: adds_def)
    note IH = Cons.IH [OF adds_coherent [OF ad] _ rest]
    show ?thesis
    proof (cases "map_outcome (\<lambda>i. find_n d fs g (f i) False) js")
      case more: (Returns mss)
      from IH Cons.prems(2) obtain st' where st': "fold_outcome (\<lambda>i. process_n d fs g (f i) i False) js st1 = Returns st'"
        "\<forall>j. j \<notin> set js \<longrightarrow> gy_matches st' j = gy_matches st1 j"
        "map (\<lambda>i. match_slot i st') js = map (\<lambda>ms. fold add_key ms []) mss"
        by (auto simp: more)
      have "match_slot i st' = fold add_key ms []" using st'(2) slot Cons.prems(2) by (simp add: match_slot_def)
      then show ?thesis using Returns more run st' ad by (auto simp: adds_def)
    qed (use Returns run IH Cons.prems(2) in auto)
  qed (use step in auto)
qed simp

lemma finish_slots:
  assumes "map (\<lambda>i. match_slot i st) [0..<length (mm_set (gc_matcher g))] = map (\<lambda>ms. fold add_key ms []) mss"
    "\<not> gc_mark g"
  shows "sync_finish sorted_by g st = finish_found sorted_by g mss"
proof -
  define n where "n = length (mm_set (gc_matcher g))"
  have len: "length mss = n" using arg_cong [OF assms(1), of length] by (simp add: n_def)
  have slot: "match_slot i st = fold add_key (mss ! i) []" if "i < n" for i
    using arg_cong [OF assms(1), of "\<lambda>xs. xs ! i"] that len by (simp add: n_def)
  have "map (\<lambda>i. if match_slot i st = [] then (if gc_nonull g then [gc_globs g ! i] else [])
                         else object_keys (match_slot i st)) [0..<n]
      = map (\<lambda>(ms, lit). if ms = [] then (if gc_nonull g then [lit] else []) else object_keys (fold add_key ms []))
          (zip mss (map (\<lambda>i. gc_globs g ! i) [0..<length mss]))" (is "?a = ?b")
    by (rule nth_equalityI) (simp_all add: len slot add_keys_empty)
  then show ?thesis using assms(2) by (simp add: sync_finish_def finish_found_def n_def Let_def)
qed

lemma glob_sync_cases:
  assumes "settled fs (so_strict so)" "is_absolute cwd" "so_root so = None"
    "setopts cwd pattern opts so = Returns g"
  shows "case map_outcome (\<lambda>ps. find_n d fs g ps False) (mm_set (gc_matcher g)) of
      Returns mss \<Rightarrow> \<exists>st. fold_outcome (\<lambda>i. process_n d fs g (mm_set (gc_matcher g) ! i) i False)
            [0..<length (mm_set (gc_matcher g))] gsync_init = Returns st
          \<and> map (\<lambda>i. match_slot i st) [0..<length (mm_set (gc_matcher g))] = map (\<lambda>ms. fold add_key ms []) mss
    | Throws \<Rightarrow> fold_outcome (\<lambda>i. process_n d fs g (mm_set (gc_matcher g) ! i) i False)
            [0..<length (mm_set (gc_matcher g))] gsync_init = Throws
    | Hangs \<Rightarrow> fold_outcome (\<lambda>i. process_n d fs g (mm_set (gc_matcher g) ! i) i False)
            [0..<length (mm_set (gc_matcher g))] gsync_init = Hangs"
proof -
  note facts = setopts_facts [OF assms(4)]
  have idem: "make_abs g (make_abs g p) = make_abs g p" for p
    by (rule make_abs_idem) (use facts assms(2,3) in simp_all)
  have settled: "settled fs (gc_strict g)" using assms(1) facts(3) by simp
  have init: "\<forall>i \<in> set [0..<length (mm_set (gc_matcher g))]. gy_matches gsync_init i = None" by (simp add: gsync_init_def)
  note run = fold_follows [OF settled idem coherent_init distinct_upt init, of d "(!) (mm_set (gc_matcher g))",
      unfolded map_outcome_nth [of "\<lambda>ps. find_n d fs g ps False"]]
  show ?thesis
    by (cases "map_outcome (\<lambda>ps. find_n d fs g ps False) (mm_set (gc_matcher g))") (use run in auto)
qed

lemma sync_is_uncached:
  assumes "settled fs (so_strict so)" "is_absolute cwd" "so_root so = None" "\<not> so_mark so" "\<not> so_nodir so"
  shows "glob_sync d sorted_by fs cwd pattern opts so = glob_uncached d sorted_by fs cwd pattern opts so"
proof (cases "setopts cwd pattern opts so")
  case (Returns g)
  have mark: "\<not> gc_mark g" using setopts_facts(2) [OF Returns] assms(4,5) by simp
  note ok = glob_sync_cases [OF assms(1-3) Returns, of d]
  show ?thesis
  proof (cases "map_outcome (\<lambda>ps. find_n d fs g ps False) (mm_set (gc_matcher g))")
    case found: (Returns mss)
    with ok obtain st where "fold_outcome (\<lambda>i. process_n d fs g (mm_set (gc_matcher g) ! i) i False)
            [0..<length (mm_set (gc_matcher g))] gsync_init = Returns st"
      and "map (\<lambda>i. match_slot i st) [0..<length (mm_set (gc_matcher g))] = map (\<lambda>ms. fold add_key ms []) mss" by auto
    from this(1) finish_slots [OF this(2) mark, of sorted_by] show ?thesis
      by (simp add: glob_sync_def glob_uncached_def Returns found)
  qed (use ok in \<open>simp_all add: glob_sync_def glob_uncached_def Returns\<close>)
qed (simp_all add: glob_sync_def glob_uncached_def)


section \<open>An example\<close>

text \<open>A disk with two directories, a link to the second, and files.\<close>

definition demo_fs :: fs_calls where
  "demo_fs = \<lparr>
     fs_lstat = (\<lambda>p. if p = js ''/w'' \<or> p = js ''/w/lib'' then Some KDir
       else if p = js ''/w/ln'' then Some KLink
       else if p = js ''/w/a.js'' \<or> p = js ''/w/lib/b.js'' \<or> p = js ''/w/ln/b.js'' then Some KFile else None),
     fs_stat = (\<lambda>p. if p = js ''/w/ln'' then Some KDir else None),
     fs_readdir = (\<lambda>p. if p = js ''/w'' then Entries [js ''a.js'', js ''lib'', js ''ln'']
       else if p = js ''/w/lib'' \<or> p = js ''/w/ln'' then Entries [js ''b.js'']
       else if p = js ''/w/a.js'' \<or> p = js ''/w/lib/b.js'' \<or> p = js ''/w/ln/b.js'' then ReadError (js ''ENOTDIR'')
       else ReadError (js ''ENOENT''))\<rparr>"

definition default_sync :: sync_options where
  "default_sync = \<lparr>so_mark = False, so_nodir = False, so_follow = False, so_stat = False, so_strict = True,
     so_nounique = False, so_nosort = False, so_nomount = False, so_max_length = None, so_cwd = None,
     so_root = None, so_ignore = []\<rparr>"

definition default_glob :: glob_options where
  "default_glob = no_options\<lparr>go_nonegate := True, go_nocomment := True\<rparr>"

lemma demo_settled: "settled demo_fs strict"
  by (simp add: settled_def kind_at_def demo_fs_def child_path_def file_codes_def gone_codes_def)


text \<open>
  The promise about links is needed: reading a link that leads nowhere as a directory hides the link
  from the patterns that come later.
\<close>

lemma dangling_link_forgotten:
  assumes "fs_lstat fs p = Some KLink" "fs_stat fs p = None" "fs_readdir fs p = ReadError (js ''ENOENT'')"
    "make_abs g f = p" "make_abs g p = p" "\<not> gc_stat g" "gc_max_length g = None" "\<not> ends_slash f"
  shows "fst (sync_stat fs g f gsync_init) = CFile"
    and "readdir_plain fs g p gsync_init = Returns (None, gsync_init\<lparr>gy_cache := [p \<mapsto> CFalse]\<rparr>)"
    and "fst (sync_stat fs g f (gsync_init\<lparr>gy_cache := [p \<mapsto> CFalse]\<rparr>)) = CFalse"
  using assms
  by (simp_all add: sync_stat_def stat_now_def kind_at_def gsync_init_def readdir_plain_def readdir_error_def
      file_codes_def gone_codes_def Let_def)

text \<open>So is the default root: below another one, the name a failed reading is filed under is another file's.\<close>

lemma other_root_refiles:
  assumes "gc_root g = js ''/r''"
  shows "make_abs g (js ''/w/x'') = js ''/r/w/x''"
  using assms by (simp add: make_abs_def path_join_def the_path_def path_normalize_def is_absolute_def
      path_parts_def normalize_array_def dot_def dotdot_def)

end
