(* ===== verification/JsGlobFind.thy ===== *)
theory JsGlobFind
  imports JsGlobWalk
begin

text \<open>
  What a synchronous search finds, and that it ends. When directories are nested to a bounded depth,
  links not counted, the calls of \<open>_process\<close> nest to a bounded depth too, links that lead back up
  included. On a file system without links a relative pattern finds exactly the names below the
  working directory that its parts describe.
\<close>

section \<open>Searches end\<close>

definition wild_parts :: "glob_part list \<Rightarrow> nat" where
  "wild_parts ps = length (filter (\<lambda>p. \<not> is_lit p) ps)"

text \<open>The directory that the name \<open>e\<close> in the directory \<open>dir\<close> is read as.\<close>

definition read_below :: "js_string \<Rightarrow> js_string \<Rightarrow> js_string \<Rightarrow> bool" where
  "read_below dir e c = (c = dir @ 47 # e \<or> dir = [46] \<and> c = (if e = [] then [47] else e))"

definition bounded_depth :: "fs_calls \<Rightarrow> gconf \<Rightarrow> (js_string \<Rightarrow> nat) \<Rightarrow> nat \<Rightarrow> bool" where
  "bounded_depth fs g height top_height =
     ((\<forall>p. height p \<le> top_height)
      \<and> (\<forall>dir es e c. fs_readdir fs (make_abs g dir) = Entries es \<longrightarrow> e \<in> set es \<longrightarrow> read_below dir e c \<longrightarrow>
           0 < height (make_abs g dir)
           \<and> (gc_follow g \<or> fs_lstat fs (make_abs g c) \<noteq> Some KLink \<longrightarrow> height (make_abs g c) < height (make_abs g dir))))"

lemma wild_simps [simp]:
  "wild_parts [] = 0" "wild_parts (p # ps) = (if is_lit p then 0 else 1) + wild_parts ps"
  "wild_parts (ps @ qs) = wild_parts ps + wild_parts qs"
  by (simp_all add: wild_parts_def)

lemma is_lit_simps [simp]: "is_lit (Lit t)" "\<not> is_lit Globstar" "lit_text (Lit t) = t"
  by (simp_all add: is_lit_def lit_text_def)

lemma prefix_parts_wild [simp]: "wild_parts (prefix_parts pre) = 0"
  by (simp add: prefix_parts_def split: option.splits)

lemma remain_facts:
  assumes "length (takeWhile is_lit pattern) \<noteq> length pattern"
  defines "remain \<equiv> drop (length (takeWhile is_lit pattern)) pattern"
  shows "remain \<noteq> []" "\<not> is_lit (hd remain)" "wild_parts remain = wild_parts pattern"
    "wild_parts pattern = Suc (wild_parts (tl remain))"
proof -
  have eq: "remain = dropWhile is_lit pattern" unfolding remain_def by (simp add: dropWhile_eq_drop)
  have "pattern = takeWhile is_lit pattern @ remain" unfolding eq by simp
  moreover have lits: "wild_parts (takeWhile is_lit pattern) = 0"
    by (auto simp: wild_parts_def filter_empty_conv dest: set_takeWhileD)
  ultimately show same: "wild_parts remain = wild_parts pattern" by (metis add_0 wild_simps(3))
  show ne: "remain \<noteq> []" unfolding remain_def using assms(1) length_takeWhile_le [of is_lit pattern] by auto
  then show hd: "\<not> is_lit (hd remain)" unfolding eq by (rule hd_dropWhile)
  show "wild_parts pattern = Suc (wild_parts (tl remain))" using same ne hd by (cases remain) auto
qed

text \<open>What is left of the depth when a pattern is processed.\<close>

definition depth_left :: "fs_calls \<Rightarrow> gconf \<Rightarrow> (js_string \<Rightarrow> nat) \<Rightarrow> glob_part list \<Rightarrow> bool \<Rightarrow> nat" where
  "depth_left fs g height pattern in_globstar =
     (let n = length (takeWhile is_lit pattern); ab = make_abs g (snd (read_prefix pattern n))
      in if n = length pattern \<or> (in_globstar \<and> \<not> gc_follow g \<and> fs_lstat fs ab = Some KLink) then 0
         else height ab)"

lemma depth_left_le: "bounded_depth fs g height h \<Longrightarrow> depth_left fs g height pattern ing \<le> h"
  by (simp add: depth_left_def bounded_depth_def Let_def)

lemma not_hangs_simps [simp]:
  "then_list r r' \<noteq> Hangs \<longleftrightarrow> r \<noteq> Hangs \<and> (\<forall>ms. r = Returns ms \<longrightarrow> r' \<noteq> Hangs)"
  by (cases r; cases r') (auto simp: then_list_def)

lemma concat_not_hangs: "(\<And>e. e \<in> set es \<Longrightarrow> r e \<noteq> Hangs) \<Longrightarrow> concat_outcome r es \<noteq> Hangs"
  by (induction es) auto

lemma read_prefix_child:
  fixes e :: js_string
  assumes "read_prefix pattern n = (pre, dir)" "\<not> is_lit (hd rest)" "rest \<noteq> []"
  defines "p' \<equiv> prefix_parts pre @ Lit e # rest"
  shows "length (takeWhile is_lit p') \<noteq> length p'"
    "\<exists>c. read_below dir e c \<and> snd (read_prefix p' (length (takeWhile is_lit p'))) = c"
proof -
  have tw: "takeWhile is_lit p' = prefix_parts pre @ [Lit e]"
    using assms(2,3) by (cases rest) (auto simp: p'_def prefix_parts_def split: option.splits)
  show "length (takeWhile is_lit p') \<noteq> length p'" unfolding tw using assms(3) by (simp add: p'_def)
  have some: "pre = Some dir \<and> dir \<noteq> [] \<or> pre = None \<and> dir = [46]"
    using assms(1) by (auto simp: read_prefix_def Let_def is_absolute_def split: if_splits)
  have len: "length (takeWhile is_lit p') = length (prefix_parts pre) + 1" by (simp add: tw)
  have "take (length (prefix_parts pre) + 1) p' = prefix_parts pre @ [Lit e]" by (simp add: p'_def)
  then show "\<exists>c. read_below dir e c \<and> snd (read_prefix p' (length (takeWhile is_lit p'))) = c"
    unfolding len using some
    by (auto simp: read_prefix_def read_below_def prefix_parts_def is_absolute_def Let_def)
qed

lemma find_ends:
  assumes "bounded_depth fs g height h"
    and "wild_parts pattern * (h + 2) + depth_left fs g height pattern in_globstar < d"
  shows "find_n d fs g pattern in_globstar \<noteq> Hangs"
  using assms(2)
proof (induction d arbitrary: pattern in_globstar)
  case (Suc d)
  define n where "n = length (takeWhile is_lit pattern)"
  obtain pre dir where rp: "read_prefix pattern n = (pre, dir)" by (cases "read_prefix pattern n")
  define remain where "remain = drop n pattern"
  define ab where "ab = make_abs g dir"
  note step = find_n.simps(2) Let_def n_def [symmetric] rp prod.case ab_def [symmetric] remain_def [symmetric]
  show ?case
  proof (cases "n = length pattern")
    case True
    show ?thesis unfolding step using True by simp
  next
    case False
    note remain = remain_facts [OF False [unfolded n_def], folded n_def, folded remain_def]
    have fewer: "find_n d fs g q ing \<noteq> Hangs" if "wild_parts q \<le> wild_parts (tl remain)" for q ing
    proof (rule Suc.IH)
      have "wild_parts q * (h + 2) \<le> wild_parts (tl remain) * (h + 2)" using that by (rule mult_le_mono1)
      then show "wild_parts q * (h + 2) + depth_left fs g height q ing < d"
        using Suc.prems remain(4) depth_left_le [OF assms(1), of q ing] by simp
    qed
    have listed: "list_dir fs g ab \<noteq> Hangs" by (simp add: list_dir_def split: read_result.splits)
    have dots: "dot_ok g (hd remain) \<noteq> Hangs" by (simp add: dot_ok_def split: glob_part.splits)
    have deeper: "find_n d fs g (prefix_parts pre @ Lit e # remain) True \<noteq> Hangs"
      if es: "list_dir fs g ab = Returns (Some es)" "e \<in> set es"
        and link: "\<not> (in_globstar \<and> \<not> gc_follow g \<and> fs_lstat fs ab = Some KLink)" for es e
    proof (rule Suc.IH)
      have entries: "fs_readdir fs ab = Entries es" using es(1) by (auto simp: list_dir_def split: read_result.splits if_splits)
      define p' where "p' = prefix_parts pre @ Lit e # remain"
      note child = read_prefix_child [OF rp remain(2,1), of e, folded p'_def]
      from child(2) obtain c where c: "read_below dir e c" "snd (read_prefix p' (length (takeWhile is_lit p'))) = c" by blast
      have bound: "0 < height ab \<and> (gc_follow g \<or> fs_lstat fs (make_abs g c) \<noteq> Some KLink \<longrightarrow> height (make_abs g c) < height ab)"
        using assms(1) entries es(2) c(1) unfolding bounded_depth_def ab_def by blast
      have "depth_left fs g height p' True < height ab"
        using bound child(1) c(2) by (auto simp: depth_left_def Let_def)
      moreover have "depth_left fs g height pattern in_globstar = height ab"
        using False link by (auto simp: depth_left_def n_def [symmetric] rp ab_def Let_def)
      ultimately show "wild_parts (prefix_parts pre @ Lit e # remain) * (h + 2)
          + depth_left fs g height (prefix_parts pre @ Lit e # remain) True < d"
        using Suc.prems remain(3) by (simp add: p'_def)
    qed
    show ?thesis
    proof (cases "children_ignored g dir")
      case True
      show ?thesis unfolding step using False True by simp
    next
      case kept: False
      show ?thesis
      proof (cases "list_dir fs g ab")
        case (Returns entries)
        show ?thesis
        proof (cases entries)
          case None
          show ?thesis unfolding step using False kept Returns None by simp
        next
          case (Some es)
          note eqs = Returns Some on_return.simps option.case if_not_P [OF False] if_not_P [OF kept]
          show ?thesis
          proof (cases "hd remain = Globstar")
            case True
            have each: "concat_outcome (\<lambda>e. if take 1 e = [46] \<and> \<not> gc_dot g then Returns []
                  else then_list (find_n d fs g (prefix_parts pre @ Lit e # tl remain) True)
                         (find_n d fs g (prefix_parts pre @ Lit e # remain) True)) es \<noteq> Hangs"
              if "\<not> (in_globstar \<and> \<not> gc_follow g \<and> fs_lstat fs ab = Some KLink)"
              by (rule concat_not_hangs) (simp add: fewer deeper [OF Returns [unfolded Some] _ that])
            show ?thesis unfolding step eqs if_P [OF True]
              by (cases "in_globstar \<and> \<not> gc_follow g \<and> fs_lstat fs ab = Some KLink") (use each in \<open>simp_all add: fewer\<close>)
          next
            case other: False
            show ?thesis unfolding step eqs if_not_P [OF other] using dots
              by (cases "dot_ok g (hd remain)") (auto intro!: fewer concat_not_hangs)
          qed
        qed
      qed (use False kept listed in \<open>simp_all add: step\<close>)
    qed
  qed
qed simp


text \<open>A disk where every name is a link back to the only directory.\<close>

definition loop_fs :: fs_calls where
  "loop_fs = \<lparr>fs_lstat = (\<lambda>p. Some KLink), fs_stat = (\<lambda>p. Some KDir), fs_readdir = (\<lambda>p. Entries [js ''up''])\<rparr>"

definition globstar_conf :: gconf where
  "globstar_conf = \<lparr>gc_dot = False, gc_mark = False, gc_nodir = False, gc_follow = False, gc_stat = False,
     gc_strict = True, gc_nounique = False, gc_nosort = False, gc_nonull = False, gc_nomount = False,
     gc_max_length = None, gc_process_cwd = js ''/w'', gc_cwd = js ''/w'', gc_changed_cwd = False, gc_root = [47],
     gc_ignore = [], gc_matcher = \<lparr>mm_options = default_glob, mm_pattern = [42, 42], mm_set = [[Globstar]],
       mm_negate = False, mm_comment = False, mm_empty = False\<rparr>, gc_globs = [[42, 42]]\<rparr>"

lemma setopts_globstar: "setopts (js ''/w'') (js ''**'') default_glob default_sync = Returns globstar_conf"
  by (simp add: setopts_def default_glob_def default_sync_def no_options_def globstar_conf_def resolve_root
      make_minimatch_def js_trim_def js_space_def in_ranges_def space_ranges_def parse_negate_def glob_set_def
      brace_expand_def split_slashes.simps parse_segment_def parse_glob_def Let_def)

lemma loop_settled: "settled loop_fs strict"
  by (simp add: settled_def loop_fs_def kind_at_def)


section \<open>What is found\<close>

definition name :: "js_string \<Rightarrow> bool" where
  "name e = (component e \<and> e \<noteq> dot \<and> e \<noteq> dotdot)"

text \<open>
  A disk whose directories can be read and list all they have, without links; the empty path names
  nothing.
\<close>

definition plain_disk :: "fs_calls \<Rightarrow> bool" where
  "plain_disk fs =
     (settled fs False \<and> kind_at fs [] = None \<and> (\<forall>p. fs_lstat fs p \<noteq> Some KLink)
      \<and> (\<forall>p es e. fs_readdir fs p = Entries es \<longrightarrow> e \<in> set es \<longrightarrow> name e)
      \<and> (\<forall>ps e. clean ps \<longrightarrow> name e \<longrightarrow> kind_at fs (47 # join_slash (ps @ [e])) \<noteq> None \<longrightarrow>
           (\<exists>es. fs_readdir fs (47 # join_slash ps) = Entries es \<and> e \<in> set es)))"

text \<open>The parts of the working directory, and the name of a path below it.\<close>

definition base_parts :: "gconf \<Rightarrow> js_string list" where
  "base_parts g = snd (walk (if gc_changed_cwd g then full_parts (gc_process_cwd g) (gc_cwd g)
     else path_parts (gc_process_cwd g)))"

definition below :: "gconf \<Rightarrow> js_string list \<Rightarrow> js_string" where
  "below g ns = 47 # join_slash (base_parts g @ ns)"

definition exists_below :: "fs_calls \<Rightarrow> gconf \<Rightarrow> js_string list \<Rightarrow> bool" where
  "exists_below fs g ns = (kind_at fs (below g ns) \<noteq> None)"

definition dir_below :: "fs_calls \<Rightarrow> gconf \<Rightarrow> js_string list \<Rightarrow> bool" where
  "dir_below fs g ns = (kind_at fs (below g ns) = Some KDir)"

text \<open>
  The paths a list of parts describes. A part takes one name; \<open>**\<close> takes any number of names that
  are not hidden, and none at the end of a path only if that is a directory.
\<close>

definition part_takes :: "gconf \<Rightarrow> glob_part \<Rightarrow> js_string \<Rightarrow> bool" where
  "part_takes g p e = (case p of
       Lit t \<Rightarrow> e = t
     | Rx re glob \<Rightarrow> (gc_dot g \<or> take 1 e \<noteq> [46] \<or> take 1 glob = [46]) \<and> part_hit p e
     | _ \<Rightarrow> False)"

fun describes :: "gconf \<Rightarrow> bool \<Rightarrow> glob_part list \<Rightarrow> js_string list \<Rightarrow> bool" where
  "describes g at_dir [] ns = (ns = [])"
| "describes g at_dir (p # ps) [] = (p = Globstar \<and> at_dir \<and> describes g at_dir ps [])"
| "describes g at_dir (p # ps) (e # ns) =
     (if p = Globstar
      then describes g at_dir ps (e # ns)
        \<or> (gc_dot g \<or> take 1 e \<noteq> [46]) \<and> (describes g at_dir ps ns \<or> describes g at_dir (p # ps) ns)
      else part_takes g p e \<and> describes g at_dir ps ns)"

text \<open>A part of a relative pattern.\<close>

definition plain_part :: "glob_part \<Rightarrow> bool" where
  "plain_part p = (case p of Lit t \<Rightarrow> name t | Globstar \<Rightarrow> True | Rx re glob \<Rightarrow> True | _ \<Rightarrow> False)"

lemma name_component: "name e \<Longrightarrow> component e"
  by (simp add: name_def)

lemma names_components: "list_all name ns \<Longrightarrow> list_all component ns"
  by (auto simp: list_all_iff name_component)

lemma names_clean: "list_all name ns \<Longrightarrow> clean ns"
  by (auto simp: clean_def list_all_iff name_def)

lemma clean_append: "clean (as @ bs) = (clean as \<and> clean bs)"
  by (auto simp: clean_def)

lemma names_walk: "list_all name ns \<Longrightarrow> snd (walk (qs @ ns)) = snd (walk qs) @ ns"
  using foldl_clean [OF names_clean] by (cases "walk qs") (simp add: walk_append)

lemma rel_facts:
  assumes "list_all name ns" "ns \<noteq> []"
  shows "join_slash ns \<noteq> []" "last (join_slash ns) \<noteq> 47" "\<not> is_absolute (join_slash ns)"
    "take 1 (join_slash ns) \<noteq> [47]"
  using join_last [OF names_components [OF assms(1)] assms(2)] join_relative [OF names_components [OF assms(1)]]
  by (auto simp: is_absolute_def)

lemma base_clean: "clean (base_parts g)"
proof -
  have "list_all component (if gc_changed_cwd g then full_parts (gc_process_cwd g) (gc_cwd g)
     else path_parts (gc_process_cwd g))" using full_components path_parts_components by simp
  then show ?thesis unfolding base_parts_def by (rule walk_clean)
qed

lemma make_abs_resolved:
  assumes "is_absolute (gc_process_cwd g)" "f \<noteq> []" "\<not> is_absolute f"
  shows "make_abs g f = 47 # join_slash (snd (walk ((if gc_changed_cwd g then full_parts (gc_process_cwd g) (gc_cwd g)
     else path_parts (gc_process_cwd g)) @ path_parts f)))"
  using assms resolve_two [OF assms(1,3), of "gc_cwd g"] resolve_one [OF assms(1), of f]
  by (auto simp: make_abs_def is_absolute_def resolve_in_def the_path_def full_parts_def)

lemma make_abs_below:
  assumes "is_absolute (gc_process_cwd g)" "list_all name ns"
  shows "make_abs g (if ns = [] then [46] else join_slash ns) = below g ns"
proof (cases "ns = []")
  case True
  have "path_parts [46] = [dot]" by (simp add: path_parts_def dot_def)
  moreover have "snd (walk_step w dot) = snd w" for w by (cases w) (simp add: walk_step_simp)
  ultimately show ?thesis using make_abs_resolved [OF assms(1), of "[46]"] True
    by (simp add: is_absolute_def below_def base_parts_def walk_snoc)
next
  case False
  then show ?thesis
    using make_abs_resolved [OF assms(1) rel_facts(1,3) [OF assms(2) False]] parts_join [OF names_components [OF assms(2)]]
    by (simp add: below_def base_parts_def names_walk [OF assms(2)])
qed

lemma join_append: "ps \<noteq> [] \<Longrightarrow> qs \<noteq> [] \<Longrightarrow> join_slash (ps @ qs) = join_slash ps @ 47 # join_slash qs"
  by (induction ps rule: join_slash.induct) (auto, (metis join_slash.simps(3) list.exhaust)+)

lemma join_join: "ns \<noteq> [] \<Longrightarrow> join_slash (join_slash ns # ts) = join_slash (ns @ ts)"
  by (cases ts) (simp_all add: join_append)

lemma child_path_below:
  assumes "list_all name ns"
  shows "child_path (below g ns) e = below g (ns @ [e])"
proof (cases "base_parts g @ ns = []")
  case False
  have "list_all component (base_parts g @ ns)"
    using base_clean [of g] names_components [OF assms] by (simp add: clean_def)
  from join_last [OF this False] have "join_slash (base_parts g @ ns) \<noteq> []" by simp
  then show ?thesis using join_append [OF False, of "[e]"] by (simp add: child_path_def below_def)
qed (simp add: child_path_def below_def)

lemma exists_child:
  assumes "plain_disk fs" "list_all name ns" "name e"
  shows "exists_below fs g (ns @ [e]) = (\<exists>es. fs_readdir fs (below g ns) = Entries es \<and> e \<in> set es)"
proof
  assume "exists_below fs g (ns @ [e])"
  moreover have "clean (base_parts g @ ns)" using base_clean names_clean [OF assms(2)] by (simp add: clean_append)
  ultimately show "\<exists>es. fs_readdir fs (below g ns) = Entries es \<and> e \<in> set es"
    using assms(1,3) unfolding plain_disk_def exists_below_def below_def by (metis append_assoc)
next
  assume "\<exists>es. fs_readdir fs (below g ns) = Entries es \<and> e \<in> set es"
  then obtain es where "fs_readdir fs (below g ns) = Entries es" "e \<in> set es" by blast
  moreover have "settled fs False" using assms(1) by (simp add: plain_disk_def)
  ultimately show "exists_below fs g (ns @ [e])"
    using settled_entries child_path_below [OF assms(2)] by (metis exists_below_def)
qed

lemma dir_reads:
  assumes "plain_disk fs"
  shows "dir_below fs g ns = (\<exists>es. fs_readdir fs (below g ns) = Entries es)"
proof -
  have s: "settled fs False" using assms by (simp add: plain_disk_def)
  have "\<exists>es. fs_readdir fs p = Entries es" if "kind_at fs p = Some KDir" for p
    using spec [OF s [unfolded settled_def], of p] that by (auto split: read_result.splits)
  then show ?thesis using settled_entries [OF s] unfolding dir_below_def by blast
qed

lemma exists_parent:
  assumes "plain_disk fs" "list_all name (ns @ ks)" "exists_below fs g (ns @ ks)"
  shows "exists_below fs g ns"
  using assms(2,3)
proof (induction ks rule: rev_induct)
  case (snoc e ks)
  have "exists_below fs g ((ns @ ks) @ [e])" using snoc.prems(2) by simp
  then have "dir_below fs g (ns @ ks)"
    using exists_child [OF assms(1), of "ns @ ks" e g] snoc.prems(1) by (auto simp: dir_reads [OF assms(1)])
  then show ?case using snoc by (simp add: dir_below_def exists_below_def)
qed simp

lemma exists_first:
  assumes "plain_disk fs" "list_all name ns" "list_all name (e # ks)" "exists_below fs g (ns @ e # ks)"
  shows "\<exists>es. fs_readdir fs (below g ns) = Entries es \<and> e \<in> set es"
proof -
  have "exists_below fs g (ns @ [e])"
    using exists_parent [OF assms(1), of "ns @ [e]" ks g] assms(2-4) by simp
  then show ?thesis using exists_child [OF assms(1,2)] assms(3) by simp
qed

section \<open>The walk finds what its pattern describes\<close>

text \<open>The names found below \<open>ns\<close>, and the pattern that looks for them.\<close>

definition found_names :: "fs_calls \<Rightarrow> gconf \<Rightarrow> js_string list \<Rightarrow> glob_part list \<Rightarrow> js_string set" where
  "found_names fs g ns qs = {join_slash (ns @ ks) | ks. ns @ ks \<noteq> [] \<and> list_all name ks
     \<and> exists_below fs g (ns @ ks) \<and> describes g (dir_below fs g (ns @ ks)) qs ks}"

definition held :: "js_string list \<Rightarrow> glob_part list \<Rightarrow> glob_part list" where
  "held ns qs = (if ns = [] then [] else [Lit (join_slash ns)]) @ qs"

lemma describes_lits:
  "describes g b (map Lit ts @ qs) ks = (\<exists>ks'. ks = ts @ ks' \<and> describes g b qs ks')"
proof (induction ts arbitrary: ks)
  case (Cons t ts)
  then show ?case by (cases ks) (auto simp: part_takes_def)
qed simp

lemma found_lits:
  assumes "list_all name ts"
  shows "found_names fs g ns (map Lit ts @ qs) = found_names fs g (ns @ ts) qs"
  using assms by (auto simp: found_names_def describes_lits)

lemma held_split:
  assumes "list_all plain_part qs"
  obtains ts rest where "list_all name ts" "list_all plain_part rest" "qs = map Lit ts @ rest"
    "rest = [] \<or> \<not> is_lit (hd rest)"
    "length (takeWhile is_lit (held ns qs)) = length (held ns (map Lit ts))"
    "drop (length (takeWhile is_lit (held ns qs))) (held ns qs) = rest"
    "take (length (takeWhile is_lit (held ns qs))) (held ns qs) = held ns (map Lit ts)"
proof -
  define ts where "ts = map lit_text (takeWhile is_lit qs)"
  define rest where "rest = dropWhile is_lit qs"
  have lits: "map Lit ts = takeWhile is_lit qs"
    unfolding ts_def map_map
    by (rule map_idI) (auto dest!: set_takeWhileD simp: is_lit_def lit_text_def split: glob_part.splits)
  have qs: "qs = map Lit ts @ rest" unfolding lits rest_def by simp
  have tw: "takeWhile is_lit (held ns qs) = held ns (map Lit ts)" unfolding lits by (simp add: held_def)
  have whole: "held ns qs = held ns (map Lit ts) @ rest" unfolding held_def by (subst qs) simp
  show ?thesis
  proof (rule that [of ts rest])
    have "list_all plain_part (map Lit ts @ rest)" using assms qs by metis
    then show "list_all plain_part rest" "list_all name ts"
      by (simp_all add: list.pred_map comp_def plain_part_def)
    show "rest = [] \<or> \<not> is_lit (hd rest)" unfolding rest_def using hd_dropWhile by blast
    show "length (takeWhile is_lit (held ns qs)) = length (held ns (map Lit ts))" unfolding tw ..
    show "drop (length (takeWhile is_lit (held ns qs))) (held ns qs) = rest" unfolding tw by (simp add: whole)
    show "take (length (takeWhile is_lit (held ns qs))) (held ns qs) = held ns (map Lit ts)"
      unfolding tw by (simp add: whole)
  qed (rule qs)
qed

lemma held_text: "join_slash (map lit_text (held ns (map Lit ts))) = join_slash (ns @ ts)"
  by (simp add: held_def comp_def join_join)

lemma held_empty: "held ns (map Lit ts) = [] \<longleftrightarrow> ns @ ts = []"
  by (simp add: held_def)

lemma prefix_held:
  assumes "list_all name ns" "list_all name ts"
  shows "read_prefix (held ns (map Lit ts) @ rest) (length (held ns (map Lit ts)))
    = (if ns @ ts = [] then (None, [46]) else (Some (join_slash (ns @ ts)), join_slash (ns @ ts)))"
proof (cases "ns @ ts = []")
  case False
  then have "join_slash (ns @ ts) \<noteq> []" using rel_facts(1) [of "ns @ ts"] assms by simp
  then show ?thesis using False held_empty [of ns ts] by (simp add: read_prefix_def held_text Let_def)
qed (simp add: read_prefix_def held_def)

lemma then_set: "then_list r r' = Returns ms \<longleftrightarrow> (\<exists>xs ys. r = Returns xs \<and> r' = Returns ys \<and> ms = xs @ ys)"
  by (cases r; cases r') (auto simp: then_list_def)

lemma concat_set:
  assumes "concat_outcome r es = Returns ms" "\<And>e m. e \<in> set es \<Longrightarrow> r e = Returns m \<Longrightarrow> set m = A e"
  shows "set ms = (\<Union>e \<in> set es. A e)"
  using assms
proof (induction es arbitrary: ms)
  case (Cons e es)
  from Cons.prems(1) obtain xs ys where run: "r e = Returns xs" "concat_outcome r es = Returns ys" "ms = xs @ ys"
    by (auto simp: then_set)
  have "set xs = A e" by (rule Cons.prems(2) [OF _ run(1)]) simp
  moreover have "set ys = (\<Union>e \<in> set es. A e)" by (rule Cons.IH [OF run(2)]) (simp add: Cons.prems(2))
  ultimately show ?case unfolding run(3) by simp
qed simp

text \<open>One directory: what is found at it and at the names in it.\<close>

lemma found_globstar:
  assumes disk: "plain_disk fs" and ns: "list_all name ns" and es: "fs_readdir fs (below g ns) = Entries es"
  shows "found_names fs g ns (Globstar # qs) = found_names fs g ns qs
    \<union> (\<Union>e \<in> {e \<in> set es. gc_dot g \<or> take 1 e \<noteq> [46]}.
          found_names fs g ns (Lit e # qs) \<union> found_names fs g ns (Lit e # Globstar # qs))"
    (is "?l = ?a \<union> ?b")
proof (intro subset_antisym subsetI)
  fix x assume "x \<in> ?l"
  then obtain ks where ks: "x = join_slash (ns @ ks)" "ns @ ks \<noteq> []" "list_all name ks" "exists_below fs g (ns @ ks)"
    and d: "describes g (dir_below fs g (ns @ ks)) (Globstar # qs) ks" unfolding found_names_def by blast
  show "x \<in> ?a \<union> ?b"
  proof (cases ks)
    case Nil
    have "describes g (dir_below fs g (ns @ ks)) qs ks" using d unfolding Nil describes.simps by blast
    then have "x \<in> ?a" using ks unfolding found_names_def by blast
    then show ?thesis by blast
  next
    case (Cons e ks')
    have e: "e \<in> set es" using exists_first [OF disk ns, of e ks' g] ks(3,4) es Cons by auto
    have "x \<in> ?a" if "describes g (dir_below fs g (ns @ ks)) qs ks" using that ks by (auto simp: found_names_def)
    moreover have "x \<in> found_names fs g ns (Lit e # qs) \<union> found_names fs g ns (Lit e # Globstar # qs)"
      if "describes g (dir_below fs g (ns @ ks)) qs ks' \<or> describes g (dir_below fs g (ns @ ks)) (Globstar # qs) ks'"
      using that ks unfolding Cons found_names_def by (auto simp: part_takes_def)
    ultimately show ?thesis using d e unfolding Cons by auto
  qed
next
  fix x assume "x \<in> ?a \<union> ?b"
  then show "x \<in> ?l"
  proof
    assume "x \<in> ?a"
    then obtain ks where ks: "x = join_slash (ns @ ks)" "ns @ ks \<noteq> []" "list_all name ks" "exists_below fs g (ns @ ks)"
      and d: "describes g (dir_below fs g (ns @ ks)) qs ks" unfolding found_names_def by blast
    have "dir_below fs g ns" using es dir_reads [OF disk] by blast
    then have "describes g (dir_below fs g (ns @ ks)) (Globstar # qs) ks" using d by (cases ks) auto
    then show ?thesis using ks unfolding found_names_def by blast
  next
    assume "x \<in> ?b"
    then obtain e where e: "gc_dot g \<or> take 1 e \<noteq> [46]"
      and x: "x \<in> found_names fs g ns (Lit e # qs) \<union> found_names fs g ns (Lit e # Globstar # qs)" by blast
    then obtain ks where ks: "x = join_slash (ns @ ks)" "ns @ ks \<noteq> []" "list_all name ks" "exists_below fs g (ns @ ks)"
      and d: "describes g (dir_below fs g (ns @ ks)) (Lit e # qs) ks
        \<or> describes g (dir_below fs g (ns @ ks)) (Lit e # Globstar # qs) ks" unfolding found_names_def by blast
    have "describes g (dir_below fs g (ns @ ks)) (Globstar # qs) ks" using d e by (cases ks) (auto simp: part_takes_def)
    then show ?thesis using ks unfolding found_names_def by blast
  qed
qed

lemma found_one:
  assumes disk: "plain_disk fs" and ns: "list_all name ns" and es: "fs_readdir fs (below g ns) = Entries es"
    and p: "p \<noteq> Globstar"
  shows "found_names fs g ns (p # qs) = (\<Union>e \<in> {e \<in> set es. part_takes g p e}. found_names fs g ns (Lit e # qs))"
    (is "?l = ?r")
proof (intro subset_antisym subsetI)
  fix x assume "x \<in> ?l"
  then obtain ks where ks: "x = join_slash (ns @ ks)" "ns @ ks \<noteq> []" "list_all name ks" "exists_below fs g (ns @ ks)"
    and d: "describes g (dir_below fs g (ns @ ks)) (p # qs) ks" unfolding found_names_def by blast
  obtain e ks' where Cons: "ks = e # ks'" using d p by (cases ks) auto
  have e: "e \<in> set es" using exists_first [OF disk ns, of e ks' g] ks(3,4) es Cons by auto
  have "part_takes g p e" "describes g (dir_below fs g (ns @ ks)) (Lit e # qs) ks"
    using d p unfolding Cons by (simp_all add: part_takes_def)
  then show "x \<in> ?r" using e ks unfolding found_names_def by blast
next
  fix x assume "x \<in> ?r"
  then obtain e ks where e: "part_takes g p e"
    and ks: "x = join_slash (ns @ ks)" "ns @ ks \<noteq> []" "list_all name ks" "exists_below fs g (ns @ ks)"
    and d: "describes g (dir_below fs g (ns @ ks)) (Lit e # qs) ks" unfolding found_names_def by blast
  have "describes g (dir_below fs g (ns @ ks)) (p # qs) ks" using d e p by (cases ks) (auto simp: part_takes_def)
  then show "x \<in> ?l" using ks unfolding found_names_def by blast
qed

lemma found_leaf:
  assumes disk: "plain_disk fs" and ns: "list_all name ns" and es: "fs_readdir fs (below g ns) = Entries es" and e: "e \<in> set es"
  shows "found_names fs g ns [Lit e] = {join_slash (ns @ [e])}"
proof -
  have "name e" using disk es e unfolding plain_disk_def by blast
  moreover from this have "exists_below fs g (ns @ [e])" using exists_child [OF disk ns] es e by blast
  moreover have "describes g b [Lit e] ks \<longleftrightarrow> ks = [e]" for b ks
    using describes_lits [of g b "[e]" "[]" ks] by auto
  ultimately show ?thesis by (auto simp: found_names_def)
qed

text \<open>A directory that cannot be read holds nothing.\<close>

lemma found_unread:
  assumes disk: "plain_disk fs" and ns: "list_all name ns" and none: "\<nexists>es. fs_readdir fs (below g ns) = Entries es"
    and p: "\<not> is_lit p"
  shows "found_names fs g ns (p # qs) = {}"
proof -
  have False if ks: "list_all name ks" "exists_below fs g (ns @ ks)"
    and d: "describes g (dir_below fs g (ns @ ks)) (p # qs) ks" for ks
  proof (cases ks)
    case Nil
    then show ?thesis using d none dir_reads [OF disk] by simp
  next
    case (Cons e ks')
    then show ?thesis using exists_first [OF disk ns, of e ks' g] ks none by blast
  qed
  then show ?thesis unfolding found_names_def by blast
qed

lemma find_describes:
  assumes disk: "plain_disk fs" and cwd: "is_absolute (gc_process_cwd g)" and ignore: "gc_ignore g = []"
    and len: "gc_max_length g = None" and neg: "\<not> mm_negate (gc_matcher g)"
  shows "list_all name ns \<Longrightarrow> list_all plain_part qs \<Longrightarrow> find_n d fs g (held ns qs) in_globstar = Returns ms
    \<Longrightarrow> set ms = found_names fs g ns qs"
proof (induction d arbitrary: ns qs in_globstar ms)
  case (Suc d)
  define pattern where "pattern = held ns qs"
  define n where "n = length (takeWhile is_lit pattern)"
  obtain ts rest where ts: "list_all name ts" and rest: "list_all plain_part rest" and qs: "qs = map Lit ts @ rest"
    and stop: "rest = [] \<or> \<not> is_lit (hd rest)" and n: "n = length (held ns (map Lit ts))"
    and drop: "drop n pattern = rest" and take: "take n pattern = held ns (map Lit ts)"
    using held_split [OF Suc.prems(2), of ns] unfolding n_def pattern_def by metis
  define here where "here = ns @ ts"
  have names: "list_all name here" using Suc.prems(1) ts by (simp add: here_def)
  have goal: "found_names fs g ns qs = found_names fs g here rest"
    unfolding qs here_def by (rule found_lits [OF ts])
  have whole: "pattern = held ns (map Lit ts) @ rest" using take drop append_take_drop_id [of n pattern] by simp
  define pre where "pre = (if here = [] then None else Some (join_slash here))"
  define dir where "dir = (if here = [] then [46] else join_slash here)"
  have rp: "read_prefix pattern n = (pre, dir)"
    unfolding whole n pre_def dir_def here_def using prefix_held [OF Suc.prems(1) ts, of rest] by simp
  have ab: "make_abs g dir = below g here" unfolding dir_def by (rule make_abs_below [OF cwd names])
  have pp: "prefix_parts pre @ ps = held here ps" for ps
    using rel_facts(1) [OF names] by (simp add: prefix_parts_def pre_def held_def)
  note step = find_n.simps(2) Let_def n_def [symmetric] rp prod.case ab drop pattern_def [symmetric]
  have run: "find_n (Suc d) fs g pattern in_globstar = Returns ms" using Suc.prems(3) by (simp only: pattern_def)
  show ?case
  proof (cases "rest = []")
    case True
    then have all: "n = length pattern" using n whole by simp
    have f: "join_slash (map lit_text pattern) = join_slash here" using held_text [of ns ts] whole True by (simp add: here_def)
    have "ms = (if found_at fs g (join_slash here) then [mounted g (join_slash here)] else [])"
      using run all unfolding step f by simp
    moreover have "found_at fs g (join_slash here) \<longleftrightarrow> here \<noteq> [] \<and> exists_below fs g here"
    proof (cases "here = []")
      case True
      then show ?thesis using disk by (simp add: found_at_def make_abs_def plain_disk_def)
    next
      case False
      then show ?thesis using rel_facts [OF names False] make_abs_below [OF cwd names] len
        by (auto simp: found_at_def ends_slash_def exists_below_def split: option.splits)
    qed
    moreover have "mounted g (join_slash here) = join_slash here" if "here \<noteq> []"
      using rel_facts(4) [OF names that] by (simp add: mounted_def)
    ultimately have "set ms = (if here \<noteq> [] \<and> exists_below fs g here then {join_slash here} else {})" by auto
    also have "\<dots> = found_names fs g here rest" unfolding True by (auto simp: found_names_def)
    finally show ?thesis unfolding goal .
  next
    case False
    then obtain p qs' where p: "rest = p # qs'" by (cases rest) auto
    then have nonlit: "\<not> is_lit p" and part: "plain_part p" and tail: "list_all plain_part qs'" using stop rest by auto
    have more: "n \<noteq> length pattern" using n whole False by simp
    have kept: "\<not> children_ignored g dir" by (simp add: children_ignored_def ignore)
    note eqs = step if_not_P [OF more] if_not_P [OF kept]
    show ?thesis
    proof (cases "\<exists>es. fs_readdir fs (below g here) = Entries es")
      case False
      then have "list_dir fs g (below g here) = Returns None"
        using run unfolding eqs by (auto simp: list_dir_def split: read_result.splits if_splits)
      then have "ms = []" using run unfolding eqs by simp
      then show ?thesis unfolding goal p using found_unread [OF disk names False nonlit] by simp
    next
      case True
      then obtain es where es: "fs_readdir fs (below g here) = Entries es" by blast
      have ld: "list_dir fs g (below g here) = Returns (Some es)" using es by (simp add: list_dir_def)
      have plain_e: "plain_part (Lit e)" if "e \<in> set es" for e
        using disk es that unfolding plain_disk_def plain_part_def by auto
      have links: "fs_lstat fs q \<noteq> Some KLink" for q using disk by (simp add: plain_disk_def)
      show ?thesis
      proof (cases "p = Globstar")
        case globstar: True
        let ?each = "\<lambda>e. if take 1 e = [46] \<and> \<not> gc_dot g then Returns []
                  else then_list (find_n d fs g (held here (Lit e # qs')) True)
                         (find_n d fs g (held here (Lit e # Globstar # qs')) True)"
        from run obtain xs ys where xs: "find_n d fs g (held here qs') False = Returns xs"
          and ys: "concat_outcome ?each es = Returns ys" and ms: "ms = xs @ ys"
          unfolding eqs ld on_return.simps option.case p list.sel globstar if_P [OF refl] pp
          by (auto simp: then_set links)
        have "set xs = found_names fs g here qs'" by (rule Suc.IH [OF names tail xs])
        moreover have "set ys = (\<Union>e \<in> set es. if take 1 e = [46] \<and> \<not> gc_dot g then {}
            else found_names fs g here (Lit e # qs') \<union> found_names fs g here (Lit e # Globstar # qs'))"
        proof (rule concat_set [OF ys])
          fix e m assume e: "e \<in> set es" and m: "?each e = Returns m"
          have parts: "list_all plain_part (Lit e # qs')" "list_all plain_part (Lit e # Globstar # qs')"
            using plain_e [OF e] tail by (simp_all add: plain_part_def)
          show "set m = (if take 1 e = [46] \<and> \<not> gc_dot g then {}
            else found_names fs g here (Lit e # qs') \<union> found_names fs g here (Lit e # Globstar # qs'))"
            using m Suc.IH [OF names parts(1)] Suc.IH [OF names parts(2)] by (auto simp: then_set split: if_splits)
        qed
        ultimately show ?thesis unfolding goal p globstar found_globstar [OF disk names es] ms by auto
      next
        case other: False
        then obtain re glob where rx: "p = Rx re glob" using nonlit part by (cases p) (auto simp: plain_part_def is_lit_def)
        obtain dots where dots: "dot_ok g p = Returns dots"
          using run unfolding eqs ld on_return.simps option.case p list.sel if_not_P [OF other]
          by (cases "dot_ok g p") auto
        have "dots = (gc_dot g \<or> take 1 glob = [46])" using dots by (auto simp: dot_ok_def rx split: if_splits)
        then have takes: "entry_matches g pre p dots e = part_takes g p e" for e
          using neg by (auto simp: entry_matches_def part_takes_def rx)
        have filt: "set (filter (entry_matches g pre p dots) es) = {e \<in> set es. part_takes g p e}" by (auto simp: takes)
        have "set ms = (\<Union>e \<in> {e \<in> set es. part_takes g p e}. found_names fs g here (Lit e # qs'))"
        proof (cases "length rest = 1 \<and> \<not> gc_mark g \<and> \<not> gc_stat g")
          case last: True
          then have qs': "qs' = []" by (simp add: p)
          have name: "mounted g (with_prefix pre e) = join_slash (here @ [e])" if "e \<in> set es" for e
          proof -
            have "name e" using disk es that unfolding plain_disk_def by blast
            then have "list_all name (here @ [e])" using names by simp
            note facts = rel_facts [OF this]
            have "with_prefix pre e = join_slash (here @ [e])"
              using rel_facts [OF names] by (simp add: with_prefix_def pre_def join_append)
            then show ?thesis using facts(4) by (simp add: mounted_def)
          qed
          have "ms = map (\<lambda>e. mounted g (with_prefix pre e)) (filter (entry_matches g pre p dots) es)"
            using run last unfolding eqs ld on_return.simps option.case p list.sel if_not_P [OF other] dots by simp
          then have "set ms = (\<lambda>e. join_slash (here @ [e])) ` {e \<in> set es. part_takes g p e}"
            using filt name by (auto simp: image_iff takes)
          then show ?thesis unfolding qs' using found_leaf [OF disk names es] by auto
        next
          case False
          have "concat_outcome (\<lambda>e. find_n d fs g (held here (Lit e # qs')) in_globstar)
              (filter (entry_matches g pre p dots) es) = Returns ms"
            using run False unfolding eqs ld on_return.simps option.case p list.sel if_not_P [OF other] dots pp
            by (auto split: if_splits)
          then have "set ms = (\<Union>e \<in> set (filter (entry_matches g pre p dots) es). found_names fs g here (Lit e # qs'))"
          proof (rule concat_set)
            fix e m assume "e \<in> set (filter (entry_matches g pre p dots) es)"
              and m: "find_n d fs g (held here (Lit e # qs')) in_globstar = Returns m"
            then have "list_all plain_part (Lit e # qs')" using plain_e tail by simp
            from Suc.IH [OF names this m] show "set m = found_names fs g here (Lit e # qs')" .
          qed
          then show ?thesis unfolding filt .
        qed
        then show ?thesis unfolding goal p found_one [OF disk names es other] .
      qed
    qed
  qed
qed simp

lemma object_keys_set [simp]: "set (object_keys ks) = set ks"
  by (auto simp: object_keys_def)

lemma matcher_plain:
  assumes "make_minimatch opts pattern = Returns m" "go_nonegate opts"
  shows "\<not> mm_negate m"
  using assms by (auto simp: make_minimatch_def parse_negate_def on_return_Returns Let_def split: if_splits prod.splits)

lemma setopts_plain:
  assumes "setopts cwd pattern opts so = Returns g"
  shows "so_ignore so = [] \<Longrightarrow> gc_ignore g = []" "so_max_length so = None \<Longrightarrow> gc_max_length g = None"
    "gc_nonull g = go_nonull opts" "go_nonegate opts \<Longrightarrow> \<not> mm_negate (gc_matcher g)"
  using assms unfolding setopts_def Let_def
  by (auto simp: on_return_Returns dest: matcher_plain split: if_splits)

lemma finish_found_set:
  assumes "gc_ignore g = []" "\<not> gc_nonull g" "\<And>xs. set (sorted_by xs) = set xs"
  shows "set (finish_found sorted_by g mss) = (\<Union>ms \<in> set mss. set ms)"
proof -
  have ign: "\<not> is_ignored g m" for m using assms(1) by (simp add: is_ignored_def)
  define per where "per = map (\<lambda>(ms, lit). if ms = [] then (if gc_nonull g then [lit] else []) else object_keys (fold add_key ms []))
                  (zip mss (map (\<lambda>i. gc_globs g ! i) [0..<length mss]))"
  have "per = map (\<lambda>ms. if ms = [] then [] else object_keys (fold add_key ms [])) mss"
    unfolding per_def by (rule nth_equalityI) (simp_all add: assms(2))
  then have "set (concat per) = (\<Union>ms \<in> set mss. set ms)" by (auto simp: add_key_set split: if_splits)
  then show ?thesis
    using assms(3) by (simp add: finish_found_def per_def [symmetric] ign add_key_set Let_def)
qed

lemma map_outcome_all: "map_outcome f xs = Returns ys \<Longrightarrow> list_all2 (\<lambda>x y. f x = Returns y) xs ys"
  by (induction xs arbitrary: ys) (auto simp: on_return_Returns)


text \<open>A disk without links.\<close>

definition tree_fs :: fs_calls where
  "tree_fs = \<lparr>
     fs_lstat = (\<lambda>p. if p = js ''/'' \<or> p = js ''/w'' \<or> p = js ''/w/d'' then Some KDir
       else if p = js ''/w/a'' \<or> p = js ''/w/d/b'' then Some KFile else None),
     fs_stat = (\<lambda>p. None),
     fs_readdir = (\<lambda>p. if p = js ''/'' then Entries [js ''w''] else if p = js ''/w'' then Entries [js ''a'', js ''d'']
       else if p = js ''/w/d'' then Entries [js ''b'']
       else if p = js ''/w/a'' \<or> p = js ''/w/d/b'' then ReadError (js ''ENOTDIR'') else ReadError (js ''ENOENT''))\<rparr>"

lemma path_unique:
  assumes "clean ps" "name e" "47 # join_slash (ps @ [e]) = p"
  shows "ps @ [e] = path_parts p"
proof -
  have "list_all component (ps @ [e])" using assms(1,2) by (simp add: clean_def name_def)
  from parts_join [OF this] show ?thesis unfolding assms(3) [symmetric] by simp
qed

lemma tree_plain: "plain_disk tree_fs"
proof -
  have kinds: "kind_at tree_fs p = (if p = js ''/'' \<or> p = js ''/w'' \<or> p = js ''/w/d'' then Some KDir
       else if p = js ''/w/a'' \<or> p = js ''/w/d/b'' then Some KFile else None)" for p
    by (simp add: kind_at_def tree_fs_def)
  have "\<exists>es. fs_readdir tree_fs (47 # join_slash ps) = Entries es \<and> e \<in> set es"
    if ps: "clean ps" "name e" "kind_at tree_fs (47 # join_slash (ps @ [e])) \<noteq> None" for ps e
  proof -
    have "ps @ [e] \<in> {[js ''w''], [js ''w'', js ''d''], [js ''w'', js ''a''], [js ''w'', js ''d'', js ''b'']}"
      using path_unique [OF ps(1,2)] ps(3) unfolding kinds
      by (auto simp: path_parts_def split: if_splits)
    then have "(ps = [] \<and> e = js ''w'') \<or> (ps = [js ''w''] \<and> (e = js ''d'' \<or> e = js ''a'')) \<or> (ps = [js ''w'', js ''d''] \<and> e = js ''b'')"
      by (auto simp: append_eq_Cons_conv)
    then show ?thesis by (auto simp: tree_fs_def)
  qed
  moreover have "settled tree_fs False"
    unfolding settled_def kinds by (simp add: tree_fs_def kinds child_path_def file_codes_def gone_codes_def)
  ultimately show ?thesis
    unfolding plain_disk_def by (simp add: kinds) (simp add: tree_fs_def name_def component_def dot_def dotdot_def)
qed

lemma globstar_conf_fields:
  "gc_dot globstar_conf = False" "gc_follow globstar_conf = False" "gc_max_length globstar_conf = None"
  "gc_process_cwd globstar_conf = js ''/w''" "gc_changed_cwd globstar_conf = False" "gc_root globstar_conf = [47]"
  "gc_ignore globstar_conf = []" "mm_set (gc_matcher globstar_conf) = [[Globstar]]" "gc_nonull globstar_conf = False"
  "gc_nounique globstar_conf = False" "gc_nosort globstar_conf = False" "gc_strict globstar_conf = True"
  by (simp_all add: globstar_conf_def)

lemmas tree_eval = globstar_conf_fields make_abs_def resolve_in_def the_path_def path_resolve_def is_absolute_def
  normalize_array_def dot_def dotdot_def path_parts_def list_dir_def children_ignored_def read_prefix_def
  prefix_parts_def found_at_def kind_at_def ends_slash_def mounted_def then_list_def is_lit_def lit_text_def Let_def

lemma tree_find_leaf:
  "find_n (Suc d) tree_fs globstar_conf [] False = Returns []"
  "find_n (Suc d) tree_fs globstar_conf [Lit (js ''a'')] t = Returns [js ''a'']"
  "find_n (Suc d) tree_fs globstar_conf [Lit (js ''d'')] t = Returns [js ''d'']"
  "find_n (Suc d) tree_fs globstar_conf [Lit (js ''d''), Lit (js ''b'')] t = Returns [js ''d/b'']"
  by (simp_all add: tree_eval tree_fs_def)

lemma tree_find_file:
  "find_n (Suc d) tree_fs globstar_conf [Lit (js ''a''), Globstar] t = Returns []"
  "find_n (Suc d) tree_fs globstar_conf [Lit (js ''d''), Lit (js ''b''), Globstar] t = Returns []"
  by (simp_all add: tree_eval tree_fs_def file_codes_def)

lemma tree_find_dir:
  "find_n (Suc (Suc d)) tree_fs globstar_conf [Lit (js ''d''), Globstar] t = Returns [js ''d'', js ''d/b'']"
proof -
  have dir: "make_abs globstar_conf (js ''d'') = js ''/w/d''" by (simp add: tree_eval)
  have ls: "list_dir tree_fs globstar_conf (js ''/w/d'') = Returns (Some [js ''b''])" by (simp add: tree_eval tree_fs_def)
  have "fs_lstat tree_fs (js ''/w/d'') = Some KDir" by (simp add: tree_fs_def)
  with dir ls tree_find_leaf [of d] tree_find_file [of d] show ?thesis
    by (subst find_n.simps)
      (simp add: read_prefix_def prefix_parts_def is_lit_def lit_text_def children_ignored_def then_list_def
        is_absolute_def globstar_conf_fields Let_def del: find_n.simps)
qed

lemma tree_find_all:
  "find_n (Suc (Suc (Suc d))) tree_fs globstar_conf [Globstar] False
     = Returns [js ''a'', js ''d'', js ''d'', js ''d/b'']"
proof -
  have dir: "make_abs globstar_conf [46] = js ''/w''" by (simp add: tree_eval)
  have ls: "list_dir tree_fs globstar_conf (js ''/w'') = Returns (Some [js ''a'', js ''d''])" by (simp add: tree_eval tree_fs_def)
  from dir ls tree_find_leaf [of "Suc d"] tree_find_file [of "Suc d"] tree_find_dir [of d] show ?thesis
    by (subst find_n.simps)
      (simp add: read_prefix_def prefix_parts_def is_lit_def lit_text_def children_ignored_def then_list_def
        is_absolute_def globstar_conf_fields Let_def del: find_n.simps)
qed

lemma tree_settled: "settled tree_fs strict"
  using tree_plain unfolding plain_disk_def settled_def
  by (auto split: option.splits fkind.splits read_result.splits)

lemma tree_search:
  "glob_uncached 3 (\<lambda>x. x) tree_fs (js ''/w'') (js ''**'') default_glob default_sync = Returns [js ''a'', js ''d'', js ''d/b'']"
proof -
  have "find_n 3 tree_fs globstar_conf [Globstar] False
     = Returns [js ''a'', js ''d'', js ''d'', js ''d/b'']"
    using tree_find_all [of 0] by (simp only: numeral_3_eq_3)
  then show ?thesis
    by (simp add: glob_uncached_def setopts_globstar [simplified] globstar_conf_fields finish_found_def is_ignored_def add_key_def
        object_keys_def array_index_def digit_def del: find_n.simps)
qed


end
