(* ===== verification/JsGlobAsync.thy ===== *)
theory JsGlobAsync
  imports JsGlobFind
begin

text \<open>
  The asynchronous search \<open>Glob\<close> of the search bundle (\<open>wordcut.js\<close>, module 16): the same walk, with
  calls of the file system that are answered later and in any order. A closure of the code is a
  value of \<open>acb\<close>, which holds what it closes over; \<open>run_n\<close> is what runs until the next answer is
  awaited, and \<open>async_run\<close> the states of a search under every order of answers. The state has the
  caches and matches of \<open>gsync\<close>, the table of module 18 with the callbacks that wait for an answer
  (an entry holds those not yet called, also while its responder runs), the calls under way, the
  responses put off to a later turn, and what was emitted. Left out: pausing, \<open>realpath\<close>, the event
  \<open>stat\<close>, and an error without a listener.
\<close>

section \<open>State\<close>

datatype akey = KReaddir js_string bool | KLstat js_string | KStat js_string

text \<open>
  The callbacks: of \<open>_processReaddir\<close> and \<open>_processGlobStar\<close>; a responder of \<open>inflight\<close>; \<open>lstatcb_\<close>
  of \<open>_readdirInGlobStar\<close>; and \<open>lstatcb_\<close> of \<open>_stat\<close> with the callback of \<open>_processSimple\<close>.
\<close>

datatype acb = CReaddir "js_string option" js_string "glob_part list" nat bool | CRes akey | CLstat js_string | CStat js_string nat

datatype answer = AEntries "js_string list option" | AKind "fkind option"

datatype fs_request = FReaddir js_string akey | FLstat js_string akey | FStat js_string js_string nat

record gasync =
  ga_walk :: gsync
  ga_gone :: "js_string \<Rightarrow> bool"
  ga_reqs :: "akey \<rightharpoonup> acb list"
  ga_pending :: "fs_request list"
  ga_ticks :: "(akey \<times> answer) list"
  ga_processing :: int
  ga_aborted :: bool
  ga_errors :: "js_string list"
  ga_events :: "js_string list"
  ga_ends :: "gsync list"

text \<open>\<open>ga_gone\<close> are the entries \<open>false\<close> of \<open>statCache\<close>; \<open>ga_ends\<close> the state at every event \<open>end\<close>.\<close>

definition gasync_init :: gasync where
  "gasync_init = \<lparr>ga_walk = gsync_init, ga_gone = (\<lambda>p. False), ga_reqs = Map.empty, ga_pending = [], ga_ticks = [],
     ga_processing = 0, ga_aborted = False, ga_errors = [], ga_events = [], ga_ends = []\<rparr>"

section \<open>Matches\<close>

text \<open>\<open>done\<close>, with \<open>_finish\<close>.\<close>

definition async_done :: "gasync \<Rightarrow> gasync" where
  "async_done st =
     (let st1 = st\<lparr>ga_processing := ga_processing st - 1\<rparr>
      in if ga_processing st1 \<le> 0 \<and> \<not> ga_aborted st1 then st1\<lparr>ga_ends := ga_ends st1 @ [ga_walk st1]\<rparr> else st1)"

definition is_dir_entry :: "centry option \<Rightarrow> bool" where
  "is_dir_entry c = (case c of Some CDir \<Rightarrow> True | Some (CEntries es) \<Rightarrow> True | _ \<Rightarrow> False)"

text \<open>\<open>_emitMatch\<close>.\<close>

definition emit_match :: "gconf \<Rightarrow> nat \<Rightarrow> js_string \<Rightarrow> gasync \<Rightarrow> gasync" where
  "emit_match g i e st =
     (if ga_aborted st \<or> e \<in> set (match_slot i (ga_walk st)) \<or> is_ignored g e then st
      else if gc_nodir g \<and> is_dir_entry (gy_cache (ga_walk st) (make_abs g e)) then st
      else (let (m, w) = (if gc_mark g then sync_mark g e (ga_walk st) else (e, ga_walk st))
            in st\<lparr>ga_walk := add_match i m w, ga_events := ga_events st @ [m]\<rparr>))"

text \<open>\<open>if (!this.matches[index]) this.matches[index] = Object.create(null)\<close>.\<close>

definition make_slot :: "nat \<Rightarrow> gasync \<Rightarrow> gasync" where
  "make_slot i st = st\<lparr>ga_walk := (ga_walk st)\<lparr>gy_matches := (gy_matches (ga_walk st))(i \<mapsto> match_slot i (ga_walk st))\<rparr>\<rparr>"

text \<open>\<open>_processSimple2\<close>.\<close>

definition process_simple2 :: "gconf \<Rightarrow> js_string \<Rightarrow> nat \<Rightarrow> bool \<Rightarrow> gasync \<Rightarrow> gasync" where
  "process_simple2 g f i exists st =
     (let st1 = make_slot i st in async_done (if exists then emit_match g i (mounted g f) st1 else st1))"

section \<open>Looking at the file system\<close>

text \<open>\<open>inflight(key, cb)\<close>; the flag says that the caller has to ask.\<close>

definition enlist :: "akey \<Rightarrow> acb \<Rightarrow> gasync \<Rightarrow> bool \<times> gasync" where
  "enlist key cb st =
     (case ga_reqs st key of
        Some cbs \<Rightarrow> (False, st\<lparr>ga_reqs := (ga_reqs st)(key \<mapsto> cbs @ [cb])\<rparr>)
      | None \<Rightarrow> (True, st\<lparr>ga_reqs := (ga_reqs st)(key \<mapsto> [cb])\<rparr>))"

definition call_fs :: "fs_request \<Rightarrow> gasync \<Rightarrow> gasync" where
  "call_fs r st = st\<lparr>ga_pending := ga_pending st @ [r]\<rparr>"

text \<open>\<open>_stat2\<close>; \<open>None\<close> is an error.\<close>

definition async_stat2 :: "gconf \<Rightarrow> js_string \<Rightarrow> js_string \<Rightarrow> nat \<Rightarrow> fkind option \<Rightarrow> gasync \<Rightarrow> gasync" where
  "async_stat2 g ab f i kind st =
     (case kind of
        None \<Rightarrow> process_simple2 g f i False
          (st\<lparr>ga_gone := (ga_gone st)(ab := True), ga_walk := (ga_walk st)\<lparr>gy_stats := (gy_stats (ga_walk st))(ab := None)\<rparr>\<rparr>)
      | Some k \<Rightarrow>
          (let st1 = st\<lparr>ga_gone := (ga_gone st)(ab := False),
                        ga_walk := (ga_walk st)\<lparr>gy_stats := (gy_stats (ga_walk st))(ab \<mapsto> k)\<rparr>\<rparr>;
               c = (if k = KDir then CDir else CFile)
           in if ends_slash ab \<and> k \<noteq> KDir then process_simple2 g f i False st1
              else process_simple2 g f i (\<not> (ends_slash f \<and> c \<noteq> CDir)) (st1\<lparr>ga_walk := cache_or ab c (ga_walk st1)\<rparr>)))"

text \<open>\<open>_stat\<close>, called by \<open>_processSimple\<close>.\<close>

definition async_stat_now :: "gconf \<Rightarrow> js_string \<Rightarrow> nat \<Rightarrow> gasync \<Rightarrow> gasync" where
  "async_stat_now g f i st =
     (let ab = make_abs g f in
      if ga_gone st ab then process_simple2 g f i False st
      else case gy_stats (ga_walk st) ab of
          Some k \<Rightarrow> process_simple2 g f i (\<not> (ends_slash f \<and> k \<noteq> KDir)) st
        | None \<Rightarrow> (let (fresh, st1) = enlist (KStat ab) (CStat f i) st
                  in if fresh then call_fs (FLstat ab (KStat ab)) st1 else st1))"

definition async_stat :: "gconf \<Rightarrow> js_string \<Rightarrow> nat \<Rightarrow> gasync \<Rightarrow> gasync" where
  "async_stat g f i st =
     (if (case gc_max_length g of None \<Rightarrow> False | Some n \<Rightarrow> n < length f) then process_simple2 g f i False st
      else case (if gc_stat g then None else gy_cache (ga_walk st) (make_abs g f)) of
          None \<Rightarrow> async_stat_now g f i st
        | Some c0 \<Rightarrow>
            (let c = (case c0 of CEntries _ \<Rightarrow> CDir | _ \<Rightarrow> c0)
             in if \<not> ends_slash f \<or> c = CDir then process_simple2 g f i (entry_true c) st
                else if c = CFile then process_simple2 g f i False st
                else async_stat_now g f i st))"

section \<open>The walk\<close>

datatype awork = WProcess "glob_part list" nat bool | WReaddir js_string bool acb | WRespond akey answer | WCall answer acb

definition prefixed :: "js_string option \<Rightarrow> js_string \<Rightarrow> js_string" where
  "prefixed pre e = (case pre of None \<Rightarrow> e | Some p \<Rightarrow> if p = [] then e else if p \<noteq> [47] then p @ 47 # e else p @ e)"

text \<open>\<open>_processGlobStar2\<close> and \<open>_processReaddir2\<close>, with the entries.\<close>

definition process_globstar2 ::
  "gconf \<Rightarrow> (awork \<Rightarrow> gasync \<Rightarrow> gasync outcome) \<Rightarrow> js_string option \<Rightarrow> js_string \<Rightarrow> glob_part list \<Rightarrow> nat \<Rightarrow> bool
   \<Rightarrow> js_string list \<Rightarrow> gasync \<Rightarrow> gasync outcome" where
  "process_globstar2 g run pre ab remain i in_globstar es st =
     on_return (run (WProcess (prefix_parts pre @ tl remain) i False) st) (\<lambda>st1.
       if gy_symlinks (ga_walk st1) ab = Some True \<and> in_globstar then Returns (async_done st1)
       else on_return
           (fold_outcome (\<lambda>e st.
              if take 1 e = [46] \<and> \<not> gc_dot g then Returns st
              else on_return (run (WProcess (prefix_parts pre @ Lit e # tl remain) i True) st)
                     (run (WProcess (prefix_parts pre @ Lit e # remain) i True))) es st1)
           (\<lambda>st2. Returns (async_done st2)))"

definition process_readdir2 ::
  "gconf \<Rightarrow> (awork \<Rightarrow> gasync \<Rightarrow> gasync outcome) \<Rightarrow> js_string option \<Rightarrow> glob_part list \<Rightarrow> nat \<Rightarrow> bool
   \<Rightarrow> js_string list \<Rightarrow> gasync \<Rightarrow> gasync outcome" where
  "process_readdir2 g run pre remain i in_globstar es st =
     on_return (dot_ok g (hd remain)) (\<lambda>dots.
       let found = filter (entry_matches g pre (hd remain) dots) es in
       if found = [] then Returns (async_done st)
       else if length remain = 1 \<and> \<not> gc_mark g \<and> \<not> gc_stat g
       then Returns (async_done (fold (\<lambda>e. emit_match g i (mounted g (prefixed pre e))) found (make_slot i st)))
       else on_return
           (fold_outcome (\<lambda>e. run (WProcess (Lit (prefixed pre e) # tl remain) i in_globstar)) found st)
           (\<lambda>st1. Returns (async_done st1)))"

text \<open>\<open>_process\<close>.\<close>

definition async_process ::
  "gconf \<Rightarrow> (awork \<Rightarrow> gasync \<Rightarrow> gasync outcome) \<Rightarrow> glob_part list \<Rightarrow> nat \<Rightarrow> bool \<Rightarrow> gasync \<Rightarrow> gasync outcome" where
  "async_process g run pattern i in_globstar st =
     (if ga_aborted st then Returns st
      else
        (let st1 = st\<lparr>ga_processing := ga_processing st + 1\<rparr>; n = length (takeWhile is_lit pattern) in
         if n = length pattern then Returns (async_stat g (join_slash (map lit_text pattern)) i st1)
         else
           (let (pre, dir) = read_prefix pattern n; remain = drop n pattern; ab = make_abs g dir in
            if children_ignored g dir then Returns (async_done st1)
            else run (WReaddir ab in_globstar (CReaddir pre ab remain i in_globstar)) st1)))"

text \<open>\<open>_readdir\<close>, with \<open>_readdirInGlobStar\<close>.\<close>

definition async_readdir ::
  "gconf \<Rightarrow> (awork \<Rightarrow> gasync \<Rightarrow> gasync outcome) \<Rightarrow> js_string \<Rightarrow> bool \<Rightarrow> acb \<Rightarrow> gasync \<Rightarrow> gasync outcome" where
  "async_readdir g run ab in_globstar cb st =
     (if ga_aborted st then Returns st
      else
        (let key = KReaddir ab in_globstar; (fresh, st1) = enlist key cb st in
         if \<not> fresh then Returns st1
         else if in_globstar \<and> gy_symlinks (ga_walk st1) ab = None then
           (if gc_follow g then run (WReaddir ab False (CRes key)) st1
            else (let (fresh, st2) = enlist (KLstat ab) (CLstat ab) st1
                  in Returns (if fresh then call_fs (FLstat ab (KLstat ab)) st2 else st2)))
         else case gy_cache (ga_walk st1) ab of
             Some CFalse \<Rightarrow> run (WRespond key (AEntries None)) st1
           | Some CFile \<Rightarrow> run (WRespond key (AEntries None)) st1
           | Some (CEntries es) \<Rightarrow> run (WRespond key (AEntries (Some es))) st1
           | _ \<Rightarrow> Returns (call_fs (FReaddir ab key) st1)))"

text \<open>A responder: \<open>RES\<close> of \<open>makeres\<close>, over these callbacks.\<close>

definition async_respond ::
  "(awork \<Rightarrow> gasync \<Rightarrow> gasync outcome) \<Rightarrow> akey \<Rightarrow> answer \<Rightarrow> gasync \<Rightarrow> gasync outcome" where
  "async_respond run key a st =
     (case ga_reqs st key of
        None \<Rightarrow> Throws
      | Some cbs \<Rightarrow>
          on_return (fold_outcome (\<lambda>cb. run (WCall a cb)) cbs (st\<lparr>ga_reqs := (ga_reqs st)(key \<mapsto> [])\<rparr>)) (\<lambda>st1.
            Returns
              (if ga_reqs st1 key = None \<or> ga_reqs st1 key = Some []
               then st1\<lparr>ga_reqs := (ga_reqs st1)(key := None)\<rparr>
               else st1\<lparr>ga_ticks := ga_ticks st1 @ [(key, a)]\<rparr>)))"

text \<open>The callbacks: \<open>lstatcb_\<close> of \<open>_readdirInGlobStar\<close>, \<open>lstatcb_\<close> of \<open>_stat\<close>, and that of \<open>_readdir\<close>.\<close>

definition globstar_lstat ::
  "(awork \<Rightarrow> gasync \<Rightarrow> gasync outcome) \<Rightarrow> js_string \<Rightarrow> fkind option \<Rightarrow> gasync \<Rightarrow> gasync outcome" where
  "globstar_lstat run ab kind st =
     (case kind of
        None \<Rightarrow> run (WRespond (KReaddir ab True) (AEntries None)) st
      | Some k \<Rightarrow>
          (let st1 = st\<lparr>ga_walk := (ga_walk st)\<lparr>gy_symlinks := (gy_symlinks (ga_walk st))(ab \<mapsto> k = KLink)\<rparr>\<rparr> in
           if k \<noteq> KLink \<and> k \<noteq> KDir
           then run (WRespond (KReaddir ab True) (AEntries None))
                  (st1\<lparr>ga_walk := (ga_walk st1)\<lparr>gy_cache := (gy_cache (ga_walk st1))(ab \<mapsto> CFile)\<rparr>\<rparr>)
           else run (WReaddir ab False (CRes (KReaddir ab True))) st1))"

definition stat_lstat :: "gconf \<Rightarrow> js_string \<Rightarrow> nat \<Rightarrow> fkind option \<Rightarrow> gasync \<Rightarrow> gasync" where
  "stat_lstat g f i k st =
     (if k = Some KLink then call_fs (FStat (make_abs g f) f i) st else async_stat2 g (make_abs g f) f i k st)"

definition async_call ::
  "gconf \<Rightarrow> (awork \<Rightarrow> gasync \<Rightarrow> gasync outcome) \<Rightarrow> answer \<Rightarrow> acb \<Rightarrow> gasync \<Rightarrow> gasync outcome" where
  "async_call g run a cb st =
     (case cb of
        CRes key \<Rightarrow> run (WRespond key a) st
      | CLstat ab \<Rightarrow> (case a of AEntries es \<Rightarrow> Throws | AKind k \<Rightarrow> globstar_lstat run ab k st)
      | CStat f i \<Rightarrow> (case a of AEntries es \<Rightarrow> Throws | AKind k \<Rightarrow> Returns (stat_lstat g f i k st))
      | CReaddir pre ab remain i in_globstar \<Rightarrow>
          (case a of
             AKind k \<Rightarrow> Throws
           | AEntries None \<Rightarrow> Returns (async_done st)
           | AEntries (Some es) \<Rightarrow>
               if hd remain = Globstar then process_globstar2 g run pre ab remain i in_globstar es st
               else process_readdir2 g run pre remain i in_globstar es st))"

text \<open>Work that nests: what one of the above runs at once, and what that runs.\<close>

primrec run_n :: "nat \<Rightarrow> gconf \<Rightarrow> awork \<Rightarrow> gasync \<Rightarrow> gasync outcome" where
  "run_n 0 g w st = Hangs"
| "run_n (Suc d) g w st =
     (case w of
        WProcess pattern i in_globstar \<Rightarrow> async_process g (run_n d g) pattern i in_globstar st
      | WReaddir ab in_globstar cb \<Rightarrow> async_readdir g (run_n d g) ab in_globstar cb st
      | WRespond key a \<Rightarrow> async_respond (run_n d g) key a st
      | WCall a cb \<Rightarrow> async_call g (run_n d g) a cb st)"

section \<open>Answers\<close>

text \<open>The callbacks given to the file system.\<close>

definition async_readdir_error :: "gconf \<Rightarrow> js_string \<Rightarrow> js_string \<Rightarrow> gasync \<Rightarrow> gasync" where
  "async_readdir_error g f code st =
     (let put = (\<lambda>c. st\<lparr>ga_walk := (ga_walk st)\<lparr>gy_cache := (gy_cache (ga_walk st))(make_abs g f \<mapsto> c)\<rparr>\<rparr>)
      in if code \<in> set file_codes then put CFile
         else if code \<in> set gone_codes \<or> \<not> gc_strict g then put CFalse
         else (put CFalse)\<lparr>ga_errors := ga_errors st @ [code], ga_aborted := True\<rparr>)"

definition answer_n :: "nat \<Rightarrow> fs_calls \<Rightarrow> gconf \<Rightarrow> fs_request \<Rightarrow> gasync \<Rightarrow> gasync outcome" where
  "answer_n d fs g r st =
     (case r of
        FReaddir ab key \<Rightarrow>
          if ga_aborted st then Returns st
          else (case fs_readdir fs ab of
              Entries es \<Rightarrow> run_n d g (WRespond key (AEntries (Some es))) (st\<lparr>ga_walk := readdir_entries g ab es (ga_walk st)\<rparr>)
            | ReadError code \<Rightarrow> run_n d g (WRespond key (AEntries None)) (async_readdir_error g ab code st))
      | FLstat ab key \<Rightarrow> run_n d g (WRespond key (AKind (fs_lstat fs ab))) st
      | FStat ab f i \<Rightarrow> Returns (async_stat2 g ab f i (Some (case fs_stat fs ab of Some k \<Rightarrow> k | None \<Rightarrow> KLink)) st))"

text \<open>The constructor, and a search under some order of answers.\<close>

definition glob_start :: "nat \<Rightarrow> gconf \<Rightarrow> gasync outcome" where
  "glob_start d g =
     (let ps = mm_set (gc_matcher g)
      in if ps = [] then Returns (async_done gasync_init)
         else fold_outcome (\<lambda>i. run_n d g (WProcess (ps ! i) i False)) [0..<length ps] gasync_init)"

inductive async_run :: "fs_calls \<Rightarrow> gconf \<Rightarrow> gasync \<Rightarrow> bool" for fs g where
  starts: "glob_start d g = Returns st \<Longrightarrow> async_run fs g st"
| answers: "async_run fs g st \<Longrightarrow> ga_pending st = ps @ r # qs \<Longrightarrow>
    answer_n d fs g r (st\<lparr>ga_pending := ps @ qs\<rparr>) = Returns st' \<Longrightarrow> async_run fs g st'"
| turns: "async_run fs g st \<Longrightarrow> ga_ticks st = (key, a) # ts \<Longrightarrow>
    run_n d g (WRespond key a) (st\<lparr>ga_ticks := ts\<rparr>) = Returns st' \<Longrightarrow> async_run fs g st'"

text \<open>\<open>hasMagic\<close>, from what \<open>setopts\<close> computed.\<close>

definition has_magic :: "gconf \<Rightarrow> bool outcome" where
  "has_magic g =
     (case mm_set (gc_matcher g) of
        [] \<Rightarrow> Throws
      | ps # pss \<Rightarrow> Returns (pss \<noteq> [] \<or> list_ex (\<lambda>p. \<not> is_lit p) ps))"

end
