(* ===== verification/JsGlobOrder.thy ===== *)
theory JsGlobOrder
  imports JsGlobAsync
begin

text \<open>
  The asynchronous search finds the same under every order of answers. What is found so far, and
  what the callbacks that wait stand for, make up the same set at every moment; the count
  \<open>_processing\<close> is the number of those callbacks, so the search ends exactly when nothing is left,
  once, and with everything found.
\<close>

text \<open>\<open>run_n\<close> with everything it runs in view.\<close>

lemma run_n_step [simp]:
  "run_n (Suc d) g w st =
     (case w of
        WProcess pattern i in_globstar \<Rightarrow>
          if ga_aborted st then Returns st
          else
            (let st1 = st\<lparr>ga_processing := ga_processing st + 1\<rparr>; n = length (takeWhile is_lit pattern) in
             if n = length pattern then Returns (async_stat g (join_slash (map lit_text pattern)) i st1)
             else
               (let (pre, dir) = read_prefix pattern n; remain = drop n pattern; ab = make_abs g dir in
                if children_ignored g dir then Returns (async_done st1)
                else run_n d g (WReaddir ab in_globstar (CReaddir pre ab remain i in_globstar)) st1))
      | WReaddir ab in_globstar cb \<Rightarrow>
          if ga_aborted st then Returns st
          else
            (let key = KReaddir ab in_globstar; (fresh, st1) = enlist key cb st in
             if \<not> fresh then Returns st1
             else if in_globstar \<and> gy_symlinks (ga_walk st1) ab = None then
               (if gc_follow g then run_n d g (WReaddir ab False (CRes key)) st1
                else (let (fresh, st2) = enlist (KLstat ab) (CLstat ab) st1
                      in Returns (if fresh then call_fs (FLstat ab (KLstat ab)) st2 else st2)))
             else case gy_cache (ga_walk st1) ab of
                 Some CFalse \<Rightarrow> run_n d g (WRespond key (AEntries None)) st1
               | Some CFile \<Rightarrow> run_n d g (WRespond key (AEntries None)) st1
               | Some (CEntries es) \<Rightarrow> run_n d g (WRespond key (AEntries (Some es))) st1
               | _ \<Rightarrow> Returns (call_fs (FReaddir ab key) st1))
      | WRespond key a \<Rightarrow>
          (case ga_reqs st key of
             None \<Rightarrow> Throws
           | Some cbs \<Rightarrow>
               on_return (fold_outcome (\<lambda>cb. run_n d g (WCall a cb)) cbs (st\<lparr>ga_reqs := (ga_reqs st)(key \<mapsto> [])\<rparr>)) (\<lambda>st1.
                 Returns
                   (if ga_reqs st1 key = None \<or> ga_reqs st1 key = Some []
                    then st1\<lparr>ga_reqs := (ga_reqs st1)(key := None)\<rparr>
                    else st1\<lparr>ga_ticks := ga_ticks st1 @ [(key, a)]\<rparr>)))
      | WCall a cb \<Rightarrow>
          (case cb of
             CRes key \<Rightarrow> run_n d g (WRespond key a) st
           | CLstat ab \<Rightarrow>
               (case a of
                  AEntries es \<Rightarrow> Throws
                | AKind None \<Rightarrow> run_n d g (WRespond (KReaddir ab True) (AEntries None)) st
                | AKind (Some k) \<Rightarrow>
                    (let st1 = st\<lparr>ga_walk := (ga_walk st)\<lparr>gy_symlinks := (gy_symlinks (ga_walk st))(ab \<mapsto> k = KLink)\<rparr>\<rparr> in
                     if k \<noteq> KLink \<and> k \<noteq> KDir
                     then run_n d g (WRespond (KReaddir ab True) (AEntries None))
                            (st1\<lparr>ga_walk := (ga_walk st1)\<lparr>gy_cache := (gy_cache (ga_walk st1))(ab \<mapsto> CFile)\<rparr>\<rparr>)
                     else run_n d g (WReaddir ab False (CRes (KReaddir ab True))) st1))
           | CStat f i \<Rightarrow>
               (case a of
                  AEntries es \<Rightarrow> Throws
                | AKind k \<Rightarrow>
                    Returns (if k = Some KLink then call_fs (FStat (make_abs g f) f i) st
                             else async_stat2 g (make_abs g f) f i k st))
           | CReaddir pre ab remain i in_globstar \<Rightarrow>
               (case a of
                  AKind k \<Rightarrow> Throws
                | AEntries None \<Rightarrow> Returns (async_done st)
                | AEntries (Some es) \<Rightarrow>
                    if hd remain = Globstar then process_globstar2 g (run_n d g) pre ab remain i in_globstar es st
                    else process_readdir2 g (run_n d g) pre remain i in_globstar es st)))"
  by (auto simp: async_process_def async_readdir_def async_respond_def async_call_def globstar_lstat_def stat_lstat_def
      split: awork.split acb.split answer.split option.split)

declare run_n.simps(2) [simp del]

section \<open>Sums over the table\<close>

definition entry :: "(akey \<rightharpoonup> acb list) \<Rightarrow> akey \<Rightarrow> acb list" where
  "entry m key = (case m key of None \<Rightarrow> [] | Some cbs \<Rightarrow> cbs)"

definition weight :: "acb \<Rightarrow> int" where
  "weight cb = (case cb of CReaddir pre ab remain i ing \<Rightarrow> 1 | CStat f i \<Rightarrow> 1 | _ \<Rightarrow> 0)"

definition weights :: "acb list \<Rightarrow> int" where
  "weights cbs = sum_list (map weight cbs)"

definition table_weight :: "(akey \<rightharpoonup> acb list) \<Rightarrow> int" where
  "table_weight m = (\<Sum>key \<in> dom m. weights (entry m key))"

lemma weights_simps [simp]: "weights [] = 0" "weights (c # cs) = weight c + weights cs"
  "weights (cs @ ds) = weights cs + weights ds"
  by (simp_all add: weights_def)

lemma weight_nonneg [simp]: "0 \<le> weight cb"
  by (simp add: weight_def split: acb.split)

lemma weights_nonneg [simp]: "0 \<le> weights cbs"
  by (induction cbs) auto

lemma weights_zero: "weights cbs = 0 \<Longrightarrow> cb \<in> set cbs \<Longrightarrow> weight cb = 0"
proof (induction cbs)
  case (Cons c cs)
  have "weight c + weights cs = 0" using Cons.prems(1) by simp
  then have "weight c = 0" "weights cs = 0" using weight_nonneg [of c] weights_nonneg [of cs] by linarith+
  then show ?case using Cons by auto
qed simp

lemma entry_upd: "entry (m(key := v)) k = (if k = key then (case v of None \<Rightarrow> [] | Some cbs \<Rightarrow> cbs) else entry m k)"
  by (simp add: entry_def)

lemma entry_none: "m key = None \<Longrightarrow> entry m key = []"
  by (simp add: entry_def)

lemma table_weight_over:
  assumes "finite A" "dom m \<subseteq> A"
  shows "table_weight m = (\<Sum>key \<in> A. weights (entry m key))"
  unfolding table_weight_def
  by (rule sum.mono_neutral_left) (use assms in \<open>auto simp: entry_def domIff\<close>)

lemma table_weight_upd:
  assumes "finite (dom m)"
  shows "table_weight (m(key := v)) = table_weight m - weights (entry m key) + weights (case v of None \<Rightarrow> [] | Some cbs \<Rightarrow> cbs)"
proof -
  define A where "A = insert key (dom m)"
  have fin: "finite A" and key: "key \<in> A" using assms by (simp_all add: A_def)
  have "table_weight (m(key := v)) = (\<Sum>k \<in> A. weights (entry (m(key := v)) k))"
    by (rule table_weight_over [OF fin]) (auto simp: A_def split: if_splits)
  also have "\<dots> = weights (entry (m(key := v)) key) + (\<Sum>k \<in> A - {key}. weights (entry (m(key := v)) k))"
    by (rule sum.remove [OF fin key])
  also have "(\<Sum>k \<in> A - {key}. weights (entry (m(key := v)) k)) = (\<Sum>k \<in> A - {key}. weights (entry m k))"
    by (rule sum.cong) (auto simp: entry_upd)
  finally have upd: "table_weight (m(key := v)) = weights (entry (m(key := v)) key) + (\<Sum>k \<in> A - {key}. weights (entry m k))" .
  have "table_weight m = (\<Sum>k \<in> A. weights (entry m k))"
    by (rule table_weight_over [OF fin]) (auto simp: A_def)
  also have "\<dots> = weights (entry m key) + (\<Sum>k \<in> A - {key}. weights (entry m k))" by (rule sum.remove [OF fin key])
  finally show ?thesis using upd by (simp add: entry_upd)
qed

lemma table_weight_nonneg [simp]: "0 \<le> table_weight m"
  by (simp add: table_weight_def sum_nonneg)

lemma table_weight_zero:
  assumes "finite (dom m)" "table_weight m = 0" "cb \<in> set (entry m key)"
  shows "weight cb = 0"
proof -
  have "key \<in> dom m" using assms(3) by (cases "m key") (auto simp: entry_def)
  then have "weights (entry m key) = 0"
    using assms(1,2) sum_nonneg_eq_0_iff [of "dom m" "\<lambda>k. weights (entry m k)"] by (simp add: table_weight_def)
  then show ?thesis using assms(3) weights_zero by blast
qed

section \<open>What a state still stands for\<close>

definition at_index :: "nat \<Rightarrow> js_string set \<Rightarrow> nat \<Rightarrow> js_string set" where
  "at_index j S i = (if i = j then S else {})"

definition here_of :: "js_string option \<Rightarrow> js_string list" where
  "here_of pre = (case pre of None \<Rightarrow> [] | Some p \<Rightarrow> path_parts p)"

definition text_names :: "fs_calls \<Rightarrow> gconf \<Rightarrow> js_string \<Rightarrow> js_string set" where
  "text_names fs g f = (if kind_at fs (make_abs g f) \<noteq> None then {f} else {})"

definition cb_names :: "fs_calls \<Rightarrow> gconf \<Rightarrow> acb \<Rightarrow> nat \<Rightarrow> js_string set" where
  "cb_names fs g cb = (case cb of
       CReaddir pre ab remain j ing \<Rightarrow> at_index j (found_names fs g (here_of pre) remain)
     | CStat f j \<Rightarrow> at_index j (text_names fs g f)
     | _ \<Rightarrow> (\<lambda>i. {}))"

lemma cb_names_weightless: "weight cb = 0 \<Longrightarrow> cb_names fs g cb i = {}"
  by (simp add: weight_def cb_names_def split: acb.splits)

definition all_names :: "fs_calls \<Rightarrow> gconf \<Rightarrow> acb list \<Rightarrow> nat \<Rightarrow> js_string set" where
  "all_names fs g cbs i = (\<Union>cb \<in> set cbs. cb_names fs g cb i)"

definition outstanding :: "fs_calls \<Rightarrow> gconf \<Rightarrow> gasync \<Rightarrow> nat \<Rightarrow> js_string set" where
  "outstanding fs g st i = (\<Union>key. all_names fs g (entry (ga_reqs st) key) i)"

lemma outstanding_upd:
  "(\<Union>k. all_names fs g (entry (m(key := v)) k) i) \<union> all_names fs g (entry m key) i
     = (\<Union>k. all_names fs g (entry m k) i) \<union> all_names fs g (case v of None \<Rightarrow> [] | Some cbs \<Rightarrow> cbs) i"
  by (auto simp: entry_upd split: if_splits)

lemma all_names_simps [simp]:
  "all_names fs g [] i = {}" "all_names fs g (c # cs) i = cb_names fs g c i \<union> all_names fs g cs i"
  "all_names fs g (cs @ ds) i = all_names fs g cs i \<union> all_names fs g ds i"
  by (auto simp: all_names_def)

lemma outstanding_push:
  "(\<Union>k. all_names fs g (entry (m(key \<mapsto> entry m key @ [cb])) k) i) = (\<Union>k. all_names fs g (entry m k) i) \<union> cb_names fs g cb i"
proof -
  have "all_names fs g (entry (m(key \<mapsto> entry m key @ [cb])) k) i
      = all_names fs g (entry m k) i \<union> (if k = key then cb_names fs g cb i else {})" for k
    by (simp add: entry_upd)
  then show ?thesis by (auto split: if_splits)
qed

definition slot_of :: "gasync \<Rightarrow> nat \<Rightarrow> js_string set" where
  "slot_of st i = set (match_slot i (ga_walk st))"

text \<open>Texts and directories the walk looks at.\<close>

definition rel_text :: "js_string \<Rightarrow> bool" where
  "rel_text f = (\<exists>ns. list_all name ns \<and> f = join_slash ns)"

definition rel_dir :: "gconf \<Rightarrow> js_string \<Rightarrow> bool" where
  "rel_dir g ab = (\<exists>ns. list_all name ns \<and> ab = below g ns)"

definition cb_ok :: "gconf \<Rightarrow> akey \<Rightarrow> acb \<Rightarrow> bool" where
  "cb_ok g key cb = (case cb of
       CReaddir pre ab remain i ing \<Rightarrow>
         (\<exists>ing'. key = KReaddir ab ing') \<and> list_all name (here_of pre) \<and> ab = below g (here_of pre)
         \<and> pre = (if here_of pre = [] then None else Some (join_slash (here_of pre)))
         \<and> remain \<noteq> [] \<and> \<not> is_lit (hd remain) \<and> list_all plain_part remain
     | CRes key' \<Rightarrow> \<exists>ab. key' = KReaddir ab True \<and> key = KReaddir ab False
     | CLstat ab \<Rightarrow> key = KLstat ab \<and> \<not> gc_follow g \<and> rel_dir g ab
     | CStat f i \<Rightarrow> key = KStat (make_abs g f) \<and> rel_text f)"

definition req_ok :: "gconf \<Rightarrow> fs_request \<Rightarrow> bool" where
  "req_ok g r = (case r of
       FReaddir ab key \<Rightarrow> (\<exists>ing. key = KReaddir ab ing) \<and> rel_dir g ab
     | FLstat ab key \<Rightarrow> key = KLstat ab \<or> key = KStat ab
     | FStat ab f i \<Rightarrow> False)"

definition answer_ok :: "fs_calls \<Rightarrow> akey \<Rightarrow> answer \<Rightarrow> bool" where
  "answer_ok fs key a = (case key of
       KReaddir ab ing \<Rightarrow> (case a of AEntries None \<Rightarrow> \<nexists>es. fs_readdir fs ab = Entries es
         | AEntries (Some es) \<Rightarrow> fs_readdir fs ab = Entries es | AKind k \<Rightarrow> False)
     | KLstat ab \<Rightarrow> a = AKind (fs_lstat fs ab)
     | KStat ab \<Rightarrow> a = AKind (fs_lstat fs ab))"

definition async_inv :: "fs_calls \<Rightarrow> gconf \<Rightarrow> gasync \<Rightarrow> bool" where
  "async_inv fs g st =
     (coherent fs g (ga_walk st) \<and> (\<forall>p. ga_gone st p \<longrightarrow> kind_at fs p = None) \<and> \<not> ga_aborted st
      \<and> finite (dom (ga_reqs st)) \<and> (\<forall>key cb. cb \<in> set (entry (ga_reqs st) key) \<longrightarrow> cb_ok g key cb)
      \<and> (\<forall>r \<in> set (ga_pending st). req_ok g r) \<and> (\<forall>(key, a) \<in> set (ga_ticks st). answer_ok fs key a))"

text \<open>Ended once with everything, or under way.\<close>

definition ends_right :: "(nat \<Rightarrow> js_string set) \<Rightarrow> gasync \<Rightarrow> bool" where
  "ends_right T st =
     (ga_ends st = [] \<and> 0 < ga_processing st
      \<or> (\<exists>e. ga_ends st = [e] \<and> ga_processing st = 0 \<and> (\<forall>i. set (match_slot i e) = T i)))"

text \<open>
  \<open>T\<close> is all there is to find; \<open>X\<close> what the callers on the stack still have to find, and \<open>s\<close> how
  many of them are counted.
\<close>

definition on_course ::
  "fs_calls \<Rightarrow> gconf \<Rightarrow> (nat \<Rightarrow> js_string set) \<Rightarrow> (nat \<Rightarrow> js_string set) \<Rightarrow> int \<Rightarrow> gasync \<Rightarrow> bool" where
  "on_course fs g T X s st =
     (async_inv fs g st \<and> ga_processing st = table_weight (ga_reqs st) + s \<and> 0 \<le> s
      \<and> (s = 0 \<longrightarrow> (\<forall>i. X i = {})) \<and> (\<forall>i. T i = slot_of st i \<union> outstanding fs g st i \<union> X i) \<and> ends_right T st)"

section \<open>Elementary steps\<close>

text \<open>A step that changes neither the table nor the matches nor the count.\<close>

lemma on_course_cong:
  assumes "on_course fs g T X s st" "async_inv fs g st'"
    and same: "\<And>i. slot_of st' i = slot_of st i" "\<And>i. outstanding fs g st' i = outstanding fs g st i"
      "table_weight (ga_reqs st') = table_weight (ga_reqs st)"
      "ga_processing st' = ga_processing st" "ga_ends st' = ga_ends st"
  shows "on_course fs g T X s st'"
  using assms(1,2) unfolding on_course_def ends_right_def same by blast

lemma on_course_moved:
  assumes "on_course fs g T X s st" "async_inv fs g st'"
    "gy_matches (ga_walk st') = gy_matches (ga_walk st)" "ga_reqs st' = ga_reqs st"
    "ga_processing st' = ga_processing st" "ga_ends st' = ga_ends st"
  shows "on_course fs g T X s st'"
  by (rule on_course_cong [OF assms(1,2)]) (simp_all only: slot_of_def match_slot_def outstanding_def assms(3-6))

lemma on_course_inv: "on_course fs g T X s st \<Longrightarrow> async_inv fs g st"
  by (simp add: on_course_def)

lemma on_course_walk:
  assumes "on_course fs g T X s st" "moved fs g (ga_walk st) w"
  shows "on_course fs g T X s (st\<lparr>ga_walk := w\<rparr>)"
  by (rule on_course_moved [OF assms(1)])
    (use assms on_course_inv [OF assms(1)] in \<open>simp_all add: async_inv_def moved_def\<close>)

lemma on_course_done:
  assumes "on_course fs g T X (s + 1) st" "0 \<le> s" "s = 0 \<longrightarrow> (\<forall>i. X i = {})"
  shows "on_course fs g T X s (async_done st)"
proof -
  note c = assms(1) [unfolded on_course_def]
  have alive: "\<not> ga_aborted st" using c by (simp add: async_inv_def)
  have positive: "0 < ga_processing st" using c assms(2) table_weight_nonneg [of "ga_reqs st"] by linarith
  then have none: "ga_ends st = []" using c by (auto simp: ends_right_def)
  have inv: "async_inv fs g (async_done st)" using c by (simp add: async_done_def async_inv_def Let_def)
  have fields: "ga_walk (async_done st) = ga_walk st" "ga_reqs (async_done st) = ga_reqs st"
    "ga_processing (async_done st) = ga_processing st - 1" by (simp_all add: async_done_def Let_def)
  have "ends_right T (async_done st)"
  proof (cases "ga_processing st - 1 \<le> 0")
    case True
    have zero: "table_weight (ga_reqs st) = 0" "s = 0" "ga_processing st = 1"
      using True c assms(2) table_weight_nonneg [of "ga_reqs st"] by linarith+
    have "cb_names fs g cb i = {}" if "cb \<in> set (entry (ga_reqs st) key)" for cb key i
    proof (rule cb_names_weightless)
      have "finite (dom (ga_reqs st))" using c by (simp add: async_inv_def)
      from table_weight_zero [OF this zero(1) that] show "weight cb = 0" .
    qed
    then have "outstanding fs g st i = {}" for i by (auto simp: outstanding_def all_names_def)
    then have "T i = slot_of st i" for i using c assms(3) zero(2) by auto
    then show ?thesis using True alive none zero(3) by (simp add: ends_right_def async_done_def slot_of_def Let_def)
  next
    case False
    then show ?thesis using none by (simp add: ends_right_def async_done_def Let_def)
  qed
  then show ?thesis using c inv fields assms(2,3) by (auto simp: on_course_def slot_of_def outstanding_def)
qed

lemma on_course_enlist:
  assumes "on_course fs g T (\<lambda>i. cb_names fs g cb i \<union> X i) (s + weight cb) st" "cb_ok g key cb"
    "0 \<le> s" "s = 0 \<longrightarrow> (\<forall>i. X i = {})" "enlist key cb st = (fresh, st')"
  shows "on_course fs g T X s st'"
    and "fresh \<longleftrightarrow> ga_reqs st key = None" "ga_walk st' = ga_walk st" "ga_pending st' = ga_pending st"
      "fresh \<Longrightarrow> ga_reqs st' = (ga_reqs st)(key \<mapsto> [cb])"
proof -
  define cbs where "cbs = entry (ga_reqs st) key"
  have st': "st' = st\<lparr>ga_reqs := (ga_reqs st)(key \<mapsto> cbs @ [cb])\<rparr>"
    using assms(5) by (auto simp: enlist_def cbs_def entry_def split: option.splits)
  note c = assms(1) [unfolded on_course_def]
  have fin: "finite (dom (ga_reqs st))" using c by (simp add: async_inv_def)
  have "table_weight (ga_reqs st') = table_weight (ga_reqs st) + weight cb"
    using table_weight_upd [OF fin, of key "Some (cbs @ [cb])"] by (simp add: st' cbs_def)
  moreover have "outstanding fs g st' i = outstanding fs g st i \<union> cb_names fs g cb i" for i
    using outstanding_push [of fs g "ga_reqs st" key cb i] by (simp add: outstanding_def st' cbs_def)
  moreover have "async_inv fs g st'"
    using c assms(2) by (auto simp: async_inv_def st' entry_upd cbs_def)
  ultimately show "on_course fs g T X s st'"
    using c assms(3,4) by (auto simp: on_course_def st' slot_of_def ends_right_def)
  show "fresh \<longleftrightarrow> ga_reqs st key = None" "ga_walk st' = ga_walk st" "ga_pending st' = ga_pending st"
    "fresh \<Longrightarrow> ga_reqs st' = (ga_reqs st)(key \<mapsto> [cb])"
    using assms(5) by (auto simp: enlist_def split: option.splits)
qed

lemma on_course_call:
  assumes "on_course fs g T X s st" "req_ok g r"
  shows "on_course fs g T X s (call_fs r st)"
  by (rule on_course_moved [OF assms(1)])
    (use assms(2) on_course_inv [OF assms(1)] in \<open>simp_all add: call_fs_def async_inv_def\<close>)

text \<open>The responder of a key takes its callbacks out of the table.\<close>

lemma on_course_take:
  assumes "on_course fs g T X s st" "ga_reqs st key = Some cbs"
  shows "on_course fs g T (\<lambda>i. all_names fs g cbs i \<union> X i) (s + weights cbs) (st\<lparr>ga_reqs := (ga_reqs st)(key \<mapsto> [])\<rparr>)"
proof -
  note c = assms(1) [unfolded on_course_def]
  have fin: "finite (dom (ga_reqs st))" using c by (simp add: async_inv_def)
  have cbs: "entry (ga_reqs st) key = cbs" using assms(2) by (simp add: entry_def)
  define st1 where "st1 = st\<lparr>ga_reqs := (ga_reqs st)(key \<mapsto> [])\<rparr>"
  have tw: "table_weight (ga_reqs st1) = table_weight (ga_reqs st) - weights cbs"
    using table_weight_upd [OF fin, of key "Some []"] by (simp add: st1_def cbs)
  have out: "outstanding fs g st1 i \<union> all_names fs g cbs i = outstanding fs g st i" for i
    using outstanding_upd [of fs g "ga_reqs st" key "Some []" i] by (simp add: outstanding_def st1_def cbs all_names_def)
  have inv: "async_inv fs g st1" using c by (auto simp: async_inv_def st1_def entry_upd split: if_splits)
  have zero: "all_names fs g cbs i = {}" if "weights cbs = 0" for i
  proof -
    have "cb_names fs g cb i = {}" if "cb \<in> set cbs" for cb
      by (rule cb_names_weightless) (rule weights_zero [OF \<open>weights cbs = 0\<close> that])
    then show ?thesis by (simp add: all_names_def)
  qed
  have "s + weights cbs = 0 \<Longrightarrow> s = 0 \<and> weights cbs = 0" using c weights_nonneg [of cbs] by linarith
  moreover have "0 \<le> s + weights cbs" using c weights_nonneg [of cbs] by linarith
  moreover have "T i = slot_of st i \<union> outstanding fs g st1 i \<union> (all_names fs g cbs i \<union> X i)" for i
    using c out [of i] by auto
  ultimately show ?thesis unfolding st1_def [symmetric]
    using c inv tw zero by (auto simp: on_course_def) (simp_all add: st1_def slot_of_def ends_right_def)
qed

text \<open>And closes its entry, or comes back in a later turn.\<close>

lemma on_course_close:
  assumes "on_course fs g T X s st" "answer_ok fs key a"
  shows "on_course fs g T X s (if ga_reqs st key = None \<or> ga_reqs st key = Some []
      then st\<lparr>ga_reqs := (ga_reqs st)(key := None)\<rparr> else st\<lparr>ga_ticks := ga_ticks st @ [(key, a)]\<rparr>)"
proof (cases "ga_reqs st key = None \<or> ga_reqs st key = Some []")
  case True
  note c = assms(1) [unfolded on_course_def]
  have fin: "finite (dom (ga_reqs st))" using c by (simp add: async_inv_def)
  have none: "entry (ga_reqs st) key = []" using True by (auto simp: entry_def)
  have same: "entry ((ga_reqs st)(key := None)) = entry (ga_reqs st)" using none by (simp add: fun_eq_iff entry_upd)
  have "table_weight ((ga_reqs st)(key := None)) = table_weight (ga_reqs st)"
    using table_weight_upd [OF fin, of key None] none by simp
  moreover have "async_inv fs g (st\<lparr>ga_reqs := (ga_reqs st)(key := None)\<rparr>)"
    using on_course_inv [OF assms(1)] by (simp add: async_inv_def same)
  ultimately show ?thesis unfolding if_P [OF True]
    by (intro on_course_cong [OF assms(1)]) (simp_all add: slot_of_def outstanding_def same)
next
  case False
  show ?thesis unfolding if_not_P [OF False]
    by (rule on_course_moved [OF assms(1)])
      (use assms(2) on_course_inv [OF assms(1)] in \<open>simp_all add: async_inv_def\<close>)
qed

section \<open>Stats and matches\<close>

definition plain_search :: "fs_calls \<Rightarrow> gconf \<Rightarrow> bool" where
  "plain_search fs g =
     (plain_disk fs \<and> is_absolute (gc_process_cwd g) \<and> gc_root g = [47] \<and> gc_ignore g = [] \<and> gc_max_length g = None
      \<and> \<not> mm_negate (gc_matcher g) \<and> \<not> gc_mark g \<and> \<not> gc_nodir g)"

lemma plain_search_facts:
  assumes "plain_search fs g"
  shows "settled fs (gc_strict g)" "kind_at fs [] = None" "fs_lstat fs p \<noteq> Some KLink" "kind_at fs p = fs_lstat fs p"
    "\<not> is_ignored g m" "\<not> children_ignored g p" "make_abs g (make_abs g p) = make_abs g p"
proof -
  have links: "fs_lstat fs p \<noteq> Some KLink" for p using assms by (simp add: plain_search_def plain_disk_def)
  show "settled fs (gc_strict g)"
    using assms unfolding plain_search_def plain_disk_def settled_def
    by (auto split: option.splits fkind.splits read_result.splits)
  show "make_abs g (make_abs g p) = make_abs g p" using assms by (simp add: plain_search_def make_abs_idem)
  show "kind_at fs p = fs_lstat fs p" using links [of p] by (auto simp: kind_at_def split: option.splits fkind.splits)
  show "kind_at fs [] = None" "fs_lstat fs p \<noteq> Some KLink" "\<not> is_ignored g m" "\<not> children_ignored g p"
    using assms links by (simp_all add: plain_search_def plain_disk_def is_ignored_def children_ignored_def)
qed

lemma rel_text_facts:
  assumes "plain_search fs g" "rel_text f"
  shows "\<not> ends_slash f" "mounted g f = f" "\<not> ends_slash (make_abs g f)"
proof -
  obtain ns where ns: "list_all name ns" "f = join_slash ns" using assms(2) by (auto simp: rel_text_def)
  have cwd: "is_absolute (gc_process_cwd g)" using assms(1) by (simp add: plain_search_def)
  have "\<not> ends_slash f \<and> mounted g f = f \<and> \<not> ends_slash (make_abs g f)"
  proof (cases "ns = []")
    case True
    then show ?thesis using ns by (simp add: ends_slash_def mounted_def make_abs_def)
  next
    case False
    note rel = rel_facts [OF ns(1) False]
    have "list_all component (base_parts g @ ns)"
      using base_clean [of g] names_components [OF ns(1)] by (simp add: clean_def)
    from join_last [OF this] False have "\<not> ends_slash (below g ns)" by (simp add: ends_slash_def below_def)
    then show ?thesis
      using rel make_abs_below [OF cwd ns(1)] False ns(2) by (simp add: ends_slash_def mounted_def)
  qed
  then show "\<not> ends_slash f" "mounted g f = f" "\<not> ends_slash (make_abs g f)" by blast+
qed

lemma on_course_emit:
  assumes "plain_search fs g" "on_course fs g T (\<lambda>j. at_index i {f} j \<union> X j) s st" "0 < s"
  shows "on_course fs g T X s (emit_match g i f st)"
proof -
  define st' where "st' = emit_match g i f st"
  note c = assms(2) [unfolded on_course_def]
  have plain: "\<not> ga_aborted st" "\<not> is_ignored g f" "\<not> gc_mark g" "\<not> gc_nodir g"
    using c assms(1) plain_search_facts(5) [OF assms(1)] by (simp_all add: async_inv_def plain_search_def)
  have st': "st' = (if f \<in> set (match_slot i (ga_walk st)) then st
      else st\<lparr>ga_walk := add_match i f (ga_walk st), ga_events := ga_events st @ [f]\<rparr>)"
    using plain by (simp add: emit_match_def st'_def)
  have slot: "slot_of st' j = slot_of st j \<union> at_index i {f} j" for j
    by (auto simp: st' slot_of_def at_index_def add_match_def match_slot_def add_key_def)
  have inv: "async_inv fs g st'" using c by (simp add: st' async_inv_def add_match_def)
  have same: "ga_reqs st' = ga_reqs st" "ga_processing st' = ga_processing st" "ga_ends st' = ga_ends st"
    by (simp_all add: st')
  show ?thesis unfolding st'_def [symmetric]
    using c inv assms(3) unfolding on_course_def ends_right_def outstanding_def same slot by auto
qed

lemma on_course_slot:
  assumes "on_course fs g T X s st"
  shows "on_course fs g T X s (make_slot i st)"
  by (rule on_course_cong [OF assms])
    (use on_course_inv [OF assms] in \<open>simp_all add: make_slot_def slot_of_def match_slot_def outstanding_def async_inv_def\<close>)

lemma on_course_simple2:
  assumes "plain_search fs g" "on_course fs g T (\<lambda>j. at_index i (if found then {f} else {}) j \<union> X j) (s + 1) st"
    "0 \<le> s" "s = 0 \<longrightarrow> (\<forall>i. X i = {})" "rel_text f"
  shows "on_course fs g T X s (process_simple2 g f i found st)"
proof -
  note slot = on_course_slot [OF assms(2), of i]
  have "on_course fs g T X (s + 1) (if found then emit_match g i (mounted g f) (make_slot i st) else make_slot i st)"
  proof (cases found)
    case True
    then show ?thesis using slot on_course_emit [OF assms(1)] assms(3) rel_text_facts(2) [OF assms(1,5)] by simp
  next
    case False
    then have "(\<lambda>j. at_index i (if found then {f} else {}) j \<union> X j) = X" by (auto simp: at_index_def)
    with slot False show ?thesis by simp
  qed
  from on_course_done [OF this assms(3,4)] show ?thesis by (simp add: process_simple2_def Let_def)
qed

lemma async_stat2_ok:
  assumes "plain_search fs g" "on_course fs g T (\<lambda>j. at_index i (text_names fs g f) j \<union> X j) (s + 1) st"
    "0 \<le> s" "s = 0 \<longrightarrow> (\<forall>i. X i = {})" "rel_text f" "kind = kind_at fs (make_abs g f)"
  shows "on_course fs g T X s (async_stat2 g (make_abs g f) f i kind st)"
proof -
  define ab where "ab = make_abs g f"
  note rel = rel_text_facts [OF assms(1,5)]
  note simple = on_course_simple2 [OF assms(1) _ assms(3,4,5)]
  have coh: "coherent fs g (ga_walk st)" using on_course_inv [OF assms(2)] by (simp add: async_inv_def)
  have inv: "async_inv fs g st" using on_course_inv [OF assms(2)] .
  show ?thesis
  proof (cases kind)
    case None
    define st1 where "st1 = st\<lparr>ga_gone := (ga_gone st)(ab := True), ga_walk := (ga_walk st)\<lparr>gy_stats := (gy_stats (ga_walk st))(ab := None)\<rparr>\<rparr>"
    have "async_inv fs g st1" using inv None assms(6) by (simp add: async_inv_def coherent_def st1_def ab_def)
    then have "on_course fs g T (\<lambda>j. at_index i (text_names fs g f) j \<union> X j) (s + 1) st1"
      by (rule on_course_moved [OF assms(2)]) (simp_all add: st1_def)
    then show ?thesis using None assms(6) simple [of T i False st1]
      by (simp add: async_stat2_def text_names_def st1_def ab_def)
  next
    case (Some k)
    define c where "c = (if k = KDir then CDir else CFile)"
    define w1 where "w1 = (ga_walk st)\<lparr>gy_stats := (gy_stats (ga_walk st))(ab \<mapsto> k)\<rparr>"
    define st1 where "st1 = st\<lparr>ga_gone := (ga_gone st)(ab := False), ga_walk := cache_or ab c w1\<rparr>"
    have kind: "kind_at fs ab = Some k" using Some assms(6) by (simp add: ab_def)
    have "entry_ok fs ab c" using kind plain_search_facts(3,4) [OF assms(1), of ab] by (cases k) (auto simp: c_def)
    moreover have "coherent fs g w1" using coh kind by (simp add: coherent_def w1_def)
    ultimately have w2: "coherent fs g (cache_or ab c w1)" "gy_matches (cache_or ab c w1) = gy_matches w1"
      using moved_cache_or by (auto simp: moved_def)
    have "async_inv fs g st1" using inv w2(1) by (simp add: async_inv_def st1_def)
    then have "on_course fs g T (\<lambda>j. at_index i (text_names fs g f) j \<union> X j) (s + 1) st1"
      by (rule on_course_moved [OF assms(2)]) (use w2(2) in \<open>simp_all add: st1_def w1_def\<close>)
    moreover have "async_stat2 g ab f i kind st = process_simple2 g f i True st1"
      using rel by (simp add: async_stat2_def Some ab_def st1_def w1_def c_def Let_def)
    ultimately show ?thesis using simple [of T i True st1] kind by (simp add: text_names_def ab_def)
  qed
qed

lemma async_stat_now_ok:
  assumes "plain_search fs g" "on_course fs g T (\<lambda>j. at_index i (text_names fs g f) j \<union> X j) (s + 1) st"
    "0 \<le> s" "s = 0 \<longrightarrow> (\<forall>i. X i = {})" "rel_text f"
  shows "on_course fs g T X s (async_stat_now g f i st)"
proof -
  define ab where "ab = make_abs g f"
  note rel = rel_text_facts [OF assms(1,5)]
  note simple = on_course_simple2 [OF assms(1) _ assms(3,4,5)]
  have inv: "async_inv fs g st" using on_course_inv [OF assms(2)] .
  show ?thesis
  proof (cases "ga_gone st ab")
    case True
    then have "kind_at fs ab = None" using inv by (simp add: async_inv_def)
    then show ?thesis using True assms(2) simple [of T i False st]
      by (simp add: async_stat_now_def ab_def text_names_def Let_def)
  next
    case present: False
    show ?thesis
    proof (cases "gy_stats (ga_walk st) ab")
      case (Some k)
      then have "kind_at fs ab = Some k" using inv by (simp add: async_inv_def coherent_def)
      then show ?thesis using present Some rel assms(2) simple [of T i True st]
        by (simp add: async_stat_now_def ab_def text_names_def Let_def)
    next
      case None
      obtain fresh st1 where en: "enlist (KStat ab) (CStat f i) st = (fresh, st1)" by (cases "enlist (KStat ab) (CStat f i) st")
      have "on_course fs g T (\<lambda>j. cb_names fs g (CStat f i) j \<union> X j) (s + weight (CStat f i)) st"
        using assms(2) by (simp add: cb_names_def weight_def)
      from on_course_enlist(1) [OF this _ assms(3,4) en] have "on_course fs g T X s st1"
        using assms(5) by (simp add: cb_ok_def ab_def)
      then show ?thesis using present None en on_course_call [of fs g T X s st1 "FLstat ab (KStat ab)"]
        by (simp add: async_stat_now_def ab_def req_ok_def Let_def)
    qed
  qed
qed

lemma async_stat_ok:
  assumes "plain_search fs g" "on_course fs g T (\<lambda>j. at_index i (text_names fs g f) j \<union> X j) (s + 1) st"
    "0 \<le> s" "s = 0 \<longrightarrow> (\<forall>i. X i = {})" "rel_text f"
  shows "on_course fs g T X s (async_stat g f i st)"
proof -
  have len: "gc_max_length g = None" using assms(1) by (simp add: plain_search_def)
  note rel = rel_text_facts [OF assms(1,5)]
  show ?thesis
  proof (cases "if gc_stat g then None else gy_cache (ga_walk st) (make_abs g f)")
    case None
    then show ?thesis using async_stat_now_ok [OF assms] len by (simp add: async_stat_def)
  next
    case (Some c0)
    then have "entry_ok fs (make_abs g f) c0"
      using on_course_inv [OF assms(2)] by (auto simp: async_inv_def dest: coherent_entry split: if_splits)
    then have "entry_true (case c0 of CEntries es \<Rightarrow> CDir | _ \<Rightarrow> c0) \<longleftrightarrow> kind_at fs (make_abs g f) \<noteq> None"
      using settled_entries [OF plain_search_facts(1) [OF assms(1)], of "make_abs g f"]
      by (cases c0) (auto simp: entry_true_def)
    then have "text_names fs g f = (if entry_true (case c0 of CEntries es \<Rightarrow> CDir | _ \<Rightarrow> c0) then {f} else {})"
      by (simp add: text_names_def)
    from on_course_simple2 [OF assms(1) assms(2) [unfolded this] assms(3,4,5)] show ?thesis
      using Some rel len by (simp add: async_stat_def Let_def)
  qed
qed

section \<open>Every run stays on course\<close>

definition work_ok :: "fs_calls \<Rightarrow> gconf \<Rightarrow> awork \<Rightarrow> int \<Rightarrow> int \<Rightarrow> (nat \<Rightarrow> js_string set) \<Rightarrow> bool" where
  "work_ok fs g w s wt N = (case w of
       WProcess p j ing \<Rightarrow> \<exists>ns qs. p = held ns qs \<and> list_all name ns \<and> list_all plain_part qs \<and> 0 < s \<and> wt = 0
         \<and> N = at_index j (found_names fs g ns qs)
     | WReaddir ab ing cb \<Rightarrow> cb_ok g (KReaddir ab ing) cb \<and> rel_dir g ab \<and> wt = weight cb \<and> N = cb_names fs g cb
     | WRespond key a \<Rightarrow> answer_ok fs key a \<and> wt = 0 \<and> N = (\<lambda>i. {})
     | WCall a cb \<Rightarrow> (\<exists>key. cb_ok g key cb \<and> answer_ok fs key a) \<and> wt = weight cb \<and> N = cb_names fs g cb)"

text \<open>A function that does the work \<open>N\<close>, counted \<open>wt\<close>, and leaves the rest.\<close>

definition does ::
  "fs_calls \<Rightarrow> gconf \<Rightarrow> (gasync \<Rightarrow> gasync outcome) \<Rightarrow> int \<Rightarrow> int \<Rightarrow> (nat \<Rightarrow> js_string set) \<Rightarrow> bool" where
  "does fs g f s wt N = (\<forall>T X st st'. f st = Returns st' \<longrightarrow> on_course fs g T (\<lambda>i. N i \<union> X i) (s + wt) st \<longrightarrow>
     0 \<le> s \<longrightarrow> (s = 0 \<longrightarrow> (\<forall>i. X i = {})) \<longrightarrow> on_course fs g T X s st')"

lemma doesD:
  assumes "does fs g f s wt N" "f st = Returns st'" "on_course fs g T (\<lambda>i. N i \<union> X i) (s + wt) st" "0 \<le> s"
    "s = 0 \<longrightarrow> (\<forall>i. X i = {})"
  shows "on_course fs g T X s st'"
  using assms unfolding does_def by blast

lemma does_nothing: "does fs g Returns s 0 (\<lambda>i. {})"
  by (simp add: does_def)

lemma does_then:
  assumes "does fs g f1 s 0 N1" "does fs g f2 s 0 N2" "0 < s"
  shows "does fs g (\<lambda>st. on_return (f1 st) f2) s 0 (\<lambda>i. N1 i \<union> N2 i)"
  unfolding does_def
proof (intro allI impI)
  fix T X st st'
  assume run: "on_return (f1 st) f2 = Returns st'" and c: "on_course fs g T (\<lambda>i. (N1 i \<union> N2 i) \<union> X i) (s + 0) st"
    and s: "0 \<le> s" "s = 0 \<longrightarrow> (\<forall>i. X i = {})"
  obtain st1 where st1: "f1 st = Returns st1" "f2 st1 = Returns st'" using run by (auto simp: on_return_Returns)
  have "on_course fs g T (\<lambda>i. N2 i \<union> X i) (s + 0) st1"
    using doesD [OF assms(1) st1(1), of T "\<lambda>i. N2 i \<union> X i"] c s assms(3) by (simp add: Un_assoc)
  from doesD [OF assms(2) st1(2) this s] show "on_course fs g T X s st'" .
qed

text \<open>A loop over works that count, or over any works while a caller is counted.\<close>

lemma does_fold:
  assumes "\<And>x s'. x \<in> set xs \<Longrightarrow> s \<le> s' \<Longrightarrow> does fs g (f x) s' (wt x) (N x)"
    and "\<And>x. x \<in> set xs \<Longrightarrow> 0 \<le> wt x \<and> (0 < s \<or> (wt x = 0 \<longrightarrow> (\<forall>i. N x i = {})))"
  shows "does fs g (fold_outcome f xs) s (sum_list (map wt xs)) (\<lambda>i. \<Union>x \<in> set xs. N x i)"
  using assms
proof (induction xs)
  case Nil
  show ?case using does_nothing by (simp add: does_def)
next
  case (Cons x xs)
  define r where "r = sum_list (map wt xs)"
  define R where "R = (\<lambda>i. \<Union>x \<in> set xs. N x i)"
  have r: "0 \<le> r" unfolding r_def by (rule sum_list_nonneg) (use Cons.prems(2) in auto)
  have zero: "R i = {}" if "s = 0" "r = 0" for i
  proof -
    have "wt y = 0" if y: "y \<in> set xs" for y
      using \<open>r = 0\<close> Cons.prems(2) y sum_list_nonneg_eq_0_iff [of "map wt xs"] by (auto simp: r_def)
    then show ?thesis using Cons.prems(2) that(1) by (auto simp: R_def)
  qed
  have rest: "does fs g (fold_outcome f xs) s r R" unfolding r_def R_def by (rule Cons.IH) (use Cons.prems in auto)
  show ?case unfolding does_def
  proof (intro allI impI)
    fix T X st st'
    assume run: "fold_outcome f (x # xs) st = Returns st'"
      and c: "on_course fs g T (\<lambda>i. (\<Union>x \<in> set (x # xs). N x i) \<union> X i) (s + sum_list (map wt (x # xs))) st"
      and s: "0 \<le> s" "s = 0 \<longrightarrow> (\<forall>i. X i = {})"
    obtain st1 where st1: "f x st = Returns st1" "fold_outcome f xs st1 = Returns st'"
      using run by (auto simp: on_return_Returns)
    have "does fs g (f x) (s + r) (wt x) (N x)" using Cons.prems(1) r by simp
    moreover have "on_course fs g T (\<lambda>i. N x i \<union> (R i \<union> X i)) (s + r + wt x) st"
      using c by (simp add: R_def r_def Un_assoc algebra_simps)
    ultimately have "on_course fs g T (\<lambda>i. R i \<union> X i) (s + r) st1"
      using doesD [of fs g "f x" "s + r" "wt x" "N x" st st1 T "\<lambda>i. R i \<union> X i"] st1(1) s r zero by auto
    from doesD [OF rest st1(2) this s] show "on_course fs g T X s st'" .
  qed
qed

lemma found_text:
  assumes "plain_search fs g" "list_all name ns"
  shows "found_names fs g ns [] = text_names fs g (join_slash ns)"
proof (cases "ns = []")
  case True
  then show ?thesis using plain_search_facts(2) [OF assms(1)] by (simp add: found_names_def text_names_def make_abs_def)
next
  case False
  have "is_absolute (gc_process_cwd g)" using assms(1) by (simp add: plain_search_def)
  from make_abs_below [OF this assms(2)] False show ?thesis
    by (auto simp: found_names_def text_names_def exists_below_def)
qed

lemma respond_ok:
  assumes "\<And>cb s'. s \<le> s' \<Longrightarrow> (\<exists>key. cb_ok g key cb \<and> answer_ok fs key a) \<Longrightarrow>
      does fs g (run (WCall a cb)) s' (weight cb) (cb_names fs g cb)"
    and "answer_ok fs key a" "ga_reqs st key = Some cbs" "on_course fs g T X s st" "0 \<le> s" "s = 0 \<longrightarrow> (\<forall>i. X i = {})"
    and "fold_outcome (\<lambda>cb. run (WCall a cb)) cbs (st\<lparr>ga_reqs := (ga_reqs st)(key \<mapsto> [])\<rparr>) = Returns st1"
  shows "on_course fs g T X s st1"
proof -
  have ok: "cb_ok g key cb" if "cb \<in> set cbs" for cb
    using on_course_inv [OF assms(4)] assms(3) that by (auto simp: async_inv_def entry_def split: option.splits)
  have "does fs g (fold_outcome (\<lambda>cb. run (WCall a cb)) cbs) s (sum_list (map weight cbs)) (\<lambda>i. \<Union>cb \<in> set cbs. cb_names fs g cb i)"
  proof (rule does_fold)
    show "does fs g (run (WCall a cb)) s' (weight cb) (cb_names fs g cb)" if "cb \<in> set cbs" "s \<le> s'" for cb s'
      using assms(1) [OF that(2)] ok [OF that(1)] assms(2) by blast
  qed (simp add: cb_names_weightless)
  from doesD [OF this assms(7) _ assms(5,6)] on_course_take [OF assms(4,3)] show ?thesis
    by (simp add: all_names_def weights_def)
qed

lemma prefix_parts_held:
  assumes "list_all name here" "pre = (if here = [] then None else Some (join_slash here))"
  shows "prefix_parts pre @ ps = held here ps"
  using rel_facts(1) [OF assms(1)] assms(2) by (simp add: prefix_parts_def held_def)

lemma prefixed_join:
  assumes "list_all name (here @ [e])" "pre = (if here = [] then None else Some (join_slash here))"
  shows "prefixed pre e = join_slash (here @ [e])"
proof (cases "here = []")
  case False
  have "list_all name here" using assms(1) by simp
  note rel = rel_facts [OF this False]
  have "join_slash here \<noteq> [47]" using rel(2) by auto
  then show ?thesis using False rel(1) assms(2) by (simp add: prefixed_def join_append)
qed (simp add: prefixed_def assms(2))

lemma globstar2_does:
  assumes search: "plain_search fs g" and s: "0 \<le> s"
    and run: "\<And>w wt N s. work_ok fs g w s wt N \<Longrightarrow> 0 \<le> s \<Longrightarrow> does fs g (run w) s wt N"
    and here: "list_all name here" and es: "fs_readdir fs (below g here) = Entries es" and qs: "list_all plain_part qs"
    and pre: "pre = (if here = [] then None else Some (join_slash here))"
  shows "does fs g (process_globstar2 g run pre (below g here) (Globstar # qs) i in_globstar es) s 1
    (at_index i (found_names fs g here (Globstar # qs)))"
  unfolding does_def
proof (intro allI impI)
  fix T X st st'
  assume go: "process_globstar2 g run pre (below g here) (Globstar # qs) i in_globstar es st = Returns st'"
    and c: "on_course fs g T (\<lambda>j. at_index i (found_names fs g here (Globstar # qs)) j \<union> X j) (s + 1) st"
    and X: "s = 0 \<longrightarrow> (\<forall>i. X i = {})"
  have disk: "plain_disk fs" using search by (simp add: plain_search_def)
  define B where "B = (\<lambda>e. if take 1 e = [46] \<and> \<not> gc_dot g then {}
    else found_names fs g here (Lit e # qs) \<union> found_names fs g here (Lit e # Globstar # qs))"
  have names: "found_names fs g here (Globstar # qs) = found_names fs g here qs \<union> (\<Union>e \<in> set es. B e)"
    unfolding found_globstar [OF disk here es] B_def by auto
  let ?each = "\<lambda>e st. if take 1 e = [46] \<and> \<not> gc_dot g then Returns st
              else on_return (run (WProcess (held here (Lit e # qs)) i True) st)
                     (run (WProcess (held here (Lit e # Globstar # qs)) i True))"
  have proc: "does fs g (run (WProcess (held here ps) i ing)) s' 0 (at_index i (found_names fs g here ps))"
    if "0 < s'" "list_all plain_part ps" for ps s' ing
    by (rule run) (use that here in \<open>auto simp: work_ok_def\<close>)
  obtain st1 where st1: "run (WProcess (held here qs) i False) st = Returns st1"
    and go1: "(if gy_symlinks (ga_walk st1) (below g here) = Some True \<and> in_globstar then Returns (async_done st1)
       else on_return (fold_outcome ?each es st1) (\<lambda>st2. Returns (async_done st2))) = Returns st'"
    using go unfolding process_globstar2_def prefix_parts_held [OF here pre] list.sel by (auto simp: on_return_Returns)
  have "on_course fs g T (\<lambda>j. at_index i (found_names fs g here qs) j \<union> (at_index i (\<Union>e \<in> set es. B e) j \<union> X j)) (s + 1 + 0) st"
    using c unfolding names by (simp add: at_index_def Un_assoc if_distrib [of "\<lambda>A. A \<union> _"] cong: if_cong)
  from doesD [OF proc st1 this] have c1: "on_course fs g T (\<lambda>j. at_index i (\<Union>e \<in> set es. B e) j \<union> X j) (s + 1) st1"
    using s qs by simp
  have "coherent fs g (ga_walk st1)" using on_course_inv [OF c1] by (simp add: async_inv_def)
  then have "gy_symlinks (ga_walk st1) (below g here) \<noteq> Some True"
    using plain_search_facts(3) [OF search] unfolding coherent_def by blast
  with go1 obtain st2 where st2: "fold_outcome ?each es st1 = Returns st2" "st' = async_done st2"
    by (auto simp: on_return_Returns)
  have "does fs g (fold_outcome ?each es) (s + 1) (sum_list (map (\<lambda>e. 0) es)) (\<lambda>j. \<Union>e \<in> set es. at_index i (B e) j)"
  proof (rule does_fold)
    fix e s' assume e: "e \<in> set es" and s': "s + 1 \<le> s'"
    have plain: "plain_part (Lit e)" "plain_part Globstar" using disk es e unfolding plain_disk_def plain_part_def by auto
    show "does fs g (?each e) s' 0 (at_index i (B e))"
    proof (cases "take 1 e = [46] \<and> \<not> gc_dot g")
      case True
      then have "at_index i (B e) = (\<lambda>i. {})" by (simp add: B_def at_index_def fun_eq_iff)
      then show ?thesis using True does_nothing by simp
    next
      case False
      have "at_index i (B e) = (\<lambda>j. at_index i (found_names fs g here (Lit e # qs)) j
          \<union> at_index i (found_names fs g here (Lit e # Globstar # qs)) j)"
        using False by (auto simp: B_def at_index_def fun_eq_iff)
      then show ?thesis unfolding if_not_P [OF False]
        using does_then [OF proc [of s' "Lit e # qs" True] proc [of s' "Lit e # Globstar # qs" True]] s s' qs plain
        by simp
    qed
  qed (use s in simp)
  moreover have "(\<lambda>j. \<Union>e \<in> set es. at_index i (B e) j) = at_index i (\<Union>e \<in> set es. B e)"
    by (auto simp: at_index_def fun_eq_iff)
  ultimately have "does fs g (fold_outcome ?each es) (s + 1) 0 (at_index i (\<Union>e \<in> set es. B e))" by (simp add: sum_list_triv)
  from doesD [OF this st2(1)] c1 s have "on_course fs g T X (s + 1) st2" by simp
  from on_course_done [OF this s X] show "on_course fs g T X s st'" using st2(2) by simp
qed

lemma emit_all:
  assumes "plain_search fs g" "on_course fs g T (\<lambda>j. at_index i (f ` set es) j \<union> X j) s st" "0 < s"
  shows "on_course fs g T X s (fold (\<lambda>e. emit_match g i (f e)) es st)"
  using assms(2)
proof (induction es arbitrary: st)
  case Nil
  then show ?case by (simp add: at_index_def if_distrib [of "\<lambda>A. A \<union> _"] cong: if_cong)
next
  case (Cons e es)
  have "(\<lambda>j. at_index i (f ` set (e # es)) j \<union> X j) = (\<lambda>j. at_index i {f e} j \<union> (at_index i (f ` set es) j \<union> X j))"
    by (auto simp: at_index_def fun_eq_iff)
  with Cons.prems on_course_emit [OF assms(1) _ assms(3), of T i "f e" "\<lambda>j. at_index i (f ` set es) j \<union> X j" st]
  have "on_course fs g T (\<lambda>j. at_index i (f ` set es) j \<union> X j) s (emit_match g i (f e) st)" by simp
  from Cons.IH [OF this] show ?case by simp
qed

lemma readdir2_does:
  assumes search: "plain_search fs g" and s: "0 \<le> s"
    and run: "\<And>w wt N s. work_ok fs g w s wt N \<Longrightarrow> 0 \<le> s \<Longrightarrow> does fs g (run w) s wt N"
    and here: "list_all name here" and es: "fs_readdir fs (below g here) = Entries es"
    and qs: "list_all plain_part (p # qs)" and p: "\<not> is_lit p" "p \<noteq> Globstar"
    and pre: "pre = (if here = [] then None else Some (join_slash here))"
  shows "does fs g (process_readdir2 g run pre (p # qs) i in_globstar es) s 1 (at_index i (found_names fs g here (p # qs)))"
  unfolding does_def
proof (intro allI impI)
  fix T X st st'
  assume go: "process_readdir2 g run pre (p # qs) i in_globstar es st = Returns st'"
    and c: "on_course fs g T (\<lambda>j. at_index i (found_names fs g here (p # qs)) j \<union> X j) (s + 1) st"
    and X: "s = 0 \<longrightarrow> (\<forall>i. X i = {})"
  have disk: "plain_disk fs" and neg: "\<not> mm_negate (gc_matcher g)" and mark: "\<not> gc_mark g"
    using search by (simp_all add: plain_search_def)
  obtain re glob where rx: "p = Rx re glob" using p qs by (cases p) (auto simp: plain_part_def is_lit_def)
  obtain dots where dots: "dot_ok g p = Returns dots"
    using go unfolding process_readdir2_def list.sel by (auto simp: on_return_Returns)
  have "dots = (gc_dot g \<or> take 1 glob = [46])" using dots by (auto simp: dot_ok_def rx split: if_splits)
  then have takes: "entry_matches g pre p dots e = part_takes g p e" for e
    using neg by (auto simp: entry_matches_def part_takes_def rx)
  define found where "found = filter (entry_matches g pre p dots) es"
  have name: "name e" if "e \<in> set found" for e using disk es that unfolding plain_disk_def found_def by auto
  have found_set: "set found = {e \<in> set es. part_takes g p e}" by (auto simp: found_def takes)
  have names: "found_names fs g here (p # qs) = (\<Union>e \<in> set found. found_names fs g here (Lit e # qs))"
    unfolding found_one [OF disk here es p(2)] found_set ..
  have join: "prefixed pre e = join_slash (here @ [e])" if "e \<in> set found" for e
    using prefixed_join [OF _ pre, of e] here name [OF that] by simp
  have go1: "(if found = [] then Returns (async_done st)
       else if length (p # qs) = 1 \<and> \<not> gc_mark g \<and> \<not> gc_stat g
       then Returns (async_done (fold (\<lambda>e. emit_match g i (mounted g (prefixed pre e))) found (make_slot i st)))
       else on_return (fold_outcome (\<lambda>e. run (WProcess (Lit (prefixed pre e) # qs) i in_globstar)) found st)
           (\<lambda>st1. Returns (async_done st1))) = Returns st'"
    using go unfolding process_readdir2_def list.sel dots on_return.simps Let_def found_def [symmetric] .
  consider (none) "found = []" | (last) "found \<noteq> []" "qs = []" "\<not> gc_stat g" | (more) "found \<noteq> []" "qs \<noteq> [] \<or> gc_stat g" by blast
  then show "on_course fs g T X s st'"
  proof cases
    case none
    then have "on_course fs g T X (s + 1) st" using c unfolding names by (simp add: at_index_def if_distrib [of "\<lambda>A. A \<union> _"] cong: if_cong)
    from on_course_done [OF this s X] show ?thesis using go1 none by simp
  next
    case last
    define f where "f = (\<lambda>e. mounted g (prefixed pre e))"
    have f: "f e = join_slash (here @ [e])" if "e \<in> set found" for e
    proof -
      have "list_all name (here @ [e])" using here name [OF that] by simp
      then have "rel_text (join_slash (here @ [e]))" unfolding rel_text_def by blast
      from rel_text_facts(2) [OF search this] show ?thesis by (simp add: f_def join [OF that])
    qed
    have "found_names fs g here (p # qs) = f ` set found"
    proof -
      have "found_names fs g here (Lit e # qs) = {f e}" if "e \<in> set found" for e
        using found_leaf [OF disk here es, of e] that f found_set last(2) by auto
      then show ?thesis unfolding names by auto
    qed
    then have "on_course fs g T (\<lambda>j. at_index i (f ` set found) j \<union> X j) (s + 1) (make_slot i st)"
      using on_course_slot [OF c] by simp
    from emit_all [OF search this] s have "on_course fs g T X (s + 1) (fold (\<lambda>e. emit_match g i (f e)) found (make_slot i st))" by simp
    from on_course_done [OF this s X] show ?thesis using go1 last mark by (simp add: f_def)
  next
    case more
    with go1 obtain st1 where st1: "fold_outcome (\<lambda>e. run (WProcess (Lit (prefixed pre e) # qs) i in_globstar)) found st = Returns st1"
      and st': "st' = async_done st1" by (auto simp: on_return_Returns split: if_splits)
    have "does fs g (fold_outcome (\<lambda>e. run (WProcess (Lit (prefixed pre e) # qs) i in_globstar)) found) (s + 1)
        (sum_list (map (\<lambda>e. 0) found)) (\<lambda>j. \<Union>e \<in> set found. at_index i (found_names fs g here (Lit e # qs)) j)"
    proof (rule does_fold)
      fix e s' assume e: "e \<in> set found" and s': "s + 1 \<le> s'"
      have eq: "Lit (prefixed pre e) # qs = held (here @ [e]) qs" by (simp add: held_def join [OF e])
      have "found_names fs g here (Lit e # qs) = found_names fs g (here @ [e]) qs"
        using found_lits [of "[e]" fs g here qs] name [OF e] by simp
      then show "does fs g (run (WProcess (Lit (prefixed pre e) # qs) i in_globstar)) s' 0
          (at_index i (found_names fs g here (Lit e # qs)))"
        unfolding eq by (intro run) (use s s' here name [OF e] qs in \<open>auto simp: work_ok_def intro!: exI [of _ "here @ [e]"] exI [of _ qs]\<close>)
    qed (use s in simp)
    moreover have "(\<lambda>j. \<Union>e \<in> set found. at_index i (found_names fs g here (Lit e # qs)) j) = at_index i (found_names fs g here (p # qs))"
      unfolding names by (auto simp: at_index_def fun_eq_iff)
    ultimately have "does fs g (fold_outcome (\<lambda>e. run (WProcess (Lit (prefixed pre e) # qs) i in_globstar)) found) (s + 1) 0
        (at_index i (found_names fs g here (p # qs)))" by (simp add: sum_list_triv)
    from doesD [OF this st1] c s have "on_course fs g T X (s + 1) st1" by simp
    from on_course_done [OF this s X] show ?thesis using st' by simp
  qed
qed

lemma no_entries:
  assumes "plain_search fs g" "kind_at fs p = None \<or> kind_at fs p = Some KFile"
  shows "\<nexists>es. fs_readdir fs p = Entries es"
  using settled_entries [OF plain_search_facts(1) [OF assms(1)], of p] assms(2) by auto

lemma process_does:
  assumes search: "plain_search fs g" and s: "0 < s"
    and run: "\<And>w wt N s. work_ok fs g w s wt N \<Longrightarrow> 0 \<le> s \<Longrightarrow> does fs g (run_n d g w) s wt N"
    and ns: "list_all name ns" and qs: "list_all plain_part qs"
  shows "does fs g (run_n (Suc d) g (WProcess (held ns qs) i in_globstar)) s 0 (at_index i (found_names fs g ns qs))"
  unfolding does_def
proof (intro allI impI)
  fix T X st st'
  assume go: "run_n (Suc d) g (WProcess (held ns qs) i in_globstar) st = Returns st'"
    and c: "on_course fs g T (\<lambda>j. at_index i (found_names fs g ns qs) j \<union> X j) (s + 0) st"
    and X: "s = 0 \<longrightarrow> (\<forall>i. X i = {})"
  define pattern where "pattern = held ns qs"
  define n where "n = length (takeWhile is_lit pattern)"
  obtain ts rest where ts: "list_all name ts" and rest: "list_all plain_part rest" and split: "qs = map Lit ts @ rest"
    and stop: "rest = [] \<or> \<not> is_lit (hd rest)" and n: "n = length (held ns (map Lit ts))"
    and drop: "drop n pattern = rest" and take: "take n pattern = held ns (map Lit ts)"
    using held_split [OF qs, of ns] unfolding n_def pattern_def by metis
  define here where "here = ns @ ts"
  have here: "list_all name here" using ns ts by (simp add: here_def)
  have names: "found_names fs g ns qs = found_names fs g here rest"
    unfolding split here_def by (rule found_lits [OF ts])
  have whole: "pattern = held ns (map Lit ts) @ rest" using take drop append_take_drop_id [of n pattern] by simp
  define pre where "pre = (if here = [] then None else Some (join_slash here))"
  define dir where "dir = (if here = [] then [46] else join_slash here)"
  have rp: "read_prefix pattern n = (pre, dir)"
    unfolding whole n pre_def dir_def here_def using prefix_held [OF ns ts, of rest] by simp
  have cwd: "is_absolute (gc_process_cwd g)" using search by (simp add: plain_search_def)
  have ab: "make_abs g dir = below g here" unfolding dir_def by (rule make_abs_below [OF cwd here])
  define st1 where "st1 = st\<lparr>ga_processing := ga_processing st + 1\<rparr>"
  have inv: "async_inv fs g st" by (rule on_course_inv [OF c])
  then have alive: "\<not> ga_aborted st" by (simp add: async_inv_def)
  have "ga_processing st = table_weight (ga_reqs st) + s" using c by (simp add: on_course_def)
  then have "0 < ga_processing st" using s table_weight_nonneg [of "ga_reqs st"] by linarith
  then have c1: "on_course fs g T (\<lambda>j. at_index i (found_names fs g here rest) j \<union> X j) (s + 1) st1"
    using c s unfolding names
    by (auto simp: on_course_def st1_def async_inv_def slot_of_def outstanding_def ends_right_def)
  note eqs = run_n_step awork.case if_not_P [OF alive] st1_def [symmetric] pattern_def [symmetric] n_def [symmetric] Let_def
    rp prod.case ab drop
  show "on_course fs g T X s st'"
  proof (cases "rest = []")
    case True
    then have all: "n = length pattern" using n whole by simp
    have "join_slash (map lit_text pattern) = join_slash here" using held_text [of ns ts] whole True by (simp add: here_def)
    then have "st' = async_stat g (join_slash here) i st1" using go all unfolding eqs by simp
    moreover have "rel_text (join_slash here)" using here unfolding rel_text_def by blast
    ultimately show ?thesis
      using async_stat_ok [OF search _ _ X, of T i "join_slash here" st1] c1 s True found_text [OF search here] by simp
  next
    case False
    then have more: "n \<noteq> length pattern" using n whole by simp
    have kept: "\<not> children_ignored g dir" using plain_search_facts(6) [OF search] .
    define cb where "cb = CReaddir pre (below g here) rest i in_globstar"
    have go1: "run_n d g (WReaddir (below g here) in_globstar cb) st1 = Returns st'"
      using go unfolding eqs if_not_P [OF more] if_not_P [OF kept] cb_def .
    have of_pre: "here_of pre = here"
      using parts_join [OF names_components [OF here]] by (simp add: here_of_def pre_def)
    have "cb_ok g (KReaddir (below g here) in_globstar) cb"
      using here False stop rest by (simp add: cb_ok_def cb_def of_pre) (simp add: pre_def)
    moreover have "rel_dir g (below g here)" using here unfolding rel_dir_def by blast
    ultimately have "work_ok fs g (WReaddir (below g here) in_globstar cb) s (weight cb) (cb_names fs g cb)"
      by (simp add: work_ok_def)
    from doesD [OF run [OF this] go1] show ?thesis using c1 s X
      by (simp add: cb_names_def weight_def cb_def of_pre)
  qed
qed

lemma readdir_does:
  assumes search: "plain_search fs g" and s: "0 \<le> s"
    and run: "\<And>w wt N s. work_ok fs g w s wt N \<Longrightarrow> 0 \<le> s \<Longrightarrow> does fs g (run_n d g w) s wt N"
    and cb: "cb_ok g (KReaddir ab in_globstar) cb" and dir: "rel_dir g ab"
  shows "does fs g (run_n (Suc d) g (WReaddir ab in_globstar cb)) s (weight cb) (cb_names fs g cb)"
  unfolding does_def
proof (intro allI impI)
  fix T X st st'
  assume go: "run_n (Suc d) g (WReaddir ab in_globstar cb) st = Returns st'"
    and c: "on_course fs g T (\<lambda>i. cb_names fs g cb i \<union> X i) (s + weight cb) st"
    and X: "s = 0 \<longrightarrow> (\<forall>i. X i = {})"
  define key where "key = KReaddir ab in_globstar"
  have alive: "\<not> ga_aborted st" using on_course_inv [OF c] by (simp add: async_inv_def)
  obtain fresh st1 where en: "enlist key cb st = (fresh, st1)" by (cases "enlist key cb st")
  note enl = on_course_enlist [OF c cb [folded key_def] s X en]
  have coh: "coherent fs g (ga_walk st1)" using on_course_inv [OF enl(1)] by (simp add: async_inv_def)
  have empty: "on_course fs g T (\<lambda>i. {} \<union> X i) (s + 0) st1" using enl(1) by simp
  note eqs = run_n_step awork.case if_not_P [OF alive] Let_def key_def [symmetric] en prod.case
  show "on_course fs g T X s st'"
  proof (cases fresh)
    case False
    then show ?thesis using go enl(1) unfolding eqs by simp
  next
    case fresh: True
    show ?thesis
    proof (cases "in_globstar \<and> gy_symlinks (ga_walk st1) ab = None")
      case ask: True
      show ?thesis
      proof (cases "gc_follow g")
        case True
        then have go1: "run_n d g (WReaddir ab False (CRes key)) st1 = Returns st'"
          using go fresh ask unfolding eqs by simp
        have "work_ok fs g (WReaddir ab False (CRes key)) s 0 (\<lambda>i. {})"
          using ask dir by (simp add: work_ok_def cb_ok_def key_def weight_def cb_names_def)
        from doesD [OF run [OF this s] go1 empty s X] show ?thesis .
      next
        case False
        obtain fresh2 st2 where en2: "enlist (KLstat ab) (CLstat ab) st1 = (fresh2, st2)" by (cases "enlist (KLstat ab) (CLstat ab) st1")
        have "cb_ok g (KLstat ab) (CLstat ab)" using False dir by (simp add: cb_ok_def)
        moreover have "on_course fs g T (\<lambda>i. cb_names fs g (CLstat ab) i \<union> X i) (s + weight (CLstat ab)) st1"
          using enl(1) by (simp add: cb_names_def weight_def)
        ultimately have "on_course fs g T X s st2" using on_course_enlist(1) [OF _ _ s X en2] by blast
        moreover have "st' = (if fresh2 then call_fs (FLstat ab (KLstat ab)) st2 else st2)"
          using go fresh ask False en2 unfolding eqs by simp
        ultimately show ?thesis using on_course_call by (simp add: req_ok_def)
      qed
    next
      case False
      have respond: ?thesis if "run_n d g (WRespond key (AEntries e)) st1 = Returns st'" "answer_ok fs key (AEntries e)" for e
      proof -
        have "work_ok fs g (WRespond key (AEntries e)) s 0 (\<lambda>i. {})" using that(2) by (simp add: work_ok_def)
        from doesD [OF run [OF this s] that(1) empty s X] show ?thesis .
      qed
      have wait: ?thesis if "st' = call_fs (FReaddir ab key) st1"
        using that on_course_call [OF enl(1), of "FReaddir ab key"] dir by (simp add: req_ok_def key_def)
      note go1 = go [unfolded eqs if_not_P [OF False]]
      show ?thesis
      proof (cases "gy_cache (ga_walk st1) ab")
        case None
        then show ?thesis using go1 fresh wait by simp
      next
        case (Some c)
        have ok: "entry_ok fs ab c" using coherent_entry [OF coh Some] .
        show ?thesis
          using go1 fresh Some ok respond wait no_entries [OF search, of ab]
          by (cases c) (auto simp: answer_ok_def key_def)
      qed
    qed
  qed
qed

lemma moved_trans: "moved fs g a b \<Longrightarrow> moved fs g b c \<Longrightarrow> moved fs g a c"
  unfolding moved_def by (metis subset_trans)

lemma respond_does:
  assumes s: "0 \<le> s"
    and run: "\<And>w wt N s. work_ok fs g w s wt N \<Longrightarrow> 0 \<le> s \<Longrightarrow> does fs g (run_n d g w) s wt N"
    and a: "answer_ok fs key a"
  shows "does fs g (run_n (Suc d) g (WRespond key a)) s 0 (\<lambda>i. {})"
  unfolding does_def
proof (intro allI impI)
  fix T X st st'
  assume go: "run_n (Suc d) g (WRespond key a) st = Returns st'"
    and c: "on_course fs g T (\<lambda>i. {} \<union> X i) (s + 0) st" and X: "s = 0 \<longrightarrow> (\<forall>i. X i = {})"
  have c0: "on_course fs g T X s st" using c by simp
  obtain cbs where cbs: "ga_reqs st key = Some cbs" using go by (cases "ga_reqs st key") auto
  obtain st1 where st1: "fold_outcome (\<lambda>cb. run_n d g (WCall a cb)) cbs (st\<lparr>ga_reqs := (ga_reqs st)(key \<mapsto> [])\<rparr>) = Returns st1"
    and st': "st' = (if ga_reqs st1 key = None \<or> ga_reqs st1 key = Some []
                    then st1\<lparr>ga_reqs := (ga_reqs st1)(key := None)\<rparr>
                    else st1\<lparr>ga_ticks := ga_ticks st1 @ [(key, a)]\<rparr>)"
    using go cbs by (auto simp: on_return_Returns)
  have "does fs g (run_n d g (WCall a cb)) s' (weight cb) (cb_names fs g cb)"
    if "s \<le> s'" "\<exists>key. cb_ok g key cb \<and> answer_ok fs key a" for cb s'
    by (rule run) (use that s in \<open>simp_all add: work_ok_def\<close>)
  from respond_ok [OF this a cbs c0 s X st1] have "on_course fs g T X s st1" .
  from on_course_close [OF this a] show "on_course fs g T X s st'" unfolding st' .
qed

lemma call_does:
  assumes search: "plain_search fs g" and s: "0 \<le> s"
    and run: "\<And>w wt N s. work_ok fs g w s wt N \<Longrightarrow> 0 \<le> s \<Longrightarrow> does fs g (run_n d g w) s wt N"
    and cb: "cb_ok g key cb" and a: "answer_ok fs key a"
  shows "does fs g (run_n (Suc d) g (WCall a cb)) s (weight cb) (cb_names fs g cb)"
proof (cases cb)
  case (CRes key')
  have "answer_ok fs key' a" using cb a by (auto simp: CRes cb_ok_def answer_ok_def)
  then have "work_ok fs g (WRespond key' a) s 0 (\<lambda>i. {})" by (simp add: work_ok_def)
  from run [OF this s] show ?thesis by (simp add: CRes weight_def cb_names_def does_def)
next
  case (CLstat ab)
  have key: "key = KLstat ab" "\<not> gc_follow g" "rel_dir g ab" using cb by (simp_all add: CLstat cb_ok_def)
  then have a_eq: "a = AKind (fs_lstat fs ab)" using a by (simp add: answer_ok_def)
  have kind: "kind_at fs ab = fs_lstat fs ab" "fs_lstat fs ab \<noteq> Some KLink" using plain_search_facts(3,4) [OF search] by auto
  have respond: "does fs g (run_n d g (WRespond (KReaddir ab True) (AEntries None))) s 0 (\<lambda>i. {})"
    if "kind_at fs ab = None \<or> kind_at fs ab = Some KFile"
    by (rule run) (use no_entries [OF search that] s in \<open>simp_all add: work_ok_def answer_ok_def\<close>)
  have read: "does fs g (run_n d g (WReaddir ab False (CRes (KReaddir ab True)))) s 0 (\<lambda>i. {})"
    by (rule run) (use key s in \<open>simp_all add: work_ok_def cb_ok_def weight_def cb_names_def\<close>)
  show ?thesis unfolding does_def CLstat
  proof (intro allI impI)
    fix T X st st'
    assume go: "run_n (Suc d) g (WCall a (CLstat ab)) st = Returns st'"
      and c: "on_course fs g T (\<lambda>i. cb_names fs g (CLstat ab) i \<union> X i) (s + weight (CLstat ab)) st"
      and s': "0 \<le> s" and X: "s = 0 \<longrightarrow> (\<forall>i. X i = {})"
    have c0: "on_course fs g T (\<lambda>i. {} \<union> X i) (s + 0) st" using c by (simp add: cb_names_def weight_def)
    have coh: "coherent fs g (ga_walk st)" using on_course_inv [OF c] by (simp add: async_inv_def)
    show "on_course fs g T X s st'"
    proof (cases "fs_lstat fs ab")
      case None
      then show ?thesis using go doesD [OF respond _ c0 s X] kind by (simp add: a_eq)
    next
      case (Some k)
      define w1 where "w1 = (ga_walk st)\<lparr>gy_symlinks := (gy_symlinks (ga_walk st))(ab \<mapsto> k = KLink)\<rparr>"
      have w1: "moved fs g (ga_walk st) w1" using coh key(2) Some by (auto simp: moved_def coherent_def w1_def)
      show ?thesis
      proof (cases "k = KDir")
        case True
        have "on_course fs g T (\<lambda>i. {} \<union> X i) (s + 0) (st\<lparr>ga_walk := w1\<rparr>)" by (rule on_course_walk [OF c0 w1])
        moreover have "run_n d g (WReaddir ab False (CRes (KReaddir ab True))) (st\<lparr>ga_walk := w1\<rparr>) = Returns st'"
          using go by (simp add: a_eq Some True w1_def)
        ultimately show ?thesis using doesD [OF read _ _ s X] by blast
      next
        case False
        then have k: "k = KFile" using kind(2) Some by (cases k) auto
        define w2 where "w2 = w1\<lparr>gy_cache := (gy_cache w1)(ab \<mapsto> CFile)\<rparr>"
        have "moved fs g w1 w2" unfolding w2_def
          by (rule moved_cache) (use w1 kind Some k in \<open>simp_all add: moved_def\<close>)
        then have "moved fs g (ga_walk st) w2" using w1 moved_trans by blast
        from on_course_walk [OF c0 this] have "on_course fs g T (\<lambda>i. {} \<union> X i) (s + 0) (st\<lparr>ga_walk := w2\<rparr>)" .
        moreover have "run_n d g (WRespond (KReaddir ab True) (AEntries None)) (st\<lparr>ga_walk := w2\<rparr>) = Returns st'"
          using go by (simp add: a_eq Some k w2_def w1_def)
        ultimately show ?thesis using doesD [OF respond _ _ s X] kind Some k by simp
      qed
    qed
  qed
next
  case (CStat f i)
  have key: "key = KStat (make_abs g f)" "rel_text f" using cb by (simp_all add: CStat cb_ok_def)
  then have a_eq: "a = AKind (kind_at fs (make_abs g f))"
    using a plain_search_facts(4) [OF search, of "make_abs g f"] by (simp add: answer_ok_def)
  have "kind_at fs (make_abs g f) \<noteq> Some KLink"
    using plain_search_facts(3,4) [OF search, of "make_abs g f"] by simp
  then show ?thesis
    using async_stat2_ok [OF search _ _ _ key(2)] unfolding does_def CStat a_eq
    by (auto simp: cb_names_def weight_def)
next
  case (CReaddir pre ab remain i in_globstar)
  define here where "here = here_of pre"
  from cb have "(\<exists>ing'. key = KReaddir ab ing') \<and> list_all name here \<and> ab = below g here
      \<and> pre = (if here = [] then None else Some (join_slash here))
      \<and> remain \<noteq> [] \<and> \<not> is_lit (hd remain) \<and> list_all plain_part remain"
    unfolding CReaddir cb_ok_def acb.case here_def .
  then have ok: "list_all name here" "ab = below g here" "pre = (if here = [] then None else Some (join_slash here))"
    "remain \<noteq> []" "\<not> is_lit (hd remain)" "list_all plain_part remain" "\<exists>ing. key = KReaddir ab ing"
    by blast+
  obtain p qs where remain: "remain = p # qs" using ok(4) by (cases remain) auto
  have disk: "plain_disk fs" using search by (simp add: plain_search_def)
  obtain e where e: "a = AEntries e"
    "e = None \<Longrightarrow> \<nexists>es. fs_readdir fs ab = Entries es" "\<And>es. e = Some es \<Longrightarrow> fs_readdir fs ab = Entries es"
    using a ok(7) by (auto simp: answer_ok_def split: answer.splits option.splits)
  show ?thesis
  proof (cases e)
    case None
    have "found_names fs g here remain = {}"
      using found_unread [OF disk ok(1), of g p qs] e(2) [OF None] ok(2,5) by (simp add: remain)
    then have "cb_names fs g cb = (\<lambda>i. {})" by (simp add: CReaddir cb_names_def at_index_def here_def fun_eq_iff)
    then show ?thesis using on_course_done by (auto simp: does_def CReaddir e(1) None weight_def)
  next
    case (Some es)
    have es: "fs_readdir fs (below g here) = Entries es" using e(3) [OF Some] ok(2) by simp
    have names: "cb_names fs g cb = at_index i (found_names fs g here (p # qs))" "weight cb = 1"
      by (simp_all add: CReaddir cb_names_def here_def remain weight_def)
    show ?thesis
    proof (cases "p = Globstar")
      case True
      have "run_n (Suc d) g (WCall a cb) = process_globstar2 g (run_n d g) pre (below g here) (Globstar # qs) i in_globstar es"
        by (simp add: fun_eq_iff CReaddir e(1) Some remain True ok(2))
      then show ?thesis unfolding names True
        using globstar2_does [OF search s run ok(1) es _ ok(3)] ok(6) by (simp add: remain)
    next
      case False
      have "run_n (Suc d) g (WCall a cb) = process_readdir2 g (run_n d g) pre (p # qs) i in_globstar es"
        using False by (simp add: fun_eq_iff CReaddir e(1) Some remain)
      then show ?thesis unfolding names
        using readdir2_does [OF search s run ok(1) es _ _ False ok(3)] ok(5,6) by (simp add: remain)
    qed
  qed
qed

lemma run_does:
  assumes "plain_search fs g"
  shows "work_ok fs g w s wt N \<Longrightarrow> 0 \<le> s \<Longrightarrow> does fs g (run_n d g w) s wt N"
proof (induction d arbitrary: w s wt N)
  case 0
  then show ?case by (simp add: does_def)
next
  case (Suc d)
  show ?case
  proof (cases w)
    case (WProcess p j ing)
    then show ?thesis using Suc.prems process_does [OF assms _ Suc.IH] by (auto simp: work_ok_def simp del: run_n_step)
  next
    case (WReaddir ab ing cb)
    then show ?thesis using Suc.prems readdir_does [OF assms _ Suc.IH] by (auto simp: work_ok_def simp del: run_n_step)
  next
    case (WRespond key a)
    then show ?thesis using Suc.prems respond_does [OF _ Suc.IH] by (auto simp: work_ok_def simp del: run_n_step)
  next
    case (WCall a cb)
    then show ?thesis using Suc.prems call_does [OF assms _ Suc.IH] by (auto simp: work_ok_def simp del: run_n_step)
  qed
qed

section \<open>Nobody waits in vain\<close>

text \<open>Who will answer a key: a call under way, a turn, or a callback that waits for another key.\<close>

definition has_responder :: "akey \<Rightarrow> gasync \<Rightarrow> bool" where
  "has_responder key st =
     ((\<exists>a. (key, a) \<in> set (ga_ticks st))
      \<or> (case key of
           KReaddir ab ing \<Rightarrow> FReaddir ab key \<in> set (ga_pending st)
             \<or> (ing \<and> (CLstat ab \<in> set (entry (ga_reqs st) (KLstat ab)) \<or> CRes key \<in> set (entry (ga_reqs st) (KReaddir ab False))))
         | KLstat ab \<Rightarrow> FLstat ab key \<in> set (ga_pending st)
         | KStat ab \<Rightarrow> FLstat ab key \<in> set (ga_pending st)))"

definition shape_ok :: "akey \<Rightarrow> acb \<Rightarrow> bool" where
  "shape_ok key cb = (case cb of
       CRes key' \<Rightarrow> \<exists>ab. key' = KReaddir ab True \<and> key = KReaddir ab False
     | CLstat ab \<Rightarrow> key = KLstat ab | _ \<Rightarrow> True)"

definition owed :: "acb \<Rightarrow> akey set" where
  "owed cb = (case cb of CRes key \<Rightarrow> {key} | CLstat ab \<Rightarrow> {KReaddir ab True} | _ \<Rightarrow> {})"

definition awaited :: "akey set \<Rightarrow> gasync \<Rightarrow> bool" where
  "awaited R st =
     (\<not> ga_aborted st \<and> (\<forall>key cb. cb \<in> set (entry (ga_reqs st) key) \<longrightarrow> shape_ok key cb)
      \<and> (\<forall>key. ga_reqs st key \<noteq> None \<longrightarrow> key \<in> R \<or> has_responder key st))"

definition work_owed :: "awork \<Rightarrow> akey set" where
  "work_owed w = (case w of WProcess p i ing \<Rightarrow> {} | WReaddir ab ing cb \<Rightarrow> owed cb | WRespond key a \<Rightarrow> {key} | WCall a cb \<Rightarrow> owed cb)"

definition work_shape :: "awork \<Rightarrow> bool" where
  "work_shape w = (case w of WReaddir ab ing cb \<Rightarrow> shape_ok (KReaddir ab ing) cb | WCall a cb \<Rightarrow> \<exists>key. shape_ok key cb | _ \<Rightarrow> True)"

lemma has_responder_mono:
  assumes "has_responder key st" "set (ga_pending st) \<subseteq> set (ga_pending st')" "set (ga_ticks st) \<subseteq> set (ga_ticks st')"
    "\<And>k. set (entry (ga_reqs st) k) \<subseteq> set (entry (ga_reqs st') k)"
  shows "has_responder key st'"
  using assms(1,2,3) assms(4) [THEN subsetD] unfolding has_responder_def by (cases key) auto

lemma awaited_same:
  assumes "awaited R st" "ga_aborted st' = ga_aborted st" "ga_reqs st' = ga_reqs st"
    "set (ga_pending st) \<subseteq> set (ga_pending st')" "set (ga_ticks st) \<subseteq> set (ga_ticks st')"
  shows "awaited R st'"
  using assms(1-3) has_responder_mono [OF _ assms(4,5)] unfolding awaited_def by (metis order_refl)

lemma awaited_mono: "awaited R st \<Longrightarrow> R \<subseteq> S \<Longrightarrow> awaited S st"
  unfolding awaited_def by blast

lemma awaited_enlist:
  assumes "awaited (R \<union> owed cb) st" "shape_ok key cb" "enlist key cb st = (fresh, st')"
  shows "awaited (if fresh then insert key R else R) st'"
proof -
  have reqs: "ga_reqs st' = (ga_reqs st)(key \<mapsto> entry (ga_reqs st) key @ [cb])"
    and rest: "ga_pending st' = ga_pending st" "ga_ticks st' = ga_ticks st" "ga_aborted st' = ga_aborted st"
    and fresh: "fresh \<longleftrightarrow> ga_reqs st key = None"
    using assms(3) by (auto simp: enlist_def entry_def split: option.splits)
  have grow: "set (entry (ga_reqs st) k) \<subseteq> set (entry (ga_reqs st') k)" for k by (auto simp: reqs entry_upd)
  have old: "has_responder k st \<Longrightarrow> has_responder k st'" for k
    by (rule has_responder_mono [OF _ _ _ grow]) (simp_all add: rest)
  have new: "has_responder k st'" if "k \<in> owed cb" for k
  proof (cases cb)
    case (CRes k')
    with that assms(2) obtain ab where "k = KReaddir ab True" "key = KReaddir ab False" "cb = CRes k"
      by (auto simp: owed_def shape_ok_def)
    then show ?thesis by (simp add: has_responder_def reqs entry_upd)
  next
    case (CLstat ab)
    then show ?thesis using that assms(2) by (simp add: owed_def shape_ok_def has_responder_def reqs entry_upd)
  qed (use that in \<open>simp_all add: owed_def\<close>)
  have "key \<notin> owed cb" using assms(2) by (cases cb) (auto simp: owed_def shape_ok_def)
  then show ?thesis
    using assms(1,2) fresh old new unfolding awaited_def rest
    by (auto simp: reqs entry_upd split: if_splits)
qed

lemma awaited_call:
  assumes "awaited (insert key R) st" "r = FLstat ab key \<and> (key = KLstat ab \<or> key = KStat ab) \<or> r = FReaddir ab key \<and> (\<exists>ing. key = KReaddir ab ing)"
  shows "awaited R (call_fs r st)"
proof -
  have "has_responder key (call_fs r st)" using assms(2) by (auto simp: has_responder_def call_fs_def)
  moreover have "has_responder k st \<Longrightarrow> has_responder k (call_fs r st)" for k
    by (rule has_responder_mono) (auto simp: call_fs_def)
  ultimately show ?thesis using assms(1) unfolding awaited_def by (auto simp: call_fs_def)
qed

lemma awaited_done: "awaited R st \<Longrightarrow> awaited R (async_done st)"
  by (erule awaited_same) (simp_all add: async_done_def Let_def)

lemma awaited_simple2: "awaited R st \<Longrightarrow> awaited R (process_simple2 g f i found st)"
  by (erule awaited_same)
    (simp_all add: process_simple2_def make_slot_def emit_match_def async_done_def Let_def split: prod.split)

lemma awaited_stat2: "awaited R st \<Longrightarrow> awaited R (async_stat2 g ab f i kind st)"
  unfolding async_stat2_def Let_def
  by (auto split: option.split intro!: awaited_simple2 elim!: awaited_same)

lemma awaited_stat_now:
  assumes "awaited R st"
  shows "awaited R (async_stat_now g f i st)"
proof (cases "ga_gone st (make_abs g f) \<or> gy_stats (ga_walk st) (make_abs g f) \<noteq> None")
  case True
  then show ?thesis using awaited_simple2 [OF assms] by (auto simp: async_stat_now_def Let_def)
next
  case False
  define key where "key = KStat (make_abs g f)"
  obtain fresh st1 where en: "enlist key (CStat f i) st = (fresh, st1)" by (cases "enlist key (CStat f i) st")
  have "awaited (if fresh then insert key R else R) st1"
    by (rule awaited_enlist [OF _ _ en]) (use assms in \<open>simp_all add: owed_def shape_ok_def\<close>)
  then have "awaited R (if fresh then call_fs (FLstat (make_abs g f) key) st1 else st1)"
    using awaited_call [of key R st1] by (auto simp: key_def)
  then show ?thesis using False en by (auto simp: async_stat_now_def key_def Let_def)
qed

lemma awaited_stat: "awaited R st \<Longrightarrow> awaited R (async_stat g f i st)"
  unfolding async_stat_def Let_def
  by (auto split: option.split intro!: awaited_simple2 awaited_stat_now)

lemma awaited_emits: "awaited R st \<Longrightarrow> awaited R (fold (\<lambda>e. emit_match g i (f e)) es st)"
proof (induction es arbitrary: st)
  case (Cons e es)
  have "awaited R (emit_match g i (f e) st)"
    by (rule awaited_same [OF Cons.prems]) (simp_all add: emit_match_def split: prod.split)
  from Cons.IH [OF this] show ?case by simp
qed simp

lemma awaited_fold:
  assumes "fold_outcome f xs st = Returns st'" "awaited (R \<union> (\<Union>x \<in> set xs. D x)) st"
    and "\<And>x S st st'. x \<in> set xs \<Longrightarrow> f x st = Returns st' \<Longrightarrow> awaited (S \<union> D x) st \<Longrightarrow> awaited S st'"
  shows "awaited R st'"
  using assms
proof (induction xs arbitrary: st)
  case (Cons x xs)
  then obtain st1 where st1: "f x st = Returns st1" "fold_outcome f xs st1 = Returns st'" by (auto simp: on_return_Returns)
  have "awaited ((R \<union> (\<Union>y \<in> set xs. D y)) \<union> D x) st" by (rule awaited_mono [OF Cons.prems(2)]) auto
  from Cons.prems(3) [OF _ st1(1) this] have "awaited (R \<union> (\<Union>y \<in> set xs. D y)) st1" by simp
  show ?case
  proof (rule Cons.IH [OF st1(2) \<open>awaited (R \<union> (\<Union>y \<in> set xs. D y)) st1\<close>])
    fix y S st st' assume "y \<in> set xs" "f y st = Returns st'" "awaited (S \<union> D y) st"
    then show "awaited S st'" using Cons.prems(3) [of y st st' S] by simp
  qed
qed simp

lemma awaited_respond:
  assumes "fold_outcome (\<lambda>cb. f cb) cbs (st\<lparr>ga_reqs := (ga_reqs st)(key \<mapsto> [])\<rparr>) = Returns st1"
    "ga_reqs st key = Some cbs" "awaited (insert key R) st"
    and step: "\<And>cb S st st'. cb \<in> set cbs \<Longrightarrow> f cb st = Returns st' \<Longrightarrow> shape_ok key cb \<Longrightarrow>
      awaited (S \<union> owed cb) st \<Longrightarrow> awaited S st'"
  shows "awaited R (if ga_reqs st1 key = None \<or> ga_reqs st1 key = Some []
      then st1\<lparr>ga_reqs := (ga_reqs st1)(key := None)\<rparr> else st1\<lparr>ga_ticks := ga_ticks st1 @ [(key, a)]\<rparr>)"
proof -
  define st0 where "st0 = st\<lparr>ga_reqs := (ga_reqs st)(key \<mapsto> [])\<rparr>"
  have cbs: "entry (ga_reqs st) key = cbs" using assms(2) by (simp add: entry_def)
  have shape: "shape_ok key cb" if "cb \<in> set cbs" for cb using assms(3) cbs that unfolding awaited_def by blast
  define D where "D = (\<Union>cb \<in> set cbs. owed cb)"
  have D: "k \<in> D" if "CRes k \<in> set (entry (ga_reqs st) key)" for k
    using that unfolding cbs D_def by (auto simp: owed_def intro!: bexI [of _ "CRes k"])
  have D': "KReaddir ab True \<in> D" if "CLstat ab \<in> set (entry (ga_reqs st) key)" for ab
    using that unfolding cbs D_def by (auto simp: owed_def intro!: bexI [of _ "CLstat ab"])
  have kept: "k \<in> D \<or> has_responder k st0" if "has_responder k st" for k
    using that D D' unfolding has_responder_def st0_def by (cases k) (auto simp: entry_upd)
  have "k \<in> insert key R \<union> D \<or> has_responder k st0" if "ga_reqs st0 k \<noteq> None" for k
  proof -
    have "k = key \<or> ga_reqs st k \<noteq> None" using that by (auto simp: st0_def split: if_splits)
    then show ?thesis using assms(3) kept [of k] unfolding awaited_def by blast
  qed
  then have "awaited (insert key R \<union> D) st0"
    using assms(3) unfolding awaited_def by (simp add: st0_def entry_upd)
  then have st1: "awaited (insert key R) st1"
    unfolding D_def by (rule awaited_fold [OF assms(1) [folded st0_def]]) (use step shape in blast)
  show ?thesis
  proof (cases "ga_reqs st1 key = None \<or> ga_reqs st1 key = Some []")
    case True
    then have none: "entry (ga_reqs st1) key = []" by (auto simp: entry_def)
    then have same: "entry ((ga_reqs st1)(key := None)) = entry (ga_reqs st1)" by (simp add: fun_eq_iff entry_upd)
    have "has_responder k (st1\<lparr>ga_reqs := (ga_reqs st1)(key := None)\<rparr>)" if "has_responder k st1" for k
      by (rule has_responder_mono [OF that]) (simp_all add: same)
    then show ?thesis unfolding if_P [OF True] using st1 unfolding awaited_def by (auto simp: same)
  next
    case False
    have "has_responder k (st1\<lparr>ga_ticks := ga_ticks st1 @ [(key, a)]\<rparr>)" if "has_responder k st1" for k
      by (rule has_responder_mono [OF that]) auto
    moreover have "has_responder key (st1\<lparr>ga_ticks := ga_ticks st1 @ [(key, a)]\<rparr>)" by (auto simp: has_responder_def)
    ultimately show ?thesis unfolding if_not_P [OF False] using st1 unfolding awaited_def by auto
  qed
qed

lemma awaited_run:
  "run_n d g w st = Returns st' \<Longrightarrow> awaited (R \<union> work_owed w) st \<Longrightarrow> work_shape w \<Longrightarrow> awaited R st'"
proof (induction d arbitrary: w st st' R)
  case (Suc d)
  have alive: "\<not> ga_aborted st" using Suc.prems(2) by (simp add: awaited_def)
  have process: "awaited S st2" if "run_n d g (WProcess p i ing) st1 = Returns st2" "awaited S st1" for p i ing st1 st2 S
    by (rule Suc.IH [OF that(1)]) (use that(2) in \<open>simp_all add: work_owed_def work_shape_def\<close>)
  have respond: "awaited S st2" if "run_n d g (WRespond key a) st1 = Returns st2" "awaited (insert key S) st1" for key a st1 st2 S
    by (rule Suc.IH [OF that(1)]) (use that(2) in \<open>simp_all add: work_owed_def work_shape_def\<close>)
  show ?case
  proof (cases w)
    case (WProcess p i ing)
    define st1 where "st1 = st\<lparr>ga_processing := ga_processing st + 1\<rparr>"
    have st1: "awaited R st1"
      by (rule awaited_same [of R st]) (use Suc.prems(2) in \<open>simp_all add: WProcess work_owed_def st1_def\<close>)
    obtain pre dir where rp: "read_prefix p (length (takeWhile is_lit p)) = (pre, dir)" by force
    show ?thesis
    proof (cases "length (takeWhile is_lit p) = length p \<or> children_ignored g dir")
      case True
      then show ?thesis using Suc.prems(1) alive awaited_stat [OF st1] awaited_done [OF st1]
        by (auto simp: WProcess st1_def [symmetric] rp Let_def split: if_splits)
    next
      case False
      then obtain ab remain where "run_n d g (WReaddir ab ing (CReaddir pre ab remain i ing)) st1 = Returns st'"
        using Suc.prems(1) alive by (auto simp: WProcess st1_def [symmetric] rp Let_def)
      from Suc.IH [OF this] st1 show ?thesis by (simp add: work_owed_def work_shape_def owed_def shape_ok_def)
    qed
  next
    case (WReaddir ab ing cb)
    define key where "key = KReaddir ab ing"
    obtain fresh st1 where en: "enlist key cb st = (fresh, st1)" by (cases "enlist key cb st")
    have st1: "awaited (if fresh then insert key R else R) st1"
      by (rule awaited_enlist [OF _ _ en]) (use Suc.prems in \<open>simp_all add: WReaddir work_owed_def work_shape_def key_def\<close>)
    show ?thesis
    proof (cases fresh)
      case False
      then show ?thesis using Suc.prems(1) alive st1 en by (simp add: WReaddir key_def)
    next
      case fresh: True
      note go = Suc.prems(1) [unfolded WReaddir run_n_step awork.case if_not_P [OF alive] Let_def key_def [symmetric] en prod.case]
      show ?thesis
      proof (cases "ing \<and> gy_symlinks (ga_walk st1) ab = None")
        case ask: True
        show ?thesis
        proof (cases "gc_follow g")
          case True
          then have "run_n d g (WReaddir ab False (CRes key)) st1 = Returns st'" using go fresh ask by simp
          from Suc.IH [OF this] st1 fresh ask show ?thesis
            by (simp add: work_owed_def work_shape_def owed_def shape_ok_def key_def)
        next
          case False
          obtain fresh2 st2 where en2: "enlist (KLstat ab) (CLstat ab) st1 = (fresh2, st2)" by (cases "enlist (KLstat ab) (CLstat ab) st1")
          have "awaited (R \<union> owed (CLstat ab)) st1" using st1 fresh ask by (simp add: owed_def key_def)
          from awaited_enlist [OF this _ en2] have "awaited (if fresh2 then insert (KLstat ab) R else R) st2"
            by (simp add: shape_ok_def)
          then have "awaited R (if fresh2 then call_fs (FLstat ab (KLstat ab)) st2 else st2)"
            using awaited_call [of "KLstat ab" R st2] by auto
          then show ?thesis using go fresh ask False en2 by simp
        qed
      next
        case False
        have wait: "awaited R (call_fs (FReaddir ab key) st1)"
          using awaited_call [of key R st1 "FReaddir ab key" ab] st1 fresh by (simp add: key_def)
        have respond': "awaited R st'" if "run_n d g (WRespond key a) st1 = Returns st'" for a
          using respond [OF that] st1 fresh by simp
        show ?thesis using go fresh False wait respond' by (auto split: option.splits centry.splits)
      qed
    qed
  next
    case (WRespond key a)
    obtain cbs where cbs: "ga_reqs st key = Some cbs" using Suc.prems(1) by (cases "ga_reqs st key") (auto simp: WRespond)
    obtain st1 where st1: "fold_outcome (\<lambda>cb. run_n d g (WCall a cb)) cbs (st\<lparr>ga_reqs := (ga_reqs st)(key \<mapsto> [])\<rparr>) = Returns st1"
      and st': "st' = (if ga_reqs st1 key = None \<or> ga_reqs st1 key = Some []
                    then st1\<lparr>ga_reqs := (ga_reqs st1)(key := None)\<rparr>
                    else st1\<lparr>ga_ticks := ga_ticks st1 @ [(key, a)]\<rparr>)"
      using Suc.prems(1) cbs by (auto simp: WRespond on_return_Returns)
    have "awaited (insert key R) st" using Suc.prems(2) by (simp add: WRespond work_owed_def)
    from awaited_respond [OF st1 cbs this] show ?thesis unfolding st'
      using Suc.IH by (metis (no_types, lifting) awork.simps(20) work_owed_def work_shape_def)
  next
    case (WCall a cb)
    have st: "awaited (R \<union> owed cb) st" using Suc.prems(2) by (simp add: WCall work_owed_def)
    show ?thesis
    proof (cases cb)
      case (CRes key)
      then show ?thesis using Suc.prems(1) respond [of key a st st' R] st by (simp add: WCall owed_def)
    next
      case (CLstat ab)
      have owes: "awaited (insert (KReaddir ab True) R) st1" if "ga_reqs st1 = ga_reqs st" "ga_aborted st1 = ga_aborted st"
        "ga_pending st1 = ga_pending st" "ga_ticks st1 = ga_ticks st" for st1
        by (rule awaited_same [of _ st]) (use st that in \<open>simp_all add: CLstat owed_def\<close>)
      have read: "awaited R st'" if "run_n d g (WReaddir ab False (CRes (KReaddir ab True))) st1 = Returns st'"
        "awaited (insert (KReaddir ab True) R) st1" for st1
        using Suc.IH [OF that(1)] that(2) by (simp add: work_owed_def work_shape_def owed_def shape_ok_def)
      show ?thesis
        using Suc.prems(1) respond [of "KReaddir ab True" _ _ st' R] read owes
        by (auto simp: WCall CLstat Let_def split: answer.splits option.splits if_splits)
    next
      case (CStat f i)
      have st0: "awaited R st" using st by (simp add: CStat owed_def)
      have "awaited R (call_fs r st)" for r by (rule awaited_same [OF st0]) (auto simp: call_fs_def)
      then show ?thesis using Suc.prems(1) awaited_stat2 [OF st0]
        by (auto simp: WCall CStat split: answer.splits if_splits)
    next
      case (CReaddir pre ab remain i ing)
      have st0: "awaited R st" using st by (simp add: CReaddir owed_def)
      have each: "awaited S st2" if "fold_outcome f xs st1 = Returns st2" "awaited S st1"
        "\<And>x S st st'. x \<in> set xs \<Longrightarrow> f x st = Returns st' \<Longrightarrow> awaited S st \<Longrightarrow> awaited S st'" for f xs st1 st2 S
        by (rule awaited_fold [OF that(1), where D = "\<lambda>x. {}"]) (use that(2,3) in auto)
      obtain e where e: "a = AEntries e" using Suc.prems(1) by (cases a) (auto simp: WCall CReaddir)
      show ?thesis
      proof (cases e)
        case None
        then show ?thesis using Suc.prems(1) awaited_done [OF st0] by (simp add: WCall CReaddir e)
      next
        case (Some es)
        show ?thesis
        proof (cases "hd remain = Globstar")
          case True
          then have "process_globstar2 g (run_n d g) pre ab remain i ing es st = Returns st'"
            using Suc.prems(1) by (simp add: WCall CReaddir e Some)
          then show ?thesis unfolding process_globstar2_def
            by (auto simp: on_return_Returns split: if_splits intro!: awaited_done
                elim!: each process dest!: process [OF _ st0])
        next
          case False
          then have "process_readdir2 g (run_n d g) pre remain i ing es st = Returns st'"
            using Suc.prems(1) by (simp add: WCall CReaddir e Some)
          moreover have "awaited R (make_slot i st)" by (rule awaited_same [OF st0]) (simp_all add: make_slot_def)
          ultimately show ?thesis unfolding process_readdir2_def Let_def using st0
            by (auto simp: on_return_Returns split: if_splits intro!: awaited_done awaited_emits
                elim!: each process)
        qed
      qed
    qed
  qed
qed simp

section \<open>The constructor\<close>

text \<open>
  While the patterns are started nothing is known yet, so each of them waits. The count of the state
  is one short of what a run expects: \<open>lifted\<close> adds it.
\<close>

definition lifted :: "gasync \<Rightarrow> gasync" where
  "lifted st = st\<lparr>ga_processing := ga_processing st + 1\<rparr>"

definition blank :: "gasync \<Rightarrow> bool" where
  "blank st = (gy_cache (ga_walk st) = Map.empty \<and> gy_stats (ga_walk st) = Map.empty \<and> gy_symlinks (ga_walk st) = Map.empty
     \<and> (\<forall>p. \<not> ga_gone st p) \<and> ga_ends st = [] \<and> \<not> ga_aborted st)"

lemma on_course_more:
  assumes "on_course fs g T X s st" "0 < s"
  shows "on_course fs g T X (s + 1) (lifted st)"
proof -
  have "ga_processing st = table_weight (ga_reqs st) + s" using assms(1) by (simp add: on_course_def)
  then have "0 < ga_processing st" using assms(2) table_weight_nonneg [of "ga_reqs st"] by linarith
  then show ?thesis using assms
    by (auto simp: on_course_def lifted_def async_inv_def slot_of_def outstanding_def ends_right_def)
qed

lemma enlist_lifted: "enlist key cb st = (fresh, st') \<Longrightarrow> enlist key cb (lifted st) = (fresh, lifted st')"
  by (auto simp: enlist_def lifted_def split: option.splits)

lemma call_fs_lifted: "call_fs r (lifted st) = lifted (call_fs r st)"
  by (simp add: call_fs_def lifted_def)

lemma enlist_fields:
  "enlist key cb st = (fresh, st') \<Longrightarrow> ga_walk st' = ga_walk st \<and> ga_gone st' = ga_gone st \<and> ga_ends st' = ga_ends st
     \<and> ga_aborted st' = ga_aborted st \<and> ga_processing st' = ga_processing st"
  by (auto simp: enlist_def split: option.splits)

text \<open>One pattern is started: its callback waits.\<close>

definition join_in :: "akey \<Rightarrow> acb \<Rightarrow> fs_request \<Rightarrow> gasync \<Rightarrow> gasync" where
  "join_in key cb r st = (let (fresh, st1) = enlist key cb st in if fresh then call_fs r st1 else st1)"

lemma join_in_lifted: "join_in key cb r (lifted st) = lifted (join_in key cb r st)"
proof -
  obtain fresh st1 where "enlist key cb st = (fresh, st1)" by (cases "enlist key cb st")
  then show ?thesis using enlist_lifted by (simp add: join_in_def call_fs_lifted)
qed

lemma join_in_fields:
  "blank (join_in key cb r st) = blank st" "ga_processing (join_in key cb r st) = ga_processing st"
  by (auto simp: join_in_def blank_def call_fs_def enlist_def split: option.splits)

lemma blank_lifted: "blank (lifted st) = blank st"
  by (simp add: blank_def lifted_def)

lemma start_run:
  assumes search: "plain_search fs g"
  shows "\<exists>key cb r. \<forall>st. blank st \<longrightarrow>
    run_n (Suc (Suc d)) g (WProcess p i False) st = Returns (join_in key cb r (lifted st))"
proof -
  obtain pre dir where rp: "read_prefix p (length (takeWhile is_lit p)) = (pre, dir)" by force
  have len: "gc_max_length g = None" using search by (simp add: plain_search_def)
  show ?thesis
  proof (cases "length (takeWhile is_lit p) = length p")
    case True
    define f where "f = join_slash (map lit_text p)"
    have "run_n (Suc (Suc d)) g (WProcess p i False) st
        = Returns (join_in (KStat (make_abs g f)) (CStat f i) (FLstat (make_abs g f) (KStat (make_abs g f))) (lifted st))"
      if "blank st" for st
    proof -
      have "run_n (Suc (Suc d)) g (WProcess p i False) st = Returns (async_stat g f i (lifted st))"
        using that True by (simp add: blank_def lifted_def f_def Let_def)
      then show ?thesis using that len
        by (simp add: async_stat_def async_stat_now_def blank_def join_in_def Let_def lifted_def)
    qed
    then show ?thesis by blast
  next
    case False
    define ab where "ab = make_abs g dir"
    define cb where "cb = CReaddir pre ab (drop (length (takeWhile is_lit p)) p) i False"
    have "run_n (Suc (Suc d)) g (WProcess p i False) st
        = Returns (join_in (KReaddir ab False) cb (FReaddir ab (KReaddir ab False)) (lifted st))" if "blank st" for st
    proof -
      obtain fresh st1 where en: "enlist (KReaddir ab False) cb (lifted st) = (fresh, st1)"
        by (cases "enlist (KReaddir ab False) cb (lifted st)")
      have "blank st1" using enlist_fields [OF en] that by (simp add: blank_def lifted_def)
      then have "gy_cache (ga_walk st1) ab = None" by (simp add: blank_def)
      moreover have "\<not> ga_aborted st" using that by (simp add: blank_def)
      moreover have "\<not> ga_aborted (lifted st)" using that by (simp add: blank_def lifted_def)
      moreover have "run_n (Suc (Suc d)) g (WProcess p i False) st = run_n (Suc d) g (WReaddir ab False cb) (lifted st)"
        using calculation(2) False plain_search_facts(6) [OF search]
        by (simp add: rp ab_def cb_def lifted_def Let_def del: run_n_step [of d] cong: if_cong)
      ultimately show ?thesis using en by (simp add: join_in_def Let_def)
    qed
    then show ?thesis by blast
  qed
qed

lemma start_short: "plain_search fs g \<Longrightarrow> blank st \<Longrightarrow> run_n d g (WProcess p i False) st = Returns st' \<Longrightarrow>
  length (takeWhile is_lit p) = length p \<or> (\<exists>d'. d = Suc (Suc d'))"
  by (cases d; cases "d - 1") (auto simp: blank_def plain_search_facts(6) Let_def split: prod.splits if_splits)

lemma start_one:
  assumes search: "plain_search fs g" and ns: "list_all name ns" and qs: "list_all plain_part qs"
    and go: "run_n d g (WProcess (held ns qs) i False) st = Returns st'"
    and blank: "blank st" and c: "on_course fs g T (\<lambda>j. at_index i (found_names fs g ns qs) j \<union> X j) 1 (lifted st)"
  shows "on_course fs g T X 1 (lifted st') \<and> blank st' \<and> ga_processing st' = ga_processing st + 1"
proof -
  obtain key cb r where run: "\<And>st. blank st \<Longrightarrow>
      run_n (Suc (Suc (d - 2))) g (WProcess (held ns qs) i False) st = Returns (join_in key cb r (lifted st))"
    using start_run [OF search] by blast
  have st': "st' = join_in key cb r (lifted st)"
  proof (cases "\<exists>d'. d = Suc (Suc d')")
    case True
    then obtain d' where d: "d = Suc (Suc d')" by blast
    show ?thesis using run [OF blank] go unfolding d by (simp del: run_n_step)
  next
    case False
    with start_short [OF search blank go] have simple: "length (takeWhile is_lit (held ns qs)) = length (held ns qs)" by simp
    obtain d' where "d = Suc d'" using go by (cases d) auto
    then have "run_n (Suc (Suc (d - 2))) g (WProcess (held ns qs) i False) st = run_n d g (WProcess (held ns qs) i False) st"
      using simple by (simp add: Let_def)
    then show ?thesis using run [OF blank] go by simp
  qed
  have lifted_run: "run_n (Suc (Suc (d - 2))) g (WProcess (held ns qs) i False) (lifted st) = Returns (lifted st')"
    using run [of "lifted st"] blank by (simp add: blank_lifted st' join_in_lifted)
  have "work_ok fs g (WProcess (held ns qs) i False) 1 0 (at_index i (found_names fs g ns qs))"
    using ns qs by (auto simp: work_ok_def)
  from doesD [OF run_does [OF search this] lifted_run, of T X] c have "on_course fs g T X 1 (lifted st')" by simp
  then show ?thesis using blank by (simp add: st' join_in_fields blank_lifted) (simp add: lifted_def)
qed

section \<open>Every order of answers\<close>

definition all_found :: "fs_calls \<Rightarrow> gconf \<Rightarrow> nat \<Rightarrow> js_string set" where
  "all_found fs g i = (if i < length (mm_set (gc_matcher g)) then found_names fs g [] (mm_set (gc_matcher g) ! i) else {})"

lemma start_all:
  assumes search: "plain_search fs g" and parts: "\<forall>ps \<in> set (mm_set (gc_matcher g)). list_all plain_part ps"
    and go: "fold_outcome (\<lambda>i. run_n d g (WProcess (mm_set (gc_matcher g) ! i) i False)) [k..<length (mm_set (gc_matcher g))] st = Returns st'"
    and k: "k \<le> length (mm_set (gc_matcher g))" and blank: "blank st"
    and c: "on_course fs g T (\<lambda>i. if k \<le> i then all_found fs g i else {}) 1 (lifted st)"
  shows "on_course fs g T (\<lambda>i. {}) 1 (lifted st') \<and> blank st'
    \<and> ga_processing st' = ga_processing st + int (length (mm_set (gc_matcher g)) - k)"
  using go k blank c
proof (induction "length (mm_set (gc_matcher g)) - k" arbitrary: k st)
  case 0
  then have "k = length (mm_set (gc_matcher g))" by simp
  with 0 show ?case by (simp add: all_found_def if_distrib cong: if_cong)
next
  case (Suc m)
  let ?pss = "mm_set (gc_matcher g)"
  have k: "k < length ?pss" using Suc.hyps(2) by simp
  then have "[k..<length ?pss] = k # [Suc k..<length ?pss]" by (simp add: upt_conv_Cons)
  with Suc.prems(1) obtain st1 where st1: "run_n d g (WProcess (?pss ! k) k False) st = Returns st1"
    and rest: "fold_outcome (\<lambda>i. run_n d g (WProcess (?pss ! i) i False)) [Suc k..<length ?pss] st1 = Returns st'"
    by (auto simp: on_return_Returns)
  have plain: "list_all plain_part (?pss ! k)" using parts k by simp
  have X: "(\<lambda>i. if k \<le> i then all_found fs g i else {})
      = (\<lambda>i. at_index k (found_names fs g [] (?pss ! k)) i \<union> (if Suc k \<le> i then all_found fs g i else {}))"
    using k by (auto simp: fun_eq_iff at_index_def all_found_def Suc_le_eq le_less)
  have held: "held [] (?pss ! k) = ?pss ! k" by (simp add: held_def)
  from start_one [OF search _ plain, of "[]" d k st st1 T "\<lambda>i. if Suc k \<le> i then all_found fs g i else {}", unfolded held]
    st1 Suc.prems(3,4) X
  have one: "on_course fs g T (\<lambda>i. if Suc k \<le> i then all_found fs g i else {}) 1 (lifted st1)" "blank st1"
    "ga_processing st1 = ga_processing st + 1" by simp_all
  have "m = length ?pss - Suc k" "Suc k \<le> length ?pss" using Suc.hyps(2) k by simp_all
  from Suc.hyps(1) [OF this(1) rest this(2) one(2,1)] one(3) Suc.hyps(2) show ?case by simp
qed

lemma start_on_course:
  assumes search: "plain_search fs g" and parts: "\<forall>ps \<in> set (mm_set (gc_matcher g)). list_all plain_part ps"
    and go: "glob_start d g = Returns st" and some: "mm_set (gc_matcher g) \<noteq> []"
  shows "on_course fs g (all_found fs g) (\<lambda>i. {}) 0 st"
proof -
  let ?pss = "mm_set (gc_matcher g)"
  have "on_course fs g (all_found fs g) (\<lambda>i. if 0 \<le> i then all_found fs g i else {}) 1 (lifted gasync_init)"
    using coherent_init
    by (simp add: on_course_def async_inv_def lifted_def gasync_init_def table_weight_def slot_of_def match_slot_def
        outstanding_def entry_def ends_right_def gsync_init_def)
  moreover have "blank gasync_init" by (simp add: blank_def gasync_init_def gsync_init_def)
  moreover have "fold_outcome (\<lambda>i. run_n d g (WProcess (?pss ! i) i False)) [0..<length ?pss] gasync_init = Returns st"
    using go some by (simp add: glob_start_def Let_def)
  ultimately have "on_course fs g (all_found fs g) (\<lambda>i. {}) 1 (lifted st) \<and> blank st
      \<and> ga_processing st = ga_processing gasync_init + int (length ?pss - 0)"
    using start_all [OF search parts] by blast
  then have c: "on_course fs g (all_found fs g) (\<lambda>i. {}) 1 (lifted st)" and st: "blank st" "0 < ga_processing st"
    using some by (simp_all add: gasync_init_def)
  have "async_inv fs g st" using on_course_inv [OF c] by (simp add: async_inv_def lifted_def)
  then show ?thesis using c st
    by (simp add: on_course_def lifted_def slot_of_def outstanding_def ends_right_def blank_def)
qed

lemma start_awaited: "glob_start d g = Returns st \<Longrightarrow> mm_set (gc_matcher g) \<noteq> [] \<Longrightarrow> awaited {} st"
proof -
  assume go: "glob_start d g = Returns st" and some: "mm_set (gc_matcher g) \<noteq> []"
  have "awaited {} gasync_init" by (simp add: awaited_def gasync_init_def entry_def)
  moreover have "fold_outcome (\<lambda>i. run_n d g (WProcess (mm_set (gc_matcher g) ! i) i False))
      [0..<length (mm_set (gc_matcher g))] gasync_init = Returns st" using go some by (simp add: glob_start_def Let_def)
  ultimately show ?thesis
  proof (intro awaited_fold [where D = "\<lambda>x. {}" and R = "{}"])
    fix i S st st'
    assume "run_n d g (WProcess (mm_set (gc_matcher g) ! i) i False) st = Returns st'" "awaited (S \<union> {}) st"
    from awaited_run [OF this(1), of S] this(2) show "awaited S st'" by (simp add: work_owed_def work_shape_def)
  qed simp_all
qed

lemma awaited_take:
  assumes "awaited {} st" "ga_reqs st' = ga_reqs st" "ga_aborted st' = ga_aborted st"
    "\<And>k. has_responder k st \<Longrightarrow> k \<noteq> key \<Longrightarrow> has_responder k st'"
  shows "awaited {key} st'"
proof -
  have "k \<in> {key} \<or> has_responder k st'" if "ga_reqs st k \<noteq> None" for k
    using assms(1,4) that unfolding awaited_def by blast
  then show ?thesis using assms(1-3) unfolding awaited_def by simp
qed

lemma answer_on_course:
  assumes search: "plain_search fs g" and c: "on_course fs g T (\<lambda>i. {}) 0 st" and w: "awaited {} st"
    and pending: "ga_pending st = ps @ r # qs" and go: "answer_n d fs g r (st\<lparr>ga_pending := ps @ qs\<rparr>) = Returns st'"
  shows "on_course fs g T (\<lambda>i. {}) 0 st' \<and> awaited {} st'"
proof -
  define st0 where "st0 = st\<lparr>ga_pending := ps @ qs\<rparr>"
  have inv: "async_inv fs g st" by (rule on_course_inv [OF c])
  have c0: "on_course fs g T (\<lambda>i. {}) 0 st0"
    by (rule on_course_moved [OF c]) (use inv pending in \<open>simp_all add: async_inv_def st0_def\<close>)
  have ok: "req_ok g r" using inv pending by (simp add: async_inv_def)
  have alive: "\<not> ga_aborted st0" using inv by (simp add: async_inv_def st0_def)
  have waits: "awaited {key} st0" if "r = FLstat ab key \<or> r = FReaddir ab key" for ab key
  proof -
    have "has_responder k st0" if "has_responder k st" "k \<noteq> key" for k
      using that \<open>r = FLstat ab key \<or> r = FReaddir ab key\<close> pending unfolding has_responder_def st0_def
      by (cases k) auto
    then show ?thesis by (intro awaited_take [OF w]) (simp_all add: st0_def)
  qed
  have respond: "on_course fs g T (\<lambda>i. {}) 0 st' \<and> awaited {} st'"
    if "run_n d g (WRespond key a) st1 = Returns st'" "on_course fs g T (\<lambda>i. {}) 0 st1" "awaited {key} st1" "answer_ok fs key a" for key a st1
  proof -
    have "work_ok fs g (WRespond key a) 0 0 (\<lambda>i. {})" using that(4) by (simp add: work_ok_def)
    from doesD [OF run_does [OF search this] that(1), of T "\<lambda>i. {}"] that(2) have "on_course fs g T (\<lambda>i. {}) 0 st'" by simp
    moreover have "awaited {} st'" by (rule awaited_run [OF that(1)]) (use that(3) in \<open>simp_all add: work_owed_def work_shape_def\<close>)
    ultimately show ?thesis ..
  qed
  show ?thesis
  proof (cases r)
    case (FStat ab f i)
    then show ?thesis using ok by (simp add: req_ok_def)
  next
    case (FLstat ab key)
    then have "answer_ok fs key (AKind (fs_lstat fs ab))" using ok by (auto simp: req_ok_def answer_ok_def)
    moreover have "run_n d g (WRespond key (AKind (fs_lstat fs ab))) st0 = Returns st'"
      using go by (simp add: FLstat answer_n_def st0_def)
    ultimately show ?thesis using respond c0 waits FLstat by blast
  next
    case (FReaddir ab key)
    have key: "\<exists>ing. key = KReaddir ab ing" "rel_dir g ab" using ok by (simp_all add: FReaddir req_ok_def)
    have walk: "awaited {key} (st0\<lparr>ga_walk := w\<rparr>)" for w by (rule awaited_same [OF waits]) (simp_all add: FReaddir)
    have coh: "coherent fs g (ga_walk st0)" using on_course_inv [OF c0] by (simp add: async_inv_def)
    show ?thesis
    proof (cases "fs_readdir fs ab")
      case (Entries es)
      have "moved fs g (ga_walk st0) (readdir_entries g ab es (ga_walk st0))"
        by (rule coherent_entries [OF plain_search_facts(1) [OF search] coh Entries])
      from on_course_walk [OF c0 this] respond [OF _ _ walk] show ?thesis
        using go alive key Entries by (auto simp: FReaddir answer_n_def st0_def answer_ok_def)
    next
      case (ReadError code)
      have settled: "settled fs False" using search by (simp add: plain_search_def plain_disk_def)
      note err = settled_error [OF settled ReadError]
      obtain ns where ns: "list_all name ns" "ab = below g ns" using key(2) by (auto simp: rel_dir_def)
      have cwd: "is_absolute (gc_process_cwd g)" using search by (simp add: plain_search_def)
      have fixed: "make_abs g ab = ab"
        using plain_search_facts(7) [OF search] make_abs_below [OF cwd ns(1)] ns(2) by metis
      define c where "c = (if code \<in> set file_codes then CFile else CFalse)"
      have c': "entry_ok fs ab c" "async_readdir_error g ab code st0
          = st0\<lparr>ga_walk := (ga_walk st0)\<lparr>gy_cache := (gy_cache (ga_walk st0))(ab \<mapsto> c)\<rparr>\<rparr>"
        using err fixed by (auto simp: c_def async_readdir_error_def Let_def)
      have "run_n d g (WRespond key (AEntries None)) (async_readdir_error g ab code st0) = Returns st'"
        using go alive ReadError by (simp add: FReaddir answer_n_def st0_def)
      moreover have "answer_ok fs key (AEntries None)" using key ReadError by (auto simp: answer_ok_def)
      moreover have "on_course fs g T (\<lambda>i. {}) 0 (async_readdir_error g ab code st0)"
        unfolding c'(2) by (rule on_course_walk [OF c0 moved_cache [OF coh c'(1)]])
      ultimately show ?thesis using respond walk unfolding c'(2) by blast
    qed
  qed
qed

lemma turn_on_course:
  assumes search: "plain_search fs g" and c: "on_course fs g T (\<lambda>i. {}) 0 st" and w: "awaited {} st"
    and ticks: "ga_ticks st = (key, a) # ts" and go: "run_n d g (WRespond key a) (st\<lparr>ga_ticks := ts\<rparr>) = Returns st'"
  shows "on_course fs g T (\<lambda>i. {}) 0 st' \<and> awaited {} st'"
proof -
  define st0 where "st0 = st\<lparr>ga_ticks := ts\<rparr>"
  have inv: "async_inv fs g st" by (rule on_course_inv [OF c])
  have c0: "on_course fs g T (\<lambda>i. {}) 0 st0"
    by (rule on_course_moved [OF c]) (use inv ticks in \<open>simp_all add: async_inv_def st0_def\<close>)
  have "has_responder k st0" if "has_responder k st" "k \<noteq> key" for k
    using that ticks unfolding has_responder_def st0_def by (cases k) auto
  then have "awaited {key} st0" by (intro awaited_take [OF w]) (simp_all add: st0_def)
  then have "awaited {} st'"
    by (intro awaited_run [OF go [folded st0_def]]) (simp_all add: work_owed_def work_shape_def)
  moreover have "work_ok fs g (WRespond key a) 0 0 (\<lambda>i. {})" using inv ticks by (simp add: work_ok_def async_inv_def)
  from doesD [OF run_does [OF search this] go [folded st0_def], of T "\<lambda>i. {}"] c0
  have "on_course fs g T (\<lambda>i. {}) 0 st'" by simp
  ultimately show ?thesis by blast
qed

lemma async_run_on_course:
  assumes "async_run fs g st" "plain_search fs g" "\<forall>ps \<in> set (mm_set (gc_matcher g)). list_all plain_part ps"
    "mm_set (gc_matcher g) \<noteq> []"
  shows "on_course fs g (all_found fs g) (\<lambda>i. {}) 0 st \<and> awaited {} st"
  using assms(1)
proof induction
  case (starts d st)
  then show ?case using start_on_course [OF assms(2,3) _ assms(4)] start_awaited [OF _ assms(4)] by blast
next
  case (answers st ps r qs d st')
  then show ?case using answer_on_course [OF assms(2)] by blast
next
  case (turns st key a ts d st')
  then show ?case using turn_on_course [OF assms(2)] by blast
qed

lemma quiet_ended:
  assumes c: "on_course fs g T (\<lambda>i. {}) 0 st" and w: "awaited {} st" and quiet: "ga_pending st = []" "ga_ticks st = []"
  shows "\<exists>e. ga_ends st = [e]"
proof -
  have some: "ga_reqs st key \<noteq> None \<Longrightarrow> has_responder key st" for key using w by (auto simp: awaited_def)
  have low: "ga_reqs st (KLstat ab) = None" "ga_reqs st (KStat ab) = None" "ga_reqs st (KReaddir ab False) = None" for ab
    by (rule ccontr, drule some, simp add: has_responder_def quiet)+
  have high: "ga_reqs st (KReaddir ab True) = None" for ab
    by (rule ccontr, drule some) (simp add: has_responder_def quiet entry_def low)
  have "ga_reqs st key = None" for key
  proof (cases key)
    case (KReaddir ab ing)
    then show ?thesis using low(3) high by (cases ing) simp_all
  qed (simp_all add: low)
  then have "table_weight (ga_reqs st) = 0" by (simp add: table_weight_def dom_def)
  then show ?thesis using c by (auto simp: on_course_def ends_right_def)
qed

lemma sync_finish_set:
  assumes "\<not> gc_mark g" "gc_ignore g = []" "\<not> gc_nonull g" "\<And>xs. set (sorted_by xs) = set xs"
  shows "set (sync_finish sorted_by g st) = (\<Union>i < length (mm_set (gc_matcher g)). set (match_slot i st))"
proof -
  define per where "per = map (\<lambda>i. if match_slot i st = [] then (if gc_nonull g then [gc_globs g ! i] else [])
                         else object_keys (match_slot i st)) [0..<length (mm_set (gc_matcher g))]"
  have "set (concat per) = (\<Union>i < length (mm_set (gc_matcher g)). set (match_slot i st))"
    using assms(3) by (auto simp: per_def split: if_splits)
  moreover have "\<not> is_ignored g m" for m using assms(2) by (simp add: is_ignored_def)
  ultimately show ?thesis
    using assms(1,4) by (simp add: sync_finish_def per_def [symmetric] add_key_set Let_def)
qed

lemma idle_run:
  assumes "async_run fs g st" "mm_set (gc_matcher g) = []"
  shows "st = async_done gasync_init"
  using assms(1)
proof induction
  case (starts d st)
  then show ?case using assms(2) by (simp add: glob_start_def)
qed (simp_all add: async_done_def gasync_init_def)


section \<open>A search from start to end\<close>

definition text_conf :: gconf where
  "text_conf = globstar_conf\<lparr>gc_matcher := \<lparr>mm_options = default_glob, mm_pattern = js ''a'', mm_set = [[Lit (js ''a'')]],
     mm_negate = False, mm_comment = False, mm_empty = False\<rparr>, gc_globs := [js ''a'']\<rparr>"

lemma setopts_text: "setopts (js ''/w'') (js ''a'') default_glob default_sync = Returns text_conf"
proof -
  have parse: "parse_glob default_glob (js ''a'') False = Some (Lit (js ''a''))"
    by (simp add: parse_eval default_glob_def glob_unescape.simps)
  show ?thesis
    by (simp add: setopts_def default_glob_def default_sync_def no_options_def globstar_conf_def text_conf_def resolve_root
      make_minimatch_def js_trim_def js_space_def in_ranges_def space_ranges_def parse_negate_def glob_set_def
      brace_expand_def split_slashes.simps parse_segment_def parse [unfolded default_glob_def no_options_def, simplified] Let_def)
qed

definition first_wait :: gasync where
  "first_wait = gasync_init\<lparr>ga_reqs := [KStat (js ''/w/a'') \<mapsto> [CStat (js ''a'') 0]],
     ga_pending := [FLstat (js ''/w/a'') (KStat (js ''/w/a''))], ga_processing := 1\<rparr>"

lemma text_conf_fields:
  "mm_set (gc_matcher text_conf) = [[Lit (js ''a'')]]" "gc_max_length text_conf = None" "gc_stat text_conf = False"
  "make_abs text_conf [97] = [47, 119, 47, 97]" "gc_mark text_conf = False" "gc_nodir text_conf = False" "gc_ignore text_conf = []"
  by (simp_all add: text_conf_def make_abs_def tree_eval globstar_conf_def)

lemma first_wait_starts: "async_run tree_fs text_conf first_wait"
proof (rule async_run.starts)
  show "glob_start 1 text_conf = Returns first_wait"
    by (simp add: glob_start_def text_conf_fields is_lit_def lit_text_def async_stat_def async_stat_now_def enlist_def
        call_fs_def gasync_init_def gsync_init_def first_wait_def Let_def)
qed

lemma text_found:
  assumes "\<not> ga_aborted st" "match_slot 0 (ga_walk st) = []" "ga_processing st = 1" "ga_ends st = []"
  defines "st' \<equiv> async_stat2 text_conf (js ''/w/a'') (js ''a'') 0 (Some KFile) st"
  shows "ga_reqs st' = ga_reqs st" "ga_pending st' = ga_pending st" "ga_ticks st' = ga_ticks st"
    "map (match_slot 0) (ga_ends st') = [[js ''a'']]"
proof -
  have free: "match_slot 0 (cache_or ab c w) = match_slot 0 w" for ab c w
    by (simp add: cache_or_def match_slot_def split: option.splits)
  define st1 where "st1 = st\<lparr>ga_gone := (ga_gone st)(js ''/w/a'' := False), ga_walk := cache_or (js ''/w/a'') CFile
     ((ga_walk st)\<lparr>gy_stats := (gy_stats (ga_walk st))(js ''/w/a'' \<mapsto> KFile)\<rparr>)\<rparr>"
  have "st' = process_simple2 text_conf (js ''a'') 0 True st1"
    by (simp add: st'_def async_stat2_def ends_slash_def st1_def Let_def)
  moreover have "match_slot 0 (ga_walk st1) = []" using assms(2) by (simp add: st1_def free) (simp add: match_slot_def)
  ultimately have st': "st' = async_done (emit_match text_conf 0 (js ''a'') (make_slot 0 st1))"
    by (simp add: process_simple2_def mounted_def is_absolute_def Let_def)
  define st2 where "st2 = make_slot 0 st1"
  have slot: "match_slot 0 (ga_walk st2) = []"
    using \<open>match_slot 0 (ga_walk st1) = []\<close> by (simp add: st2_def make_slot_def match_slot_def)
  have same: "\<not> ga_aborted st2" "ga_processing st2 = 1" "ga_ends st2 = []" "ga_reqs st2 = ga_reqs st"
    "ga_pending st2 = ga_pending st" "ga_ticks st2 = ga_ticks st"
    using assms by (simp_all add: st2_def make_slot_def st1_def)
  have "emit_match text_conf 0 (js ''a'') st2
      = st2\<lparr>ga_walk := add_match 0 (js ''a'') (ga_walk st2), ga_events := ga_events st2 @ [js ''a'']\<rparr>"
    using slot same by (simp add: emit_match_def is_ignored_def text_conf_fields)
  moreover have "match_slot 0 (add_match 0 (js ''a'') (ga_walk st2)) = [js ''a'']"
    using slot by (simp add: add_match_def match_slot_def add_key_def)
  ultimately show "ga_reqs st' = ga_reqs st" "ga_pending st' = ga_pending st" "ga_ticks st' = ga_ticks st"
    "map (match_slot 0) (ga_ends st') = [[js ''a'']]"
    using same by (simp_all add: st' st2_def [symmetric] async_done_def)
qed

lemma text_answer:
  assumes "ga_reqs st key = Some [CStat (js ''a'') 0]" "make_abs text_conf (js ''a'') = js ''/w/a''"
  defines "st' \<equiv> async_stat2 text_conf (js ''/w/a'') (js ''a'') 0 (Some KFile) (st\<lparr>ga_reqs := (ga_reqs st)(key \<mapsto> [])\<rparr>)"
  assumes "ga_reqs st' key = Some []"
  shows "run_n (Suc (Suc 0)) text_conf (WRespond key (AKind (Some KFile))) st = Returns (st'\<lparr>ga_reqs := (ga_reqs st')(key := None)\<rparr>)"
  using assms by simp

lemma last_answer:
  obtains st where "async_run tree_fs text_conf st" "ga_pending st = []" "ga_ticks st = []"
    "map (match_slot 0) (ga_ends st) = [[js ''a'']]"
proof -
  define key where "key = KStat (js ''/w/a'')"
  define st0 where "st0 = first_wait\<lparr>ga_pending := [] @ []\<rparr>"
  define st1 where "st1 = st0\<lparr>ga_reqs := (ga_reqs st0)(key \<mapsto> [])\<rparr>"
  have "ga_walk st1 = gsync_init" by (simp add: st1_def st0_def first_wait_def gasync_init_def)
  then have slot: "match_slot 0 (ga_walk st1) = []" by (simp add: match_slot_def gsync_init_def)
  have start: "\<not> ga_aborted st1" "ga_processing st1 = 1" "ga_ends st1 = []" "ga_pending st1 = []" "ga_ticks st1 = []"
    "ga_reqs st1 key = Some []"
    by (simp_all add: st1_def st0_def first_wait_def gasync_init_def)
  note found = text_found [OF start(1) slot start(2,3)]
  define st2 where "st2 = async_stat2 text_conf (js ''/w/a'') (js ''a'') 0 (Some KFile) st1"
  have lstat: "fs_lstat tree_fs (js ''/w/a'') = Some KFile" by (simp add: tree_fs_def)
  have waits: "ga_reqs st0 key = Some [CStat (js ''a'') 0]" by (simp add: st0_def first_wait_def key_def)
  have path: "make_abs text_conf (js ''a'') = js ''/w/a''" by (simp add: text_conf_fields)
  have "run_n (Suc (Suc 0)) text_conf (WRespond key (AKind (Some KFile))) st0 = Returns (st2\<lparr>ga_reqs := (ga_reqs st2)(key := None)\<rparr>)"
    using text_answer [OF waits path, folded st1_def, folded st2_def] found(1) start(6) by (simp only: st2_def)
  then have "answer_n (Suc (Suc 0)) tree_fs text_conf (FLstat (js ''/w/a'') key) st0 = Returns (st2\<lparr>ga_reqs := (ga_reqs st2)(key := None)\<rparr>)"
    using lstat by (simp add: answer_n_def del: run_n_step)
  moreover have "ga_pending first_wait = [] @ FLstat (js ''/w/a'') key # []" by (simp add: first_wait_def key_def)
  ultimately have "async_run tree_fs text_conf (st2\<lparr>ga_reqs := (ga_reqs st2)(key := None)\<rparr>)"
    unfolding st0_def by (blast intro: async_run.answers [OF first_wait_starts])
  then show ?thesis using that found start by (simp add: st2_def)
qed


end
