(* ===== verification/JsGlobEnds.thy ===== *)
theory JsGlobEnds
  imports JsGlobAsync "HOL-Library.Multiset_Order"
begin

text \<open>
  The asynchronous search ends, whatever the file system answers and when. Every call that waits
  and every callback counts for a number, and a directory that is read for less than the callback
  that asked for it; the numbers of a state are a multiset, which becomes smaller with every answer.
  On the way every answer finds its callbacks and is dealt with by finitely many nested calls. Links
  are allowed here, and options as well, save those that mark directories.
\<close>

section \<open>Deep enough\<close>

lemma fold_persists:
  assumes "\<And>x st st'. f x st = Returns st' \<Longrightarrow> f' x st = Returns st'"
  shows "fold_outcome f xs st = Returns st' \<Longrightarrow> fold_outcome f' xs st = Returns st'"
proof (induction xs arbitrary: st)
  case (Cons x xs)
  then show ?case by (cases "f x st") (auto simp: assms)
qed simp

lemma bind_persists:
  assumes "on_return a f = Returns y" "\<And>x. a = Returns x \<Longrightarrow> b = Returns x" "\<And>x. f x = Returns y \<Longrightarrow> h x = Returns y"
  shows "on_return b h = Returns y"
  using assms by (cases a) auto

lemma bodies_persist:
  assumes run: "\<And>w st st'. run w st = Returns st' \<Longrightarrow> run' w st = Returns st'"
  shows "async_process g run p i ing st = Returns st' \<Longrightarrow> async_process g run' p i ing st = Returns st'"
    "async_readdir g run ab ing cb st = Returns st' \<Longrightarrow> async_readdir g run' ab ing cb st = Returns st'"
    "async_respond run key a st = Returns st' \<Longrightarrow> async_respond run' key a st = Returns st'"
    "globstar_lstat run ab kind st = Returns st' \<Longrightarrow> globstar_lstat run' ab kind st = Returns st'"
    "process_globstar2 g run pre ab remain i ing es st = Returns st' \<Longrightarrow> process_globstar2 g run' pre ab remain i ing es st = Returns st'"
    "process_readdir2 g run pre remain i ing es st = Returns st' \<Longrightarrow> process_readdir2 g run' pre remain i ing es st = Returns st'"
proof -
  show "async_process g run p i ing st = Returns st' \<Longrightarrow> async_process g run' p i ing st = Returns st'"
    by (auto simp: async_process_def Let_def run split: prod.splits if_splits)
  show "async_readdir g run ab ing cb st = Returns st' \<Longrightarrow> async_readdir g run' ab ing cb st = Returns st'"
  proof -
    assume go: "async_readdir g run ab ing cb st = Returns st'"
    obtain fresh st1 where en: "enlist (KReaddir ab ing) cb st = (fresh, st1)" by (cases "enlist (KReaddir ab ing) cb st")
    note eqs = async_readdir_def Let_def en prod.case
    show "async_readdir g run' ab ing cb st = Returns st'"
    proof (cases "ga_aborted st \<or> \<not> fresh \<or> ing \<and> gy_symlinks (ga_walk st1) ab = None")
      case True
      then show ?thesis using go unfolding eqs by (simp add: run split: if_split_asm)
    next
      case False
      then have cond: "\<not> ga_aborted st" "\<not> \<not> fresh" "\<not> (ing \<and> gy_symlinks (ga_walk st1) ab = None)" by auto
      show ?thesis using go unfolding eqs if_not_P [OF cond(1)] if_not_P [OF cond(2)] if_not_P [OF cond(3)]
        by (cases "gy_cache (ga_walk st1) ab") (simp_all add: run split: centry.splits)
    qed
  qed
  show "async_respond run key a st = Returns st' \<Longrightarrow> async_respond run' key a st = Returns st'"
    unfolding async_respond_def by (cases "ga_reqs st key") (auto elim!: bind_persists intro: fold_persists run)
  show "globstar_lstat run ab kind st = Returns st' \<Longrightarrow> globstar_lstat run' ab kind st = Returns st'"
    by (auto simp: globstar_lstat_def Let_def run split: option.splits if_splits)
  have each: "(if skip e then Returns st else on_return (run (a e) st) (run (b e))) = Returns st' \<Longrightarrow>
      (if skip e then Returns st else on_return (run' (a e) st) (run' (b e))) = Returns st'" for skip e a b st st'
    by (auto elim!: bind_persists intro: run)
  show "process_globstar2 g run pre ab remain i ing es st = Returns st' \<Longrightarrow> process_globstar2 g run' pre ab remain i ing es st = Returns st'"
    unfolding process_globstar2_def
    by (erule bind_persists) (auto intro: run elim!: bind_persists fold_persists [rotated] split: if_splits intro!: each)
  show "process_readdir2 g run pre remain i ing es st = Returns st' \<Longrightarrow> process_readdir2 g run' pre remain i ing es st = Returns st'"
    unfolding process_readdir2_def Let_def
    by (erule bind_persists) (auto elim!: bind_persists fold_persists [rotated] intro: run split: if_splits)
qed

lemma call_persists:
  assumes run: "\<And>w st st'. run w st = Returns st' \<Longrightarrow> run' w st = Returns st'"
  shows "async_call g run a cb st = Returns st' \<Longrightarrow> async_call g run' a cb st = Returns st'"
  unfolding async_call_def
  by (auto split: acb.splits answer.splits option.splits if_splits intro: run bodies_persist [OF run])

lemma run_persists: "run_n d g w st = Returns st' \<Longrightarrow> run_n (Suc d) g w st = Returns st'"
proof (induction d arbitrary: w st st')
  case (Suc d)
  define run where "run = run_n (Suc d) g"
  have "run w st = Returns st'" if "run_n d g w st = Returns st'" for w st st' using Suc.IH [OF that] by (simp add: run_def)
  note bodies = bodies_persist [of "run_n d g" run, OF this] call_persists [of "run_n d g" run, OF this]
  have "run_n (Suc (Suc d)) g w st = (case w of
        WProcess pattern i in_globstar \<Rightarrow> async_process g run pattern i in_globstar st
      | WReaddir ab in_globstar cb \<Rightarrow> async_readdir g run ab in_globstar cb st
      | WRespond key a \<Rightarrow> async_respond run key a st
      | WCall a cb \<Rightarrow> async_call g run a cb st)"
    unfolding run_def by (rule run_n.simps(2))
  then show ?case using Suc.prems by (cases w) (auto intro: bodies)
qed simp

lemma run_deeper:
  assumes "run_n d g w st = Returns st'"
  shows "run_n (j + d) g w st = Returns st'"
proof (induction j)
  case (Suc j)
  then show ?case using run_persists [of "j + d"] by (simp del: run_n.simps)
qed (simp add: assms)

lemma run_same: "run_n d g w st = Returns x \<Longrightarrow> run_n k g w st = Returns y \<Longrightarrow> x = y"
  using run_deeper [of d g w st x k] run_deeper [of k g w st y d] by (simp add: add.commute del: run_n.simps)

text \<open>A function that returns from some depth on, with a property of what it returns.\<close>

definition runs :: "(nat \<Rightarrow> 's \<Rightarrow> 's outcome) \<Rightarrow> 's \<Rightarrow> ('s \<Rightarrow> bool) \<Rightarrow> bool" where
  "runs F st Q = (\<exists>st' d. Q st' \<and> (\<forall>k \<ge> d. F k st = Returns st'))"

lemma runs_return: "Q st' \<Longrightarrow> (\<And>k. F k st = Returns st') \<Longrightarrow> runs F st Q"
  unfolding runs_def by blast

lemma runs_mono: "runs F st P \<Longrightarrow> (\<And>st'. P st' \<Longrightarrow> Q st') \<Longrightarrow> runs F st Q"
  unfolding runs_def by blast

lemma runs_bind:
  assumes "runs F st P" "\<And>st1. P st1 \<Longrightarrow> runs H st1 Q"
  shows "runs (\<lambda>k st. on_return (F k st) (H k)) st Q"
proof -
  obtain st1 d1 where 1: "P st1" "\<forall>k \<ge> d1. F k st = Returns st1" using assms(1) unfolding runs_def by blast
  obtain st2 d2 where 2: "Q st2" "\<forall>k \<ge> d2. H k st1 = Returns st2" using assms(2) [OF 1(1)] unfolding runs_def by blast
  have "\<forall>k \<ge> max d1 d2. on_return (F k st) (H k) = Returns st2" using 1(2) 2(2) by simp
  then show ?thesis using 2(1) unfolding runs_def by blast
qed

lemma runs_step:
  assumes "runs (\<lambda>k. run_n k g w) st Q" "\<And>k. F (Suc k) st = run_n k g w st"
  shows "runs F st Q"
proof -
  obtain st' d where st': "Q st'" "\<forall>k \<ge> d. run_n k g w st = Returns st'" using assms(1) unfolding runs_def by blast
  have "F k st = Returns st'" if "k \<ge> Suc d" for k using st'(2) assms(2) that by (cases k) auto
  then show ?thesis using st'(1) unfolding runs_def by blast
qed

lemma runs_Suc:
  assumes "runs B st Q" "\<And>k. F (Suc k) st = B k st"
  shows "runs F st Q"
proof -
  obtain st' d where st': "Q st'" "\<forall>k \<ge> d. B k st = Returns st'" using assms(1) unfolding runs_def by blast
  have "F k st = Returns st'" if "k \<ge> Suc d" for k using st'(2) assms(2) that by (cases k) auto
  then show ?thesis using st'(1) unfolding runs_def by blast
qed

text \<open>A loop, where \<open>P xs\<close> holds when \<open>xs\<close> is still to do.\<close>

lemma runs_fold:
  assumes "P xs st" "\<And>x ys st. x \<in> set xs \<Longrightarrow> set ys \<subseteq> set xs \<Longrightarrow> P (x # ys) st \<Longrightarrow> runs (\<lambda>k. F k x) st (P ys)"
  shows "runs (\<lambda>k. fold_outcome (F k) xs) st (P [])"
  using assms
proof (induction xs arbitrary: st)
  case Nil
  then show ?case by (intro runs_return [of "P []" st]) simp_all
next
  case (Cons x xs)
  have "runs (\<lambda>k. F k x) st (P xs)" by (rule Cons.prems(2)) (use Cons.prems(1) in auto)
  then have "runs (\<lambda>k st. on_return (F k x st) (fold_outcome (F k) xs)) st (P [])"
  proof (rule runs_bind)
    fix st1 assume "P xs st1"
    then show "runs (\<lambda>k. fold_outcome (F k) xs) st1 (P [])" using Cons.prems(2) by (intro Cons.IH) auto
  qed
  then show ?case by (simp add: runs_def)
qed

lemma runs_result:
  assumes "runs (\<lambda>k. run_n k g w) st Q" "run_n d g w st = Returns st'"
  shows "Q st'"
proof -
  obtain x k where "Q x" "run_n k g w st = Returns x" using assms(1) unfolding runs_def by blast
  then show ?thesis using run_same [OF assms(2)] by blast
qed

section \<open>What is due\<close>

definition waiting :: "(akey \<rightharpoonup> acb list) \<Rightarrow> akey \<Rightarrow> acb list" where
  "waiting m key = (case m key of None \<Rightarrow> [] | Some cbs \<Rightarrow> cbs)"

definition table_sum :: "(acb \<Rightarrow> 'm) \<Rightarrow> (akey \<rightharpoonup> acb list) \<Rightarrow> 'm::cancel_comm_monoid_add" where
  "table_sum f m = (\<Sum>key \<in> dom m. sum_list (map f (waiting m key)))"

lemma waiting_upd: "waiting (m(key := v)) k = (if k = key then (case v of None \<Rightarrow> [] | Some cbs \<Rightarrow> cbs) else waiting m k)"
  by (simp add: waiting_def)

lemma table_sum_upd:
  assumes "finite (dom m)"
  shows "table_sum f (m(key := v)) + sum_list (map f (waiting m key))
    = table_sum f m + sum_list (map f (case v of None \<Rightarrow> [] | Some cbs \<Rightarrow> cbs))"
proof -
  define A where "A = insert key (dom m)"
  have fin: "finite A" and key: "key \<in> A" using assms by (simp_all add: A_def)
  have over: "table_sum f m' = sum_list (map f (waiting m' key)) + (\<Sum>k \<in> A - {key}. sum_list (map f (waiting m' k)))"
    if "dom m' \<subseteq> A" for m'
  proof -
    have "table_sum f m' = (\<Sum>k \<in> A. sum_list (map f (waiting m' k)))"
      unfolding table_sum_def by (rule sum.mono_neutral_left [OF fin that]) (auto simp: waiting_def split: option.splits)
    then show ?thesis using sum.remove [OF fin key] by metis
  qed
  have "(\<Sum>k \<in> A - {key}. sum_list (map f (waiting (m(key := v)) k))) = (\<Sum>k \<in> A - {key}. sum_list (map f (waiting m k)))"
    by (rule sum.cong) (auto simp: waiting_upd)
  moreover have "dom (m(key := v)) \<subseteq> A" "dom m \<subseteq> A" by (auto simp: A_def split: if_splits)
  ultimately show ?thesis using over [of m] over [of "m(key := v)"] by (simp add: waiting_upd ac_simps)
qed

lemma table_sum_push:
  assumes "finite (dom m)"
  shows "table_sum f (m(key \<mapsto> waiting m key @ [cb])) = table_sum f m + f cb"
  using table_sum_upd [OF assms, of f key "Some (waiting m key @ [cb])"]
  by (simp add: add.assoc [symmetric]) (metis add.assoc add.commute add_right_cancel)

lemma table_sum_take:
  assumes "finite (dom m)" "m key = Some cbs"
  shows "table_sum f (m(key \<mapsto> [])) + sum_list (map f cbs) = table_sum f m"
  using table_sum_upd [OF assms(1), of f key "Some []"] assms(2) by (simp add: waiting_def)

lemma table_sum_close:
  assumes "finite (dom m)" "m key = None \<or> m key = Some []"
  shows "table_sum f (m(key := None)) = table_sum f m"
  using table_sum_upd [OF assms(1), of f key None] assms(2) by (auto simp: waiting_def)

text \<open>
  The charge of a callback that waits for a directory, and of a call of \<open>_process\<close>: the parts with
  wildcards times the depth, and what is left of the depth.
\<close>

definition dir_rank :: "fs_calls \<Rightarrow> gconf \<Rightarrow> (js_string \<Rightarrow> nat) \<Rightarrow> nat \<Rightarrow> glob_part list \<Rightarrow> js_string \<Rightarrow> bool \<Rightarrow> nat" where
  "dir_rank fs g height h remain ab ing =
     wild_parts remain * (h + 2) + (if ing \<and> \<not> gc_follow g \<and> fs_lstat fs ab = Some KLink then 0 else height ab)"

definition call_rank :: "fs_calls \<Rightarrow> gconf \<Rightarrow> (js_string \<Rightarrow> nat) \<Rightarrow> nat \<Rightarrow> glob_part list \<Rightarrow> bool \<Rightarrow> nat" where
  "call_rank fs g height h p ing = wild_parts p * (h + 2) + depth_left fs g height p ing"

definition cb_charge :: "fs_calls \<Rightarrow> gconf \<Rightarrow> (js_string \<Rightarrow> nat) \<Rightarrow> nat \<Rightarrow> acb \<Rightarrow> nat multiset" where
  "cb_charge fs g height h cb = (case cb of
       CReaddir pre ab remain i ing \<Rightarrow> {#2 * dir_rank fs g height h remain ab ing + 3#}
     | CRes key \<Rightarrow> {#0, 0#} | CLstat ab \<Rightarrow> {#1#} | CStat f i \<Rightarrow> {#1#})"

definition work_charge :: "fs_calls \<Rightarrow> gconf \<Rightarrow> (js_string \<Rightarrow> nat) \<Rightarrow> nat \<Rightarrow> awork \<Rightarrow> nat multiset" where
  "work_charge fs g height h w = (case w of
       WProcess p i ing \<Rightarrow> {#2 * call_rank fs g height h p ing + 4#}
     | WReaddir ab ing cb \<Rightarrow> cb_charge fs g height h cb + (if ing then {#1, 1#} else {#0, 0#})
     | WRespond key a \<Rightarrow> {#0#} | WCall a cb \<Rightarrow> cb_charge fs g height h cb)"

definition state_charge :: "fs_calls \<Rightarrow> gconf \<Rightarrow> (js_string \<Rightarrow> nat) \<Rightarrow> nat \<Rightarrow> gasync \<Rightarrow> nat multiset" where
  "state_charge fs g height h st =
     table_sum (cb_charge fs g height h) (ga_reqs st) + replicate_mset (length (ga_pending st) + length (ga_ticks st)) 0"

text \<open>Whom a callback, a call and a state will answer.\<close>

definition cb_owes :: "acb \<Rightarrow> akey multiset" where
  "cb_owes cb = (case cb of CRes key \<Rightarrow> {#key#} | CLstat ab \<Rightarrow> {#KReaddir ab True#} | _ \<Rightarrow> {#})"

definition work_owes :: "awork \<Rightarrow> akey multiset" where
  "work_owes w = (case w of WProcess p i ing \<Rightarrow> {#} | WReaddir ab ing cb \<Rightarrow> cb_owes cb
     | WRespond key a \<Rightarrow> {#key#} | WCall a cb \<Rightarrow> cb_owes cb)"

definition req_keys :: "fs_request \<Rightarrow> akey multiset" where
  "req_keys r = (case r of FReaddir ab key \<Rightarrow> {#key#} | FLstat ab key \<Rightarrow> {#key#} | FStat ab f i \<Rightarrow> {#})"

definition answers_due :: "gasync \<Rightarrow> akey multiset" where
  "answers_due st = sum_list (map req_keys (ga_pending st)) + mset (map fst (ga_ticks st)) + table_sum cb_owes (ga_reqs st)"

section \<open>Sound states\<close>

abbreviation links :: "gasync \<Rightarrow> js_string \<rightharpoonup> bool" where
  "links st \<equiv> gy_symlinks (ga_walk st)"

definition known :: "gconf \<Rightarrow> (js_string \<rightharpoonup> bool) \<Rightarrow> akey \<Rightarrow> bool" where
  "known g ls key = (gc_follow g \<or> (\<forall>ab. key = KReaddir ab True \<longrightarrow> ls ab \<noteq> None))"

text \<open>A part whose expression has its text: one that cannot be compiled has none.\<close>

definition readable_part :: "gconf \<Rightarrow> glob_part \<Rightarrow> bool" where
  "readable_part g p = (is_lit p \<or> p = Globstar \<or> dot_ok g p \<noteq> Throws)"

definition cb_fits :: "gconf \<Rightarrow> (js_string \<rightharpoonup> bool) \<Rightarrow> akey \<Rightarrow> acb \<Rightarrow> bool" where
  "cb_fits g ls key cb = (case cb of
       CReaddir pre ab remain i ing \<Rightarrow> key = KReaddir ab ing \<and> remain \<noteq> [] \<and> \<not> is_lit (hd remain)
         \<and> list_all (readable_part g) remain \<and> (\<exists>p n dir. read_prefix p n = (pre, dir) \<and> ab = make_abs g dir)
     | CRes key' \<Rightarrow> (\<exists>ab. key = KReaddir ab False \<and> key' = KReaddir ab True) \<and> known g ls key'
     | CLstat ab \<Rightarrow> key = KLstat ab
     | CStat f i \<Rightarrow> key = KStat (make_abs g f))"

definition req_fits :: "gconf \<Rightarrow> (js_string \<rightharpoonup> bool) \<Rightarrow> fs_request \<Rightarrow> bool" where
  "req_fits g ls r = (case r of
       FReaddir ab key \<Rightarrow> (\<exists>ing. key = KReaddir ab ing) \<and> known g ls key
     | FLstat ab key \<Rightarrow> key = KLstat ab \<or> key = KStat ab
     | FStat ab f i \<Rightarrow> True)"

definition answer_fits :: "fs_calls \<Rightarrow> gconf \<Rightarrow> (js_string \<rightharpoonup> bool) \<Rightarrow> akey \<Rightarrow> answer \<Rightarrow> bool" where
  "answer_fits fs g ls key a = (case key of
       KReaddir ab ing \<Rightarrow> (\<exists>e. a = AEntries e \<and> (\<forall>es. e = Some es \<longrightarrow> fs_readdir fs ab = Entries es \<and> known g ls key))
     | KLstat ab \<Rightarrow> a = AKind (fs_lstat fs ab)
     | KStat ab \<Rightarrow> \<exists>k. a = AKind k)"

text \<open>Who has to be answered is answered at most once.\<close>

definition one_answer :: "akey multiset \<Rightarrow> (akey \<rightharpoonup> acb list) \<Rightarrow> bool" where
  "one_answer R m = (\<forall>key. count R key \<le> (if m key = None then 0 else 1))"

definition sound :: "fs_calls \<Rightarrow> gconf \<Rightarrow> akey multiset \<Rightarrow> gasync \<Rightarrow> bool" where
  "sound fs g S st =
     (finite (dom (ga_reqs st))
      \<and> (\<forall>p es. gy_cache (ga_walk st) p = Some (CEntries es) \<longrightarrow> fs_readdir fs p = Entries es)
      \<and> (\<forall>ab b. links st ab = Some b \<longrightarrow> b = (fs_lstat fs ab = Some KLink))
      \<and> (\<forall>key cb. cb \<in> set (waiting (ga_reqs st) key) \<longrightarrow> cb_fits g (links st) key cb)
      \<and> (\<forall>r \<in> set (ga_pending st). req_fits g (links st) r)
      \<and> (\<forall>(key, a) \<in> set (ga_ticks st). answer_fits fs g (links st) key a)
      \<and> one_answer (S + answers_due st) (ga_reqs st))"

text \<open>What is known of links stays known.\<close>

lemma known_more: "known g ls key \<Longrightarrow> dom ls \<subseteq> dom ls' \<Longrightarrow> known g ls' key"
  by (auto simp: known_def)

lemma fits_more:
  assumes "dom ls \<subseteq> dom ls'"
  shows "cb_fits g ls key cb \<Longrightarrow> cb_fits g ls' key cb" "req_fits g ls r \<Longrightarrow> req_fits g ls' r"
    "answer_fits fs g ls key a \<Longrightarrow> answer_fits fs g ls' key a"
proof -
  note more = known_more [OF _ assms]
  show "cb_fits g ls key cb \<Longrightarrow> cb_fits g ls' key cb" by (auto simp: cb_fits_def more split: acb.splits)
  show "req_fits g ls r \<Longrightarrow> req_fits g ls' r" by (auto simp: req_fits_def more split: fs_request.splits)
  show "answer_fits fs g ls key a \<Longrightarrow> answer_fits fs g ls' key a" by (auto simp: answer_fits_def more split: akey.splits)
qed

lemma sound_more:
  assumes "sound fs g S st" "ga_reqs st' = ga_reqs st" "ga_pending st' = ga_pending st" "ga_ticks st' = ga_ticks st"
    "dom (links st) \<subseteq> dom (links st')" "\<And>ab b. links st' ab = Some b \<Longrightarrow> b = (fs_lstat fs ab = Some KLink)"
    "\<And>p es. gy_cache (ga_walk st') p = Some (CEntries es) \<Longrightarrow> fs_readdir fs p = Entries es"
  shows "sound fs g S st'"
proof -
  note more = fits_more [OF assms(5)]
  have "answers_due st' = answers_due st" by (simp add: answers_due_def assms(2-4))
  then show ?thesis using assms(1,6,7) more unfolding sound_def assms(2-4) by (simp add: case_prod_beta)
qed

lemma one_answer_fewer: "one_answer R m \<Longrightarrow> R' \<subseteq># R \<Longrightarrow> one_answer R' m"
  unfolding one_answer_def using mset_subset_eq_count order_trans by metis

lemma one_answer_more:
  assumes "one_answer R m" "dom m \<subseteq> dom m'"
  shows "one_answer R m'"
  unfolding one_answer_def
proof
  fix key
  have "m' key = None \<Longrightarrow> m key = None" using assms(2) by (auto simp: domIff)
  then show "count R key \<le> (if m' key = None then 0 else 1)"
    using assms(1) [unfolded one_answer_def, rule_format, of key] by (auto split: if_splits)
qed

lemma one_answer_close:
  assumes "one_answer (add_mset key R) m"
  shows "one_answer R (m(key := None))"
  unfolding one_answer_def
proof
  fix k
  show "count R k \<le> (if (m(key := None)) k = None then 0 else 1)"
    using assms [unfolded one_answer_def, rule_format, of k] by (auto split: if_splits)
qed

lemma sound_fewer: "sound fs g S st \<Longrightarrow> S' \<subseteq># S \<Longrightarrow> sound fs g S' st"
  unfolding sound_def by (auto elim!: one_answer_fewer simp: subset_mset.add_right_mono)

section \<open>Elementary steps\<close>

text \<open>A step that asks nobody and answers nobody; \<open>kept\<close> is what a call leaves behind.\<close>

definition silent :: "gasync \<Rightarrow> gasync \<Rightarrow> bool" where
  "silent st st' = (ga_reqs st' = ga_reqs st \<and> ga_pending st' = ga_pending st \<and> ga_ticks st' = ga_ticks st
     \<and> links st' = links st
     \<and> (\<forall>p es. gy_cache (ga_walk st') p = Some (CEntries es) \<longrightarrow> gy_cache (ga_walk st) p = Some (CEntries es)))"

definition kept ::
  "fs_calls \<Rightarrow> gconf \<Rightarrow> (js_string \<Rightarrow> nat) \<Rightarrow> nat \<Rightarrow> akey multiset \<Rightarrow> (js_string \<rightharpoonup> bool) \<Rightarrow> nat multiset \<Rightarrow> gasync \<Rightarrow> bool" where
  "kept fs g height h S ls c st = (sound fs g S st \<and> dom ls \<subseteq> dom (links st) \<and> state_charge fs g height h st < c)"

lemma silent_refl [simp]: "silent st st"
  by (simp add: silent_def)

lemma silent_trans: "silent st st1 \<Longrightarrow> silent st1 st2 \<Longrightarrow> silent st st2"
  unfolding silent_def by auto

lemma silent_sound: "silent st st' \<Longrightarrow> sound fs g S st \<Longrightarrow> sound fs g S st'"
  by (rule sound_more) (auto simp: silent_def sound_def)

lemma silent_charge: "silent st st' \<Longrightarrow> state_charge fs g height h st' = state_charge fs g height h st"
  by (simp add: silent_def state_charge_def)

lemma silent_kept:
  "silent st st' \<Longrightarrow> sound fs g S st \<Longrightarrow> dom ls \<subseteq> dom (links st) \<Longrightarrow> state_charge fs g height h st < c \<Longrightarrow> kept fs g height h S ls c st'"
  by (simp add: kept_def silent_sound silent_charge) (simp add: silent_def)

lemma silent_done: "silent st (async_done st)"
  by (simp add: async_done_def silent_def Let_def)

lemma silent_slot: "silent st (make_slot i st)"
  by (simp add: make_slot_def silent_def)

lemma silent_emit: "\<not> gc_mark g \<Longrightarrow> silent st (emit_match g i e st)"
  by (simp add: emit_match_def silent_def add_match_def)

lemma silent_emits: "\<not> gc_mark g \<Longrightarrow> silent st (fold (\<lambda>e. emit_match g i (f e)) es st)"
proof (induction es arbitrary: st)
  case (Cons e es)
  from silent_trans [OF silent_emit [OF Cons.prems] Cons.IH [OF Cons.prems]] show ?case by simp
qed simp

lemma silent_simple2: "\<not> gc_mark g \<Longrightarrow> silent st (process_simple2 g f i found st)"
  unfolding process_simple2_def Let_def
  by (rule silent_trans [OF _ silent_done]) (auto intro: silent_trans [OF silent_slot] silent_emit silent_slot)

lemma silent_stat2:
  assumes "\<not> gc_mark g"
  shows "silent st (async_stat2 g ab f i kind st)"
proof (cases kind)
  case None
  show ?thesis unfolding async_stat2_def None option.case
    by (rule silent_trans [OF _ silent_simple2 [OF assms]]) (simp add: silent_def)
next
  case (Some k)
  have "silent st (st\<lparr>ga_gone := gone, ga_walk := w\<rparr>)" if "w = (ga_walk st)\<lparr>gy_stats := stats\<rparr>
      \<or> (\<exists>c. w = cache_or ab c ((ga_walk st)\<lparr>gy_stats := stats\<rparr>) \<and> (c = CDir \<or> c = CFile))" for gone w stats
    using that by (auto simp: silent_def cache_or_def split: option.splits if_splits)
  then show ?thesis unfolding async_stat2_def Some option.case Let_def
    by (auto intro!: silent_trans [OF _ silent_simple2 [OF assms]])
qed

lemma silent_error: "silent st (async_readdir_error g f code st)"
  by (auto simp: async_readdir_error_def silent_def Let_def split: if_splits)

text \<open>Asking.\<close>

lemma sound_enlist:
  assumes sound: "sound fs g (S + cb_owes cb) st" and fits: "cb_fits g (links st) key cb" and en: "enlist key cb st = (fresh, st')"
  shows "sound fs g (if fresh then S + {#key#} else S) st'"
    "state_charge fs g height h st' = state_charge fs g height h st + cb_charge fs g height h cb"
    "ga_walk st' = ga_walk st" "ga_aborted st' = ga_aborted st" "fresh \<longleftrightarrow> ga_reqs st key = None"
    "ga_reqs st' = (ga_reqs st)(key \<mapsto> waiting (ga_reqs st) key @ [cb])"
proof -
  show reqs: "ga_reqs st' = (ga_reqs st)(key \<mapsto> waiting (ga_reqs st) key @ [cb])"
    and walk: "ga_walk st' = ga_walk st" and "ga_aborted st' = ga_aborted st" and fresh: "fresh \<longleftrightarrow> ga_reqs st key = None"
    using en by (auto simp: enlist_def waiting_def split: option.splits)
  have same: "ga_pending st' = ga_pending st" "ga_ticks st' = ga_ticks st" using en by (auto simp: enlist_def split: option.splits)
  have fin: "finite (dom (ga_reqs st))" using sound by (simp add: sound_def)
  note push = table_sum_push [OF fin, of _ key cb]
  show "state_charge fs g height h st' = state_charge fs g height h st + cb_charge fs g height h cb"
    by (simp add: state_charge_def reqs same push)
  have due: "answers_due st' = answers_due st + cb_owes cb" by (simp add: answers_due_def reqs same push)
  have bal: "count S k + count (cb_owes cb) k + count (answers_due st) k \<le> (if ga_reqs st k = None then 0 else 1)" for k
    using sound by (simp add: sound_def one_answer_def)
  have "one_answer ((if fresh then S + {#key#} else S) + answers_due st') (ga_reqs st')"
    unfolding one_answer_def
  proof
    fix k
    show "count ((if fresh then S + {#key#} else S) + answers_due st') k \<le> (if ga_reqs st' k = None then 0 else 1)"
      using bal [of k] fresh by (auto simp: due reqs split: if_splits)
  qed
  then show "sound fs g (if fresh then S + {#key#} else S) st'"
    using sound fits unfolding sound_def by (auto simp: reqs walk same waiting_upd split: if_splits)
qed

lemma sound_call:
  assumes "sound fs g (S + req_keys r) st" "req_fits g (links st) r"
  shows "sound fs g S (call_fs r st)" "state_charge fs g height h (call_fs r st) = state_charge fs g height h st + {#0#}"
    "links (call_fs r st) = links st"
proof -
  have "answers_due (call_fs r st) = req_keys r + answers_due st" by (simp add: answers_due_def call_fs_def ac_simps)
  then have "S + answers_due (call_fs r st) = S + req_keys r + answers_due st" by (simp add: ac_simps)
  then show "sound fs g S (call_fs r st)"
    using assms unfolding sound_def by (simp add: call_fs_def add.assoc)
qed (simp_all add: state_charge_def call_fs_def)

lemma sound_take:
  assumes "sound fs g (S + {#key#}) st" "ga_reqs st key = Some cbs"
  defines "st' \<equiv> st\<lparr>ga_reqs := (ga_reqs st)(key \<mapsto> [])\<rparr>"
  shows "sound fs g (S + {#key#} + sum_list (map cb_owes cbs)) st'"
    "state_charge fs g height h st' + sum_list (map (cb_charge fs g height h) cbs) = state_charge fs g height h st"
    "\<And>cb. cb \<in> set cbs \<Longrightarrow> cb_fits g (links st) key cb"
proof -
  have fin: "finite (dom (ga_reqs st))" using assms(1) by (simp add: sound_def)
  note take = table_sum_take [OF fin assms(2)]
  show "state_charge fs g height h st' + sum_list (map (cb_charge fs g height h) cbs) = state_charge fs g height h st"
    using take [of "cb_charge fs g height h"] by (simp add: state_charge_def st'_def ac_simps)
  have due: "answers_due st' + sum_list (map cb_owes cbs) = answers_due st"
    using take [of cb_owes] by (simp add: answers_due_def st'_def ac_simps)
  have "S + {#key#} + sum_list (map cb_owes cbs) + answers_due st' = S + {#key#} + answers_due st"
    unfolding due [symmetric] by (simp add: ac_simps)
  moreover have "one_answer (S + {#key#} + answers_due st) (ga_reqs st')"
    using assms(1) by (auto simp: sound_def st'_def elim!: one_answer_more)
  ultimately have bal: "one_answer (S + {#key#} + sum_list (map cb_owes cbs) + answers_due st') (ga_reqs st')" by (rule ssubst)
  then show "sound fs g (S + {#key#} + sum_list (map cb_owes cbs)) st'"
    using assms(1) unfolding sound_def by (simp add: st'_def waiting_upd)
  show "cb_fits g (links st) key cb" if "cb \<in> set cbs" for cb
    using assms(1,2) that by (auto simp: sound_def waiting_def split: option.splits)
qed

lemma sound_close:
  assumes "sound fs g (S + {#key#}) st" "ga_reqs st key = None \<or> ga_reqs st key = Some []"
  shows "sound fs g S (st\<lparr>ga_reqs := (ga_reqs st)(key := None)\<rparr>)"
    "state_charge fs g height h (st\<lparr>ga_reqs := (ga_reqs st)(key := None)\<rparr>) = state_charge fs g height h st"
proof -
  have fin: "finite (dom (ga_reqs st))" using assms(1) by (simp add: sound_def)
  note close = table_sum_close [OF fin assms(2)]
  show "state_charge fs g height h (st\<lparr>ga_reqs := (ga_reqs st)(key := None)\<rparr>) = state_charge fs g height h st"
    by (simp add: state_charge_def close)
  have due: "answers_due (st\<lparr>ga_reqs := (ga_reqs st)(key := None)\<rparr>) = answers_due st" by (simp add: answers_due_def close)
  have "one_answer (S + answers_due st) ((ga_reqs st)(key := None))"
    by (rule one_answer_close) (use assms(1) in \<open>simp add: sound_def\<close>)
  then show "sound fs g S (st\<lparr>ga_reqs := (ga_reqs st)(key := None)\<rparr>)"
    using assms(1) unfolding sound_def by (auto simp: due waiting_upd)
qed

lemma sound_tick:
  assumes "sound fs g (S + {#key#}) st" "answer_fits fs g (links st) key a"
  shows "sound fs g S (st\<lparr>ga_ticks := ga_ticks st @ [(key, a)]\<rparr>)"
    "state_charge fs g height h (st\<lparr>ga_ticks := ga_ticks st @ [(key, a)]\<rparr>) = state_charge fs g height h st + {#0#}"
proof -
  have "S + answers_due (st\<lparr>ga_ticks := ga_ticks st @ [(key, a)]\<rparr>) = S + {#key#} + answers_due st"
    by (simp add: answers_due_def)
  then show "sound fs g S (st\<lparr>ga_ticks := ga_ticks st @ [(key, a)]\<rparr>)"
    using assms unfolding sound_def by auto
qed (simp add: state_charge_def)

section \<open>Charges\<close>

lemma less_then_zero:
  assumes "M < N"
  shows "M + {#0::nat#} \<le> N"
proof -
  obtain X Y where XY: "X \<noteq> {#}" "X \<subseteq># N" "M = N - X + Y" "\<forall>k. k \<in># Y \<longrightarrow> (\<exists>a. a \<in># X \<and> k < a)"
    using assms unfolding less_multiset\<^sub>D\<^sub>M by blast
  show ?thesis
  proof (cases "\<exists>a. a \<in># X \<and> 0 < a")
    case True
    have "\<forall>k. k \<in># Y + {#0#} \<longrightarrow> (\<exists>a. a \<in># X \<and> k < a)" using True XY(4) by auto
    moreover have "M + {#0#} = N - X + (Y + {#0#})" using XY(3) by simp
    ultimately have "M + {#0#} < N" using XY(1,2) unfolding less_multiset\<^sub>D\<^sub>M by blast
    then show ?thesis by simp
  next
    case False
    then have "Y = {#}" using XY(4) by (cases Y) auto
    moreover have "{#0#} \<subseteq># X" using XY(1) False by (cases X) auto
    ultimately have "M + {#0#} \<subseteq># N"
      using XY(2,3) by (metis add.right_neutral subset_mset.add_left_mono subset_mset.diff_add)
    then show ?thesis by (rule subset_eq_imp_le_multiset)
  qed
qed

lemma add_smaller: "(\<forall>x \<in># B. x < y) \<Longrightarrow> A + B < A + {#y#}"
  for y :: nat
  by (rule add_strict_left_mono) simp

lemma dir_rank_call:
  assumes "length (takeWhile is_lit p) \<noteq> length p" "read_prefix p (length (takeWhile is_lit p)) = (pre, dir)"
  shows "dir_rank fs g height h (drop (length (takeWhile is_lit p)) p) (make_abs g dir) ing = call_rank fs g height h p ing"
  using assms remain_facts(3) [OF assms(1)] by (simp add: dir_rank_def call_rank_def depth_left_def Let_def)

lemma rank_fewer:
  assumes "bounded_depth fs g height h" "remain \<noteq> []" "\<not> is_lit (hd remain)" "wild_parts q \<le> wild_parts (tl remain)"
  shows "call_rank fs g height h q ing' < dir_rank fs g height h remain ab ing"
proof -
  have "wild_parts q * (h + 2) + depth_left fs g height q ing' < (wild_parts (tl remain) + 1) * (h + 2)"
    using mult_le_mono1 [OF assms(4), of "h + 2"] depth_left_le [OF assms(1), of q ing'] by simp
  moreover have "wild_parts remain = wild_parts (tl remain) + 1" using assms(2,3) by (cases remain) auto
  ultimately show ?thesis by (simp add: call_rank_def dir_rank_def)
qed

lemma rank_deeper:
  assumes depth: "bounded_depth fs g height h" and remain: "remain \<noteq> []" "\<not> is_lit (hd remain)"
    and rp: "read_prefix p n = (pre, dir)" "ab = make_abs g dir" and es: "fs_readdir fs ab = Entries es" "e \<in> set es"
    and link: "\<not> (ing \<and> \<not> gc_follow g \<and> fs_lstat fs ab = Some KLink)"
  shows "call_rank fs g height h (prefix_parts pre @ Lit e # remain) True < dir_rank fs g height h remain ab ing"
proof -
  define p' where "p' = prefix_parts pre @ Lit e # remain"
  note child = read_prefix_child [OF rp(1) remain(2,1), of e, folded p'_def]
  from child(2) obtain c where c: "read_below dir e c" "snd (read_prefix p' (length (takeWhile is_lit p'))) = c" by blast
  have "0 < height ab \<and> (gc_follow g \<or> fs_lstat fs (make_abs g c) \<noteq> Some KLink \<longrightarrow> height (make_abs g c) < height ab)"
    using depth es c(1) unfolding bounded_depth_def rp(2) by blast
  then have "depth_left fs g height p' True < height ab"
    using child(1) c(2) by (auto simp: depth_left_def Let_def)
  then show ?thesis using link by (auto simp: call_rank_def dir_rank_def p'_def [symmetric]) (simp_all add: p'_def)
qed

section \<open>Every call ends\<close>

definition work_fits :: "fs_calls \<Rightarrow> gconf \<Rightarrow> (js_string \<rightharpoonup> bool) \<Rightarrow> awork \<Rightarrow> bool" where
  "work_fits fs g ls w = (case w of
       WProcess p i ing \<Rightarrow> list_all (readable_part g) p
     | WReaddir ab ing cb \<Rightarrow> cb_fits g ls (KReaddir ab ing) cb
     | WRespond key a \<Rightarrow> answer_fits fs g ls key a
     | WCall a cb \<Rightarrow> \<exists>key. cb_fits g ls key cb \<and> answer_fits fs g ls key a)"

text \<open>What is to show of a call, below a charge.\<close>

definition ends_below :: "fs_calls \<Rightarrow> gconf \<Rightarrow> (js_string \<Rightarrow> nat) \<Rightarrow> nat \<Rightarrow> nat multiset \<Rightarrow> bool" where
  "ends_below fs g height h c =
     (\<forall>S w st. state_charge fs g height h st + work_charge fs g height h w < c \<longrightarrow> sound fs g (S + work_owes w) st \<longrightarrow>
        work_fits fs g (links st) w \<longrightarrow>
        runs (\<lambda>k. run_n k g w) st
          (kept fs g height h S (links st) (state_charge fs g height h st + work_charge fs g height h w)))"

lemma ends_belowD:
  assumes "ends_below fs g height h c" "state_charge fs g height h st + work_charge fs g height h w < c"
    "sound fs g (S + work_owes w) st" "work_fits fs g (links st) w" "dom ls \<subseteq> dom (links st)"
  shows "runs (\<lambda>k. run_n k g w) st (kept fs g height h S ls (state_charge fs g height h st + work_charge fs g height h w))"
proof -
  have "runs (\<lambda>k. run_n k g w) st
      (kept fs g height h S (links st) (state_charge fs g height h st + work_charge fs g height h w))"
    using assms(1-4) unfolding ends_below_def by blast
  then show ?thesis by (rule runs_mono) (use assms(5) in \<open>auto simp: kept_def\<close>)
qed

lemma kept_less: "kept fs g height h S ls c st \<Longrightarrow> c \<le> c' \<Longrightarrow> kept fs g height h S ls c' st"
  by (auto simp: kept_def)

lemma call_ends:
  assumes "ends_below fs g height h c" "state_charge fs g height h st + work_charge fs g height h w < c"
    "sound fs g (S + work_owes w) st" "work_fits fs g (links st) w" "dom ls \<subseteq> dom (links st)"
    "\<And>k. F (Suc k) st0 = run_n k g w st"
  shows "runs F st0 (kept fs g height h S ls c)"
proof -
  obtain st' d where "kept fs g height h S ls (state_charge fs g height h st + work_charge fs g height h w) st'"
    "\<forall>k \<ge> d. run_n k g w st = Returns st'"
    using ends_belowD [OF assms(1-5)] unfolding runs_def by blast
  then have "kept fs g height h S ls c st'" "F k st0 = Returns st'" if "k \<ge> Suc d" for k
    using kept_less less_imp_le [OF assms(2)] assms(6) that by (blast, cases k) auto
  then show ?thesis unfolding runs_def by blast
qed

lemma now_ends:
  assumes "kept fs g height h S ls c st'" "\<And>k. F (Suc k) st0 = Returns st'"
  shows "runs F st0 (kept fs g height h S ls c)"
proof -
  have "\<forall>k \<ge> 1. F k st0 = Returns st'" using assms(2) by (metis One_nat_def Suc_le_D)
  then show ?thesis using assms(1) unfolding runs_def by blast
qed

lemma stat_kept:
  assumes mark: "\<not> gc_mark g" and sound: "sound fs g S st" and ls: "dom ls \<subseteq> dom (links st)" and z: "1 < z"
  shows "kept fs g height h S ls (state_charge fs g height h st + {#z#}) (async_stat g f i st)"
proof -
  have silent: "kept fs g height h S ls (state_charge fs g height h st + {#z#}) st'" if "silent st st'" for st'
    using silent_kept [OF that sound ls] add_smaller [of "{#}" z] by simp
  have now: "kept fs g height h S ls (state_charge fs g height h st + {#z#}) (async_stat_now g f i st)"
  proof (cases "ga_gone st (make_abs g f) \<or> gy_stats (ga_walk st) (make_abs g f) \<noteq> None")
    case True
    then show ?thesis using silent [OF silent_simple2 [OF mark]] by (auto simp: async_stat_now_def Let_def)
  next
    case False
    define key where "key = KStat (make_abs g f)"
    obtain fresh st1 where en: "enlist key (CStat f i) st = (fresh, st1)" by (cases "enlist key (CStat f i) st")
    have owes: "cb_owes (CStat f i) = {#}" and one: "cb_charge fs g height h (CStat f i) = {#1#}"
      by (simp_all add: cb_owes_def cb_charge_def)
    have fits: "cb_fits g (links st) key (CStat f i)" by (simp add: cb_fits_def key_def)
    note new = sound_enlist [OF _ fits en, of fs S, unfolded owes, simplified, OF sound]
    define st2 where "st2 = (if fresh then call_fs (FLstat (make_abs g f) key) st1 else st1)"
    have "async_stat_now g f i st = st2" using False en by (auto simp: async_stat_now_def key_def st2_def Let_def)
    moreover have "state_charge fs g height h st1 < state_charge fs g height h st + {#z#}"
      using add_smaller [of "{#1#}" z] z by (simp add: new(2) one)
    moreover have "state_charge fs g height h st1 + {#0#} < state_charge fs g height h st + {#z#}"
      using add_smaller [of "{#1, 0#}" z] z by (simp add: new(2) one)
    moreover have "sound fs g (S + req_keys (FLstat (make_abs g f) key)) st1" if fresh
      using new(1) that by (simp add: req_keys_def)
    moreover have "req_fits g (links st1) (FLstat (make_abs g f) key)" by (simp add: req_fits_def key_def)
    moreover have "sound fs g S st1" if "\<not> fresh" using new(1) that by simp
    ultimately show ?thesis using sound_call [of fs g S _ st1] new(3) ls by (cases fresh) (simp_all add: kept_def st2_def)
  qed
  define c where "c = state_charge fs g height h st + {#z#}"
  have simple: "kept fs g height h S ls c (process_simple2 g f i found st)" for found
    unfolding c_def by (rule silent [OF silent_simple2 [OF mark]])
  show ?thesis using now unfolding async_stat_def Let_def c_def [symmetric]
    by (auto intro: simple split: option.split)
qed

lemma process_ends:
  assumes mark: "\<not> gc_mark g"
    and c: "c = state_charge fs g height h st + work_charge fs g height h (WProcess p i ing)"
    and below: "ends_below fs g height h c" and sound: "sound fs g S st" and parts: "list_all (readable_part g) p"
  shows "runs (\<lambda>k. run_n k g (WProcess p i ing)) st (kept fs g height h S (links st) c)"
proof -
  define n where "n = length (takeWhile is_lit p)"
  obtain pre dir where rp: "read_prefix p n = (pre, dir)" by force
  define r where "r = call_rank fs g height h p ing"
  have c': "c = state_charge fs g height h st + {#2 * r + 4#}" by (simp add: c work_charge_def r_def)
  define st1 where "st1 = st\<lparr>ga_processing := ga_processing st + 1\<rparr>"
  have st1: "silent st st1" by (simp add: silent_def st1_def)
  note same = silent_sound [OF st1 sound] silent_charge [OF st1, of fs g height h]
  have links: "links st1 = links st" using st1 by (simp add: silent_def)
  have silent: "kept fs g height h S (links st) c st'" if "silent st st'" for st'
    using silent_kept [OF that sound] add_smaller [of "{#}" "2 * r + 4"] by (simp add: c')
  consider (aborted) "ga_aborted st" | (leaf) "\<not> ga_aborted st" "n = length p"
    | (ignored) "\<not> ga_aborted st" "n \<noteq> length p" "children_ignored g dir"
    | (read) "\<not> ga_aborted st" "n \<noteq> length p" "\<not> children_ignored g dir" by blast
  then show ?thesis
  proof cases
    case aborted
    then show ?thesis by (intro now_ends [OF silent [OF silent_refl]]) (simp add: async_process_def)
  next
    case leaf
    have "kept fs g height h S (links st) c (async_stat g (join_slash (map lit_text p)) i st1)"
      using stat_kept [OF mark same(1), of "links st" "2 * r + 4" height h] links by (simp add: c' same(2))
    then show ?thesis
      by (rule now_ends) (use leaf in \<open>simp add: async_process_def n_def [symmetric] st1_def [symmetric] Let_def\<close>)
  next
    case ignored
    show ?thesis
      by (rule now_ends [OF silent [OF silent_trans [OF st1 silent_done]]])
        (use ignored rp in \<open>simp add: async_process_def n_def [symmetric] st1_def [symmetric] Let_def\<close>)
  next
    case read
    define ab where "ab = make_abs g dir"
    define cb where "cb = CReaddir pre ab (drop n p) i ing"
    note remain = remain_facts [OF read(2) [unfolded n_def], folded n_def]
    have rank: "dir_rank fs g height h (drop n p) ab ing = r"
      using dir_rank_call [of p pre dir fs g height h ing] read(2) rp by (simp add: n_def r_def ab_def)
    show ?thesis
    proof (rule call_ends [OF below, where w = "WReaddir ab ing cb" and st = st1])
      show "state_charge fs g height h st1 + work_charge fs g height h (WReaddir ab ing cb) < c"
        unfolding c' same(2) by (rule add_strict_left_mono) (simp add: work_charge_def cb_charge_def cb_def rank)
      show "sound fs g (S + work_owes (WReaddir ab ing cb)) st1" using same(1) by (simp add: work_owes_def cb_owes_def cb_def)
      have "list_all (readable_part g) (drop n p)" using parts by (auto simp: list_all_iff dest: in_set_dropD)
      then show "work_fits fs g (links st1) (WReaddir ab ing cb)"
        using remain(1,2) rp by (auto simp: work_fits_def cb_fits_def cb_def ab_def)
      show "dom (links st) \<subseteq> dom (links st1)" by (simp add: links)
      show "run_n (Suc k) g (WProcess p i ing) st = run_n k g (WReaddir ab ing cb) st1" for k
        using read rp by (simp add: async_process_def n_def [symmetric] st1_def [symmetric] Let_def cb_def ab_def)
    qed
  qed
qed

lemma readdir_ends:
  assumes c: "c = state_charge fs g height h st + work_charge fs g height h (WReaddir ab ing cb)"
    and below: "ends_below fs g height h c" and sound: "sound fs g (S + cb_owes cb) st"
    and fits: "cb_fits g (links st) (KReaddir ab ing) cb"
  shows "runs (\<lambda>k. run_n k g (WReaddir ab ing cb)) st (kept fs g height h S (links st) c)"
proof -
  define key where "key = KReaddir ab ing"
  define more :: "nat multiset" where "more = (if ing then {#1, 1#} else {#0, 0#})"
  have c': "c = state_charge fs g height h st + cb_charge fs g height h cb + more"
    by (simp add: c work_charge_def more_def add.assoc)
  have room: "A < more \<Longrightarrow> state_charge fs g height h st + cb_charge fs g height h cb + A < c" for A
    unfolding c' by (rule add_strict_left_mono)
  have small: "{#} < more" "{#0#} < more" unfolding more_def by (cases ing; auto intro: ex_gt_imp_less_multiset subset_imp_less_mset)+
  show ?thesis
  proof (cases "ga_aborted st")
    case True
    have "sound fs g S st" by (rule sound_fewer [OF sound]) simp
    moreover have "state_charge fs g height h st < c"
    proof -
      have "cb_charge fs g height h cb + more \<noteq> {#}" by (simp add: more_def)
      then have "{#} < cb_charge fs g height h cb + more" by (rule le_multiset_empty_left)
      then show ?thesis using add_strict_left_mono [of "{#}" _ "state_charge fs g height h st"] by (simp add: c' add.assoc)
    qed
    ultimately have "kept fs g height h S (links st) c st" by (simp add: kept_def)
    then show ?thesis by (rule now_ends) (simp add: async_readdir_def True)
  next
    case alive: False
    obtain fresh st1 where en: "enlist key cb st = (fresh, st1)" by (cases "enlist key cb st")
    note new = sound_enlist [OF sound fits [folded key_def] en]
    have charge: "state_charge fs g height h st1 = state_charge fs g height h st + cb_charge fs g height h cb" by (rule new(2))
    have step: "run_n (Suc k) g (WReaddir ab ing cb) st = async_readdir g (run_n k g) ab ing cb st" for k by simp
    note eqs = async_readdir_def if_not_P [OF alive] Let_def key_def [symmetric] en prod.case
    have call: ?thesis if "\<And>k. async_readdir g (run_n k g) ab ing cb st = run_n k g w st1"
      "cb_charge fs g height h cb + work_charge fs g height h w < cb_charge fs g height h cb + more" "sound fs g (S + work_owes w) st1"
      "work_fits fs g (links st1) w" for w
    proof (rule call_ends [OF below _ that(3,4)])
      show "state_charge fs g height h st1 + work_charge fs g height h w < c"
        using that(2) by (simp add: charge c')
    qed (simp_all add: new(3) step that(1))
    have stop: ?thesis if "\<And>k. async_readdir g (run_n k g) ab ing cb st = Returns st'" "sound fs g S st'"
      "links st' = links st" "state_charge fs g height h st' = state_charge fs g height h st1 + A" "A < more" for st' A
    proof (rule now_ends [where st' = st'])
      show "kept fs g height h S (links st) c st'" using that room [OF that(5)] by (simp add: kept_def charge)
    qed (simp add: step that(1))
    show ?thesis
    proof (cases fresh)
      case False
      show ?thesis
        by (rule stop [of st1 "{#}"]) (use False new(1) new(3) small in \<open>simp_all add: eqs\<close>)
    next
      case fresh: True
      have sound1: "sound fs g (S + {#key#}) st1" using new(1) fresh by simp
      show ?thesis
      proof (cases "ing \<and> links st1 ab = None")
        case ask: True
        show ?thesis
        proof (cases "gc_follow g")
          case True
          have "{#0, 0, 0, 0#} < {#1::nat, 1#}" by (rule ex_gt_imp_less_multiset) auto
          show ?thesis
          proof (rule call)
            show "async_readdir g (run_n k g) ab ing cb st = run_n k g (WReaddir ab False (CRes key)) st1" for k
              using fresh ask True unfolding eqs by simp
            have "{#0, 0, 0, 0#} < more" using \<open>{#0, 0, 0, 0#} < {#1, 1#}\<close> ask by (simp add: more_def)
            then show "cb_charge fs g height h cb + work_charge fs g height h (WReaddir ab False (CRes key)) < cb_charge fs g height h cb + more"
              by (simp add: work_charge_def cb_charge_def)
          qed (use sound1 ask True in \<open>simp_all add: work_owes_def cb_owes_def work_fits_def cb_fits_def key_def known_def\<close>)
        next
          case False
          obtain fresh2 st2 where en2: "enlist (KLstat ab) (CLstat ab) st1 = (fresh2, st2)"
            by (cases "enlist (KLstat ab) (CLstat ab) st1")
          have owes: "cb_owes (CLstat ab) = {#key#}" and one: "cb_charge fs g height h (CLstat ab) = {#1#}"
            using ask by (simp_all add: cb_owes_def cb_charge_def key_def)
          have "cb_fits g (links st1) (KLstat ab) (CLstat ab)" by (simp add: cb_fits_def)
          note new2 = sound_enlist [OF _ this en2, of fs S, unfolded owes, OF sound1]
          define r where "r = FLstat ab (KLstat ab)"
          have r: "req_fits g (links st2) r" "req_keys r = {#KLstat ab#}" by (simp_all add: req_fits_def req_keys_def r_def)
          define st3 where "st3 = (if fresh2 then call_fs r st2 else st2)"
          have "sound fs g S st3" using new2(1) sound_call(1) [of fs g S r st2] r by (cases fresh2) (simp_all add: st3_def)
          moreover have "links st3 = links st" using new(3) new2(3) by (simp add: st3_def call_fs_def)
          moreover have "state_charge fs g height h st3 = state_charge fs g height h st1 + (if fresh2 then {#1, 0#} else {#1#})"
            using new2(1,2) sound_call(2) [of fs g S r st2] r by (cases fresh2) (simp_all add: st3_def one)
          moreover have "{#1, 0#} < more" "{#1#} < more"
            using ask add_mset_lt_left_lt [of 0 1 "{#1::nat#}"] by (simp_all add: more_def subset_imp_less_mset add_mset_commute)
          moreover have "async_readdir g (run_n k g) ab ing cb st = Returns st3" for k
            using fresh ask False en2 unfolding eqs by (simp add: st3_def r_def)
          ultimately show ?thesis using stop [of st3 "if fresh2 then {#1, 0#} else {#1#}"] by simp
        qed
      next
        case ready: False
        have known: "known g (links st1) key" using ready by (auto simp: known_def key_def)
        have respond: ?thesis if "\<And>k. async_readdir g (run_n k g) ab ing cb st = run_n k g (WRespond key (AEntries e)) st1"
          "\<And>es. e = Some es \<Longrightarrow> fs_readdir fs ab = Entries es" for e
          using call [OF that(1)] sound1 known that(2) small
          by (simp add: work_charge_def work_owes_def work_fits_def answer_fits_def key_def)
        define r where "r = FReaddir ab key"
        have r: "req_fits g (links st1) r" "req_keys r = {#key#}" using known by (simp_all add: req_fits_def req_keys_def r_def key_def)
        have wait: ?thesis if "\<And>k. async_readdir g (run_n k g) ab ing cb st = Returns (call_fs r st1)"
          by (rule stop [OF that, of "{#0#}"]) (use sound_call [of fs g S r st1] r sound1 new(3) small in simp_all)
        have cached: "fs_readdir fs ab = Entries es" if "gy_cache (ga_walk st1) ab = Some (CEntries es)" for es
          using sound1 that by (simp add: sound_def)
        have body: "async_readdir g run ab ing cb st = (case gy_cache (ga_walk st1) ab of
             Some CFalse \<Rightarrow> run (WRespond key (AEntries None)) st1
           | Some CFile \<Rightarrow> run (WRespond key (AEntries None)) st1
           | Some (CEntries es) \<Rightarrow> run (WRespond key (AEntries (Some es))) st1
           | _ \<Rightarrow> Returns (call_fs (FReaddir ab key) st1))" for run
          using fresh ready by (simp add: eqs if_not_P [OF ready])
        show ?thesis
        proof (cases "gy_cache (ga_walk st1) ab")
          case None
          then show ?thesis using wait by (simp add: body r_def)
        next
          case (Some e)
          consider (none) "e = CFalse \<or> e = CFile" | (names) es where "e = CEntries es" | (other) "e = CTrue \<or> e = CDir"
            by (cases e) auto
          then show ?thesis
          proof cases
            case none
            show ?thesis by (rule respond [of None]) (use Some none in \<open>auto simp: body\<close>)
          next
            case names
            show ?thesis by (rule respond [of "Some es"]) (use Some names cached in \<open>auto simp: body\<close>)
          next
            case other
            show ?thesis by (rule wait) (use Some other in \<open>auto simp: body r_def\<close>)
          qed
        qed
      qed
    qed
  qed
qed

lemma respond_ends:
  assumes c: "c = state_charge fs g height h st + work_charge fs g height h (WRespond key a)"
    and below: "ends_below fs g height h c" and sound: "sound fs g (S + {#key#}) st"
    and fits: "answer_fits fs g (links st) key a"
  shows "runs (\<lambda>k. run_n k g (WRespond key a)) st (kept fs g height h S (links st) c)"
proof -
  have "count (S + {#key#} + answers_due st) key \<noteq> 0" by simp
  then have "ga_reqs st key \<noteq> None" using sound by (auto simp: sound_def one_answer_def split: if_splits)
  then obtain cbs where cbs: "ga_reqs st key = Some cbs" by blast
  define C where "C = state_charge fs g height h"
  define D where "D = cb_charge fs g height h"
  have c': "c = C st + {#0#}" by (simp add: c work_charge_def C_def)
  have zero: "A < A + {#0::nat#}" for A using le_multiset_right_total [of A 0] by simp
  define st0 where "st0 = st\<lparr>ga_reqs := (ga_reqs st)(key \<mapsto> [])\<rparr>"
  note take = sound_take(1) [OF sound cbs, folded st0_def] sound_take(2) [OF sound cbs, of height h, folded st0_def C_def D_def]
    sound_take(3) [OF sound cbs]
  have links: "links st0 = links st" by (simp add: st0_def)
  define P where "P = (\<lambda>ys st'. sound fs g (S + {#key#} + sum_list (map cb_owes ys)) st' \<and> dom (links st) \<subseteq> dom (links st')
     \<and> (C st' + sum_list (map D ys) < C st \<or> ys = cbs \<and> st' = st0))"
  define close :: "gasync \<Rightarrow> gasync" where "close = (\<lambda>st1. if ga_reqs st1 key = None \<or> ga_reqs st1 key = Some []
               then st1\<lparr>ga_reqs := (ga_reqs st1)(key := None)\<rparr>
               else st1\<lparr>ga_ticks := ga_ticks st1 @ [(key, a)]\<rparr>)"
  have "runs (\<lambda>k. fold_outcome (\<lambda>cb. run_n k g (WCall a cb)) cbs) st0 (P [])"
  proof (rule runs_fold [where P = P])
    show "P cbs st0" using take(1) by (simp add: P_def links)
    fix x ys st1
    assume x: "x \<in> set cbs" and P: "P (x # ys) st1"
    have room: "C st1 + D x + sum_list (map D ys) \<le> C st"
      using P take(2) by (auto simp: P_def add.assoc dest: less_imp_le)
    have "C st1 + D x \<le> C st1 + D x + sum_list (map D ys)" by simp
    then have "C st1 + D x \<le> C st" using room by (rule order_trans)
    also have "C st < c" unfolding c' by (rule zero)
    finally have "C st1 + D x < c" .
    then have "runs (\<lambda>k. run_n k g (WCall a x)) st1
        (kept fs g height h (S + {#key#} + sum_list (map cb_owes ys)) (links st) (C st1 + work_charge fs g height h (WCall a x)))"
      unfolding C_def
    proof (intro ends_belowD [OF below])
      show "sound fs g (S + {#key#} + sum_list (map cb_owes ys) + work_owes (WCall a x)) st1"
        using P by (simp add: P_def work_owes_def ac_simps)
      have more: "dom (links st) \<subseteq> dom (links st1)" using P by (simp add: P_def)
      show "dom (links st) \<subseteq> dom (links st1)" by (rule more)
      show "work_fits fs g (links st1) (WCall a x)"
        using fits_more [OF more] take(3) [OF x] fits unfolding work_fits_def awork.case by blast
    qed (simp add: work_charge_def D_def)
    then show "runs (\<lambda>k. run_n k g (WCall a x)) st1 (P ys)"
    proof (rule runs_mono)
      fix st2 assume "kept fs g height h (S + {#key#} + sum_list (map cb_owes ys)) (links st) (C st1 + work_charge fs g height h (WCall a x)) st2"
      then have "C st2 < C st1 + D x" and rest: "sound fs g (S + {#key#} + sum_list (map cb_owes ys)) st2" "dom (links st) \<subseteq> dom (links st2)"
        by (simp_all add: kept_def C_def D_def work_charge_def)
      then have "C st2 + sum_list (map D ys) < C st" using room by (auto intro: less_le_trans [OF add_strict_right_mono])
      then show "P ys st2" using rest by (simp add: P_def)
    qed
  qed
  then have "runs (\<lambda>k st. on_return (fold_outcome (\<lambda>cb. run_n k g (WCall a cb)) cbs st) (\<lambda>st1. Returns (close st1))) st0
      (kept fs g height h S (links st) c)"
  proof (rule runs_bind)
    fix st1 assume P: "P [] st1"
    have sound1: "sound fs g (S + {#key#}) st1" and more: "dom (links st) \<subseteq> dom (links st1)" using P by (simp_all add: P_def)
    have less: "C st1 < C st \<or> cbs = [] \<and> st1 = st0" using P by (auto simp: P_def)
    have "C st1 \<le> C st" using less take(2) by auto
    then have "kept fs g height h S (links st) c (close st1)"
    proof (cases "ga_reqs st1 key = None \<or> ga_reqs st1 key = Some []")
      case True
      have "C st1 < c" unfolding c' using \<open>C st1 \<le> C st\<close> zero by (rule le_less_trans)
      then show ?thesis using sound_close [OF sound1 True] True more by (simp add: kept_def close_def C_def)
    next
      case False
      then have "C st1 < C st" using less by (auto simp: st0_def)
      then have "C st1 + {#0#} < c" unfolding c' using less_then_zero zero le_less_trans by blast
      moreover have "answer_fits fs g (links st1) key a" by (rule fits_more(3) [OF more fits])
      ultimately show ?thesis unfolding close_def if_not_P [OF False] using sound_tick [OF sound1] more by (simp add: kept_def C_def)
    qed
    then show "runs (\<lambda>k st1. Returns (close st1)) st1 (kept fs g height h S (links st) c)" by (rule runs_return) simp
  qed
  then have "runs (\<lambda>k s. on_return (fold_outcome (\<lambda>cb. run_n k g (WCall a cb)) cbs st0) (\<lambda>st1. Returns (close st1))) st
      (kept fs g height h S (links st) c)" by (simp add: runs_def)
  then show ?thesis
    by (rule runs_Suc) (simp add: async_respond_def cbs close_def st0_def)
qed

section \<open>Directories that were read\<close>

text \<open>
  While the calls of one directory are made: \<open>y\<close> is the charge of the callback, and whatever is
  charged less still fits.
\<close>

definition roomy ::
  "fs_calls \<Rightarrow> gconf \<Rightarrow> (js_string \<Rightarrow> nat) \<Rightarrow> nat \<Rightarrow> akey multiset \<Rightarrow> (js_string \<rightharpoonup> bool) \<Rightarrow> nat multiset \<Rightarrow> nat \<Rightarrow> gasync \<Rightarrow> bool" where
  "roomy fs g height h S ls c y st =
     (sound fs g S st \<and> dom ls \<subseteq> dom (links st) \<and> (\<forall>B. (\<forall>x \<in># B. x < y) \<longrightarrow> state_charge fs g height h st + B < c))"

lemma roomy_kept: "roomy fs g height h S ls c y st \<Longrightarrow> silent st st' \<Longrightarrow> kept fs g height h S ls c st'"
  unfolding roomy_def by (elim conjE allE [of _ "{#}"], rule silent_kept) simp_all

lemma roomy_process:
  assumes below: "ends_below fs g height h c" and room: "roomy fs g height h S ls c (2 * r + 3) st"
    and rank: "call_rank fs g height h p ing < r" and parts: "list_all (readable_part g) p"
  shows "runs (\<lambda>k. run_n k g (WProcess p i ing)) st (roomy fs g height h S ls c (2 * r + 3))"
proof -
  define z where "z = 2 * call_rank fs g height h p ing + 4"
  have z: "z < 2 * r + 3" using rank by (simp add: z_def)
  have charge: "work_charge fs g height h (WProcess p i ing) = {#z#}" by (simp add: work_charge_def z_def)
  have "runs (\<lambda>k. run_n k g (WProcess p i ing)) st (kept fs g height h S ls (state_charge fs g height h st + {#z#}))"
    unfolding charge [symmetric]
  proof (rule ends_belowD [OF below])
    show "state_charge fs g height h st + work_charge fs g height h (WProcess p i ing) < c"
      using room [unfolded roomy_def, THEN conjunct2, THEN conjunct2, rule_format, of "{#z#}"] z by (simp add: charge)
  qed (use room parts in \<open>simp_all add: roomy_def work_owes_def work_fits_def\<close>)
  then show ?thesis
  proof (rule runs_mono)
    fix st' assume kept: "kept fs g height h S ls (state_charge fs g height h st + {#z#}) st'"
    have "state_charge fs g height h st' + B < c" if B: "\<forall>x \<in># B. x < 2 * r + 3" for B
    proof -
      have "state_charge fs g height h st' + B < state_charge fs g height h st + {#z#} + B"
        using kept by (simp add: kept_def add_strict_right_mono del: add_mset_add_single)
      also have "\<dots> = state_charge fs g height h st + add_mset z B" by simp
      also have "\<dots> < c"
        using room [unfolded roomy_def, THEN conjunct2, THEN conjunct2, rule_format, of "add_mset z B"] B z by auto
      finally show ?thesis .
    qed
    then show "roomy fs g height h S ls c (2 * r + 3) st'" using kept by (simp add: roomy_def kept_def)
  qed
qed

lemma runs_cong: "runs H st Q \<Longrightarrow> (\<And>k. F k st = H k st) \<Longrightarrow> runs F st Q"
  by (simp add: runs_def)

lemma roomy_done: "roomy fs g height h S ls c y st \<Longrightarrow> runs (\<lambda>k st. Returns (async_done st)) st (kept fs g height h S ls c)"
  by (rule runs_return [where st' = "async_done st"]) (auto intro: roomy_kept silent_done)

lemma globstar2_ends:
  assumes depth: "bounded_depth fs g height h" and below: "ends_below fs g height h c"
    and room: "roomy fs g height h S ls c (2 * dir_rank fs g height h remain ab ing + 3) st"
    and remain: "remain \<noteq> []" "\<not> is_lit (hd remain)" "list_all (readable_part g) remain"
    and rp: "read_prefix p n = (pre, dir)" "ab = make_abs g dir" and es: "fs_readdir fs ab = Entries es"
    and known: "known g ls (KReaddir ab ing)"
  shows "runs (\<lambda>k. process_globstar2 g (run_n k g) pre ab remain i ing es) st (kept fs g height h S ls c)"
proof -
  define r where "r = dir_rank fs g height h remain ab ing"
  define P where "P = roomy fs g height h S ls c (2 * r + 3)"
  have lit: "list_all (readable_part g) (prefix_parts pre)" "readable_part g (Lit e)" for e
    by (auto simp: prefix_parts_def readable_part_def split: option.split)
  have parts: "list_all (readable_part g) (tl remain)" using remain(3) by (cases remain) auto
  have process: "runs (\<lambda>k. run_n k g (WProcess q i ing')) st1 P"
    if "P st1" "call_rank fs g height h q ing' < r" "list_all (readable_part g) q" for q ing' st1
    using roomy_process [OF below that(1) [unfolded P_def] that(2,3)] by (simp add: P_def)
  define rest where "rest = (\<lambda>k (e :: js_string) st.
      if take 1 e = [46] \<and> \<not> gc_dot g then Returns st
      else on_return (run_n k g (WProcess (prefix_parts pre @ Lit e # tl remain) i True) st)
             (run_n k g (WProcess (prefix_parts pre @ Lit e # remain) i True)))"
  have first: "runs (\<lambda>k. run_n k g (WProcess (prefix_parts pre @ tl remain) i False)) st P"
    by (rule process) (use room parts in \<open>simp_all add: P_def r_def lit rank_fewer [OF depth remain(1,2)]\<close>)
  then have "runs (\<lambda>k st. on_return (run_n k g (WProcess (prefix_parts pre @ tl remain) i False) st) (\<lambda>st1.
       if links st1 ab = Some True \<and> ing then Returns (async_done st1)
       else on_return (fold_outcome (rest k) es st1) (\<lambda>st2. Returns (async_done st2)))) st (kept fs g height h S ls c)"
  proof (rule runs_bind)
    fix st1 assume P1: "P st1"
    show "runs (\<lambda>k st1. if links st1 ab = Some True \<and> ing then Returns (async_done st1)
       else on_return (fold_outcome (rest k) es st1) (\<lambda>st2. Returns (async_done st2))) st1 (kept fs g height h S ls c)"
    proof (cases "links st1 ab = Some True \<and> ing")
      case True
      show ?thesis by (rule runs_cong [OF roomy_done [OF P1 [unfolded P_def]]]) (use True in simp)
    next
      case False
      have "sound fs g S st1" "dom ls \<subseteq> dom (links st1)" using P1 by (simp_all add: P_def roomy_def)
      then have link: "\<not> (ing \<and> \<not> gc_follow g \<and> fs_lstat fs ab = Some KLink)"
        using False known by (cases "links st1 ab") (auto simp: sound_def known_def)
      have each: "runs (\<lambda>k. rest k e) st2 P" if "e \<in> set es" "P st2" for e st2
      proof (cases "take 1 e = [46] \<and> \<not> gc_dot g")
        case True
        show ?thesis by (rule runs_return [where st' = st2]) (use True that(2) in \<open>simp_all add: rest_def\<close>)
      next
        case shown: False
        have "runs (\<lambda>k. run_n k g (WProcess (prefix_parts pre @ Lit e # tl remain) i True)) st2 P"
          by (rule process) (use that(2) parts in \<open>simp_all add: r_def lit rank_fewer [OF depth remain(1,2)]\<close>)
        then have "runs (\<lambda>k st. on_return (run_n k g (WProcess (prefix_parts pre @ Lit e # tl remain) i True) st)
             (run_n k g (WProcess (prefix_parts pre @ Lit e # remain) i True))) st2 P"
        proof (rule runs_bind)
          fix st3 assume "P st3"
          then show "runs (\<lambda>k. run_n k g (WProcess (prefix_parts pre @ Lit e # remain) i True)) st3 P"
            using rank_deeper [OF depth remain(1,2) rp es that(1) link] remain(3)
            by (intro process) (simp_all add: r_def lit)
        qed
        then show ?thesis by (rule runs_cong) (use shown in \<open>auto simp: rest_def\<close>)
      qed
      have "runs (\<lambda>k. fold_outcome (\<lambda>e. rest k e) es) st1 P"
        by (rule runs_fold [where P = "\<lambda>ys. P"]) (use P1 each in simp_all)
      then have "runs (\<lambda>k st. on_return (fold_outcome (\<lambda>e. rest k e) es st) (\<lambda>st2. Returns (async_done st2))) st1 (kept fs g height h S ls c)"
        by (rule runs_bind) (rule roomy_done, simp add: P_def)
      then show ?thesis by (rule runs_cong) (use False in auto)
    qed
  qed
  then show ?thesis by (rule runs_cong) (unfold process_globstar2_def rest_def, rule refl)
qed

lemma readdir2_ends:
  assumes depth: "bounded_depth fs g height h" and mark: "\<not> gc_mark g" and below: "ends_below fs g height h c"
    and room: "roomy fs g height h S ls c (2 * dir_rank fs g height h remain ab ing + 3) st"
    and remain: "remain \<noteq> []" "\<not> is_lit (hd remain)" "list_all (readable_part g) remain" "hd remain \<noteq> Globstar"
  shows "runs (\<lambda>k. process_readdir2 g (run_n k g) pre remain i ing es) st (kept fs g height h S ls c)"
proof -
  define r where "r = dir_rank fs g height h remain ab ing"
  define P where "P = roomy fs g height h S ls c (2 * r + 3)"
  have P: "P st" using room by (simp add: P_def r_def)
  have "readable_part g (hd remain)" using remain(1,3) by (cases remain) auto
  then have "dot_ok g (hd remain) \<noteq> Throws" using remain(2,4) by (simp add: readable_part_def)
  moreover have "dot_ok g (hd remain) \<noteq> Hangs" by (simp add: dot_ok_def split: glob_part.splits)
  ultimately obtain dots where dots: "dot_ok g (hd remain) = Returns dots" by (cases "dot_ok g (hd remain)") simp_all
  define found where "found = filter (entry_matches g pre (hd remain) dots) es"
  have parts: "list_all (readable_part g) (tl remain)" using remain(1,3) by (cases remain) auto
  have each: "runs (\<lambda>k. run_n k g (WProcess (Lit (prefixed pre e) # tl remain) i ing)) st1 P" if "P st1" for e st1
    unfolding P_def
    by (rule roomy_process [OF below that [unfolded P_def]])
      (use parts in \<open>simp_all add: r_def rank_fewer [OF depth remain(1,2)] readable_part_def\<close>)
  note eqs = process_readdir2_def dots on_return.simps Let_def found_def [symmetric]
  have leaf: "silent st (async_done (fold (\<lambda>e. emit_match g i (mounted g (prefixed pre e))) found (make_slot i st)))"
    by (rule silent_trans [OF silent_trans [OF silent_slot silent_emits [OF mark]] silent_done])
  consider (none) "found = []" | (last) "found \<noteq> []" "length remain = 1 \<and> \<not> gc_mark g \<and> \<not> gc_stat g"
    | (more) "found \<noteq> []" "\<not> (length remain = 1 \<and> \<not> gc_mark g \<and> \<not> gc_stat g)" by blast
  then show ?thesis
  proof cases
    case none
    show ?thesis
      by (rule runs_return [where st' = "async_done st"]) (simp_all add: roomy_kept [OF room silent_done] eqs none)
  next
    case last
    show ?thesis
      by (rule runs_return [where Q = "kept fs g height h S ls c", OF roomy_kept [OF room leaf]])
        (simp only: eqs if_not_P [OF last(1)] if_P [OF last(2)])
  next
    case more
    have "runs (\<lambda>k. fold_outcome (\<lambda>e. run_n k g (WProcess (Lit (prefixed pre e) # tl remain) i ing)) found) st P"
      by (rule runs_fold [where P = "\<lambda>ys. P"]) (use P each in simp_all)
    then have "runs (\<lambda>k st. on_return (fold_outcome (\<lambda>e. run_n k g (WProcess (Lit (prefixed pre e) # tl remain) i ing)) found st)
        (\<lambda>st2. Returns (async_done st2))) st (kept fs g height h S ls c)"
      by (rule runs_bind) (rule roomy_done, simp add: P_def)
    then show ?thesis by (rule runs_cong) (simp only: eqs if_not_P [OF more(1)] if_not_P [OF more(2)])
  qed
qed

lemma callback_ends:
  assumes depth: "bounded_depth fs g height h" and mark: "\<not> gc_mark g"
    and c: "c = state_charge fs g height h st + cb_charge fs g height h cb"
    and below: "ends_below fs g height h c" and sound: "sound fs g (S + cb_owes cb) st"
    and fits: "cb_fits g (links st) key cb" and a: "answer_fits fs g (links st) key a"
  shows "runs (\<lambda>k. run_n k g (WCall a cb)) st (kept fs g height h S (links st) c)"
proof (cases cb)
  case (CRes key')
  obtain ab where keys: "key = KReaddir ab False" "key' = KReaddir ab True" and known: "known g (links st) key'"
    using fits by (auto simp: CRes cb_fits_def)
  show ?thesis
  proof (rule call_ends [OF below, where w = "WRespond key' a" and st = st])
    have "{#0#} < {#0, 0 :: nat#}" by (simp add: subset_imp_less_mset)
    then show "state_charge fs g height h st + work_charge fs g height h (WRespond key' a) < c"
      unfolding c by (intro add_strict_left_mono) (simp add: work_charge_def cb_charge_def CRes)
    show "sound fs g (S + work_owes (WRespond key' a)) st" using sound by (simp add: work_owes_def cb_owes_def CRes)
    show "work_fits fs g (links st) (WRespond key' a)" using a known by (auto simp: work_fits_def answer_fits_def keys)
  qed (simp_all add: async_call_def CRes)
next
  case (CLstat ab)
  define key' where "key' = KReaddir ab True"
  have a_eq: "a = AKind (fs_lstat fs ab)" using fits a by (simp add: CLstat cb_fits_def answer_fits_def)
  have sound': "sound fs g (S + {#key'#}) st" using sound by (simp add: CLstat cb_owes_def key'_def)
  have step: "run_n (Suc k) g (WCall a cb) st = globstar_lstat (run_n k g) ab (fs_lstat fs ab) st" for k
    by (simp add: async_call_def CLstat a_eq)
  have room: "state_charge fs g height h st1 + B < c" if "state_charge fs g height h st1 = state_charge fs g height h st" "B < {#1#}"
    for st1 B unfolding c that(1) by (rule add_strict_left_mono) (use that(2) in \<open>simp add: cb_charge_def CLstat\<close>)
  have respond: ?thesis if "\<And>k. globstar_lstat (run_n k g) ab (fs_lstat fs ab) st = run_n k g (WRespond key' (AEntries None)) st1"
    "sound fs g (S + {#key'#}) st1" "state_charge fs g height h st1 = state_charge fs g height h st" "dom (links st) \<subseteq> dom (links st1)" for st1
    by (rule call_ends [OF below, where w = "WRespond key' (AEntries None)" and st = st1])
      (use that room [OF that(3), of "{#0#}"] in \<open>simp_all add: step work_charge_def work_owes_def work_fits_def answer_fits_def key'_def del: run_n.simps\<close>)
  show ?thesis
  proof (cases "fs_lstat fs ab")
    case None
    show ?thesis by (rule respond [of st]) (use None sound' in \<open>simp_all add: globstar_lstat_def key'_def\<close>)
  next
    case (Some kind)
    define st1 where "st1 = st\<lparr>ga_walk := (ga_walk st)\<lparr>gy_symlinks := (links st)(ab \<mapsto> kind = KLink)\<rparr>\<rparr>"
    have more: "dom (links st) \<subseteq> dom (links st1)" and now: "links st1 ab \<noteq> None" by (auto simp: st1_def)
    have sound1: "sound fs g (S + {#key'#}) st1"
      by (rule sound_more [OF sound']) (use sound' Some more in \<open>auto simp: st1_def sound_def split: if_splits\<close>)
    have same: "state_charge fs g height h st1 = state_charge fs g height h st" by (simp add: st1_def state_charge_def)
    show ?thesis
    proof (cases "kind \<noteq> KLink \<and> kind \<noteq> KDir")
      case True
      define st2 where "st2 = st1\<lparr>ga_walk := (ga_walk st1)\<lparr>gy_cache := (gy_cache (ga_walk st1))(ab \<mapsto> CFile)\<rparr>\<rparr>"
      have silent: "silent st1 st2" by (auto simp: silent_def st2_def split: if_splits)
      show ?thesis
      proof (rule respond [of st2])
        show "globstar_lstat (run_n k g) ab (fs_lstat fs ab) st = run_n k g (WRespond key' (AEntries None)) st2" for k
          using True by (simp add: globstar_lstat_def Some Let_def key'_def st2_def st1_def)
      qed (use silent_sound [OF silent sound1] silent_charge [OF silent] same more silent in \<open>simp_all add: silent_def\<close>)
    next
      case False
      define w where "w = WReaddir ab False (CRes key')"
      have "{#0, 0, 0, 0#} < {#1::nat#}" by (rule ex_gt_imp_less_multiset) auto
      from room [OF same this] have "state_charge fs g height h st1 + work_charge fs g height h w < c"
        by (simp add: work_charge_def cb_charge_def w_def)
      moreover have "sound fs g (S + work_owes w) st1" using sound1 by (simp add: w_def work_owes_def cb_owes_def)
      moreover have "work_fits fs g (links st1) w" using now by (simp add: w_def work_fits_def cb_fits_def key'_def known_def)
      moreover have "run_n (Suc k) g (WCall a cb) st = run_n k g w st1" for k
        unfolding step globstar_lstat_def Some option.case Let_def if_not_P [OF False]
        by (simp add: w_def key'_def st1_def del: run_n.simps)
      ultimately show ?thesis using more by (intro call_ends [OF below])
    qed
  qed
next
  case (CStat f i)
  obtain k where k: "a = AKind k" using fits a by (auto simp: CStat cb_fits_def answer_fits_def)
  have sound': "sound fs g S st" using sound by (simp add: CStat cb_owes_def)
  have c': "c = state_charge fs g height h st + {#1#}" by (simp add: c cb_charge_def CStat)
  have "kept fs g height h S (links st) c (stat_lstat g f i k st)"
  proof (cases "k = Some KLink")
    case True
    define r where "r = FStat (make_abs g f) f i"
    have "sound fs g S (call_fs r st)" "state_charge fs g height h (call_fs r st) = state_charge fs g height h st + {#0#}"
      "links (call_fs r st) = links st"
      using sound_call [of fs g S r st] sound' by (simp_all add: req_keys_def req_fits_def r_def)
    moreover have "state_charge fs g height h st + {#0#} < c" unfolding c' by (rule add_strict_left_mono) simp
    ultimately show ?thesis using True by (simp add: stat_lstat_def r_def kept_def)
  next
    case False
    have "state_charge fs g height h st < c" using add_smaller [of "{#}" 1] by (simp add: c')
    then show ?thesis using False silent_kept [OF silent_stat2 [OF mark] sound'] by (simp add: stat_lstat_def)
  qed
  then show ?thesis by (rule now_ends) (simp add: async_call_def CStat k)
next
  case (CReaddir pre ab remain i ing)
  define r where "r = dir_rank fs g height h remain ab ing"
  have sound': "sound fs g S st" using sound by (simp add: CReaddir cb_owes_def)
  have c': "c = state_charge fs g height h st + {#2 * r + 3#}" by (simp add: c cb_charge_def CReaddir r_def)
  from fits have key: "key = KReaddir ab ing" and remain: "remain \<noteq> []" "\<not> is_lit (hd remain)" "list_all (readable_part g) remain"
    and "\<exists>p n dir. read_prefix p n = (pre, dir) \<and> ab = make_abs g dir"
    unfolding CReaddir cb_fits_def acb.case by blast+
  then obtain p n dir where rp: "read_prefix p n = (pre, dir)" "ab = make_abs g dir" by blast
  obtain e where e: "a = AEntries e" "\<And>es. e = Some es \<Longrightarrow> fs_readdir fs ab = Entries es \<and> known g (links st) key"
    using a by (auto simp: key answer_fits_def)
  have room: "roomy fs g height h S (links st) c (2 * r + 3) st"
    using sound' add_smaller [of _ "2 * r + 3"] by (simp add: roomy_def c' del: add_mset_add_single)
  show ?thesis
  proof (cases e)
    case None
    show ?thesis by (rule now_ends [OF roomy_kept [OF room silent_done]]) (simp add: async_call_def CReaddir e(1) None)
  next
    case (Some es)
    show ?thesis
    proof (cases "hd remain = Globstar")
      case True
      show ?thesis
        by (rule runs_Suc [OF globstar2_ends [OF depth below room [unfolded r_def] remain rp]])
          (use e(2) [OF Some] key True in \<open>simp_all add: async_call_def CReaddir e(1) Some\<close>)
    next
      case False
      show ?thesis
        by (rule runs_Suc [OF readdir2_ends [OF depth mark below room [unfolded r_def] remain False]])
          (simp add: async_call_def CReaddir e(1) Some False)
    qed
  qed
qed

text \<open>All calls: by induction on the charge.\<close>

lemma all_end:
  assumes depth: "bounded_depth fs g height h" and mark: "\<not> gc_mark g"
  shows "ends_below fs g height h c"
proof (induction c rule: less_induct)
  case (less c)
  show ?case unfolding ends_below_def
  proof (intro allI impI)
    fix S w st
    define c' where "c' = state_charge fs g height h st + work_charge fs g height h w"
    assume c: "state_charge fs g height h st + work_charge fs g height h w < c" and sound: "sound fs g (S + work_owes w) st"
      and fits: "work_fits fs g (links st) w"
    have below: "ends_below fs g height h c'" using less.IH c by (simp add: c'_def)
    show "runs (\<lambda>k. run_n k g w) st
          (kept fs g height h S (links st) (state_charge fs g height h st + work_charge fs g height h w))"
      unfolding c'_def [symmetric]
    proof (cases w)
      case (WProcess p i ing)
      show "runs (\<lambda>k. run_n k g w) st (kept fs g height h S (links st) c')" unfolding WProcess
        by (rule process_ends [OF mark _ below]) (use sound fits in \<open>simp_all add: c'_def WProcess work_owes_def work_fits_def\<close>)
    next
      case (WReaddir ab ing cb)
      show "runs (\<lambda>k. run_n k g w) st (kept fs g height h S (links st) c')" unfolding WReaddir
        by (rule readdir_ends [OF _ below]) (use sound fits in \<open>simp_all add: c'_def WReaddir work_owes_def work_fits_def\<close>)
    next
      case (WRespond key a)
      show "runs (\<lambda>k. run_n k g w) st (kept fs g height h S (links st) c')" unfolding WRespond
        by (rule respond_ends [OF _ below]) (use sound fits in \<open>simp_all add: c'_def WRespond work_owes_def work_fits_def\<close>)
    next
      case (WCall a cb)
      then obtain key where "cb_fits g (links st) key cb" "answer_fits fs g (links st) key a" using fits by (auto simp: work_fits_def)
      then show "runs (\<lambda>k. run_n k g w) st (kept fs g height h S (links st) c')" unfolding WCall
        by (intro callback_ends [OF depth mark _ below]) (use sound in \<open>simp_all add: c'_def WCall work_owes_def work_charge_def\<close>)
    qed
  qed
qed

lemma run_ends:
  assumes "bounded_depth fs g height h" "\<not> gc_mark g" "sound fs g (S + work_owes w) st" "work_fits fs g (links st) w"
  shows "runs (\<lambda>k. run_n k g w) st (kept fs g height h S (links st) (state_charge fs g height h st + work_charge fs g height h w))"
  using all_end [OF assms(1,2), of "state_charge fs g height h st + work_charge fs g height h w + {#0#}"] assms(3,4)
    le_multiset_right_total [of _ 0]
  unfolding ends_below_def by simp

section \<open>Every search ends\<close>

lemma sound_init: "sound fs g {#} gasync_init"
  by (simp add: sound_def gasync_init_def gsync_init_def waiting_def one_answer_def answers_due_def table_sum_def)

lemma start_ends:
  assumes depth: "bounded_depth fs g height h" and mark: "\<not> gc_mark g"
    and parts: "\<forall>ps \<in> set (mm_set (gc_matcher g)). list_all (readable_part g) ps"
  shows "runs (\<lambda>k st. glob_start k g) gasync_init (sound fs g {#})"
proof (cases "mm_set (gc_matcher g) = []")
  case True
  show ?thesis
    by (rule runs_return [where st' = "async_done gasync_init"])
      (simp_all add: silent_sound [OF silent_done sound_init] glob_start_def True)
next
  case False
  define ps where "ps = mm_set (gc_matcher g)"
  have "runs (\<lambda>k. fold_outcome (\<lambda>i. run_n k g (WProcess (ps ! i) i False)) [0..<length ps]) gasync_init (sound fs g {#})"
  proof (rule runs_fold [where P = "\<lambda>is. sound fs g {#}"])
    fix i "is" st assume "i \<in> set [0..<length ps]" "sound fs g {#} st"
    then show "runs (\<lambda>k. run_n k g (WProcess (ps ! i) i False)) st (sound fs g {#})"
      using parts by (intro runs_mono [OF run_ends [OF depth mark, of "{#}"]]) (simp_all add: work_owes_def work_fits_def kept_def ps_def)
  qed (rule sound_init)
  then show ?thesis by (rule runs_cong) (use False in \<open>simp add: glob_start_def ps_def Let_def\<close>)
qed

lemma fold_deeper:
  assumes "fold_outcome (\<lambda>x. run_n d g (w x)) xs st = Returns st'" "d \<le> k"
  shows "fold_outcome (\<lambda>x. run_n k g (w x)) xs st = Returns st'"
proof -
  have "run_n k g v s = Returns s'" if "run_n d g v s = Returns s'" for v s s'
    using run_deeper [OF that, of "k - d"] assms(2) by simp
  then show ?thesis using assms(1) by (rule fold_persists)
qed

lemma start_sound:
  assumes "bounded_depth fs g height h" "\<not> gc_mark g"
    "\<forall>ps \<in> set (mm_set (gc_matcher g)). list_all (readable_part g) ps" "glob_start d g = Returns st"
  shows "sound fs g {#} st"
proof -
  obtain st' k where st': "sound fs g {#} st'" "\<forall>j \<ge> k. glob_start j g = Returns st'"
    using start_ends [OF assms(1-3)] unfolding runs_def by blast
  have "glob_start (max d k) g = Returns st"
    using assms(4) fold_deeper [of d g _ _ _ st "max d k"] by (auto simp: glob_start_def Let_def split: if_splits)
  then show ?thesis using st' by simp
qed

text \<open>An answer: it takes a call from those under way.\<close>

lemma sound_answer:
  assumes sound: "sound fs g {#} st" and st: "ga_pending st = ps @ r # qs"
  defines "st0 \<equiv> st\<lparr>ga_pending := ps @ qs\<rparr>"
  shows "sound fs g (req_keys r) st0" "state_charge fs g height h st = state_charge fs g height h st0 + {#0#}"
    "req_fits g (links st0) r"
proof -
  have "answers_due st = req_keys r + answers_due st0" by (simp add: answers_due_def st0_def st ac_simps)
  then show "sound fs g (req_keys r) st0" using sound st unfolding sound_def by (simp add: st0_def)
  show "req_fits g (links st0) r" using sound st by (simp add: sound_def st0_def)
qed (simp add: state_charge_def st0_def st)

text \<open>The answer to the end, with less left than before.\<close>

definition less_left ::
  "fs_calls \<Rightarrow> gconf \<Rightarrow> (js_string \<Rightarrow> nat) \<Rightarrow> nat \<Rightarrow> gasync \<Rightarrow> gasync \<Rightarrow> bool" where
  "less_left fs g height h st st' = (sound fs g {#} st' \<and> state_charge fs g height h st' < state_charge fs g height h st)"

lemma respond_less:
  assumes "bounded_depth fs g height h" "\<not> gc_mark g" "sound fs g {#key#} st1" "answer_fits fs g (links st1) key a"
    "state_charge fs g height h st = state_charge fs g height h st1 + {#0#}"
  shows "runs (\<lambda>k. run_n k g (WRespond key a)) st1 (less_left fs g height h st)"
  by (rule runs_mono [OF run_ends [OF assms(1,2), of "{#}"]])
    (use assms(3-5) in \<open>simp_all add: work_owes_def work_fits_def kept_def less_left_def work_charge_def\<close>)

lemma names_no_entries:
  "fold (\<lambda>e m. m(child_path ab e \<mapsto> CTrue)) es m p = Some (CEntries es') \<Longrightarrow> m p = Some (CEntries es')"
proof (induction es arbitrary: m)
  case (Cons e es)
  from Cons.IH [of "m(child_path ab e \<mapsto> CTrue)"] Cons.prems show ?case by (auto split: if_splits)
qed simp

lemma answer_ends:
  assumes depth: "bounded_depth fs g height h" and mark: "\<not> gc_mark g" and sound: "sound fs g {#} st"
    and st: "ga_pending st = ps @ r # qs"
  shows "runs (\<lambda>k. answer_n k fs g r) (st\<lparr>ga_pending := ps @ qs\<rparr>) (less_left fs g height h st)"
proof -
  define st0 where "st0 = st\<lparr>ga_pending := ps @ qs\<rparr>"
  note taken = sound_answer(1) [OF sound st, folded st0_def] sound_answer(2) [OF sound st, folded st0_def, of height h]
    sound_answer(3) [OF sound st, folded st0_def]
  have less: "less_left fs g height h st st'" if "silent st0 st'" for st'
  proof -
    have "sound fs g {#} st0" by (rule sound_fewer [OF taken(1)]) simp
    then show ?thesis using silent_sound [OF that] silent_charge [OF that, of fs g height h] taken(2) by (simp add: less_left_def)
  qed
  have respond: "runs (\<lambda>k. run_n k g (WRespond key a)) st1 (less_left fs g height h st)"
    if "silent st0 st1 \<or> sound fs g {#key#} st1 \<and> state_charge fs g height h st1 = state_charge fs g height h st0"
      "req_keys r = {#key#}" "answer_fits fs g (links st1) key a" for st1 key a
    using that taken(1,2) silent_sound [of st0 st1] silent_charge [of st0 st1 fs g height h]
    by (intro respond_less [OF depth mark]) auto
  have "runs (\<lambda>k. answer_n k fs g r) st0 (less_left fs g height h st)"
  proof (cases r)
    case (FReaddir ab key)
    obtain ing where key: "key = KReaddir ab ing" and known: "known g (links st0) key"
      using taken(3) by (auto simp: FReaddir req_fits_def)
    have keys: "req_keys r = {#key#}" by (simp add: FReaddir req_keys_def)
    show ?thesis
    proof (cases "ga_aborted st0")
      case True
      show ?thesis by (rule runs_return [where st' = st0]) (simp_all add: less True answer_n_def FReaddir)
    next
      case alive: False
      show ?thesis
      proof (cases "fs_readdir fs ab")
        case (Entries es)
        define st1 where "st1 = st0\<lparr>ga_walk := readdir_entries g ab es (ga_walk st0)\<rparr>"
        have links: "links st1 = links st0" by (simp add: st1_def readdir_entries_def Let_def)
        have cache: "gy_cache (ga_walk st1) p = Some (CEntries fs') \<Longrightarrow> p = ab \<and> fs' = es \<or> gy_cache (ga_walk st0) p = Some (CEntries fs')" for p fs'
          using names_no_entries by (auto simp: st1_def readdir_entries_def Let_def split: if_splits)
        have "sound fs g {#key#} st1"
          by (rule sound_more [OF taken(1) [unfolded keys]])
            (use taken(1) Entries cache links in \<open>auto simp: sound_def st1_def\<close>)
        moreover have "state_charge fs g height h st1 = state_charge fs g height h st0" by (simp add: st1_def state_charge_def)
        moreover have "answer_fits fs g (links st1) key (AEntries (Some es))" using known Entries by (simp add: answer_fits_def key links)
        ultimately have "runs (\<lambda>k. run_n k g (WRespond key (AEntries (Some es)))) st1 (less_left fs g height h st)"
          by (intro respond keys) blast+
        then show ?thesis by (simp add: runs_def answer_n_def FReaddir alive Entries st1_def)
      next
        case (ReadError code)
        have "runs (\<lambda>k. run_n k g (WRespond key (AEntries None))) (async_readdir_error g ab code st0) (less_left fs g height h st)"
          by (intro respond keys disjI1 silent_error) (simp add: answer_fits_def key)
        then show ?thesis by (simp add: runs_def answer_n_def FReaddir alive ReadError)
      qed
    qed
  next
    case (FLstat ab key)
    have "answer_fits fs g (links st0) key (AKind (fs_lstat fs ab))" using taken(3) by (auto simp: FLstat req_fits_def answer_fits_def)
    then have "runs (\<lambda>k. run_n k g (WRespond key (AKind (fs_lstat fs ab)))) st0 (less_left fs g height h st)"
      by (intro respond) (simp_all add: FLstat req_keys_def)
    then show ?thesis by (simp add: runs_def answer_n_def FLstat)
  next
    case (FStat ab f i)
    show ?thesis
      by (rule runs_return [where Q = "less_left fs g height h st", OF less [OF silent_stat2 [OF mark]]])
        (simp add: answer_n_def FStat)
  qed
  then show ?thesis by (simp add: st0_def)
qed

lemma turn_ends:
  assumes depth: "bounded_depth fs g height h" and mark: "\<not> gc_mark g" and sound: "sound fs g {#} st"
    and st: "ga_ticks st = (key, a) # ts"
  shows "runs (\<lambda>k. run_n k g (WRespond key a)) (st\<lparr>ga_ticks := ts\<rparr>) (less_left fs g height h st)"
proof (rule respond_less [OF depth mark])
  define st0 where "st0 = st\<lparr>ga_ticks := ts\<rparr>"
  have "answers_due st = {#key#} + answers_due st0" by (simp add: answers_due_def st0_def st ac_simps)
  then show "sound fs g {#key#} (st\<lparr>ga_ticks := ts\<rparr>)" using sound st unfolding sound_def by (simp add: st0_def)
  show "answer_fits fs g (links (st\<lparr>ga_ticks := ts\<rparr>)) key a" using sound st by (simp add: sound_def)
qed (simp add: state_charge_def st)

lemma answer_deeper:
  assumes "answer_n d fs g r st = Returns st'" "d \<le> k"
  shows "answer_n k fs g r st = Returns st'"
proof -
  have deeper: "run_n k g v s = Returns s'" if "run_n d g v s = Returns s'" for v s s'
    using run_deeper [OF that, of "k - d"] assms(2) by simp
  show ?thesis
    using assms(1) by (auto simp: answer_n_def split: fs_request.splits read_result.splits if_splits intro: deeper)
qed

lemma answer_result:
  assumes "runs (\<lambda>k. answer_n k fs g r) st Q" "answer_n d fs g r st = Returns st'"
  shows "Q st'"
proof -
  obtain x k where x: "Q x" "\<forall>j \<ge> k. answer_n j fs g r st = Returns x" using assms(1) unfolding runs_def by blast
  have "answer_n (max d k) fs g r st = Returns st'" by (rule answer_deeper [OF assms(2)]) simp
  then show ?thesis using x by simp
qed

text \<open>The states of a search are sound.\<close>

lemma async_run_sound:
  assumes "async_run fs g st" "bounded_depth fs g height h" "\<not> gc_mark g"
    "\<forall>ps \<in> set (mm_set (gc_matcher g)). list_all (readable_part g) ps"
  shows "sound fs g {#} st"
  using assms(1)
proof induction
  case (starts d st)
  then show ?case by (rule start_sound [OF assms(2-4)])
next
  case (answers st ps r qs d st')
  show ?case
    using answer_result [OF answer_ends [OF assms(2,3) answers.IH answers.hyps(2)] answers.hyps(3)] by (simp add: less_left_def)
next
  case (turns st key a ts d st')
  show ?case
    using runs_result [OF turn_ends [OF assms(2,3) turns.IH turns.hyps(2)] turns.hyps(3)] by (simp add: less_left_def)
qed

text \<open>One answer of the file system, or one turn.\<close>

inductive async_step :: "fs_calls \<Rightarrow> gconf \<Rightarrow> gasync \<Rightarrow> gasync \<Rightarrow> bool" for fs g where
  answered: "ga_pending st = ps @ r # qs \<Longrightarrow> answer_n d fs g r (st\<lparr>ga_pending := ps @ qs\<rparr>) = Returns st' \<Longrightarrow>
    async_step fs g st st'"
| turned: "ga_ticks st = (key, a) # ts \<Longrightarrow> run_n d g (WRespond key a) (st\<lparr>ga_ticks := ts\<rparr>) = Returns st' \<Longrightarrow>
    async_step fs g st st'"

lemma step_less:
  assumes "async_step fs g st st'" "bounded_depth fs g height h" "\<not> gc_mark g" "sound fs g {#} st"
  shows "less_left fs g height h st st'"
  using assms(1)
proof cases
  case (answered ps r qs d)
  then show ?thesis using answer_result [OF answer_ends [OF assms(2-4) answered(1)]] by blast
next
  case (turned key a ts d)
  then show ?thesis using runs_result [OF turn_ends [OF assms(2-4) turned(1)]] by blast
qed

lemma async_run_steps: "async_run fs g st \<Longrightarrow> async_step fs g st st' \<Longrightarrow> async_run fs g st'"
  by (erule async_step.cases) (auto intro: async_run.intros)

lemma no_endless_run:
  assumes "bounded_depth fs g height h" "\<not> gc_mark g"
    "\<forall>ps \<in> set (mm_set (gc_matcher g)). list_all (readable_part g) ps"
  shows "\<not> (\<exists>f. async_run fs g (f 0) \<and> (\<forall>n. async_step fs g (f n) (f (Suc n))))"
proof
  assume "\<exists>f. async_run fs g (f 0) \<and> (\<forall>n. async_step fs g (f n) (f (Suc n)))"
  then obtain f where f: "async_run fs g (f 0)" "\<And>n. async_step fs g (f n) (f (Suc n))" by blast
  have run: "async_run fs g (f n)" for n by (induction n) (use f async_run_steps in blast)+
  have "state_charge fs g height h (f (Suc n)) < state_charge fs g height h (f n)" for n
    using step_less [OF f(2) assms(1,2) async_run_sound [OF run assms]] by (simp add: less_left_def)
  then have "\<exists>c :: nat \<Rightarrow> nat multiset. \<forall>n. (c (Suc n), c n) \<in> {(M, N). M < N}"
    by (intro exI [of _ "\<lambda>n. state_charge fs g height h (f n)"]) simp
  then show False using wf_less_multiset [where 'a = nat] unfolding wf_iff_no_infinite_down_chain by blast
qed



end
