(* ===== verification/Spec2Isabelle.thy ===== *)
theory Spec2Isabelle
  imports Coordinator WcCore TinySeg UsText UsFunctions JsPath JsTick JsEvents JsGlobWild JsInflight JsGlobOrder JsGlobEnds
begin

text \<open>
  Hiveframe: a verification library for its transaction engine and for the search code of its
  documentation site.

  The program. Hiveframe keeps data frames that people and agents edit cell by cell. An edit is a
  transaction: \<open>core/coordinator.py\<close> takes cell locks (\<open>core/lock_manager.py\<close>), applies the
  operations to the write node (\<open>core/write_node.py\<close>), logs the outcome (\<open>core/wal.py\<close>), sends a
  delta to the read node (\<open>core/read_node.py\<close>), which serves queries from a cache, and moves the
  transaction through the states of \<open>core/transaction.py\<close>. Followers replay the shared log. The
  JavaScript of the repository is the search of its documentation site
  (\<open>docs/site/assets/javascripts/lunr\<close>): \<open>tinyseg.js\<close> cuts Japanese text into words, and
  \<open>wordcut.js\<close> is a bundle of a dictionary-based word segmenter for Thai with the libraries it was
  built with, numbered as modules: the segmenter (1 to 8), matching and expansion of braces
  (10, 11, 13), events (14), glob searches (15 to 17), requests in flight (18, 21), glob patterns
  (20), paths (22, 23), the \<open>nextTick\<close> queue (24) and Underscore (25).

  The engine, bottom up. \<open>Prelude\<close> has Python values, text and the collections of hints;
  \<open>Cells\<close> cell ids and the table the nodes keep; \<open>Transactions\<close> operations and the state machine;
  \<open>LockManager\<close> the lock table and the locale of what a client may assume of one; \<open>WriteNode\<close> the
  application of a transaction with its rollback, cell and structural operations alike, and the
  cell-level specification it refines; \<open>Wal\<close> the log with its file, its binary search and the
  locale of a log; \<open>ReadNode\<close> buffering and flushing of deltas; \<open>Coordinator\<close> composes them:
  submission, replay on a follower, checkpoints. A method's state is a record, its exceptions are
  values of a sum, its clock readings are arguments. The lemmas show that submission is atomic and
  ends in an end state with one log entry; that replay brings a follower to its leader; that the
  cache converges; that recovery loses nothing; that a refused transaction is undone.

  The segmenters. \<open>WcDict\<close>, \<open>WcRules\<close>, \<open>WcCore\<close> follow modules 1 to 8: the dictionary with its
  binary search, the rules with their acceptors, the path builder, selector and cutter. \<open>TsTables\<close>
  and \<open>TinySeg\<close> have the weights and the decision of the Japanese segmenter. The lemmas show that
  both cut every text into units that make it up, that the dictionary recognises exactly its
  words, that a cheapest path is chosen, and that cuts depend on nearby text only.

  The libraries. \<open>JsValue\<close> has the values of the language and its own operations; strings are lists
  of UTF-16 code units. \<open>UsIndex\<close>, \<open>UsCollections\<close>, \<open>UsArrays\<close>, \<open>UsFunctions\<close>, \<open>UsObjects\<close> and
  \<open>UsText\<close> are the parts of Underscore, among them stable sorting, the two algorithms of \<open>uniq\<close>,
  throttling and debouncing as runs over time, deep equality on graphs without cycles, escaping.
  \<open>JsPath\<close> is the path module; \<open>JsTick\<close> the task queue as a step relation; \<open>JsEvents\<close> the emitter
  with listeners that remove themselves. \<open>JsBrace\<close> and \<open>JsBraceDepth\<close> are brace expansion:
  \<open>balanced\<close>, \<open>parseCommaParts\<close>, \<open>expand\<close> and its sequences. \<open>JsRegexp\<close> reads and matches the
  regular expressions of the host, as far as glob patterns need them; \<open>JsGlobParse\<close> is \<open>parse\<close> of
  module 20, which turns a segment of a pattern into the text of an expression; \<open>JsGlobMatch\<close> the
  class \<open>Minimatch\<close> with the walk \<open>matchOne\<close>; \<open>JsGlobWild\<close> composes all of these: a pattern of
  wildcard segments and \<open>**\<close> matches exactly the paths it means. \<open>JsGlobSync\<close> is the synchronous
  search over a file system given by its three calls, with the caches it keeps; \<open>JsGlobWalk\<close> shows
  that the caches never change an outcome, \<open>JsGlobFind\<close> that a search ends and finds exactly the
  existing paths its pattern describes. \<open>JsInflight\<close> has the requests that wait for one another.
  \<open>JsGlobAsync\<close> is the asynchronous search, with callbacks as values and the answers of the file
  system in any order; \<open>JsGlobOrder\<close> shows that its event \<open>end\<close> comes once, with what the synchronous
  search finds; \<open>JsGlobEnds\<close> that every answer is dealt with and that finitely many follow one another.

  Loops and fuel. Loops that end are recursive functions with a measure or \<open>while_option\<close> with a
  proof that it returns. The loop of a sequence \<open>{1..9..0}\<close> may not end: it is a partial function
  into an option, and is shown to be \<open>None\<close> exactly for increment zero. The nesting of \<open>expand\<close> and
  of \<open>parse\<close>, the emissions of an emitter and the nesting of \<open>_process\<close> are bounded by fuel, each with
  a theorem that enough fuel is given: the weight of the text (its characters and closing braces),
  the length of the pattern, the number of listeners, the parts of the pattern and the depth of
  the disk; the asynchronous search takes whatever fuel an answer needs, and some is always enough.
  Numbers of JavaScript are exact integers or rationals; the
  code's are doubles, exact below \<open>2 ^ 53\<close>.

  Not modelled. The Redis, MySQL and MinIO logs, replication, transport, registry, agents and the
  data-frame front end of the Python package are glue around services; their calls appear only as
  the arguments they pass. Of the bundle: \<open>assert\<close>, \<open>util\<close> (printing of values), \<open>inherits\<close> and the
  buffer test; of \<open>glob\<close> pausing, \<open>realpath\<close>, Windows and what only prints;
  of Underscore what binds \<open>this\<close>, what copies prototypes, chaining, \<open>random\<close> and \<open>now\<close>, and running
  a compiled template; of module 20 \<open>makeRe\<close> and the option \<open>nocase\<close>.
\<close>

end
